(* ===== verification/Prelude.thy ===== *)
theory Prelude
  imports Main "HOL-Library.Word"
begin

text \<open>
  Shared vocabulary of the lawd development: the machine types, the error codes of
  \<^verbatim>\<open>include/lawd/error.h\<close>, the outcome of a function that may stop the process, the
  little-endian byte images of integers, and the decimal and hexadecimal printing of the
  \<^verbatim>\<open>printf\<close> directives the sources use. Generic lemmas that several components share
  live here; the collection \<open>lawd_simps\<close> gathers the unfolding rules the component proofs use.
\<close>

unbundle bit_operations_syntax

named_theorems lawd_simps "unfolding rules of the operations of the lawd model"

section \<open>Machine types\<close>

type_synonym u8 = "8 word"
type_synonym u32 = "32 word"
type_synonym u64 = "64 word"

text \<open>An address; \<open>NULL\<close> is the zero word.\<close>

type_synonym ptr = "64 word"

abbreviation NULL :: ptr where
  "NULL \<equiv> 0"

section \<open>Error codes\<close>

text \<open>
  The enumeration \<^verbatim>\<open>enum law_err_type\<close>. Eight of its constants are aliases of constants of
  the libraries selc and pgenc whose numbers are not in the repository; a constructor stands for
  each. The sources use them as distinct case labels. \<open>ERR_OTHER\<close> is any other integer of
  type \<^verbatim>\<open>sel_err_t\<close>, for instance the value a user's callback returns.
\<close>

datatype sel_err_t =
    LAW_ERR_OK | LAW_ERR_SYS
  | LAW_ERR_OOB | LAW_ERR_CMP | LAW_ERR_ENC | LAW_ERR_SYN | LAW_ERR_FLO | LAW_ERR_OOM
  | LAW_ERR_MODE | LAW_ERR_GAI | LAW_ERR_WANTW | LAW_ERR_WANTR | LAW_ERR_TIME
  | LAW_ERR_LIMIT | LAW_ERR_EOF | LAW_ERR_SSL | LAW_ERR_VERS | LAW_ERR_NOID
  | LAW_ERR_SSL_ACCEPT_FAILED | LAW_ERR_SSL_SHUTDOWN_FAILED
  | LAW_ERR_REQLINE_TOO_LONG | LAW_ERR_HEADERS_TOO_LONG
  | LAW_ERR_REQLINE_MALFORMED | LAW_ERR_HEADERS_MALFORMED
  | LAW_ERR_REQLINE_TIMEOUT | LAW_ERR_HEADERS_TIMEOUT | LAW_ERR_SSL_SHUTDOWN_TIMEOUT
  | ERR_OTHER int

section \<open>Functions that may stop the process\<close>

text \<open>
  \<open>SEL_HALT\<close>, a failed \<open>SEL_TEST\<close> and a failed \<open>SEL_ASSERT\<close> stop the
  process. The macros are selc's; \<open>SEL_ASSERT\<close> is modelled as compiled in, so a run of
  the model without the fault \<open>SEL_ASSERT\<close> is also a run of a build that compiles it
  out. The other faults are behaviour that C leaves to the machine: a lock that is never
  released, a call through a null pointer, a write outside an array, a loop that does not end
  within the fuel given.
\<close>

datatype fault =
    SEL_ASSERT | SEL_TEST | SEL_HALT
  | DEADLOCK | NULL_CALL | NULL_DEREF | OVERRUN | NO_RETURN

type_synonym 'a run = "fault + 'a"

definition bindE :: "'a run \<Rightarrow> ('a \<Rightarrow> 'b run) \<Rightarrow> 'b run" where
  "bindE m f = (case m of Inl e \<Rightarrow> Inl e | Inr x \<Rightarrow> f x)"

definition require :: "fault \<Rightarrow> bool \<Rightarrow> 'a run \<Rightarrow> 'a run" where
  "require e c m = (if c then m else Inl e)"

lemma bindE_simps [simp]:
  "bindE (Inl e) f = Inl e"
  "bindE (Inr x) f = f x"
  by (simp_all add: bindE_def)

lemma bindE_Inr_iff: "bindE m f = Inr y \<longleftrightarrow> (\<exists>x. m = Inr x \<and> f x = Inr y)"
  by (cases m) auto

lemma bindE_Inl_iff: "bindE m f = Inl e \<longleftrightarrow> m = Inl e \<or> (\<exists>x. m = Inr x \<and> f x = Inl e)"
  by (cases m) auto

lemma require_simps [simp]:
  "c \<Longrightarrow> require e c m = m"
  "\<not> c \<Longrightarrow> require e c m = Inl e"
  by (simp_all add: require_def)

lemma require_Inr_iff: "require e c m = Inr y \<longleftrightarrow> c \<and> m = Inr y"
  by (simp add: require_def)

lemmas run_iffs = bindE_Inr_iff bindE_Inl_iff require_Inr_iff

section \<open>Loops\<close>

text \<open>
  A loop whose body says whether to go round again. \<open>n\<close> bounds the rounds; the rule
  \<open>loop_rule\<close> shows that a loop whose invariant carries a variant \<open>k\<close> below
  \<open>n\<close>, decreased by every round, ends without a fault in a state that satisfies the exit
  condition.
\<close>

fun loop :: "nat \<Rightarrow> ('s \<Rightarrow> (bool \<times> 's) run) \<Rightarrow> 's \<Rightarrow> 's run" where
  "loop 0 f s = Inl NO_RETURN"
| "loop (Suc n) f s = bindE (f s) (\<lambda>(go, t). if go then loop n f t else Inr t)"

lemma loop_rule:
  assumes step: "\<And>k s. I k s \<Longrightarrow> \<exists>go t. f s = Inr (go, t) \<and> (if go then \<exists>j < k. I j t else Q t)"
    and "I k s" and "(k :: nat) < n"
  obtains t where "loop n f s = Inr t" and "Q t"
proof -
  have "I k s \<Longrightarrow> k < n \<Longrightarrow> \<exists>t. loop n f s = Inr t \<and> Q t"
  proof (induction n arbitrary: k s)
    case 0
    then show ?case by simp
  next
    case (Suc n)
    from step [OF Suc.prems(1)] obtain go t where
      t: "f s = Inr (go, t)" "if go then \<exists>j < k. I j t else Q t" by blast
    show ?case
    proof (cases go)
      case True
      with t(2) obtain j where "I j t" "j < k" by auto
      with Suc.IH [of j t] Suc.prems(2) t True show ?thesis by simp
    next
      case False
      with t show ?thesis by simp
    qed
  qed
  with assms(2,3) that show thesis by blast
qed

lemma loop_numeral:
  "loop (numeral k) f s = bindE (f s) (\<lambda>(go, t). if go then loop (pred_numeral k) f t else Inr t)"
  by (simp add: numeral_eq_Suc)

declare loop.simps [simp del]

section \<open>Words and natural numbers\<close>

lemma unat_less_64: "unat (w :: u64) < 18446744073709551616"
  using unsigned_less [of w, where 'a = nat] by simp

lemma unat_less_32: "unat (w :: u32) < 4294967296"
  using unsigned_less [of w, where 'a = nat] by simp

lemma unat_less_8: "unat (w :: u8) < 256"
  using unsigned_less [of w, where 'a = nat] by simp

lemma unat_word_of_nat_64: "n < 2 ^ 64 \<Longrightarrow> unat (word_of_nat n :: u64) = n"
  by (simp add: unat_of_nat)

lemma unat_word_of_nat_8: "n < 256 \<Longrightarrow> unat (word_of_nat n :: u8) = n"
  by (simp add: unat_of_nat)

lemma ucast_8_64_nat: "(ucast (b :: u8) :: u64) = word_of_nat (unat b)"
  by (rule word_unat_eq_iff [THEN iffD2]) (simp add: unat_of_nat unsigned_ucast_eq take_bit_eq_mod)

section \<open>Little-endian byte images\<close>

primrec le_bytes :: "nat \<Rightarrow> nat \<Rightarrow> u8 list" where
  "le_bytes 0 x = []"
| "le_bytes (Suc n) x = word_of_nat (x mod 256) # le_bytes n (x div 256)"

primrec le_value :: "u8 list \<Rightarrow> nat" where
  "le_value [] = 0"
| "le_value (b # bs) = unat b + 256 * le_value bs"

lemma length_le_bytes [simp]: "length (le_bytes n x) = n"
  by (induction n arbitrary: x) simp_all

lemma unat_byte_of_mod [simp]: "unat (word_of_nat (x mod 256) :: u8) = x mod 256"
  by (simp add: unat_of_nat)

lemma le_value_le_bytes: "le_value (le_bytes n x) = x mod 256 ^ n"
proof (induction n arbitrary: x)
  case 0
  then show ?case by simp
next
  case (Suc n)
  have "x mod 256 ^ Suc n = x mod 256 + 256 * (x div 256 mod 256 ^ n)"
    by (simp add: mod_mult2_eq)
  with Suc show ?case by simp
qed

lemma le_value_less: "le_value bs < 256 ^ length bs"
proof (induction bs)
  case Nil
  then show ?case by simp
next
  case (Cons b bs)
  have "unat b < 256" by (rule unat_less_8)
  with Cons show ?case by simp
qed

lemma le_bytes_le_value [simp]: "le_bytes (length bs) (le_value bs) = bs"
proof (induction bs)
  case Nil
  then show ?case by simp
next
  case (Cons b bs)
  have "unat b < 256" by (rule unat_less_8)
  then have "(unat b + 256 * le_value bs) mod 256 = unat b"
    and "(unat b + 256 * le_value bs) div 256 = le_value bs"
    by simp_all
  with Cons show ?case by simp
qed

lemma le_bytes_mod: "le_bytes n (x mod 256 ^ n) = le_bytes n x"
  using le_bytes_le_value [of "le_bytes n x"] by (simp only: length_le_bytes le_value_le_bytes)

lemma take_le_bytes: "take k (le_bytes (k + m) n) = le_bytes k n"
  by (induction k arbitrary: n) simp_all

lemma le_bytes_inj: "le_bytes n x = le_bytes n y \<Longrightarrow> x mod 256 ^ n = y mod 256 ^ n"
  by (metis le_value_le_bytes)

section \<open>Printing numbers\<close>

text \<open>The directives \<^verbatim>\<open>%i\<close>, \<^verbatim>\<open>%zu\<close> and \<^verbatim>\<open>%zx\<close>.\<close>

definition digit_char :: "nat \<Rightarrow> char" where
  "digit_char d = char_of (if d < 10 then 48 + d else 87 + d)"

function show_base :: "nat \<Rightarrow> nat \<Rightarrow> string" where
  "show_base b n =
     (if b < 2 \<or> n < b then [digit_char n] else show_base b (n div b) @ [digit_char (n mod b)])"
  by pat_completeness auto
termination
  by (relation "measure snd") auto

declare show_base.simps [simp del]

definition show_nat :: "nat \<Rightarrow> string" where
  "show_nat n = show_base 10 n"

definition show_hex :: "nat \<Rightarrow> string" where
  "show_hex n = show_base 16 n"

definition show_int :: "int \<Rightarrow> string" where
  "show_int i = (if i < 0 then ''-'' @ show_nat (nat (- i)) else show_nat (nat i))"

text \<open>The carriage return and line feed that end each line.\<close>

definition CRLF :: string where
  "CRLF = [CHR 0x0D, CHR 0x0A]"

section \<open>Lists\<close>

lemma take_append_length [simp]: "take (length xs) (xs @ ys) = xs"
  by simp

lemma drop_append_length [simp]: "drop (length xs) (xs @ ys) = ys"
  by simp

lemma distinct_map_filter_key:
  "distinct (map f xs) \<Longrightarrow> x \<in> set xs \<Longrightarrow> y \<in> set xs \<Longrightarrow> f x = f y \<Longrightarrow> x = y"
  by (auto simp: distinct_map inj_on_def)

lemma find_unique:
  assumes "distinct (map f xs)" and "x \<in> set xs"
  shows "find (\<lambda>y. f y = f x) xs = Some x"
  using assms by (induction xs) (auto simp: distinct_map inj_on_def)

lemma find_None_key: "find (\<lambda>y. f y = k) xs = None \<longleftrightarrow> k \<notin> f ` set xs"
  by (auto simp: find_None_iff)

end
