(* ===== verification/Slots.thy ===== *)
theory Slots
  imports Prelude
begin

text \<open>
  Event slots of \<^verbatim>\<open>source/lawd/server.c\<close>: \<open>law_slot_encode\<close> packs a task's
  56-bit identifier and eight bits of user data into the 64-bit word that the kernel hands back
  with an event, \<open>law_slot_decode\<close> unpacks it. The byte view of a
  \<^verbatim>\<open>uint64_t\<close> is the little-endian one of the only platform the repository supports.
\<close>

record law_slot =
  slot_id :: u64
  slot_data :: u8

definition LAW_ID_MODULO :: nat where
  "LAW_ID_MODULO = 0x100000000000000"

text \<open>The loop that stores the identifier's base-256 digits, low digit first.\<close>

primrec slot_id_bytes :: "nat \<Rightarrow> u64 \<Rightarrow> u8 list" where
  "slot_id_bytes 0 i = []"
| "slot_id_bytes (Suc n) i = ucast (i mod 0x100) # slot_id_bytes n (i div 0x100)"

definition law_slot_encode :: "law_slot \<Rightarrow> u64 run" where
  "law_slot_encode s =
     require SEL_ASSERT (unat (slot_id s) < LAW_ID_MODULO)
       (Inr (word_of_nat (le_value (slot_data s # slot_id_bytes 7 (slot_id s)))))"

text \<open>The loop that sums the digits; \<open>pw\<close> is the variable \<^verbatim>\<open>pow\<close>.\<close>

primrec slot_id_sum :: "u8 list \<Rightarrow> u64 \<Rightarrow> u64 \<Rightarrow> u64" where
  "slot_id_sum [] i pw = i"
| "slot_id_sum (b # bs) i pw = slot_id_sum bs (i + ucast b * pw) (pw * 0x100)"

definition law_slot_decode :: "u64 \<Rightarrow> law_slot" where
  "law_slot_decode e =
     (let bytes = le_bytes 8 (unat e)
      in \<lparr>slot_id = slot_id_sum (tl bytes) 0 1, slot_data = hd bytes\<rparr>)"

section \<open>The loops compute base-256 digits\<close>

lemma unat_div_256: "unat ((i :: u64) div 0x100) = unat i div 256"
  by (simp add: unat_div)

lemma unat_mod_256: "unat ((i :: u64) mod 0x100) = unat i mod 256"
  by (simp add: unat_mod)

lemma ucast_mod_256: "(ucast ((i :: u64) mod 0x100) :: u8) = word_of_nat (unat i mod 256)"
  by (rule word_unat_eq_iff [THEN iffD2])
     (simp add: unat_mod_256 unsigned_ucast_eq take_bit_eq_mod unat_of_nat)

lemma slot_id_bytes_eq: "slot_id_bytes n i = le_bytes n (unat i)"
  by (induction n arbitrary: i) (simp_all add: ucast_mod_256 unat_div_256)

lemma slot_id_sum_eq: "slot_id_sum bs i pw = i + pw * word_of_nat (le_value bs)"
proof (induction bs arbitrary: i pw)
  case Nil
  then show ?case by simp
next
  case (Cons b bs)
  have "(ucast b :: u64) = word_of_nat (unat b)"
    by (rule ucast_8_64_nat)
  with Cons show ?case by (simp add: algebra_simps)
qed

lemma law_slot_encode_eq:
  assumes "unat (slot_id s) < LAW_ID_MODULO"
  shows "law_slot_encode s =
           Inr (word_of_nat (unat (slot_data s) + 256 * unat (slot_id s)))"
proof -
  have "unat (slot_id s) mod 256 ^ 7 = unat (slot_id s)"
    using assms by (simp add: LAW_ID_MODULO_def)
  then have "le_value (slot_data s # slot_id_bytes 7 (slot_id s))
               = unat (slot_data s) + 256 * unat (slot_id s)"
    by (simp add: slot_id_bytes_eq le_value_le_bytes del: le_bytes.simps)
  with assms show ?thesis
    by (simp only: law_slot_encode_def require_simps)
qed

lemma le_bytes_Suc: "le_bytes (Suc n) x = word_of_nat (x mod 256) # le_bytes n (x div 256)"
  by simp

lemma law_slot_decode_eq:
  "law_slot_decode e =
     \<lparr>slot_id = word_of_nat (unat e div 256), slot_data = word_of_nat (unat e mod 256)\<rparr>"
proof -
  have "unat e < 256 ^ 8" using unat_less_64 [of e] by simp
  then have "unat e div 256 < 256 ^ 7" by simp
  then have "le_value (le_bytes 7 (unat e div 256)) = unat e div 256"
    by (simp add: le_value_le_bytes)
  moreover have "le_bytes 8 (unat e) = word_of_nat (unat e mod 256) # le_bytes 7 (unat e div 256)"
    using le_bytes_Suc [of 7 "unat e"] by simp
  ultimately show ?thesis
    by (simp add: law_slot_decode_def slot_id_sum_eq del: le_bytes.simps)
qed

lemma unat_decode_id: "unat (slot_id (law_slot_decode e)) = unat e div 256"
proof -
  have "unat e div 256 < 2 ^ 64" using unat_less_64 [of e] by simp
  then show ?thesis
    by (simp only: law_slot_decode_eq unat_word_of_nat_64 law_slot.simps)
qed

lemma decode_id_bound: "unat (slot_id (law_slot_decode e)) < LAW_ID_MODULO"
  using unat_less_64 [of e] by (simp add: unat_decode_id LAW_ID_MODULO_def)

lemma slot_code_value:
  assumes "unat (slot_id s) < LAW_ID_MODULO"
  shows "unat (word_of_nat (unat (slot_data s) + 256 * unat (slot_id s)) :: u64)
           = unat (slot_data s) + 256 * unat (slot_id s)"
proof -
  have "unat (slot_data s) < 256" by (rule unat_less_8)
  with assms have "unat (slot_data s) + 256 * unat (slot_id s) < 2 ^ 64"
    by (simp add: LAW_ID_MODULO_def)
  then show ?thesis by (rule unat_word_of_nat_64)
qed

lemma law_slot_decode_encode:
  assumes "unat (slot_id s) < LAW_ID_MODULO" and "law_slot_encode s = Inr e"
  shows "law_slot_decode e = s"
proof -
  have d: "unat (slot_data s) < 256" by (rule unat_less_8)
  have e: "e = word_of_nat (unat (slot_data s) + 256 * unat (slot_id s))"
    using assms by (simp add: law_slot_encode_eq)
  show ?thesis
    unfolding law_slot_decode_eq e slot_code_value [OF assms(1)] using d by (cases s) simp
qed

section \<open>The slot codec\<close>

text \<open>
  C15: encoding a slot and decoding the word gives the slot back, for every identifier the
  server can generate (below \<^verbatim>\<open>LAW_ID_MODULO\<close>) and every byte of user data; and every
  64-bit word is the code of the slot it decodes to, so no two slots share a code and no event
  word is undecodable.
\<close>

theorem slot_roundtrip:
  "(unat (slot_id s) < LAW_ID_MODULO \<longrightarrow> (\<exists>e. law_slot_encode s = Inr e \<and> law_slot_decode e = s)) \<and>
   law_slot_encode (law_slot_decode e) = Inr e"
proof
  show "unat (slot_id s) < LAW_ID_MODULO \<longrightarrow> (\<exists>e. law_slot_encode s = Inr e \<and> law_slot_decode e = s)"
  proof
    assume b: "unat (slot_id s) < LAW_ID_MODULO"
    then obtain e where "law_slot_encode s = Inr e" using law_slot_encode_eq by blast
    with law_slot_decode_encode [OF b]
    show "\<exists>e. law_slot_encode s = Inr e \<and> law_slot_decode e = s" by blast
  qed
next
  have "unat (slot_data (law_slot_decode e)) = unat e mod 256"
    by (simp add: law_slot_decode_eq)
  then show "law_slot_encode (law_slot_decode e) = Inr e"
    using law_slot_encode_eq [OF decode_id_bound, of e] by (simp add: unat_decode_id)
qed

theorem slot_roundtrip_witness:
  "law_slot_encode \<lparr>slot_id = 0xABCDEFABCDEFAB, slot_data = 5\<rparr> = Inr 0xABCDEFABCDEFAB05 \<and>
   law_slot_decode 0xABCDEFABCDEFAB05 = \<lparr>slot_id = 0xABCDEFABCDEFAB, slot_data = 5\<rparr>"
proof -
  have e: "law_slot_encode \<lparr>slot_id = 0xABCDEFABCDEFAB, slot_data = 5\<rparr> = Inr 0xABCDEFABCDEFAB05"
    by (simp add: law_slot_encode_eq LAW_ID_MODULO_def)
  with slot_roundtrip [of "\<lparr>slot_id = 0xABCDEFABCDEFAB, slot_data = 5\<rparr>" 0]
  show ?thesis by (simp add: LAW_ID_MODULO_def)
qed

text \<open>
  The worker skips an event whose word is zero, the mark of its own pipes. No slot of a task
  with a non-zero identifier has that code.
\<close>

lemma slot_code_zero_iff:
  assumes "unat (slot_id s) < LAW_ID_MODULO"
  shows "law_slot_encode s = Inr 0 \<longleftrightarrow> slot_id s = 0 \<and> slot_data s = 0"
proof
  assume "law_slot_encode s = Inr 0"
  then have "unat (slot_data s) + 256 * unat (slot_id s) = 0"
    using slot_code_value [OF assms] assms by (simp add: law_slot_encode_eq)
  then show "slot_id s = 0 \<and> slot_data s = 0" by (simp add: unat_eq_0)
next
  assume "slot_id s = 0 \<and> slot_data s = 0"
  then show "law_slot_encode s = Inr 0" using assms by (simp add: law_slot_encode_eq)
qed

end
