(* ===== verification/NodeList.thy ===== *)
theory NodeList
  imports Prelude
begin

text \<open>
  Intrusive linked lists. The sources link their nodes through callbacks
  (\<^verbatim>\<open>get_next\<close>, \<^verbatim>\<open>set_next\<close>) that they hand to the library pubmt, whose
  \<^verbatim>\<open>pmt_ll_node_push_front\<close> and \<^verbatim>\<open>pmt_ll_node_remove_first\<close> are not in the
  repository. They are the two fields of the record \<open>pmt_ll\<close>, a parameter of every definition
  that calls them; \<open>pmt_ll_spec\<close> states what the sources rely on. The predicate
  \<open>chain\<close> reads a linked list off a store.
\<close>

record 's ll_iface =
  ll_get_next :: "'s \<Rightarrow> ptr \<Rightarrow> ptr"
  ll_set_next :: "'s \<Rightarrow> ptr \<Rightarrow> ptr \<Rightarrow> 's"

record 's pmt_ll =
  ll_push_front :: "'s ll_iface \<Rightarrow> 's \<Rightarrow> ptr \<Rightarrow> ptr \<Rightarrow> 's \<times> ptr"
  ll_remove_first :: "'s ll_iface \<Rightarrow> 's \<Rightarrow> ptr \<Rightarrow> 's \<times> ptr \<times> ptr"

text \<open>
  Pushing links the node before the list and returns it as the new list. Removing unlinks the
  first node, returns the rest and the node (with its link cleared), or the null pointer for an
  empty list.
\<close>

definition pmt_ll_spec :: "'s pmt_ll \<Rightarrow> bool" where
  "pmt_ll_spec L \<longleftrightarrow>
     (\<forall>i s l n. ll_push_front L i s l n = (ll_set_next i s n l, n)) \<and>
     (\<forall>i s l. ll_remove_first L i s l =
        (if l = NULL then (s, NULL, NULL)
         else (ll_set_next i s l NULL, ll_get_next i s l, l)))"

text \<open>An instance, to show that the contract can be met.\<close>

definition ref_ll :: "'s pmt_ll" where
  "ref_ll = \<lparr>ll_push_front = (\<lambda>i s l n. (ll_set_next i s n l, n)),
             ll_remove_first = (\<lambda>i s l. if l = NULL then (s, NULL, NULL)
                else (ll_set_next i s l NULL, ll_get_next i s l, l))\<rparr>"

lemma ref_ll_spec: "pmt_ll_spec ref_ll"
  by (simp add: pmt_ll_spec_def ref_ll_def)

lemma pmt_ll_push: "pmt_ll_spec L \<Longrightarrow> ll_push_front L i s l n = (ll_set_next i s n l, n)"
  by (simp add: pmt_ll_spec_def)

lemma pmt_ll_remove:
  "pmt_ll_spec L \<Longrightarrow> ll_remove_first L i s l =
     (if l = NULL then (s, NULL, NULL) else (ll_set_next i s l NULL, ll_get_next i s l, l))"
  by (simp add: pmt_ll_spec_def)

section \<open>Lists in a store\<close>

primrec chain :: "(ptr \<Rightarrow> ptr) \<Rightarrow> ptr \<Rightarrow> ptr list \<Rightarrow> bool" where
  "chain nx p [] = (p = NULL)"
| "chain nx p (x # xs) = (p = x \<and> x \<noteq> NULL \<and> chain nx (nx x) xs)"

lemma chain_NULL: "chain nx NULL xs \<longleftrightarrow> xs = []"
  by (cases xs) auto

lemma chain_cong: "(\<And>x. x \<in> set xs \<Longrightarrow> f x = g x) \<Longrightarrow> chain f p xs = chain g p xs"
  by (induction xs arbitrary: p) auto

lemma chain_upd: "n \<notin> set xs \<Longrightarrow> chain (nx(n := v)) p xs = chain nx p xs"
  by (rule chain_cong) auto

lemma chain_unique: "chain nx p xs \<Longrightarrow> chain nx p ys \<Longrightarrow> xs = ys"
proof (induction xs arbitrary: p ys)
  case Nil
  then show ?case by (cases ys) auto
next
  case (Cons x xs)
  then show ?case by (cases ys) auto
qed

lemma chain_not_NULL: "chain nx p xs \<Longrightarrow> NULL \<notin> set xs"
  by (induction xs arbitrary: p) auto

lemma chain_append: "chain nx p (xs @ ys) \<Longrightarrow> \<exists>q. chain nx q ys"
  by (induction xs arbitrary: p) auto

text \<open>A list in a store visits no node twice: the second visit would start a cycle.\<close>

lemma chain_distinct: "chain nx p xs \<Longrightarrow> distinct xs"
proof (induction xs arbitrary: p)
  case Nil
  then show ?case by simp
next
  case (Cons x xs)
  have "x \<notin> set xs"
  proof
    assume "x \<in> set xs"
    then obtain ys zs where xs: "xs = ys @ x # zs" by (auto simp: in_set_conv_decomp)
    with Cons.prems have "chain nx (nx x) (ys @ x # zs)" by simp
    then obtain q where "chain nx q (x # zs)" using chain_append by blast
    then have "chain nx (nx x) zs" by simp
    moreover from Cons.prems xs have "chain nx (nx x) (ys @ x # zs)" by simp
    ultimately have "zs = ys @ x # zs" by (rule chain_unique)
    then have "length zs = length (ys @ x # zs)" by (rule arg_cong)
    then show False by simp
  qed
  with Cons show ?case by auto
qed

section \<open>The callbacks of a node type\<close>

text \<open>
  What a pair of callbacks must satisfy for the library to link its nodes: writing one node's link
  changes that link and no other.
\<close>

locale node_links =
  fixes get :: "'s \<Rightarrow> ptr \<Rightarrow> ptr"
    and set_link :: "'s \<Rightarrow> ptr \<Rightarrow> ptr \<Rightarrow> 's"
  assumes get_set: "get (set_link s p v) = (get s)(p := v)"
begin

lemma push_front_chain:
  assumes "pmt_ll_spec L" and "chain (get s) l xs" and "n \<noteq> NULL" and "n \<notin> set xs"
    and "ll_push_front L \<lparr>ll_get_next = get, ll_set_next = set_link\<rparr> s l n = (s', l')"
  shows "chain (get s') l' (n # xs)" and "\<And>q. q \<noteq> n \<Longrightarrow> get s' q = get s q"
  using assms by (auto simp: pmt_ll_push get_set chain_upd)

lemma remove_first_chain:
  assumes "pmt_ll_spec L" and "chain (get s) l (x # xs)"
    and "ll_remove_first L \<lparr>ll_get_next = get, ll_set_next = set_link\<rparr> s l = (s', l', r)"
  shows "r = x" and "chain (get s') l' xs" and "get s' x = NULL"
    and "\<And>q. q \<noteq> x \<Longrightarrow> get s' q = get s q"
proof -
  have "x \<notin> set xs" using chain_distinct [OF assms(2)] by simp
  then show "r = x" and "chain (get s') l' xs" and "get s' x = NULL"
    and "\<And>q. q \<noteq> x \<Longrightarrow> get s' q = get s q"
    using assms by (auto simp: pmt_ll_remove get_set chain_upd)
qed

text \<open>The same with what the operation leaves alone: every list that does not contain the node.\<close>

lemma remove_chain:
  assumes "pmt_ll_spec L" and "chain (get s) l (x # xs)"
  obtains s' l'
  where "ll_remove_first L \<lparr>ll_get_next = get, ll_set_next = set_link\<rparr> s l = (s', l', x)"
    and "x \<noteq> NULL" and "chain (get s') l' xs"
    and "\<And>q ys. x \<notin> set ys \<Longrightarrow> chain (get s') q ys = chain (get s) q ys"
proof -
  obtain s' l' r
    where r: "ll_remove_first L \<lparr>ll_get_next = get, ll_set_next = set_link\<rparr> s l = (s', l', r)"
    by (metis prod_cases3)
  note c = remove_first_chain [OF assms r]
  have "chain (get s') q ys = chain (get s) q ys" if "x \<notin> set ys" for q ys
    by (rule chain_cong) (use c(4) that in metis)
  with c r assms(2) that show thesis by simp
qed

lemma push_chain:
  assumes "pmt_ll_spec L" and "chain (get s) l xs" and "n \<noteq> NULL" and "n \<notin> set xs"
  obtains s' l'
  where "ll_push_front L \<lparr>ll_get_next = get, ll_set_next = set_link\<rparr> s l n = (s', l')"
    and "chain (get s') l' (n # xs)"
    and "\<And>q ys. n \<notin> set ys \<Longrightarrow> chain (get s') q ys = chain (get s) q ys"
proof -
  obtain s' l'
    where r: "ll_push_front L \<lparr>ll_get_next = get, ll_set_next = set_link\<rparr> s l n = (s', l')"
    by (metis surj_pair)
  note c = push_front_chain [OF assms r]
  have "chain (get s') q ys = chain (get s) q ys" if "n \<notin> set ys" for q ys
    by (rule chain_cong) (use c(2) that in metis)
  with c(1) r that show thesis by blast
qed

lemma remove_first_empty:
  assumes "pmt_ll_spec L"
  shows "ll_remove_first L \<lparr>ll_get_next = get, ll_set_next = set_link\<rparr> s NULL = (s, NULL, NULL)"
  using assms by (simp add: pmt_ll_remove)

end

end
