(* ===== verification/Task.thy ===== *)
theory Task
  imports NodeList
begin

text \<open>
  Tasks of \<^verbatim>\<open>server.c\<close> and the two linked lists they sit in: the pool of idle tasks that
  the server's threads share under a lock (\<open>law_task_pool_push\<close>,
  \<open>law_task_pool_pop\<close>, \<open>law_task_pool_size\<close>,
  \<open>law_task_pool_is_empty\<close>, \<open>law_task_pool_is_full\<close>), and a worker's ready set
  (\<open>law_ready_set_init\<close>, \<open>law_ready_set_push\<close>,
  \<open>law_ready_set_pop\<close>). Tasks live in a store from addresses to records, because both
  lists thread the same \<^verbatim>\<open>next\<close> field through it.
\<close>

section \<open>State\<close>

datatype law_server_mode =
    LAW_MODE_CREATED | LAW_MODE_RUNNING | LAW_MODE_STOPPING
  | LAW_MODE_STOPPED | LAW_MODE_SPAWNED | LAW_MODE_SUSPENDED

text \<open>The union \<^verbatim>\<open>law_data_t\<close> is kept as the 64-bit word it occupies.\<close>

record law_event =
  ev_events :: u32
  ev_data :: u64

text \<open>Writing the member \<^verbatim>\<open>i8\<close> of the union replaces its low byte.\<close>

definition set_data_i8 :: "u64 \<Rightarrow> u8 \<Rightarrow> u64" where
  "set_data_i8 w b = word_of_nat (unat b + 256 * (unat w div 256))"

text \<open>
  \<open>t_callee\<close> is what the coroutine environment holds: nothing before the first call,
  the suspended computation after a yield. \<open>t_events\<close> is the user's event array, if the
  task passed one.
\<close>

record ('cb, 'u) law_task =
  t_mode :: law_server_mode
  t_mark :: bool
  t_max_events :: int
  t_num_events :: int
  t_version :: u32
  t_id :: u64
  t_events :: "law_event list option"
  t_next :: ptr
  t_callee :: "'u option"
  t_callback :: "'cb option"
  t_data :: u64

type_synonym ('cb, 'u) heap = "ptr \<Rightarrow> ('cb, 'u) law_task"

record law_task_pool =
  p_lock :: bool
  p_list :: ptr
  p_capacity :: nat
  p_size :: nat

section \<open>Operations on one task\<close>

text \<open>\<open>rnd\<close> is the value of \<^verbatim>\<open>rand()\<close>.\<close>

definition law_task_setup ::
  "u32 \<Rightarrow> u64 \<Rightarrow> 'cb option \<Rightarrow> u64 \<Rightarrow> ('cb, 'u) law_task \<Rightarrow> ('cb, 'u) law_task" where
  "law_task_setup rnd i callback data t =
     t\<lparr>t_id := i, t_callback := callback, t_data := data, t_version := rnd,
       t_mode := LAW_MODE_SPAWNED\<rparr>"

definition law_task_push_event ::
  "law_event \<Rightarrow> ('cb, 'u) law_task \<Rightarrow> ('cb, 'u) law_task run" where
  "law_task_push_event ev t =
     (case t_events t of
        None \<Rightarrow> Inl SEL_ASSERT
      | Some es \<Rightarrow>
          require SEL_ASSERT (t_num_events t \<le> t_max_events t)
           (if t_num_events t < t_max_events t then
              require OVERRUN (0 \<le> t_num_events t \<and> nat (t_num_events t) < length es)
                (Inr (t\<lparr>t_events := Some (es[nat (t_num_events t) := ev]),
                        t_num_events := t_num_events t + 1\<rparr>))
            else Inr t))"

text \<open>
  A task that waits with an event array: the array holds \<open>t_max_events\<close> entries and
  the count is within it.
\<close>

definition task_waits :: "('cb, 'u) law_task \<Rightarrow> bool" where
  "task_waits t \<longleftrightarrow>
     (\<exists>es. t_events t = Some es \<and> 0 \<le> t_num_events t \<and> t_num_events t \<le> t_max_events t \<and>
           t_max_events t \<le> int (length es))"

definition task_events :: "('cb, 'u) law_task \<Rightarrow> law_event list" where
  "task_events t = (case t_events t of None \<Rightarrow> [] | Some es \<Rightarrow> take (nat (t_num_events t)) es)"

lemma law_task_push_event_ok:
  assumes "task_waits t"
  obtains t' where "law_task_push_event ev t = Inr t'" and "task_waits t'"
    and "task_events t' =
           (if t_num_events t < t_max_events t then task_events t @ [ev] else task_events t)"
    and "t_mode t' = t_mode t" and "t_mark t' = t_mark t" and "t_next t' = t_next t"
    and "t_id t' = t_id t" and "t_version t' = t_version t" and "t_callee t' = t_callee t"
    and "t_callback t' = t_callback t" and "t_data t' = t_data t"
proof -
  from assms obtain es where es: "t_events t = Some es" "0 \<le> t_num_events t"
      "t_num_events t \<le> t_max_events t" "t_max_events t \<le> int (length es)"
    by (auto simp: task_waits_def)
  show thesis
  proof (cases "t_num_events t < t_max_events t")
    case True
    have len: "nat (t_num_events t) < length es" using True es by linarith
    have suc: "nat (t_num_events t + 1) = Suc (nat (t_num_events t))" using es(2) by simp
    let ?t = "t\<lparr>t_events := Some (es[nat (t_num_events t) := ev]),
                t_num_events := t_num_events t + 1\<rparr>"
    have "law_task_push_event ev t = Inr ?t"
      using True es len by (simp add: law_task_push_event_def)
    moreover have "task_waits ?t" using True es by (simp add: task_waits_def)
    moreover have "task_events ?t = task_events t @ [ev]"
      using es len suc by (simp add: task_events_def take_Suc_conv_app_nth)
    ultimately show thesis using True that by simp
  next
    case False
    with es have "law_task_push_event ev t = Inr t" by (simp add: law_task_push_event_def)
    with False assms that show thesis by simp
  qed
qed

text \<open>The node callbacks the sources give to the list library.\<close>

definition law_task_get_next :: "('cb, 'u) heap \<Rightarrow> ptr \<Rightarrow> ptr" where
  "law_task_get_next h p = t_next (h p)"

definition law_task_set_next :: "('cb, 'u) heap \<Rightarrow> ptr \<Rightarrow> ptr \<Rightarrow> ('cb, 'u) heap" where
  "law_task_set_next h p v = h(p := (h p)\<lparr>t_next := v\<rparr>)"

definition law_task_lln_iface :: "('cb, 'u) heap ll_iface" where
  "law_task_lln_iface = \<lparr>ll_get_next = law_task_get_next, ll_set_next = law_task_set_next\<rparr>"

interpretation tn: node_links law_task_get_next law_task_set_next
  by unfold_locales (auto simp: law_task_get_next_def law_task_set_next_def)

section \<open>The task pool\<close>

text \<open>
  A lock that is held at the start of an operation was left held by an earlier one, since every
  operation here runs under the lock from its first statement on; the thread then waits for ever.
\<close>

definition law_task_pool_push ::
  "('cb, 'u) heap pmt_ll \<Rightarrow> law_task_pool \<Rightarrow> ptr \<Rightarrow> ('cb, 'u) heap \<Rightarrow>
   (law_task_pool \<times> ('cb, 'u) heap) run" where
  "law_task_pool_push L pool task h =
     require SEL_ASSERT (task \<noteq> NULL)
      (require DEADLOCK (\<not> p_lock pool)
        (case ll_push_front L law_task_lln_iface h (p_list pool) task of
           (h', l') \<Rightarrow> Inr (pool\<lparr>p_list := l', p_size := p_size pool + 1\<rparr>, h')))"

definition law_task_pool_pop ::
  "('cb, 'u) heap pmt_ll \<Rightarrow> law_task_pool \<Rightarrow> ('cb, 'u) heap \<Rightarrow>
   (ptr \<times> law_task_pool \<times> ('cb, 'u) heap) run" where
  "law_task_pool_pop L pool h =
     require DEADLOCK (\<not> p_lock pool)
      (if p_list pool = NULL then
         require SEL_ASSERT (p_size pool = 0) (Inr (NULL, pool\<lparr>p_lock := True\<rparr>, h))
       else
         (case ll_remove_first L law_task_lln_iface h (p_list pool) of
            (h', l', task) \<Rightarrow>
              require SEL_ASSERT (task \<noteq> NULL)
                (Inr (task, pool\<lparr>p_list := l', p_size := p_size pool - 1\<rparr>, h'))))"

definition law_task_pool_size :: "law_task_pool \<Rightarrow> nat run" where
  "law_task_pool_size pool = require DEADLOCK (\<not> p_lock pool) (Inr (p_size pool))"

definition law_task_pool_is_empty :: "law_task_pool \<Rightarrow> bool run" where
  "law_task_pool_is_empty pool = require DEADLOCK (\<not> p_lock pool) (Inr (p_list pool = NULL))"

definition law_task_pool_is_full :: "law_task_pool \<Rightarrow> bool run" where
  "law_task_pool_is_full pool =
     require DEADLOCK (\<not> p_lock pool) (Inr (p_size pool = p_capacity pool))"

text \<open>The pool's list is \<open>xs\<close>, its size counts it and the lock is free.\<close>

definition pool_holds :: "('cb, 'u) heap \<Rightarrow> law_task_pool \<Rightarrow> ptr list \<Rightarrow> bool" where
  "pool_holds h pool xs \<longleftrightarrow>
     \<not> p_lock pool \<and> chain (law_task_get_next h) (p_list pool) xs \<and> p_size pool = length xs"

text \<open>Only the links of tasks may differ between two stores.\<close>

definition same_but_next :: "('cb, 'u) heap \<Rightarrow> ('cb, 'u) heap \<Rightarrow> bool" where
  "same_but_next h h' \<longleftrightarrow> (\<forall>p. (h' p)\<lparr>t_next := NULL\<rparr> = (h p)\<lparr>t_next := NULL\<rparr>)"

lemma same_but_next_set [simp]: "same_but_next h (law_task_set_next h p v)"
  by (simp add: same_but_next_def law_task_set_next_def)

lemma law_task_pool_push_ok:
  assumes "pmt_ll_spec L" and "pool_holds h pool xs" and "task \<noteq> NULL" and "task \<notin> set xs"
  shows "law_task_pool_push L pool task h =
           Inr (pool\<lparr>p_list := task, p_size := p_size pool + 1\<rparr>,
                law_task_set_next h task (p_list pool))"
    and "pool_holds (law_task_set_next h task (p_list pool))
           (pool\<lparr>p_list := task, p_size := p_size pool + 1\<rparr>) (task # xs)"
  using assms
  by (auto simp: law_task_pool_push_def pool_holds_def pmt_ll_push law_task_lln_iface_def
        tn.get_set chain_upd)

lemma law_task_pool_pop_ok:
  assumes "pmt_ll_spec L" and "pool_holds h pool (x # xs)"
  shows "law_task_pool_pop L pool h =
           Inr (x, pool\<lparr>p_list := law_task_get_next h x, p_size := length xs\<rparr>,
                law_task_set_next h x NULL)"
    and "pool_holds (law_task_set_next h x NULL)
           (pool\<lparr>p_list := law_task_get_next h x, p_size := length xs\<rparr>) xs"
proof -
  have c: "chain (law_task_get_next h) (p_list pool) (x # xs)" and s: "p_size pool = Suc (length xs)"
    and l: "\<not> p_lock pool"
    using assms(2) by (auto simp: pool_holds_def)
  from chain_distinct [OF c] have "x \<notin> set xs" by simp
  with assms(1) c s l
  show "law_task_pool_pop L pool h =
           Inr (x, pool\<lparr>p_list := law_task_get_next h x, p_size := length xs\<rparr>,
                law_task_set_next h x NULL)"
    and "pool_holds (law_task_set_next h x NULL)
           (pool\<lparr>p_list := law_task_get_next h x, p_size := length xs\<rparr>) xs"
    by (auto simp: law_task_pool_pop_def pool_holds_def pmt_ll_remove law_task_lln_iface_def
          tn.get_set chain_upd)
qed

lemma law_task_pool_pop_empty:
  assumes "pool_holds h pool []"
  shows "law_task_pool_pop L pool h = Inr (NULL, pool\<lparr>p_lock := True\<rparr>, h)"
  using assms by (simp add: law_task_pool_pop_def pool_holds_def)

text \<open>The pool's operations as a stack of tasks, with the store as part of the state.\<close>

locale task_stack =
  fixes push :: "ptr \<Rightarrow> 's \<Rightarrow> 's run"
    and pop :: "'s \<Rightarrow> (ptr \<times> 's) run"
    and holds :: "'s \<Rightarrow> ptr list \<Rightarrow> bool"
  assumes push_holds: "holds s xs \<Longrightarrow> p \<noteq> NULL \<Longrightarrow> p \<notin> set xs \<Longrightarrow>
      \<exists>t. push p s = Inr t \<and> holds t (p # xs)"
    and pop_holds: "holds s (x # xs) \<Longrightarrow> \<exists>t. pop s = Inr (x, t) \<and> holds t xs"
begin

primrec push_list :: "ptr list \<Rightarrow> 's \<Rightarrow> 's run" where
  "push_list [] s = Inr s"
| "push_list (p # ps) s = bindE (push p s) (push_list ps)"

primrec pop_list :: "nat \<Rightarrow> 's \<Rightarrow> (ptr list \<times> 's) run" where
  "pop_list 0 s = Inr ([], s)"
| "pop_list (Suc n) s =
     bindE (pop s) (\<lambda>(p, t). bindE (pop_list n t) (\<lambda>(ps, u). Inr (p # ps, u)))"

lemma push_list_holds:
  "holds s xs \<Longrightarrow> distinct (ps @ xs) \<Longrightarrow> NULL \<notin> set ps \<Longrightarrow>
     \<exists>t. push_list ps s = Inr t \<and> holds t (rev ps @ xs)"
proof (induction ps arbitrary: s xs)
  case Nil
  then show ?case by simp
next
  case (Cons p ps)
  then obtain t where t: "push p s = Inr t" "holds t (p # xs)"
    using push_holds [of s xs p] by auto
  with Cons.prems Cons.IH [OF t(2)] show ?case by auto
qed

lemma pop_list_holds:
  "holds s (xs @ ys) \<Longrightarrow> \<exists>t. pop_list (length xs) s = Inr (xs, t) \<and> holds t ys"
proof (induction xs arbitrary: s)
  case Nil
  then show ?case by simp
next
  case (Cons x xs)
  then obtain t where "pop s = Inr (x, t)" "holds t (xs @ ys)"
    using pop_holds [of s x "xs @ ys"] by auto
  with Cons.IH [of t] show ?case by auto
qed

text \<open>What was pushed comes back, last first, and the rest is as before.\<close>

lemma push_pop_list:
  assumes "holds s xs" and "distinct (ps @ xs)" and "NULL \<notin> set ps"
  shows "\<exists>t u. push_list ps s = Inr t \<and> pop_list (length ps) t = Inr (rev ps, u) \<and> holds u xs"
proof -
  from push_list_holds [OF assms] obtain t where
    t: "push_list ps s = Inr t" "holds t (rev ps @ xs)" by blast
  from pop_list_holds [OF t(2)] t(1) show ?thesis by auto
qed

end

definition pool_push ::
  "('cb, 'u) heap pmt_ll \<Rightarrow> ptr \<Rightarrow> law_task_pool \<times> ('cb, 'u) heap \<Rightarrow>
   (law_task_pool \<times> ('cb, 'u) heap) run" where
  "pool_push L p s = law_task_pool_push L (fst s) p (snd s)"

definition pool_pop ::
  "('cb, 'u) heap pmt_ll \<Rightarrow> law_task_pool \<times> ('cb, 'u) heap \<Rightarrow>
   (ptr \<times> law_task_pool \<times> ('cb, 'u) heap) run" where
  "pool_pop L s = law_task_pool_pop L (fst s) (snd s)"

interpretation tp: task_stack "pool_push L" "pool_pop L"
  "\<lambda>s xs. pmt_ll_spec L \<and> pool_holds (snd s) (fst s) xs" for L
proof
  fix s :: "law_task_pool \<times> ('a, 'b) heap" and xs p x
  show "\<exists>t. pool_push L p s = Inr t \<and> pmt_ll_spec L \<and> pool_holds (snd t) (fst t) (p # xs)"
    if "pmt_ll_spec L \<and> pool_holds (snd s) (fst s) xs" "p \<noteq> NULL" "p \<notin> set xs"
    using that law_task_pool_push_ok [of L "snd s" "fst s" xs p] by (simp add: pool_push_def)
  show "\<exists>t. pool_pop L s = Inr (x, t) \<and> pmt_ll_spec L \<and> pool_holds (snd t) (fst t) xs"
    if "pmt_ll_spec L \<and> pool_holds (snd s) (fst s) (x # xs)"
    using that law_task_pool_pop_ok [of L "snd s" "fst s" x xs] by (simp add: pool_pop_def)
qed

section \<open>The ready set\<close>

text \<open>A worker's ready set is the head of its list; \<open>law_ready_set_init\<close> clears it.\<close>

definition law_ready_set_init :: ptr where
  "law_ready_set_init = NULL"

definition law_ready_set_push ::
  "('cb, 'u) heap pmt_ll \<Rightarrow> ptr \<Rightarrow> ptr \<Rightarrow> ('cb, 'u) heap \<Rightarrow> (ptr \<times> ('cb, 'u) heap) run" where
  "law_ready_set_push L rset task h =
     require SEL_ASSERT (task \<noteq> NULL)
      (if t_mark (h task) then Inr (rset, h)
       else
         (case ll_push_front L law_task_lln_iface (h(task := (h task)\<lparr>t_mark := True\<rparr>)) rset task of
            (h', l') \<Rightarrow> Inr (l', h')))"

definition law_ready_set_pop ::
  "('cb, 'u) heap pmt_ll \<Rightarrow> ptr \<Rightarrow> ('cb, 'u) heap \<Rightarrow> ptr \<times> ptr \<times> ('cb, 'u) heap" where
  "law_ready_set_pop L rset h =
     (case ll_remove_first L law_task_lln_iface h rset of
        (h', l', task) \<Rightarrow>
          if task = NULL then (NULL, l', h')
          else (task, l', h'(task := (h' task)\<lparr>t_mark := False\<rparr>)))"

text \<open>
  The ready set is the list \<open>xs\<close>, and among the tasks in \<open>D\<close> exactly its members
  carry the mark.
\<close>

definition ready_holds :: "ptr set \<Rightarrow> ('cb, 'u) heap \<Rightarrow> ptr \<Rightarrow> ptr list \<Rightarrow> bool" where
  "ready_holds D h rset xs \<longleftrightarrow>
     chain (law_task_get_next h) rset xs \<and> set xs \<subseteq> D \<and> NULL \<notin> D \<and>
     (\<forall>p \<in> D. t_mark (h p) \<longleftrightarrow> p \<in> set xs)"

lemma ready_holds_NULL: "ready_holds D h NULL xs \<Longrightarrow> xs = []"
  by (simp add: ready_holds_def chain_NULL)

definition ready_pushed :: "ptr \<Rightarrow> ptr \<Rightarrow> ('cb, 'u) heap \<Rightarrow> ('cb, 'u) heap" where
  "ready_pushed rset p h = h(p := (h p)\<lparr>t_mark := True, t_next := rset\<rparr>)"

definition ready_popped :: "ptr \<Rightarrow> ('cb, 'u) heap \<Rightarrow> ('cb, 'u) heap" where
  "ready_popped p h = h(p := (h p)\<lparr>t_mark := False, t_next := NULL\<rparr>)"

lemma law_ready_set_push_ok:
  assumes L: "pmt_ll_spec L" and r: "ready_holds D h rset xs" and p: "p \<in> D"
  shows "law_ready_set_push L rset p h =
           Inr (if p \<in> set xs then (rset, h) else (p, ready_pushed rset p h))"
    and "p \<notin> set xs \<Longrightarrow> ready_holds D (ready_pushed rset p h) p (p # xs)"
proof -
  have m: "t_mark (h p) \<longleftrightarrow> p \<in> set xs" and n: "p \<noteq> NULL"
    and c: "chain (law_task_get_next h) rset xs"
    using r p by (auto simp: ready_holds_def)
  show "law_ready_set_push L rset p h =
           Inr (if p \<in> set xs then (rset, h) else (p, ready_pushed rset p h))"
    using L m n
    by (auto simp: law_ready_set_push_def pmt_ll_push law_task_lln_iface_def law_task_set_next_def
          ready_pushed_def)
  assume "p \<notin> set xs"
  moreover from this
  have "chain (law_task_get_next (ready_pushed rset p h)) rset xs \<longleftrightarrow>
        chain (law_task_get_next h) rset xs"
    by (intro chain_cong) (auto simp: law_task_get_next_def ready_pushed_def)
  ultimately show "ready_holds D (ready_pushed rset p h) p (p # xs)"
    using r p n c
    by (auto simp: ready_holds_def ready_pushed_def law_task_get_next_def)
qed

lemma law_ready_set_pop_ok:
  assumes L: "pmt_ll_spec L" and r: "ready_holds D h rset (x # xs)"
  shows "law_ready_set_pop L rset h = (x, law_task_get_next h x, ready_popped x h)"
    and "ready_holds D (ready_popped x h) (law_task_get_next h x) xs"
proof -
  have c: "chain (law_task_get_next h) rset (x # xs)"
    using r by (simp add: ready_holds_def)
  from chain_distinct [OF c] have x: "x \<notin> set xs" by simp
  show "law_ready_set_pop L rset h = (x, law_task_get_next h x, ready_popped x h)"
    using L c
    by (auto simp: law_ready_set_pop_def pmt_ll_remove law_task_lln_iface_def
          law_task_set_next_def ready_popped_def)
  have "chain (law_task_get_next (ready_popped x h)) (law_task_get_next h x) xs \<longleftrightarrow>
        chain (law_task_get_next h) (law_task_get_next h x) xs"
    using x by (intro chain_cong) (auto simp: law_task_get_next_def ready_popped_def)
  then show "ready_holds D (ready_popped x h) (law_task_get_next h x) xs"
    using r c x by (auto simp: ready_holds_def ready_popped_def)
qed

lemma law_ready_set_pop_empty:
  assumes L: "pmt_ll_spec L" and r: "ready_holds D h rset []"
  shows "law_ready_set_pop L rset h = (NULL, NULL, h)"
  using assms by (simp add: law_ready_set_pop_def pmt_ll_remove ready_holds_def)

end
