(* ===== verification/Event.thy ===== *)
theory Event
  imports Task
begin

text \<open>
  The event object of \<^verbatim>\<open>source/lawd/event.c\<close>: a thin layer over Linux's epoll. The kernel's
  side is the interest list of the epoll instance, kept in the field \<open>evo_interest\<close>, and the
  arrays that \<^verbatim>\<open>epoll_wait\<close> fills, which are an input. The result array is read with
  \<open>law_evo_next\<close>, one event per call.
\<close>

section \<open>State\<close>

record law_evo =
  evo_fd :: int
  evo_nevents :: nat
  evo_offset :: nat
  evo_max_events :: nat
  evo_events :: "law_event list"
  evo_interest :: "nat \<rightharpoonup> law_event"

datatype law_ev_op = LAW_EV_ADD | LAW_EV_MOD | LAW_EV_DEL

definition LAW_EV_R :: u32 where "LAW_EV_R = 0x1"
definition LAW_EV_W :: u32 where "LAW_EV_W = 0x4"
definition LAW_EV_ERR :: u32 where "LAW_EV_ERR = 0x8"
definition LAW_EV_HUP :: u32 where "LAW_EV_HUP = 0x10"
definition LAW_EV_WAK :: u32 where "LAW_EV_WAK = 0x40000"
definition LAW_EV_TIM :: u32 where "LAW_EV_TIM = 0x80000"

text \<open>
  \<^verbatim>\<open>epoll_ctl\<close>: adding a descriptor that is registered fails, as does changing or deleting
  one that is not; \<open>ok\<close> is false when the kernel fails the call for a reason of its own.
\<close>

definition epoll_ctl ::
  "bool \<Rightarrow> law_ev_op \<Rightarrow> nat \<Rightarrow> law_event \<Rightarrow> (nat \<rightharpoonup> law_event) \<Rightarrow> (nat \<rightharpoonup> law_event) option" where
  "epoll_ctl ok op d ev m =
     (if \<not> ok then None
      else case op of
        LAW_EV_ADD \<Rightarrow> if m d = None then Some (m(d \<mapsto> ev)) else None
      | LAW_EV_MOD \<Rightarrow> if m d = None then None else Some (m(d \<mapsto> ev))
      | LAW_EV_DEL \<Rightarrow> if m d = None then None else Some (m(d := None)))"

section \<open>Operations\<close>

text \<open>The two flags say whether the two allocations succeed.\<close>

definition law_evo_create :: "bool \<Rightarrow> bool \<Rightarrow> int \<Rightarrow> law_evo option run" where
  "law_evo_create a b max_events =
     require SEL_ASSERT (max_events > 0)
      (Inr (if a \<and> b then
              Some \<lparr>evo_fd = - 1, evo_nevents = 0, evo_offset = 0, evo_max_events = nat max_events,
                    evo_events = replicate (nat max_events) \<lparr>ev_events = 0, ev_data = 0\<rparr>,
                    evo_interest = (\<lambda>_. None)\<rparr>
            else None))"

text \<open>\<open>fd\<close> is the result of \<^verbatim>\<open>epoll_create\<close>; a new instance watches nothing.\<close>

definition law_evo_open :: "int \<Rightarrow> law_evo \<Rightarrow> int \<times> law_evo" where
  "law_evo_open fd e =
     (if fd = - 1 then - 1 else 0, e\<lparr>evo_fd := fd, evo_interest := (\<lambda>_. None)\<rparr>)"

definition law_evo_ctl ::
  "bool \<Rightarrow> nat \<Rightarrow> law_ev_op \<Rightarrow> u32 \<Rightarrow> law_event \<Rightarrow> law_evo \<Rightarrow> int \<times> law_evo" where
  "law_evo_ctl ok d op flags event e =
     (case epoll_ctl ok op d
             \<lparr>ev_events = flags OR ev_events event, ev_data = ev_data event\<rparr> (evo_interest e) of
        None \<Rightarrow> (- 1, e)
      | Some m \<Rightarrow> (0, e\<lparr>evo_interest := m\<rparr>))"

text \<open>The kernel reports an error (\<open>None\<close>) or fills the front of the array.\<close>

definition law_evo_wait :: "law_event list option \<Rightarrow> law_evo \<Rightarrow> int \<times> law_evo" where
  "law_evo_wait r e =
     (let e = e\<lparr>evo_nevents := 0, evo_offset := 0\<rparr> in
      case r of
        None \<Rightarrow> (- 1, e)
      | Some evs \<Rightarrow>
          (0, e\<lparr>evo_events := evs @ drop (length evs) (evo_events e), evo_nevents := length evs\<rparr>))"

definition law_evo_next :: "law_evo \<Rightarrow> (law_event option \<times> law_evo) run" where
  "law_evo_next e =
     require SEL_ASSERT (evo_offset e \<le> evo_nevents e)
      (if evo_offset e = evo_nevents e then Inr (None, e)
       else require OVERRUN (evo_offset e < length (evo_events e))
              (Inr (Some (evo_events e ! evo_offset e), e\<lparr>evo_offset := evo_offset e + 1\<rparr>)))"

section \<open>Reading the result array\<close>

text \<open>The events still to be read.\<close>

definition evo_rest :: "law_evo \<Rightarrow> law_event list" where
  "evo_rest e = drop (evo_offset e) (take (evo_nevents e) (evo_events e))"

definition evo_inv :: "law_evo \<Rightarrow> bool" where
  "evo_inv e \<longleftrightarrow> evo_offset e \<le> evo_nevents e \<and> evo_nevents e \<le> length (evo_events e) \<and>
     length (evo_events e) = evo_max_events e"

lemma law_evo_create_inv: "law_evo_create a b n = Inr (Some e) \<Longrightarrow> evo_inv e \<and> evo_rest e = []"
  by (auto simp: law_evo_create_def evo_inv_def evo_rest_def require_def split: if_splits)

lemma law_evo_ctl_inv:
  "law_evo_ctl ok d op flags ev e = (r, e') \<Longrightarrow>
     evo_inv e' = evo_inv e \<and> evo_rest e' = evo_rest e \<and>
     evo_max_events e' = evo_max_events e \<and> (r = 0 \<or> r = - 1)"
  by (auto simp: law_evo_ctl_def evo_inv_def evo_rest_def split: option.splits)

lemma law_evo_wait_ok:
  assumes "evo_inv e" and "length evs \<le> evo_max_events e" and "law_evo_wait (Some evs) e = (r, e')"
  shows "r = 0" and "evo_inv e'" and "evo_rest e' = evs" and "evo_interest e' = evo_interest e"
    and "evo_max_events e' = evo_max_events e"
  using assms by (auto simp: law_evo_wait_def Let_def evo_inv_def evo_rest_def)

lemma law_evo_next_empty:
  assumes "evo_inv e" and "evo_rest e = []"
  shows "law_evo_next e = Inr (None, e)"
  using assms by (simp add: law_evo_next_def evo_inv_def evo_rest_def)

lemma law_evo_next_event:
  assumes "evo_inv e" and "evo_rest e = x # xs"
  obtains e' where "law_evo_next e = Inr (Some x, e')" and "evo_inv e'" and "evo_rest e' = xs"
    and "evo_interest e' = evo_interest e" and "evo_max_events e' = evo_max_events e"
proof -
  let ?e = "e\<lparr>evo_offset := evo_offset e + 1\<rparr>"
  have lt: "evo_offset e < evo_nevents e"
    using assms(2) by (auto simp: evo_rest_def intro: ccontr)
  have len: "evo_nevents e \<le> length (evo_events e)" using assms(1) by (simp add: evo_inv_def)
  have "evo_offset e < length (take (evo_nevents e) (evo_events e))" using lt len by simp
  from Cons_nth_drop_Suc [OF this, symmetric] assms(2)
  have x: "x = evo_events e ! evo_offset e" and xs: "evo_rest ?e = xs"
    using lt by (simp_all add: evo_rest_def)
  have "law_evo_next e = Inr (Some x, ?e)"
    using lt len x by (simp add: law_evo_next_def)
  moreover have "evo_inv ?e" using assms(1) lt by (simp add: evo_inv_def)
  ultimately show thesis using that xs by simp
qed

text \<open>All the events left, by repeated calls.\<close>

fun evo_all :: "nat \<Rightarrow> law_evo \<Rightarrow> (law_event list \<times> law_evo) run" where
  "evo_all 0 e = Inl NO_RETURN"
| "evo_all (Suc n) e =
     bindE (law_evo_next e) (\<lambda>(r, e').
       case r of None \<Rightarrow> Inr ([], e')
       | Some x \<Rightarrow> bindE (evo_all n e') (\<lambda>(xs, e''). Inr (x # xs, e'')))"

lemma evo_all_rest:
  "evo_inv e \<Longrightarrow> length (evo_rest e) < n \<Longrightarrow>
     \<exists>e'. evo_all n e = Inr (evo_rest e, e') \<and> evo_inv e' \<and> evo_rest e' = []"
proof (induction n arbitrary: e)
  case 0
  then show ?case by simp
next
  case (Suc n)
  show ?case
  proof (cases "evo_rest e")
    case Nil
    with law_evo_next_empty [OF Suc.prems(1)] Suc.prems(1) show ?thesis by simp
  next
    case (Cons x xs)
    obtain e' where "law_evo_next e = Inr (Some x, e')" "evo_inv e'" "evo_rest e' = xs"
      using law_evo_next_event [OF Suc.prems(1) Cons] by blast
    with Suc.IH [of e'] Suc.prems(2) Cons show ?thesis by auto
  qed
qed

text \<open>
  C17: a wait followed by calls of \<open>law_evo_next\<close> until it returns false delivers exactly the
  events the kernel reported, each once and in order, and reads nothing outside the array, for
  any report that fits the array.
\<close>

theorem evo_wait_delivers:
  assumes "evo_inv e" and "length evs \<le> evo_max_events e"
  shows "\<exists>e'. fst (law_evo_wait (Some evs) e) = 0 \<and>
     evo_all (Suc (length evs)) (snd (law_evo_wait (Some evs) e)) = Inr (evs, e') \<and>
     law_evo_next e' = Inr (None, e')"
proof -
  obtain r e1 where w: "law_evo_wait (Some evs) e = (r, e1)" by fastforce
  note ok = law_evo_wait_ok [OF assms w]
  from evo_all_rest [OF ok(2), of "Suc (length evs)"] ok(3) obtain e' where
    "evo_all (Suc (length evs)) e1 = Inr (evs, e')" "evo_inv e'" "evo_rest e' = []" by auto
  with w ok(1) law_evo_next_empty [of e'] show ?thesis by simp
qed

theorem evo_wait_delivers_witness:
  "\<exists>e'. evo_all 2 (snd (law_evo_wait (Some [\<lparr>ev_events = 1, ev_data = 0x300\<rparr>])
      (the (projr (law_evo_create True True 4))))) = Inr ([\<lparr>ev_events = 1, ev_data = 0x300\<rparr>], e')"
proof -
  obtain e where e: "law_evo_create True True 4 = Inr (Some e)"
    by (simp add: law_evo_create_def)
  have "evo_max_events e = 4" using e by (auto simp: law_evo_create_def)
  with evo_wait_delivers [of e "[\<lparr>ev_events = 1, ev_data = 0x300\<rparr>]"] law_evo_create_inv [OF e] e
  show ?thesis by (auto simp: numeral_2_eq_2)
qed

end
