(* ===== verification/Errors.thy ===== *)
theory Errors
  imports Prelude
begin

text \<open>
  The thread's error stack of \<^verbatim>\<open>source/lawd/error.c\<close>: an array of
  \<open>LAW_ERR_STACK_MAX\<close> entries and an offset, with the operations \<open>law_err_clear\<close>,
  \<open>law_err_push\<close>, \<open>law_err_pop\<close>, \<open>law_err_print\<close> and
  \<open>law_err_print_stack\<close>. The abstract specification is a bounded stack that drops a push
  when it is full; the locale \<open>bounded_stack\<close> states it and the array implements it.
\<close>

section \<open>State\<close>

record law_err_info =
  ei_type :: sel_err_t
  ei_action :: string
  ei_file :: string
  ei_function :: string
  ei_line :: int

record law_err_stack =
  es_array :: "law_err_info list"
  es_offset :: nat

definition LAW_ERR_STACK_MAX :: nat where
  "LAW_ERR_STACK_MAX = 16"

text \<open>The array of a stack has its declared length; the offset never passes it.\<close>

definition err_inv :: "law_err_stack \<Rightarrow> bool" where
  "err_inv s \<longleftrightarrow> length (es_array s) = LAW_ERR_STACK_MAX \<and> es_offset s \<le> LAW_ERR_STACK_MAX"

section \<open>Operations\<close>

definition law_err_clear :: "law_err_stack \<Rightarrow> law_err_stack run" where
  "law_err_clear s =
     require SEL_ASSERT (es_offset s \<le> LAW_ERR_STACK_MAX) (Inr (s\<lparr>es_offset := 0\<rparr>))"

text \<open>
  \<open>law_err_pop info s\<close>: \<open>info\<close> says whether the caller passed a buffer. The
  decrement of the offset stands inside the statement that copies the entry, so it happens only
  when there is one.
\<close>

definition law_err_pop ::
  "bool \<Rightarrow> law_err_stack \<Rightarrow> (bool \<times> law_err_info option \<times> law_err_stack) run" where
  "law_err_pop info s =
     require SEL_ASSERT (es_offset s \<le> LAW_ERR_STACK_MAX)
      (if es_offset s = 0 then Inr (False, None, s)
       else if info then
         (let i = es_offset s - 1 in Inr (True, Some (es_array s ! i), s\<lparr>es_offset := i\<rparr>))
       else Inr (True, None, s))"

definition law_err_push ::
  "sel_err_t \<Rightarrow> string \<Rightarrow> string \<Rightarrow> string \<Rightarrow> int \<Rightarrow> law_err_stack \<Rightarrow>
   (sel_err_t \<times> law_err_stack) run" where
  "law_err_push type action file function line s =
     require SEL_ASSERT (es_offset s \<le> LAW_ERR_STACK_MAX)
      (if es_offset s = LAW_ERR_STACK_MAX then Inr (type, s)
       else
         (let info = \<lparr>ei_type = type, ei_action = action, ei_file = file,
                      ei_function = function, ei_line = line\<rparr>
          in Inr (type, s\<lparr>es_array := (es_array s)[es_offset s := info],
                          es_offset := es_offset s + 1\<rparr>)))"

text \<open>
  A \<^verbatim>\<open>FILE\<close> with the text written so far and the outcomes of the coming calls of
  \<^verbatim>\<open>fprintf\<close>; where the list is exhausted a call succeeds.
\<close>

record stream =
  st_out :: string
  st_fail :: "bool list"

definition fprintf :: "string \<Rightarrow> stream \<Rightarrow> bool \<times> stream" where
  "fprintf txt f =
     (case st_fail f of
        True # fs \<Rightarrow> (False, f\<lparr>st_fail := fs\<rparr>)
      | fs \<Rightarrow> (True, f\<lparr>st_fail := tl fs, st_out := st_out f @ txt\<rparr>))"

text \<open>
  \<open>strerr\<close> stands for selc's \<^verbatim>\<open>sel_strerror\<close> and \<open>thr\<close> is the
  number \<^verbatim>\<open>thrd_current\<close> prints as.
\<close>

definition err_line :: "(sel_err_t \<Rightarrow> string) \<Rightarrow> nat \<Rightarrow> law_err_info \<Rightarrow> string" where
  "err_line strerr thr info =
     ''= 0x'' @ show_hex thr @ '' '' @ strerr (ei_type info) @ '' '' @ ei_action info @ '' '' @
     ei_function info @ ''() : '' @ ei_file info @ '' : '' @ show_int (ei_line info) @ CRLF"

definition law_err_print ::
  "(sel_err_t \<Rightarrow> string) \<Rightarrow> nat \<Rightarrow> law_err_info \<Rightarrow> stream \<Rightarrow> sel_err_t \<times> stream" where
  "law_err_print strerr thr info f =
     (case fprintf (err_line strerr thr info) f of
        (ok, f') \<Rightarrow> (if ok then LAW_ERR_OK else LAW_ERR_SYS, f'))"

text \<open>The loop pops with a buffer, so each turn lowers the offset.\<close>

function law_err_print_stack ::
  "(sel_err_t \<Rightarrow> string) \<Rightarrow> nat \<Rightarrow> stream \<Rightarrow> law_err_stack \<Rightarrow>
   (sel_err_t \<times> stream \<times> law_err_stack) run" where
  "law_err_print_stack strerr thr f s =
     (case law_err_pop True s of
        Inl e \<Rightarrow> Inl e
      | Inr (False, _, s') \<Rightarrow> Inr (LAW_ERR_OK, f, s')
      | Inr (True, None, s') \<Rightarrow> Inr (LAW_ERR_OK, f, s')
      | Inr (True, Some info, s') \<Rightarrow>
          (case law_err_print strerr thr info f of
             (e, f') \<Rightarrow>
               if e \<noteq> LAW_ERR_OK then Inr (LAW_ERR_SYS, f', s')
               else law_err_print_stack strerr thr f' s'))"
  by pat_completeness auto
termination
  by (relation "measure (\<lambda>(_, _, _, s). es_offset s)")
     (auto simp: law_err_pop_def require_def Let_def split: if_splits)

declare law_err_print_stack.simps [simp del]

section \<open>The specification: a bounded stack\<close>

text \<open>
  \<open>push\<close> puts an element on top unless the stack holds \<open>limit\<close> of them,
  \<open>pop\<close> takes the top off, \<open>clear\<close> empties; \<open>contents\<close> lists the
  elements, the top first.
\<close>

locale bounded_stack =
  fixes clear :: "'s \<Rightarrow> 's run"
    and push :: "'x \<Rightarrow> 's \<Rightarrow> 's run"
    and pop :: "'s \<Rightarrow> ('x option \<times> 's) run"
    and contents :: "'s \<Rightarrow> 'x list"
    and invar :: "'s \<Rightarrow> bool"
    and limit :: nat
  assumes clear_ok: "invar s \<Longrightarrow> \<exists>t. clear s = Inr t \<and> invar t \<and> contents t = []"
    and push_ok: "invar s \<Longrightarrow> \<exists>t. push x s = Inr t \<and> invar t \<and>
          contents t = (if length (contents s) < limit then x # contents s else contents s)"
    and pop_ok: "invar s \<Longrightarrow>
          (case contents s of
             [] \<Rightarrow> pop s = Inr (None, s)
           | x # xs \<Rightarrow> \<exists>t. pop s = Inr (Some x, t) \<and> invar t \<and> contents t = xs)"
begin

primrec pushes :: "'x list \<Rightarrow> 's \<Rightarrow> 's run" where
  "pushes [] s = Inr s"
| "pushes (x # xs) s = bindE (push x s) (pushes xs)"

primrec pops :: "nat \<Rightarrow> 's \<Rightarrow> ('x list \<times> 's) run" where
  "pops 0 s = Inr ([], s)"
| "pops (Suc n) s =
     bindE (pop s) (\<lambda>(r, t).
       case r of None \<Rightarrow> Inr ([], t)
       | Some x \<Rightarrow> bindE (pops n t) (\<lambda>(ys, u). Inr (x # ys, u)))"

text \<open>A run of pushes keeps the first ones that fit and drops the rest.\<close>

lemma pushes_contents:
  assumes "invar s" and "length (contents s) \<le> limit"
  shows "\<exists>t. pushes xs s = Inr t \<and> invar t \<and>
           contents t = rev (take (limit - length (contents s)) xs) @ contents s"
  using assms
proof (induction xs arbitrary: s)
  case Nil
  then show ?case by simp
next
  case (Cons x xs)
  from push_ok [OF Cons.prems(1), of x] obtain t where
    t: "push x s = Inr t" "invar t"
      "contents t = (if length (contents s) < limit then x # contents s else contents s)"
    by blast
  show ?case
  proof (cases "length (contents s) < limit")
    case True
    with t Cons.IH [of t] Cons.prems show ?thesis
      by (cases "limit - length (contents s)") (auto simp: le_Suc_eq Suc_diff_Suc [symmetric])
  next
    case False
    with t Cons.IH [of t] Cons.prems show ?thesis by auto
  qed
qed

lemma pops_contents:
  "invar s \<Longrightarrow> \<exists>t. pops n s = Inr (take n (contents s), t) \<and> invar t \<and> contents t = drop n (contents s)"
proof (induction n arbitrary: s)
  case 0
  then show ?case by simp
next
  case (Suc n)
  show ?case
  proof (cases "contents s")
    case Nil
    with pop_ok [OF Suc.prems] Suc.prems show ?thesis by simp
  next
    case (Cons x xs)
    with pop_ok [OF Suc.prems] obtain t where
      t: "pop s = Inr (Some x, t)" "invar t" "contents t = xs" by auto
    from Suc.IH [OF t(2)] t Cons show ?thesis by auto
  qed
qed

text \<open>After a clear, popping everything yields the first \<open>limit\<close> pushes, newest first.\<close>

lemma clear_pushes_pops:
  assumes "invar s"
  shows "\<exists>t u v. clear s = Inr t \<and> pushes xs t = Inr u \<and>
           pops (length xs) u = Inr (rev (take limit xs), v) \<and> contents v = []"
proof -
  from clear_ok [OF assms] obtain t where t: "clear s = Inr t" "invar t" "contents t = []"
    by blast
  from pushes_contents [OF t(2), of xs] t(3) obtain u where
    u: "pushes xs t = Inr u" "invar u" "contents u = rev (take limit xs)"
    by auto
  from pops_contents [OF u(2), of "length xs"] u(3) obtain v where
    "pops (length xs) u = Inr (rev (take limit xs), v)" "contents v = []"
    by auto
  with t(1) u(1) show ?thesis by blast
qed

end

section \<open>The array implements the bounded stack\<close>

definition err_contents :: "law_err_stack \<Rightarrow> law_err_info list" where
  "err_contents s = rev (take (es_offset s) (es_array s))"

definition push_info :: "law_err_info \<Rightarrow> law_err_stack \<Rightarrow> law_err_stack run" where
  "push_info i s =
     bindE (law_err_push (ei_type i) (ei_action i) (ei_file i) (ei_function i) (ei_line i) s)
       (\<lambda>(_, t). Inr t)"

definition pop_info :: "law_err_stack \<Rightarrow> (law_err_info option \<times> law_err_stack) run" where
  "pop_info s = bindE (law_err_pop True s) (\<lambda>(_, r, t). Inr (r, t))"

lemma push_info_eq:
  assumes "err_inv s"
  shows "push_info i s =
    Inr (if es_offset s = LAW_ERR_STACK_MAX then s
         else s\<lparr>es_array := (es_array s)[es_offset s := i], es_offset := es_offset s + 1\<rparr>)"
  using assms
  by (cases i) (simp add: push_info_def law_err_push_def err_inv_def Let_def)

lemma err_contents_push:
  assumes "err_inv s" and "es_offset s < LAW_ERR_STACK_MAX"
  shows "err_contents (s\<lparr>es_array := (es_array s)[es_offset s := i], es_offset := es_offset s + 1\<rparr>)
           = i # err_contents s"
  using assms by (simp add: err_contents_def err_inv_def take_Suc_conv_app_nth)

lemma length_err_contents: "err_inv s \<Longrightarrow> length (err_contents s) = es_offset s"
  by (simp add: err_contents_def err_inv_def)

lemma err_contents_pop:
  assumes "err_inv s" and "es_offset s = Suc n"
  shows "err_contents s = es_array s ! n # err_contents (s\<lparr>es_offset := n\<rparr>)"
  using assms by (simp add: err_contents_def err_inv_def take_Suc_conv_app_nth)

interpretation es: bounded_stack law_err_clear push_info pop_info err_contents err_inv LAW_ERR_STACK_MAX
proof
  fix s :: law_err_stack
  assume inv: "err_inv s"
  then show "\<exists>t. law_err_clear s = Inr t \<and> err_inv t \<and> err_contents t = []"
    by (simp add: law_err_clear_def err_inv_def err_contents_def)
  show "\<exists>t. push_info x s = Inr t \<and> err_inv t \<and>
      err_contents t = (if length (err_contents s) < LAW_ERR_STACK_MAX then x # err_contents s
                        else err_contents s)" for x
    using inv err_contents_push [OF inv, of x]
    by (auto simp: push_info_eq length_err_contents err_inv_def)
  show "case err_contents s of
      [] \<Rightarrow> pop_info s = Inr (None, s)
    | x # xs \<Rightarrow> \<exists>t. pop_info s = Inr (Some x, t) \<and> err_inv t \<and> err_contents t = xs"
  proof (cases "es_offset s")
    case 0
    then show ?thesis using inv
      by (simp add: pop_info_def law_err_pop_def err_contents_def)
  next
    case (Suc n)
    with inv err_contents_pop [OF inv Suc] show ?thesis
      by (simp add: pop_info_def law_err_pop_def err_inv_def Let_def)
  qed
qed

end
