(* ===== verification/Sys.thy ===== *)
theory Sys
  imports Errors
begin

text \<open>
  The operating system as \<^verbatim>\<open>server.c\<close> sees it while it opens and closes resources: the
  process's open file descriptors, a script of the outcomes of the coming system calls (a call
  succeeds where the script is exhausted), and the thread's error stack, on which
  \<^verbatim>\<open>LAW_ERR_PUSH\<close> records a failure. A \<^verbatim>\<open>close\<close> of a descriptor that is not
  open is remembered in \<open>k_bad\<close>, so that a double close is a property of the state.
\<close>

type_synonym fd = nat

record kern =
  k_open :: "fd set"
  k_next :: fd
  k_outs :: "bool list"
  k_bad :: bool
  k_errs :: law_err_stack

text \<open>Descriptors handed out later are not open yet.\<close>

definition kern_inv :: "kern \<Rightarrow> bool" where
  "kern_inv k \<longleftrightarrow> (\<forall>d \<in> k_open k. d < k_next k) \<and> err_inv (k_errs k)"

definition sys_call :: "kern \<Rightarrow> bool \<times> kern" where
  "sys_call k = (case k_outs k of [] \<Rightarrow> (True, k) | b # bs \<Rightarrow> (b, k\<lparr>k_outs := bs\<rparr>))"

definition sys_new_fd :: "kern \<Rightarrow> fd option \<times> kern" where
  "sys_new_fd k =
     (case sys_call k of
        (False, k1) \<Rightarrow> (None, k1)
      | (True, k1) \<Rightarrow>
          (Some (k_next k1),
           k1\<lparr>k_open := insert (k_next k1) (k_open k1), k_next := k_next k1 + 1\<rparr>))"

definition sys_pipe :: "kern \<Rightarrow> (fd \<times> fd) option \<times> kern" where
  "sys_pipe k =
     (case sys_call k of
        (False, k1) \<Rightarrow> (None, k1)
      | (True, k1) \<Rightarrow>
          (let a = k_next k1; b = k_next k1 + 1
           in (Some (a, b), k1\<lparr>k_open := {a, b} \<union> k_open k1, k_next := k_next k1 + 2\<rparr>)))"

definition sys_close :: "fd \<Rightarrow> kern \<Rightarrow> kern" where
  "sys_close d k =
     (if d \<in> k_open k then k\<lparr>k_open := k_open k - {d}\<rparr> else k\<lparr>k_bad := True\<rparr>)"

text \<open>The macro \<^verbatim>\<open>LAW_ERR_PUSH\<close>, with the function and the line it expands in.\<close>

definition LAW_ERR_PUSH ::
  "sel_err_t \<Rightarrow> string \<Rightarrow> string \<Rightarrow> int \<Rightarrow> kern \<Rightarrow> (sel_err_t \<times> kern) run" where
  "LAW_ERR_PUSH type action func line k =
     bindE (law_err_push type action ''source/lawd/server.c'' func line (k_errs k))
       (\<lambda>(e, es'). Inr (e, k\<lparr>k_errs := es'\<rparr>))"

section \<open>What the calls keep\<close>

text \<open>
  \<open>same_fds k k'\<close>: from \<open>k\<close> to \<open>k'\<close> no descriptor was opened or
  closed on balance, none was closed twice, and the invariant holds again.
\<close>

definition same_fds :: "kern \<Rightarrow> kern \<Rightarrow> bool" where
  "same_fds k k' \<longleftrightarrow>
     k_open k' = k_open k \<and> k_next k \<le> k_next k' \<and> k_bad k' = k_bad k \<and> kern_inv k'"

lemma same_fds_refl: "kern_inv k \<Longrightarrow> same_fds k k"
  by (simp add: same_fds_def)

lemma same_fds_trans: "same_fds a b \<Longrightarrow> same_fds b c \<Longrightarrow> same_fds a c"
  by (auto simp: same_fds_def)

lemma same_fds_inv: "same_fds k k' \<Longrightarrow> kern_inv k'"
  by (simp add: same_fds_def)

lemma sys_call_same:
  assumes "kern_inv k" and "sys_call k = (b, k')"
  shows "same_fds k k'"
  using assms by (auto simp: sys_call_def same_fds_def kern_inv_def split: list.splits)

lemma law_err_push_ok:
  assumes "err_inv s"
  shows "\<exists>t. law_err_push type action file func line s = Inr (type, t) \<and> err_inv t"
  using assms by (auto simp: law_err_push_def err_inv_def Let_def)

lemma LAW_ERR_PUSH_same:
  assumes "kern_inv k"
  obtains k' where "LAW_ERR_PUSH type action func line k = Inr (type, k')" and "same_fds k k'"
proof -
  from assms law_err_push_ok [of "k_errs k" type action "''source/lawd/server.c''" func line]
  obtain t where t: "law_err_push type action ''source/lawd/server.c'' func line (k_errs k)
      = Inr (type, t)" "err_inv t"
    by (auto simp: kern_inv_def)
  then have "LAW_ERR_PUSH type action func line k = Inr (type, k\<lparr>k_errs := t\<rparr>)"
    by (simp add: LAW_ERR_PUSH_def)
  moreover have "same_fds k (k\<lparr>k_errs := t\<rparr>)"
    using assms t(2) by (simp add: same_fds_def kern_inv_def)
  ultimately show thesis by (rule that)
qed

text \<open>
  \<open>adds_fds D k k'\<close>: the step opened exactly the descriptors \<open>D\<close>, all of them new.
\<close>

definition adds_fds :: "fd set \<Rightarrow> kern \<Rightarrow> kern \<Rightarrow> bool" where
  "adds_fds D k k' \<longleftrightarrow>
     k_open k' = D \<union> k_open k \<and> D \<inter> k_open k = {} \<and> k_next k \<le> k_next k' \<and>
     k_bad k' = k_bad k \<and> kern_inv k'"

lemma adds_fds_inv: "adds_fds D k k' \<Longrightarrow> kern_inv k'"
  by (simp add: adds_fds_def)

lemma adds_fds_empty: "adds_fds {} k k' \<longleftrightarrow> same_fds k k'"
  by (auto simp: adds_fds_def same_fds_def)

lemma adds_fds_trans:
  assumes "adds_fds D k1 k2" and "adds_fds E k2 k3"
  shows "adds_fds (D \<union> E) k1 k3"
  using assms by (auto simp: adds_fds_def)

lemma adds_same_trans: "adds_fds D k1 k2 \<Longrightarrow> same_fds k2 k3 \<Longrightarrow> adds_fds D k1 k3"
  using adds_fds_trans [of D k1 k2 "{}" k3] by (simp add: adds_fds_empty)

lemma same_adds_trans: "same_fds k1 k2 \<Longrightarrow> adds_fds D k2 k3 \<Longrightarrow> adds_fds D k1 k3"
  using adds_fds_trans [of "{}" k1 k2 D k3] by (simp add: adds_fds_empty)

text \<open>Closing a descriptor that was added takes it out again.\<close>

lemma sys_close_adds:
  assumes "adds_fds D k k'" and "d \<in> D"
  shows "adds_fds (D - {d}) k (sys_close d k')"
  using assms by (auto simp: adds_fds_def sys_close_def kern_inv_def)

lemma sys_new_fd_cases:
  assumes "kern_inv k"
  obtains k' where "sys_new_fd k = (None, k')" and "same_fds k k'"
    | d k' where "sys_new_fd k = (Some d, k')" and "adds_fds {d} k k'"
proof -
  obtain b k1 where c: "sys_call k = (b, k1)" by (cases "sys_call k")
  from sys_call_same [OF assms c] have s: "same_fds k k1" .
  show thesis
  proof (cases b)
    case False
    with c s that(1) show thesis by (simp add: sys_new_fd_def)
  next
    case True
    have "k_next k1 \<notin> k_open k1" "\<forall>d \<in> k_open k1. d < k_next k1 + 1"
      using s by (auto simp: same_fds_def kern_inv_def intro: less_SucI)
    then have "adds_fds {k_next k1} k
        (k1\<lparr>k_open := insert (k_next k1) (k_open k1), k_next := k_next k1 + 1\<rparr>)"
      using s by (auto simp: adds_fds_def same_fds_def kern_inv_def)
    with c True that(2) show thesis by (simp add: sys_new_fd_def)
  qed
qed

lemma sys_pipe_cases:
  assumes "kern_inv k"
  obtains k' where "sys_pipe k = (None, k')" and "same_fds k k'"
    | a b k' where "sys_pipe k = (Some (a, b), k')" and "a \<noteq> b" and "adds_fds {a, b} k k'"
proof -
  obtain r k1 where c: "sys_call k = (r, k1)" by (cases "sys_call k")
  from sys_call_same [OF assms c] have s: "same_fds k k1" .
  show thesis
  proof (cases r)
    case False
    with c s that(1) show thesis by (simp add: sys_pipe_def)
  next
    case True
    let ?a = "k_next k1"
    have "\<forall>d \<in> k_open k1. d < ?a" using s by (simp add: same_fds_def kern_inv_def)
    then have "?a \<notin> k_open k1" "?a + 1 \<notin> k_open k1" "\<forall>d \<in> k_open k1. d < ?a + 2"
      by force+
    then have "adds_fds {?a, ?a + 1} k
        (k1\<lparr>k_open := {?a, ?a + 1} \<union> k_open k1, k_next := ?a + 2\<rparr>)"
      using s by (auto simp: adds_fds_def same_fds_def kern_inv_def)
    with c True that(2) [of ?a "?a + 1"] show thesis by (simp add: sys_pipe_def Let_def)
  qed
qed

text \<open>A process with four descriptors and an empty error stack, for the examples.\<close>

definition demo_kern :: "bool list \<Rightarrow> kern" where
  "demo_kern outs = \<lparr>k_open = {0, 1, 2, 3}, k_next = 4, k_outs = outs, k_bad = False,
     k_errs = \<lparr>es_array = replicate 16
       \<lparr>ei_type = LAW_ERR_OK, ei_action = [], ei_file = [], ei_function = [], ei_line = 0\<rparr>, es_offset = 0\<rparr>\<rparr>"

lemma demo_kern_inv: "kern_inv (demo_kern outs)"
  by (simp add: kern_inv_def demo_kern_def err_inv_def LAW_ERR_STACK_MAX_def)

end
