(* ===== verification/Pipe.thy ===== *)
theory Pipe
  imports Sys
begin

text \<open>
  The pipes of \<^verbatim>\<open>server.c\<close> that carry messages and tasks between threads:
  \<open>law_pipe_open\<close>, \<open>law_pipe_close\<close>, \<open>law_pipe_write\<close> and
  \<open>law_pipe_read\<close> on a byte-level model of a non-blocking POSIX pipe, and the message and task
  queues on top of them. The locale \<open>fifo_queue\<close> states what the server relies on: whole
  items, in order, none lost. Both queues are interpretations.
\<close>

section \<open>Opening and closing\<close>

definition law_pipe_close :: "fd \<times> fd \<Rightarrow> kern \<Rightarrow> kern" where
  "law_pipe_close fds k = sys_close (snd fds) (sys_close (fst fds) k)"

text \<open>One of the four identical blocks that call \<^verbatim>\<open>fcntl\<close> and clean up.\<close>

definition pipe_fcntl :: "fd \<times> fd \<Rightarrow> int \<Rightarrow> kern \<Rightarrow> (sel_err_t \<times> kern) run" where
  "pipe_fcntl fds line k =
     (case sys_call k of
        (True, k1) \<Rightarrow> Inr (LAW_ERR_OK, k1)
      | (False, k1) \<Rightarrow>
          LAW_ERR_PUSH LAW_ERR_SYS ''fcntl'' ''law_pipe_open'' line (law_pipe_close fds k1))"

definition law_pipe_open :: "kern \<Rightarrow> (sel_err_t \<times> (fd \<times> fd) \<times> kern) run" where
  "law_pipe_open k =
     (case sys_pipe k of
        (None, k1) \<Rightarrow>
          bindE (LAW_ERR_PUSH LAW_ERR_SYS ''pipe'' ''law_pipe_open'' 170 k1)
            (\<lambda>(e, k2). Inr (e, (0, 0), k2))
      | (Some fds, k1) \<Rightarrow>
          bindE (pipe_fcntl fds 176 k1) (\<lambda>(e, k2).
          if e \<noteq> LAW_ERR_OK then Inr (e, fds, k2) else
          bindE (pipe_fcntl fds 181 k2) (\<lambda>(e, k3).
          if e \<noteq> LAW_ERR_OK then Inr (e, fds, k3) else
          bindE (pipe_fcntl fds 186 k3) (\<lambda>(e, k4).
          if e \<noteq> LAW_ERR_OK then Inr (e, fds, k4) else
          bindE (pipe_fcntl fds 191 k4) (\<lambda>(e, k5). Inr (e, fds, k5))))))"

text \<open>The two kinds of queue open and close their pipe; a queue is never null here.\<close>

definition law_task_queue_open :: "kern \<Rightarrow> (sel_err_t \<times> (fd \<times> fd) \<times> kern) run" where
  "law_task_queue_open = law_pipe_open"

definition law_task_queue_close :: "fd \<times> fd \<Rightarrow> kern \<Rightarrow> kern" where
  "law_task_queue_close = law_pipe_close"

definition law_msg_queue_open :: "kern \<Rightarrow> (sel_err_t \<times> (fd \<times> fd) \<times> kern) run" where
  "law_msg_queue_open = law_pipe_open"

definition law_msg_queue_close :: "fd \<times> fd \<Rightarrow> kern \<Rightarrow> kern" where
  "law_msg_queue_close = law_pipe_close"

lemmas queue_pipes [simp] = law_task_queue_open_def law_task_queue_close_def law_msg_queue_open_def
  law_msg_queue_close_def

lemma law_pipe_close_adds:
  assumes "adds_fds D k k'" and "a \<in> D" and "b \<in> D" and "a \<noteq> b"
  shows "adds_fds (D - {a, b}) k (law_pipe_close (a, b) k')"
proof -
  from sys_close_adds [OF assms(1,2)] have "adds_fds (D - {a}) k (sys_close a k')" .
  from sys_close_adds [OF this, of b] assms(3,4)
  have "adds_fds (D - {a} - {b}) k (sys_close b (sys_close a k'))" by simp
  then show ?thesis by (simp add: law_pipe_close_def insert_commute Diff_insert2 [symmetric])
qed

lemma pipe_fcntl_cases:
  assumes "adds_fds {a, b} k0 k" and "a \<noteq> b"
  obtains k' where "pipe_fcntl (a, b) line k = Inr (LAW_ERR_OK, k')" and "adds_fds {a, b} k0 k'"
    | k' where "pipe_fcntl (a, b) line k = Inr (LAW_ERR_SYS, k')" and "same_fds k0 k'"
proof -
  obtain r k1 where c: "sys_call k = (r, k1)" by (cases "sys_call k")
  from sys_call_same [OF adds_fds_inv [OF assms(1)] c] have "same_fds k k1" .
  with assms(1) have a1: "adds_fds {a, b} k0 k1" by (rule adds_same_trans)
  show thesis
  proof (cases r)
    case True
    with c a1 that(1) show thesis by (simp add: pipe_fcntl_def)
  next
    case False
    from law_pipe_close_adds [OF a1, of a b] assms(2)
    have s: "same_fds k0 (law_pipe_close (a, b) k1)" by (simp add: adds_fds_empty)
    then obtain k2 where
      "LAW_ERR_PUSH LAW_ERR_SYS ''fcntl'' ''law_pipe_open'' line (law_pipe_close (a, b) k1)
         = Inr (LAW_ERR_SYS, k2)" "same_fds (law_pipe_close (a, b) k1) k2"
      by (meson LAW_ERR_PUSH_same same_fds_inv)
    with c False s that(2) show thesis
      by (simp add: pipe_fcntl_def) (blast intro: same_fds_trans)
  qed
qed

text \<open>Every path of the open either leaves both ends open or none.\<close>

lemma law_pipe_open_cases:
  assumes "kern_inv k"
  obtains a b k' where "law_pipe_open k = Inr (LAW_ERR_OK, (a, b), k')" and "a \<noteq> b"
      and "adds_fds {a, b} k k'"
    | fds k' where "law_pipe_open k = Inr (LAW_ERR_SYS, fds, k')" and "same_fds k k'"
  using assms
proof (cases rule: sys_pipe_cases)
  case (1 k1)
  then obtain k2 where "LAW_ERR_PUSH LAW_ERR_SYS ''pipe'' ''law_pipe_open'' 170 k1
      = Inr (LAW_ERR_SYS, k2)" "same_fds k1 k2"
    by (meson LAW_ERR_PUSH_same same_fds_inv)
  with 1 that(2) show thesis by (simp add: law_pipe_open_def) (blast intro: same_fds_trans)
next
  case (2 a b k1)
  note o = law_pipe_open_def 2(1)
  from 2(3,2) show thesis
  proof (cases rule: pipe_fcntl_cases [where line = 176])
    case (1 k2)
    note o = o 1(1)
    from 1(2) \<open>a \<noteq> b\<close> show thesis
    proof (cases rule: pipe_fcntl_cases [where line = 181])
      case (1 k3)
      note o = o 1(1)
      from 1(2) \<open>a \<noteq> b\<close> show thesis
      proof (cases rule: pipe_fcntl_cases [where line = 186])
        case (1 k4)
        note o = o 1(1)
        from 1(2) \<open>a \<noteq> b\<close> show thesis
          by (cases rule: pipe_fcntl_cases [where line = 191])
             (use o 1 \<open>a \<noteq> b\<close> that in simp_all)
      qed (use o that(2) in simp)
    qed (use o that(2) in simp)
  qed (use o that(2) in simp)
qed

section \<open>The pipe itself\<close>

text \<open>
  A non-blocking pipe: its capacity in bytes, the bytes in it, and whether its two ends are open.
  The items written are smaller than \<^verbatim>\<open>PIPE_BUF\<close>, so a write is all or nothing.
\<close>

record pipe =
  pp_cap :: nat
  pp_data :: "u8 list"
  pp_rd :: bool
  pp_wr :: bool

datatype errno = EAGAIN | EOTHER

definition pipe_write :: "u8 list \<Rightarrow> pipe \<Rightarrow> (errno + nat) \<times> pipe" where
  "pipe_write bs p =
     (if \<not> pp_wr p \<or> \<not> pp_rd p then (Inl EOTHER, p)
      else if length (pp_data p) + length bs \<le> pp_cap p
        then (Inr (length bs), p\<lparr>pp_data := pp_data p @ bs\<rparr>)
      else (Inl EAGAIN, p))"

definition pipe_read :: "nat \<Rightarrow> pipe \<Rightarrow> (errno + u8 list) \<times> pipe" where
  "pipe_read n p =
     (if \<not> pp_rd p then (Inl EOTHER, p)
      else if pp_data p = [] then (if pp_wr p then Inl EAGAIN else Inr [], p)
      else (Inr (take n (pp_data p)), p\<lparr>pp_data := drop n (pp_data p)\<rparr>))"

definition law_pipe_write :: "u8 list \<Rightarrow> pipe \<Rightarrow> (sel_err_t \<times> pipe) run" where
  "law_pipe_write bs p =
     (case pipe_write bs p of
        (Inl EAGAIN, p') \<Rightarrow> Inr (LAW_ERR_WANTW, p')
      | (Inl EOTHER, p') \<Rightarrow> Inr (LAW_ERR_SYS, p')
      | (Inr n, p') \<Rightarrow> require SEL_TEST (n = length bs) (Inr (LAW_ERR_OK, p')))"

definition law_pipe_read :: "nat \<Rightarrow> pipe \<Rightarrow> (sel_err_t \<times> u8 list \<times> pipe) run" where
  "law_pipe_read n p =
     (case pipe_read n p of
        (Inl EAGAIN, p') \<Rightarrow> Inr (LAW_ERR_WANTR, [], p')
      | (Inl EOTHER, p') \<Rightarrow> Inr (LAW_ERR_SYS, [], p')
      | (Inr bs, p') \<Rightarrow> require SEL_TEST (length bs = n) (Inr (LAW_ERR_OK, bs, p')))"

section \<open>Messages and tasks as bytes\<close>

text \<open>
  A \<^verbatim>\<open>law_msg_t\<close> occupies sixteen bytes: the type, four bytes of padding, the data.
  A task travels as its address.
\<close>

record law_msg =
  msg_type :: u32
  msg_data :: u64

definition LAW_MSG_SHUTDOWN :: u32 where "LAW_MSG_SHUTDOWN = 1"

definition LAW_MSG_WAKEUP :: u32 where "LAW_MSG_WAKEUP = 2"

definition msg_bytes :: "law_msg \<Rightarrow> u8 list" where
  "msg_bytes m = le_bytes 4 (unat (msg_type m)) @ replicate 4 0 @ le_bytes 8 (unat (msg_data m))"

definition msg_of_bytes :: "u8 list \<Rightarrow> law_msg" where
  "msg_of_bytes bs = \<lparr>msg_type = word_of_nat (le_value (take 4 bs)),
                       msg_data = word_of_nat (le_value (drop 8 bs))\<rparr>"

definition ptr_bytes :: "ptr \<Rightarrow> u8 list" where
  "ptr_bytes p = le_bytes 8 (unat p)"

definition ptr_of_bytes :: "u8 list \<Rightarrow> ptr" where
  "ptr_of_bytes bs = word_of_nat (le_value bs)"

lemma length_msg_bytes: "length (msg_bytes m) = 16"
  by (simp add: msg_bytes_def del: le_bytes.simps)

lemma length_ptr_bytes: "length (ptr_bytes p) = 8"
  by (simp add: ptr_bytes_def del: le_bytes.simps)

lemma msg_of_bytes_msg_bytes: "msg_of_bytes (msg_bytes m) = m"
proof -
  have "take 4 (msg_bytes m) = le_bytes 4 (unat (msg_type m))"
    and "drop 8 (msg_bytes m) = le_bytes 8 (unat (msg_data m))"
    by (simp_all add: msg_bytes_def del: le_bytes.simps)
  then show ?thesis
    using unat_less_32 [of "msg_type m"] unat_less_64 [of "msg_data m"]
    by (cases m) (simp add: msg_of_bytes_def le_value_le_bytes del: le_bytes.simps)
qed

lemma ptr_of_bytes_ptr_bytes: "ptr_of_bytes (ptr_bytes p) = p"
  using unat_less_64 [of p]
  by (simp add: ptr_of_bytes_def ptr_bytes_def le_value_le_bytes del: le_bytes.simps)

section \<open>The queues\<close>

definition law_msg_queue_push :: "law_msg \<Rightarrow> pipe \<Rightarrow> (sel_err_t \<times> pipe) run" where
  "law_msg_queue_push m q = law_pipe_write (msg_bytes m) q"

definition law_msg_queue_pop :: "pipe \<Rightarrow> (sel_err_t \<times> law_msg option \<times> pipe) run" where
  "law_msg_queue_pop q =
     bindE (law_pipe_read 16 q) (\<lambda>(e, bs, q').
       Inr (e, if e = LAW_ERR_OK then Some (msg_of_bytes bs) else None, q'))"

definition law_task_queue_push :: "ptr \<Rightarrow> pipe \<Rightarrow> (sel_err_t \<times> pipe) run" where
  "law_task_queue_push t q = law_pipe_write (ptr_bytes t) q"

definition law_task_queue_pop :: "pipe \<Rightarrow> (sel_err_t \<times> ptr option \<times> pipe) run" where
  "law_task_queue_pop q =
     bindE (law_pipe_read 8 q) (\<lambda>(e, bs, q').
       Inr (e, if e = LAW_ERR_OK then Some (ptr_of_bytes bs) else None, q'))"

text \<open>What the server expects of a queue: whole items, in order.\<close>

locale fifo_queue =
  fixes push :: "'x \<Rightarrow> 'q \<Rightarrow> (sel_err_t \<times> 'q) run"
    and pop :: "'q \<Rightarrow> (sel_err_t \<times> 'x option \<times> 'q) run"
    and items :: "'q \<Rightarrow> 'x list"
    and room :: "'q \<Rightarrow> bool"
    and invar :: "'q \<Rightarrow> bool"
  assumes push_room: "invar q \<Longrightarrow> room q \<Longrightarrow>
      \<exists>r. push x q = Inr (LAW_ERR_OK, r) \<and> invar r \<and> items r = items q @ [x]"
    and push_full: "invar q \<Longrightarrow> \<not> room q \<Longrightarrow> push x q = Inr (LAW_ERR_WANTW, q)"
    and pop_empty: "invar q \<Longrightarrow> items q = [] \<Longrightarrow> pop q = Inr (LAW_ERR_WANTR, None, q)"
    and pop_item: "invar q \<Longrightarrow> items q = x # xs \<Longrightarrow>
      \<exists>r. pop q = Inr (LAW_ERR_OK, Some x, r) \<and> invar r \<and> items r = xs"
begin

text \<open>Pushing a list, counting the items accepted; popping until the queue is empty.\<close>

primrec push_all :: "'x list \<Rightarrow> 'q \<Rightarrow> ('x list \<times> 'q) run" where
  "push_all [] q = Inr ([], q)"
| "push_all (x # xs) q =
     bindE (push x q) (\<lambda>(e, r).
     bindE (push_all xs r) (\<lambda>(ys, s). Inr (if e = LAW_ERR_OK then x # ys else ys, s)))"

primrec pop_all :: "nat \<Rightarrow> 'q \<Rightarrow> ('x list \<times> 'q) run" where
  "pop_all 0 q = Inr ([], q)"
| "pop_all (Suc n) q =
     bindE (pop q) (\<lambda>(e, x, r).
       case x of None \<Rightarrow> Inr ([], r)
       | Some x \<Rightarrow> bindE (pop_all n r) (\<lambda>(ys, s). Inr (x # ys, s)))"

lemma push_all_items:
  "invar q \<Longrightarrow> \<exists>ys r. push_all xs q = Inr (ys, r) \<and> invar r \<and> items r = items q @ ys"
proof (induction xs arbitrary: q)
  case Nil
  then show ?case by simp
next
  case (Cons x xs)
  show ?case
  proof (cases "room q")
    case True
    from push_room [OF Cons.prems True, of x] obtain r where
      "push x q = Inr (LAW_ERR_OK, r)" "invar r" "items r = items q @ [x]" by blast
    with Cons.IH [of r] show ?thesis by auto
  next
    case False
    from Cons.IH [OF Cons.prems] obtain ys r where
      "push_all xs q = Inr (ys, r)" "invar r" "items r = items q @ ys" by blast
    with push_full [OF Cons.prems False, of x] show ?thesis by simp
  qed
qed

lemma pop_all_items:
  "invar q \<Longrightarrow> n \<ge> length (items q) \<Longrightarrow> \<exists>r. pop_all n q = Inr (items q, r) \<and> invar r \<and> items r = []"
proof (induction n arbitrary: q)
  case 0
  then show ?case by simp
next
  case (Suc n)
  show ?case
  proof (cases "items q")
    case Nil
    with pop_empty [OF Suc.prems(1)] Suc.prems(1) show ?thesis by simp
  next
    case (Cons x xs)
    from pop_item [OF Suc.prems(1) Cons] obtain r where
      "pop q = Inr (LAW_ERR_OK, Some x, r)" "invar r" "items r = xs" by blast
    with Suc.IH [of r] Suc.prems(2) Cons show ?thesis by auto
  qed
qed

lemma push_all_pop_all:
  assumes "invar q" and "items q = []"
  shows "\<exists>ys r s. push_all xs q = Inr (ys, r) \<and> pop_all (length ys) r = Inr (ys, s) \<and> items s = []"
proof -
  from push_all_items [OF assms(1), of xs] assms(2) obtain ys r where
    p: "push_all xs q = Inr (ys, r)" "invar r" "items r = ys" by auto
  from pop_all_items [OF p(2), of "length ys"] p(3) p(1) show ?thesis by auto
qed

end

section \<open>A pipe of fixed-size items is such a queue\<close>

text \<open>
  \<open>pipe_holds enc xs p\<close>: both ends are open and the bytes in the pipe are the codes of
  the items \<open>xs\<close>, nothing torn.
\<close>

definition pipe_holds :: "('x \<Rightarrow> u8 list) \<Rightarrow> 'x list \<Rightarrow> pipe \<Rightarrow> bool" where
  "pipe_holds enc xs p \<longleftrightarrow> pp_rd p \<and> pp_wr p \<and> pp_data p = concat (map enc xs)"

primrec chunks :: "nat \<Rightarrow> nat \<Rightarrow> 'a list \<Rightarrow> 'a list list" where
  "chunks k 0 xs = []"
| "chunks k (Suc n) xs = take k xs # chunks k n (drop k xs)"

definition pipe_items :: "nat \<Rightarrow> (u8 list \<Rightarrow> 'x) \<Rightarrow> pipe \<Rightarrow> 'x list" where
  "pipe_items k dec p = map dec (chunks k (length (pp_data p) div k) (pp_data p))"

lemma length_concat_const: "(\<And>x. length (enc x) = k) \<Longrightarrow> length (concat (map enc xs)) = k * length xs"
  by (induction xs) simp_all

lemma chunks_concat: "(\<And>x. length (enc x) = k) \<Longrightarrow> chunks k (length xs) (concat (map enc xs)) = map enc xs"
  by (induction xs) simp_all

lemma pipe_items_holds:
  assumes "\<And>x. length (enc x) = k" and "\<And>x. dec (enc x) = x" and "0 < k" and "pipe_holds enc xs p"
  shows "pipe_items k dec p = xs"
proof -
  have "length (pp_data p) div k = length xs"
    using assms(3,4) length_concat_const [of enc k xs] assms(1) by (simp add: pipe_holds_def)
  then show ?thesis
    using assms(4) chunks_concat [of enc k xs] assms(1,2)
    by (simp add: pipe_items_def pipe_holds_def comp_def)
qed

lemma law_pipe_write_holds:
  assumes "pipe_holds enc xs p"
  shows "law_pipe_write (enc x) p =
     (if length (pp_data p) + length (enc x) \<le> pp_cap p
      then Inr (LAW_ERR_OK, p\<lparr>pp_data := pp_data p @ enc x\<rparr>) else Inr (LAW_ERR_WANTW, p))"
  using assms by (simp add: law_pipe_write_def pipe_write_def pipe_holds_def)

lemma law_pipe_read_holds:
  assumes "\<And>x. length (enc x) = k" and "0 < k" and "pipe_holds enc (x # xs) p"
  shows "law_pipe_read k p = Inr (LAW_ERR_OK, enc x, p\<lparr>pp_data := concat (map enc xs)\<rparr>)"
proof -
  have "pp_data p \<noteq> []" using assms(1) [of x] assms(2,3) by (auto simp: pipe_holds_def)
  moreover have "take k (pp_data p) = enc x" "drop k (pp_data p) = concat (map enc xs)"
    using assms(1) [of x] assms(3) by (auto simp: pipe_holds_def)
  ultimately show ?thesis
    using assms(1) [of x] assms(3) by (simp add: law_pipe_read_def pipe_read_def pipe_holds_def)
qed

lemma law_pipe_read_empty:
  assumes "pipe_holds enc [] p"
  shows "law_pipe_read k p = Inr (LAW_ERR_WANTR, [], p)"
  using assms by (simp add: law_pipe_read_def pipe_read_def pipe_holds_def)

definition msg_queue_inv :: "pipe \<Rightarrow> bool" where
  "msg_queue_inv p \<longleftrightarrow> pipe_holds msg_bytes (pipe_items 16 msg_of_bytes p) p"

definition task_queue_inv :: "pipe \<Rightarrow> bool" where
  "task_queue_inv p \<longleftrightarrow> pipe_holds ptr_bytes (pipe_items 8 ptr_of_bytes p) p"

lemma msg_items_holds: "pipe_holds msg_bytes xs p \<Longrightarrow> pipe_items 16 msg_of_bytes p = xs"
  by (rule pipe_items_holds [OF length_msg_bytes msg_of_bytes_msg_bytes]) simp_all

lemma task_items_holds: "pipe_holds ptr_bytes xs p \<Longrightarrow> pipe_items 8 ptr_of_bytes p = xs"
  by (rule pipe_items_holds [OF length_ptr_bytes ptr_of_bytes_ptr_bytes]) simp_all

lemma msg_queue_invI: "pipe_holds msg_bytes xs p \<Longrightarrow> msg_queue_inv p"
  by (simp add: msg_queue_inv_def msg_items_holds)

lemma task_queue_invI: "pipe_holds ptr_bytes xs p \<Longrightarrow> task_queue_inv p"
  by (simp add: task_queue_inv_def task_items_holds)

lemma pipe_holds_append:
  "pipe_holds enc xs p \<Longrightarrow> pipe_holds enc (xs @ [x]) (p\<lparr>pp_data := pp_data p @ enc x\<rparr>)"
  by (simp add: pipe_holds_def)

lemma pipe_holds_tail:
  "pipe_holds enc (x # xs) p \<Longrightarrow> pipe_holds enc xs (p\<lparr>pp_data := concat (map enc xs)\<rparr>)"
  by (simp add: pipe_holds_def)

interpretation mq: fifo_queue law_msg_queue_push law_msg_queue_pop "pipe_items 16 msg_of_bytes"
  "\<lambda>p. length (pp_data p) + 16 \<le> pp_cap p" msg_queue_inv
proof
  fix q :: pipe and x :: law_msg and xs :: "law_msg list"
  assume inv: "msg_queue_inv q"
  then have h: "pipe_holds msg_bytes (pipe_items 16 msg_of_bytes q) q"
    by (simp add: msg_queue_inv_def)
  note wr = law_pipe_write_holds [OF h, of x, unfolded length_msg_bytes]
  show "\<exists>r. law_msg_queue_push x q = Inr (LAW_ERR_OK, r) \<and> msg_queue_inv r \<and>
      pipe_items 16 msg_of_bytes r = pipe_items 16 msg_of_bytes q @ [x]"
    if "length (pp_data q) + 16 \<le> pp_cap q"
    using that wr pipe_holds_append [OF h, of x]
    by (simp add: law_msg_queue_push_def msg_queue_invI msg_items_holds)
  show "law_msg_queue_push x q = Inr (LAW_ERR_WANTW, q)"
    if "\<not> length (pp_data q) + 16 \<le> pp_cap q"
    using that wr by (simp add: law_msg_queue_push_def)
  show "law_msg_queue_pop q = Inr (LAW_ERR_WANTR, None, q)"
    if "pipe_items 16 msg_of_bytes q = []"
    using law_pipe_read_empty [OF h [unfolded that]] by (simp add: law_msg_queue_pop_def)
  show "\<exists>r. law_msg_queue_pop q = Inr (LAW_ERR_OK, Some x, r) \<and> msg_queue_inv r \<and>
      pipe_items 16 msg_of_bytes r = xs"
    if "pipe_items 16 msg_of_bytes q = x # xs"
    using law_pipe_read_holds [OF length_msg_bytes _ h [unfolded that]]
      pipe_holds_tail [OF h [unfolded that]]
    by (simp add: law_msg_queue_pop_def msg_of_bytes_msg_bytes msg_queue_invI msg_items_holds)
qed

interpretation tq: fifo_queue law_task_queue_push law_task_queue_pop "pipe_items 8 ptr_of_bytes"
  "\<lambda>p. length (pp_data p) + 8 \<le> pp_cap p" task_queue_inv
proof
  fix q :: pipe and x :: ptr and xs :: "ptr list"
  assume inv: "task_queue_inv q"
  then have h: "pipe_holds ptr_bytes (pipe_items 8 ptr_of_bytes q) q"
    by (simp add: task_queue_inv_def)
  note wr = law_pipe_write_holds [OF h, of x, unfolded length_ptr_bytes]
  show "\<exists>r. law_task_queue_push x q = Inr (LAW_ERR_OK, r) \<and> task_queue_inv r \<and>
      pipe_items 8 ptr_of_bytes r = pipe_items 8 ptr_of_bytes q @ [x]"
    if "length (pp_data q) + 8 \<le> pp_cap q"
    using that wr pipe_holds_append [OF h, of x]
    by (simp add: law_task_queue_push_def task_queue_invI task_items_holds)
  show "law_task_queue_push x q = Inr (LAW_ERR_WANTW, q)"
    if "\<not> length (pp_data q) + 8 \<le> pp_cap q"
    using that wr by (simp add: law_task_queue_push_def)
  show "law_task_queue_pop q = Inr (LAW_ERR_WANTR, None, q)"
    if "pipe_items 8 ptr_of_bytes q = []"
    using law_pipe_read_empty [OF h [unfolded that]] by (simp add: law_task_queue_pop_def)
  show "\<exists>r. law_task_queue_pop q = Inr (LAW_ERR_OK, Some x, r) \<and> task_queue_inv r \<and>
      pipe_items 8 ptr_of_bytes r = xs"
    if "pipe_items 8 ptr_of_bytes q = x # xs"
    using law_pipe_read_holds [OF length_ptr_bytes _ h [unfolded that]]
      pipe_holds_tail [OF h [unfolded that]]
    by (simp add: law_task_queue_pop_def ptr_of_bytes_ptr_bytes task_queue_invI task_items_holds)
qed

end
