(* ===== verification/Timer.thy ===== *)
theory Timer
  imports Prelude "HOL-Library.Multiset"
begin

text \<open>
  The versioned timer of \<^verbatim>\<open>source/lawd/time.c\<close>: a binary heap of expirations, each with
  a task identifier and a version, ordered by \<open>law_timer_less_than\<close>. The heap itself is
  pubmt's \<^verbatim>\<open>pmt_bh\<close>, which is not in the repository: the record \<open>pmt_bh\<close> is
  a parameter, \<open>pmt_bh_spec\<close> what the sources rely on. The locale \<open>expiry_queue\<close>
  states the contract of the timer's operations; the worker's expiry loop is proved against it.
\<close>

type_synonym law_time_t = int

record law_timer_elem =
  te_expiration :: law_time_t
  te_identifier :: u64
  te_version :: u32

text \<open>The structure's fields; \<open>'b\<close> is the heap's buffer.\<close>

record 'b law_timer =
  tm_size :: nat
  tm_capacity :: nat
  tm_buffer :: 'b

definition law_timer_less_than :: "law_timer_elem \<Rightarrow> law_timer_elem \<Rightarrow> bool" where
  "law_timer_less_than a b \<longleftrightarrow> te_expiration a < te_expiration b"

lemma filter_mset_all: "\<forall>x \<in># M. P x \<Longrightarrow> filter_mset P M = M"
  by (induction M) auto

section \<open>The heap library\<close>

record 'b pmt_bh =
  bh_create :: "nat \<Rightarrow> 'b law_timer option"
  bh_insert :: "(law_timer_elem \<Rightarrow> law_timer_elem \<Rightarrow> bool) \<Rightarrow> 'b law_timer \<Rightarrow> law_timer_elem \<Rightarrow>
                'b law_timer option"
  bh_peek :: "(law_timer_elem \<Rightarrow> law_timer_elem \<Rightarrow> bool) \<Rightarrow> 'b law_timer \<Rightarrow> law_timer_elem option"
  bh_pop :: "(law_timer_elem \<Rightarrow> law_timer_elem \<Rightarrow> bool) \<Rightarrow> 'b law_timer \<Rightarrow>
             (law_timer_elem \<times> 'b law_timer) option"

definition strict_weak :: "('a \<Rightarrow> 'a \<Rightarrow> bool) \<Rightarrow> bool" where
  "strict_weak lt \<longleftrightarrow>
     (\<forall>x. \<not> lt x x) \<and> (\<forall>x y z. lt x y \<longrightarrow> lt y z \<longrightarrow> lt x z) \<and>
     (\<forall>x y z. \<not> lt x y \<longrightarrow> \<not> lt y x \<longrightarrow> \<not> lt y z \<longrightarrow> \<not> lt z y \<longrightarrow> \<not> lt x z)"

text \<open>
  The documented behaviour of a binary heap with a strict weak order: \<open>elems\<close> reads its
  contents and \<open>ok\<close> is its representation invariant. An insertion may fail for lack of
  memory; peek shows a least element and pop takes that element out.
\<close>

definition pmt_bh_spec ::
  "'b pmt_bh \<Rightarrow> ('b law_timer \<Rightarrow> law_timer_elem multiset) \<Rightarrow>
   ((law_timer_elem \<Rightarrow> law_timer_elem \<Rightarrow> bool) \<Rightarrow> 'b law_timer \<Rightarrow> bool) \<Rightarrow> bool" where
  "pmt_bh_spec B elems ok \<longleftrightarrow>
     (\<forall>lt. strict_weak lt \<longrightarrow>
       (\<forall>n t. bh_create B n = Some t \<longrightarrow> ok lt t \<and> elems t = {#}) \<and>
       (\<forall>t. ok lt t \<longrightarrow> tm_size t = size (elems t) \<and>
         (\<forall>e u. bh_insert B lt t e = Some u \<longrightarrow> ok lt u \<and> elems u = add_mset e (elems t)) \<and>
         (case bh_peek B lt t of
            None \<Rightarrow> elems t = {#} \<and> bh_pop B lt t = None
          | Some e \<Rightarrow> e \<in># elems t \<and> (\<forall>f \<in># elems t. \<not> lt f e) \<and>
              (\<exists>u. bh_pop B lt t = Some (e, u) \<and> ok lt u \<and> elems u = elems t - {#e#}))))"

lemma law_timer_less_than_weak: "strict_weak law_timer_less_than"
  unfolding strict_weak_def law_timer_less_than_def by auto

section \<open>Operations\<close>

definition law_timer_create :: "'b pmt_bh \<Rightarrow> nat \<Rightarrow> 'b law_timer option" where
  "law_timer_create B capacity = bh_create B capacity"

definition law_timer_insert ::
  "'b pmt_bh \<Rightarrow> law_time_t \<Rightarrow> u64 \<Rightarrow> u32 \<Rightarrow> 'b law_timer \<Rightarrow> bool \<times> 'b law_timer" where
  "law_timer_insert B expiration identifier version t =
     (case bh_insert B law_timer_less_than t
             \<lparr>te_expiration = expiration, te_identifier = identifier, te_version = version\<rparr> of
        None \<Rightarrow> (False, t)
      | Some u \<Rightarrow> (True, u))"

definition law_timer_peek :: "'b pmt_bh \<Rightarrow> 'b law_timer \<Rightarrow> (law_time_t \<times> u64 \<times> u32) option" where
  "law_timer_peek B t =
     (case bh_peek B law_timer_less_than t of
        None \<Rightarrow> None
      | Some e \<Rightarrow> Some (te_expiration e, te_identifier e, te_version e))"

definition law_timer_pop ::
  "'b pmt_bh \<Rightarrow> 'b law_timer \<Rightarrow> ((law_time_t \<times> u64 \<times> u32) \<times> 'b law_timer) option" where
  "law_timer_pop B t =
     (case bh_pop B law_timer_less_than t of
        None \<Rightarrow> None
      | Some (e, u) \<Rightarrow> Some ((te_expiration e, te_identifier e, te_version e), u))"

definition law_timer_size :: "'b law_timer \<Rightarrow> nat" where
  "law_timer_size t = tm_size t"

section \<open>The contract of the timer\<close>

text \<open>
  \<open>pending\<close> is the multiset of expirations in the timer, as triples. The loop
  \<open>drain\<close> takes out every expiration that is due, as the worker does at each tick.
\<close>

locale expiry_queue =
  fixes insert :: "law_time_t \<Rightarrow> u64 \<Rightarrow> u32 \<Rightarrow> 'q \<Rightarrow> bool \<times> 'q"
    and peek :: "'q \<Rightarrow> (law_time_t \<times> u64 \<times> u32) option"
    and pop :: "'q \<Rightarrow> ((law_time_t \<times> u64 \<times> u32) \<times> 'q) option"
    and count :: "'q \<Rightarrow> nat"
    and pending :: "'q \<Rightarrow> (law_time_t \<times> u64 \<times> u32) multiset"
    and invar :: "'q \<Rightarrow> bool"
  assumes insert_ok: "invar q \<Longrightarrow> insert e i v q = (b, r) \<Longrightarrow>
      invar r \<and> pending r = (if b then add_mset (e, i, v) (pending q) else pending q)"
    and count_ok: "invar q \<Longrightarrow> count q = size (pending q)"
    and peek_None: "invar q \<Longrightarrow> peek q = None \<longleftrightarrow> pending q = {#}"
    and peek_least: "invar q \<Longrightarrow> peek q = Some x \<Longrightarrow>
      x \<in># pending q \<and> (\<forall>y \<in># pending q. fst x \<le> fst y)"
    and pop_peek: "invar q \<Longrightarrow> peek q = Some x \<Longrightarrow>
      \<exists>r. pop q = Some (x, r) \<and> invar r \<and> pending r = pending q - {#x#}"
begin

fun drain :: "nat \<Rightarrow> law_time_t \<Rightarrow> 'q \<Rightarrow> (law_time_t \<times> u64 \<times> u32) list \<times> 'q" where
  "drain 0 now q = ([], q)"
| "drain (Suc n) now q =
     (case peek q of
        None \<Rightarrow> ([], q)
      | Some x \<Rightarrow> if fst x > now then ([], q)
          else (case pop q of
                  None \<Rightarrow> ([], q)
                | Some (y, r) \<Rightarrow> (case drain n now r of (ys, s) \<Rightarrow> (y # ys, s))))"

lemma drain_ok:
  assumes "invar q" and "size (pending q) \<le> n" and "drain n now q = (xs, r)"
  shows "invar r \<and> mset xs = filter_mset (\<lambda>x. fst x \<le> now) (pending q) \<and>
         pending r = filter_mset (\<lambda>x. \<not> fst x \<le> now) (pending q) \<and> sorted (map fst xs)"
  using assms
proof (induction n arbitrary: q xs r)
  case 0
  then show ?case by simp
next
  case (Suc n)
  show ?case
  proof (cases "peek q")
    case None
    with Suc.prems peek_None [of q] show ?thesis by simp
  next
    case (Some x)
    from peek_least [OF Suc.prems(1) Some] have x: "x \<in># pending q"
      and least: "\<forall>y \<in># pending q. fst x \<le> fst y" by blast+
    show ?thesis
    proof (cases "fst x > now")
      case True
      with least have "\<forall>y \<in># pending q. \<not> fst y \<le> now" by fastforce
      then have "filter_mset (\<lambda>x. fst x \<le> now) (pending q) = {#}"
        and "filter_mset (\<lambda>x. \<not> fst x \<le> now) (pending q) = pending q"
        by (auto simp: filter_mset_eq_conv)
      with True Some Suc.prems show ?thesis by simp
    next
      case False
      from pop_peek [OF Suc.prems(1) Some] obtain q' where
        q': "pop q = Some (x, q')" "invar q'" "pending q' = pending q - {#x#}" by blast
      obtain ys s where d: "drain n now q' = (ys, s)" by (cases "drain n now q'")
      have xs: "xs = x # ys" and r: "r = s"
        using False Some q'(1) d Suc.prems(3) by auto
      have "size (pending q') \<le> n"
        using Suc.prems(2) q'(3) x by (simp add: size_Diff_singleton)
      from Suc.IH [OF q'(2) this d] have IH: "invar s"
        "mset ys = filter_mset (\<lambda>x. fst x \<le> now) (pending q')"
        "pending s = filter_mset (\<lambda>x. \<not> fst x \<le> now) (pending q')" "sorted (map fst ys)"
        by blast+
      have p: "pending q = add_mset x (pending q')" using q'(3) x by simp
      have "\<forall>y \<in> set ys. fst x \<le> fst y"
      proof
        fix y assume "y \<in> set ys"
        then have "y \<in># mset ys" by simp
        then have "y \<in># pending q'" by (simp add: IH(2))
        with least p show "fst x \<le> fst y" by simp
      qed
      with IH p False show ?thesis by (simp add: xs r)
    qed
  qed
qed

end

section \<open>The heap-backed timer meets the contract\<close>

definition elem_triple :: "law_timer_elem \<Rightarrow> law_time_t \<times> u64 \<times> u32" where
  "elem_triple e = (te_expiration e, te_identifier e, te_version e)"

lemma elem_triple_eq: "elem_triple e = elem_triple f \<longleftrightarrow> e = f"
  by (cases e; cases f) (auto simp: elem_triple_def)

definition timer_pending ::
  "('b law_timer \<Rightarrow> law_timer_elem multiset) \<Rightarrow> 'b law_timer \<Rightarrow> (law_time_t \<times> u64 \<times> u32) multiset"
  where "timer_pending elems t = image_mset elem_triple (elems t)"

definition timer_inv where
  "timer_inv B elems ok t \<longleftrightarrow> pmt_bh_spec B elems ok \<and> ok law_timer_less_than t"

lemma timer_inv_facts:
  assumes "timer_inv B elems ok t"
  shows "tm_size t = size (elems t)"
    and "bh_insert B law_timer_less_than t e = Some u \<Longrightarrow>
           timer_inv B elems ok u \<and> elems u = add_mset e (elems t)"
    and "bh_peek B law_timer_less_than t = None \<Longrightarrow>
           elems t = {#} \<and> bh_pop B law_timer_less_than t = None"
    and "bh_peek B law_timer_less_than t = Some f \<Longrightarrow>
           f \<in># elems t \<and> (\<forall>g \<in># elems t. te_expiration f \<le> te_expiration g) \<and>
           (\<exists>u. bh_pop B law_timer_less_than t = Some (f, u) \<and> timer_inv B elems ok u \<and>
                elems u = elems t - {#f#})"
proof -
  have spec: "pmt_bh_spec B elems ok" and "ok law_timer_less_than t"
    using assms by (auto simp: timer_inv_def)
  then have *: "tm_size t = size (elems t) \<and>
         (\<forall>e u. bh_insert B law_timer_less_than t e = Some u \<longrightarrow>
            ok law_timer_less_than u \<and> elems u = add_mset e (elems t)) \<and>
         (case bh_peek B law_timer_less_than t of
            None \<Rightarrow> elems t = {#} \<and> bh_pop B law_timer_less_than t = None
          | Some e \<Rightarrow> e \<in># elems t \<and> (\<forall>f \<in># elems t. \<not> law_timer_less_than f e) \<and>
              (\<exists>u. bh_pop B law_timer_less_than t = Some (e, u) \<and> ok law_timer_less_than u \<and>
                   elems u = elems t - {#e#}))"
    using law_timer_less_than_weak unfolding pmt_bh_spec_def by blast
  from * show "tm_size t = size (elems t)" by blast
  from * spec show "bh_insert B law_timer_less_than t e = Some u \<Longrightarrow>
      timer_inv B elems ok u \<and> elems u = add_mset e (elems t)"
    by (simp add: timer_inv_def)
  from * show "bh_peek B law_timer_less_than t = None \<Longrightarrow>
      elems t = {#} \<and> bh_pop B law_timer_less_than t = None"
    by simp
  from * spec show "bh_peek B law_timer_less_than t = Some f \<Longrightarrow>
      f \<in># elems t \<and> (\<forall>g \<in># elems t. te_expiration f \<le> te_expiration g) \<and>
      (\<exists>u. bh_pop B law_timer_less_than t = Some (f, u) \<and> timer_inv B elems ok u \<and>
           elems u = elems t - {#f#})"
    by (auto simp: timer_inv_def law_timer_less_than_def not_less)
qed

interpretation tm: expiry_queue "law_timer_insert B" "law_timer_peek B" "law_timer_pop B"
  law_timer_size "timer_pending elems" "timer_inv B elems ok" for B elems ok
proof
  fix q e i v b r x
  assume inv: "timer_inv B elems ok q"
  note facts = timer_inv_facts [OF inv]
  show "timer_inv B elems ok r \<and>
      timer_pending elems r = (if b then add_mset (e, i, v) (timer_pending elems q)
                               else timer_pending elems q)"
    if "law_timer_insert B e i v q = (b, r)"
    using that inv facts(2)
    by (auto simp: law_timer_insert_def timer_pending_def elem_triple_def split: option.splits)
  show "law_timer_size q = size (timer_pending elems q)"
    using facts(1) by (simp add: law_timer_size_def timer_pending_def)
  show "law_timer_peek B q = None \<longleftrightarrow> timer_pending elems q = {#}"
    using facts(3,4)
    by (auto simp: law_timer_peek_def timer_pending_def split: option.splits)
  show "x \<in># timer_pending elems q \<and> (\<forall>y \<in># timer_pending elems q. fst x \<le> fst y)"
    if "law_timer_peek B q = Some x"
    using that facts(4)
    by (auto simp: law_timer_peek_def timer_pending_def elem_triple_def image_iff split: option.splits)
  show "\<exists>r. law_timer_pop B q = Some (x, r) \<and> timer_inv B elems ok r \<and>
      timer_pending elems r = timer_pending elems q - {#x#}"
    if "law_timer_peek B q = Some x"
  proof -
    from that obtain f where f: "bh_peek B law_timer_less_than q = Some f" "x = elem_triple f"
      by (auto simp: law_timer_peek_def elem_triple_def split: option.splits)
    with facts(4) obtain u where "bh_pop B law_timer_less_than q = Some (f, u)"
      "timer_inv B elems ok u" "elems u = elems q - {#f#}" "f \<in># elems q" by blast
    with f(2) show ?thesis
      by (auto simp: law_timer_pop_def timer_pending_def elem_triple_def image_mset_Diff)
  qed
qed

section \<open>An instance of the heap\<close>

text \<open>An unordered list, searched for its least element, meets the library's contract.\<close>

primrec least_by :: "('a \<Rightarrow> 'a \<Rightarrow> bool) \<Rightarrow> 'a \<Rightarrow> 'a list \<Rightarrow> 'a" where
  "least_by lt x [] = x"
| "least_by lt x (y # ys) = least_by lt (if lt y x then y else x) ys"

definition ref_bh :: "law_timer_elem list pmt_bh" where
  "ref_bh = \<lparr>
     bh_create = (\<lambda>n. Some \<lparr>tm_size = 0, tm_capacity = n, tm_buffer = []\<rparr>),
     bh_insert = (\<lambda>lt t e. Some (t\<lparr>tm_size := tm_size t + 1, tm_buffer := e # tm_buffer t\<rparr>)),
     bh_peek = (\<lambda>lt t. case tm_buffer t of [] \<Rightarrow> None | x # xs \<Rightarrow> Some (least_by lt x xs)),
     bh_pop = (\<lambda>lt t. case tm_buffer t of [] \<Rightarrow> None
                | x # xs \<Rightarrow> Some (least_by lt x xs,
                     t\<lparr>tm_size := tm_size t - 1, tm_buffer := remove1 (least_by lt x xs) (x # xs)\<rparr>))\<rparr>"

definition ref_bh_elems :: "law_timer_elem list law_timer \<Rightarrow> law_timer_elem multiset" where
  "ref_bh_elems t = mset (tm_buffer t)"

definition ref_bh_ok ::
  "(law_timer_elem \<Rightarrow> law_timer_elem \<Rightarrow> bool) \<Rightarrow> law_timer_elem list law_timer \<Rightarrow> bool" where
  "ref_bh_ok lt t \<longleftrightarrow> tm_size t = length (tm_buffer t)"

lemma least_by_in: "least_by lt x xs \<in> set (x # xs)"
proof (induction xs arbitrary: x)
  case Nil
  then show ?case by simp
next
  case (Cons y ys)
  from Cons [of "if lt y x then y else x"] show ?case by (auto split: if_splits)
qed

lemma least_by_least:
  assumes "strict_weak lt" and "y \<in> set (x # xs)"
  shows "\<not> lt y (least_by lt x xs)"
proof -
  have irr: "\<not> lt a a" and tr: "lt a b \<Longrightarrow> lt b c \<Longrightarrow> lt a c"
    and weak: "\<not> lt a b \<Longrightarrow> \<not> lt b a \<Longrightarrow> \<not> lt b c \<Longrightarrow> \<not> lt c b \<Longrightarrow> \<not> lt a c" for a b c
    using assms(1) unfolding strict_weak_def by blast+
  have mono: "\<not> lt a b \<Longrightarrow> \<not> lt b c \<Longrightarrow> \<not> lt a c" for a b c
    using tr weak by blast
  have start: "\<not> lt x (least_by lt x xs)" for x xs
  proof (induction xs arbitrary: x)
    case Nil
    then show ?case by (simp add: irr)
  next
    case (Cons z zs)
    have "\<not> lt x (if lt z x then z else x)" using irr [of x] tr [of x z x] by auto
    from mono [OF this Cons [of "if lt z x then z else x"]] show ?case
      by (simp only: least_by.simps not_False_eq_True)
  qed
  from assms(2) show ?thesis
  proof (induction xs arbitrary: x)
    case Nil
    then show ?case by (simp add: irr)
  next
    case (Cons z zs)
    show ?case
    proof (cases "y \<in> set zs")
      case True
      then show ?thesis using Cons.IH [of "if lt z x then z else x"] by simp
    next
      case False
      with Cons.prems have "y = x \<or> y = z" by simp
      then have "\<not> lt y (if lt z x then z else x)"
        using irr [of x] irr [of z] tr [of x z x] by auto
      from mono [OF this start [of "if lt z x then z else x" zs]] show ?thesis
        by (simp only: least_by.simps not_False_eq_True)
    qed
  qed
qed

lemma ref_bh_spec: "pmt_bh_spec ref_bh ref_bh_elems ref_bh_ok"
proof -
  have "case bh_peek ref_bh lt t of
            None \<Rightarrow> ref_bh_elems t = {#} \<and> bh_pop ref_bh lt t = None
          | Some e \<Rightarrow> e \<in># ref_bh_elems t \<and> (\<forall>f \<in># ref_bh_elems t. \<not> lt f e) \<and>
              (\<exists>u. bh_pop ref_bh lt t = Some (e, u) \<and> ref_bh_ok lt u \<and>
                   ref_bh_elems u = ref_bh_elems t - {#e#})"
    if lt: "strict_weak lt" and t: "ref_bh_ok lt t" for lt t
  proof (cases "tm_buffer t")
    case Nil
    then show ?thesis by (simp add: ref_bh_def ref_bh_elems_def)
  next
    case (Cons x xs)
    have i: "least_by lt x xs \<in> set (x # xs)" by (rule least_by_in)
    have l: "\<forall>f \<in> set (x # xs). \<not> lt f (least_by lt x xs)"
      using least_by_least [OF lt] by blast
    show ?thesis
      using Cons t i l
      by (simp add: ref_bh_def ref_bh_elems_def ref_bh_ok_def length_remove1 del: remove1.simps)
  qed
  then show ?thesis
    unfolding pmt_bh_spec_def
    by (auto simp: ref_bh_def ref_bh_elems_def ref_bh_ok_def)
qed

end
