(* ===== verification/Table.thy ===== *)
theory Table
  imports Prelude
begin

text \<open>
  The identifier table of \<^verbatim>\<open>source/lawd/table.c\<close>: a hash map from task identifiers to
  pointers. The map is pubmt's \<^verbatim>\<open>pmt_hm\<close>, a parameter (\<open>pmt_hm\<close>) with
  its documented behaviour (\<open>pmt_hm_spec\<close>); the callbacks the source gives it, the hash and
  the equality of keys, are modelled. The locale \<open>id_map\<close> states what the table's
  operations give a caller.
\<close>

section \<open>Nodes and callbacks\<close>

record law_table_node =
  tn_id :: u64
  tn_pointer :: ptr

record 'b law_table =
  tb_capacity :: nat
  tb_size :: nat
  tb_buffer :: 'b

text \<open>The callbacks read a key as an \<^verbatim>\<open>int\<close>: the low four bytes of an identifier.\<close>

definition law_table_equals :: "u64 \<Rightarrow> u64 \<Rightarrow> bool" where
  "law_table_equals a b \<longleftrightarrow> (ucast a :: u32) = ucast b"

text \<open>\<open>fnv\<close> is pubmt's hash of a byte string.\<close>

definition law_table_hash :: "(u8 list \<Rightarrow> u64) \<Rightarrow> u64 \<Rightarrow> u64" where
  "law_table_hash fnv a = fnv (take 4 (le_bytes 8 (unat a)))"

record hm_iface =
  hmi_key :: "law_table_node \<Rightarrow> u64"
  hmi_equals :: "u64 \<Rightarrow> u64 \<Rightarrow> bool"
  hmi_hash :: "u64 \<Rightarrow> u64"

definition law_table_iface :: "(u8 list \<Rightarrow> u64) \<Rightarrow> hm_iface" where
  "law_table_iface fnv =
     \<lparr>hmi_key = tn_id, hmi_equals = law_table_equals, hmi_hash = law_table_hash fnv\<rparr>"

section \<open>The hash map library\<close>

datatype hm_result = PMT_HM_SUCCESS | PMT_HM_EXISTS | PMT_HM_RESIZE

record 'b pmt_hm =
  hm_fnv :: "u8 list \<Rightarrow> u64"
  hm_create :: "hm_iface \<Rightarrow> nat \<Rightarrow> 'b law_table option"
  hm_insert :: "hm_iface \<Rightarrow> 'b law_table \<Rightarrow> law_table_node \<Rightarrow> hm_result \<times> 'b law_table"
  hm_lookup :: "hm_iface \<Rightarrow> 'b law_table \<Rightarrow> u64 \<Rightarrow> law_table_node option"
  hm_remove :: "hm_iface \<Rightarrow> 'b law_table \<Rightarrow> u64 \<Rightarrow> law_table_node option \<times> 'b law_table"

text \<open>An equality the map can use: an equivalence that the hash respects.\<close>

definition hm_iface_ok :: "hm_iface \<Rightarrow> bool" where
  "hm_iface_ok i \<longleftrightarrow>
     (\<forall>a. hmi_equals i a a) \<and> (\<forall>a b. hmi_equals i a b \<longrightarrow> hmi_equals i b a) \<and>
     (\<forall>a b c. hmi_equals i a b \<longrightarrow> hmi_equals i b c \<longrightarrow> hmi_equals i a c) \<and>
     (\<forall>a b. hmi_equals i a b \<longrightarrow> hmi_hash i a = hmi_hash i b)"

text \<open>
  \<open>nodes\<close> reads the nodes of a map, \<open>ok\<close> is its invariant: no two nodes have
  equal keys, the size counts them. Lookup and removal find the node with an equal key; insertion
  refuses a key that is there, and succeeds otherwise, unless the map had to grow and could not. It
  does not have to grow while its size is below three quarters of its capacity less one.
\<close>

definition pmt_hm_spec ::
  "'b pmt_hm \<Rightarrow> ('b law_table \<Rightarrow> law_table_node set) \<Rightarrow> (hm_iface \<Rightarrow> 'b law_table \<Rightarrow> bool) \<Rightarrow> bool"
  where
  "pmt_hm_spec H nodes ok \<longleftrightarrow>
     (\<forall>i. hm_iface_ok i \<longrightarrow>
       (\<forall>n t. hm_create H i n = Some t \<longrightarrow> ok i t \<and> nodes t = {} \<and> tb_capacity t = n) \<and>
       (\<forall>t. ok i t \<longrightarrow>
         finite (nodes t) \<and> tb_size t = card (nodes t) \<and>
         (\<forall>x \<in> nodes t. \<forall>y \<in> nodes t. hmi_equals i (hmi_key i x) (hmi_key i y) \<longrightarrow> x = y) \<and>
         (\<forall>k. case hm_lookup H i t k of
                None \<Rightarrow> (\<forall>x \<in> nodes t. \<not> hmi_equals i (hmi_key i x) k) \<and>
                  hm_remove H i t k = (None, t)
              | Some x \<Rightarrow> x \<in> nodes t \<and> hmi_equals i (hmi_key i x) k \<and>
                  (\<exists>u. hm_remove H i t k = (Some x, u) \<and> ok i u \<and> nodes u = nodes t - {x} \<and>
                       tb_capacity u = tb_capacity t)) \<and>
         (\<forall>x. if \<exists>y \<in> nodes t. hmi_equals i (hmi_key i y) (hmi_key i x)
              then hm_insert H i t x = (PMT_HM_EXISTS, t)
              else (\<exists>u. hm_insert H i t x = (PMT_HM_SUCCESS, u) \<and> ok i u \<and>
                        nodes u = insert x (nodes t) \<and>
                        (tb_size t + 1 < tb_capacity t * 3 div 4 \<longrightarrow> tb_capacity u = tb_capacity t)) \<or>
                   (hm_insert H i t x = (PMT_HM_RESIZE, t) \<and>
                        \<not> tb_size t + 1 < tb_capacity t * 3 div 4))))"

section \<open>Operations\<close>

definition law_table_create :: "'b pmt_hm \<Rightarrow> nat \<Rightarrow> 'b law_table option" where
  "law_table_create H capacity = hm_create H (law_table_iface (hm_fnv H)) capacity"

text \<open>The node is allocated; a failed allocation is not checked before it is written to.\<close>

definition law_table_insert ::
  "'b pmt_hm \<Rightarrow> bool \<Rightarrow> u64 \<Rightarrow> ptr \<Rightarrow> 'b law_table \<Rightarrow> (hm_result \<times> 'b law_table) run" where
  "law_table_insert H allocated i pointer t =
     require NULL_DEREF allocated
       (Inr (hm_insert H (law_table_iface (hm_fnv H)) t \<lparr>tn_id = i, tn_pointer = pointer\<rparr>))"

definition law_table_lookup :: "'b pmt_hm \<Rightarrow> u64 \<Rightarrow> 'b law_table \<Rightarrow> ptr" where
  "law_table_lookup H i t =
     (case hm_lookup H (law_table_iface (hm_fnv H)) t i of
        None \<Rightarrow> NULL | Some n \<Rightarrow> tn_pointer n)"

definition law_table_remove :: "'b pmt_hm \<Rightarrow> u64 \<Rightarrow> 'b law_table \<Rightarrow> ptr \<times> 'b law_table" where
  "law_table_remove H i t =
     (case hm_remove H (law_table_iface (hm_fnv H)) t i of
        (None, u) \<Rightarrow> (NULL, u) | (Some n, u) \<Rightarrow> (tn_pointer n, u))"

definition law_table_size :: "'b law_table \<Rightarrow> nat" where
  "law_table_size t = tb_size t"

definition law_table_capacity :: "'b law_table \<Rightarrow> nat" where
  "law_table_capacity t = tb_capacity t"

text \<open>The subtraction is on \<^verbatim>\<open>size_t\<close> and wraps below zero.\<close>

definition law_table_max_size :: "'b law_table \<Rightarrow> nat" where
  "law_table_max_size t = ((tb_capacity t * 3) mod 2 ^ 64 div 4 + (2 ^ 64 - 1)) mod 2 ^ 64"

text \<open>The capacity \<open>law_worker_create\<close> asks for.\<close>

definition worker_table_size :: "nat \<Rightarrow> nat" where
  "worker_table_size worker_tasks = (worker_tasks * 4) div 3 + 2"

lemma low_bytes: "take 4 (le_bytes 8 n) = le_bytes 4 (n mod 256 ^ 4)"
  using take_le_bytes [of 4 4 n] by (simp only: le_bytes_mod) simp

lemma low_word: "(ucast (a :: u64) :: u32) = ucast b \<longleftrightarrow> unat a mod 256 ^ 4 = unat b mod 256 ^ 4"
  by (simp add: word_unat_eq_iff unsigned_ucast_eq take_bit_eq_mod)

lemma law_table_hash_equals: "law_table_equals a b \<Longrightarrow> law_table_hash fnv a = law_table_hash fnv b"
  unfolding law_table_hash_def law_table_equals_def low_word low_bytes by (erule ssubst) (rule refl)

lemma law_table_iface_ok: "hm_iface_ok (law_table_iface fnv)"
  unfolding hm_iface_ok_def law_table_iface_def hm_iface.simps
  by (intro conjI allI impI)
     (erule law_table_hash_equals | simp only: law_table_equals_def)+

section \<open>What the table gives a caller\<close>

text \<open>
  \<open>entries\<close> reads the table as a map from the part of an identifier that the callbacks
  compare, \<open>low\<close>, to the identifier and pointer stored; \<open>room\<close> says that an
  insertion need not grow the table.
\<close>

locale id_map =
  fixes insert :: "u64 \<Rightarrow> ptr \<Rightarrow> 't \<Rightarrow> hm_result \<times> 't"
    and lookup :: "u64 \<Rightarrow> 't \<Rightarrow> ptr"
    and remove :: "u64 \<Rightarrow> 't \<Rightarrow> ptr \<times> 't"
    and count :: "'t \<Rightarrow> nat"
    and room :: "'t \<Rightarrow> bool"
    and low :: "u64 \<Rightarrow> 'k"
    and entries :: "'t \<Rightarrow> 'k \<Rightarrow> (u64 \<times> ptr) option"
    and invar :: "'t \<Rightarrow> bool"
  assumes lookup_entries: "invar t \<Longrightarrow>
      lookup i t = (case entries t (low i) of None \<Rightarrow> NULL | Some (_, p) \<Rightarrow> p)"
    and insert_exists: "invar t \<Longrightarrow> entries t (low i) \<noteq> None \<Longrightarrow> insert i p t = (PMT_HM_EXISTS, t)"
    and insert_fresh: "invar t \<Longrightarrow> entries t (low i) = None \<Longrightarrow> insert i p t = (r, u) \<Longrightarrow>
      (r = PMT_HM_SUCCESS \<and> invar u \<and> entries u = (entries t)(low i \<mapsto> (i, p))) \<or>
      (r = PMT_HM_RESIZE \<and> u = t \<and> \<not> room t)"
    and remove_entries: "invar t \<Longrightarrow> remove i t = (p, u) \<Longrightarrow>
      p = lookup i t \<and> invar u \<and> entries u = (entries t)(low i := None)"
    and count_entries: "invar t \<Longrightarrow> finite (dom (entries t)) \<and> count t = card (dom (entries t))"
begin

lemma insert_lookup:
  assumes "invar t" and "entries t (low i) = None" and "insert i p t = (PMT_HM_SUCCESS, u)"
  shows "lookup j u = (if low j = low i then p else lookup j t)"
  using insert_fresh [OF assms] assms(1) by (auto simp: lookup_entries)

lemma remove_lookup:
  assumes "invar t" and "remove i t = (p, u)"
  shows "lookup j u = (if low j = low i then NULL else lookup j t)"
  using remove_entries [OF assms] assms(1) by (auto simp: lookup_entries)

lemma count_insert:
  assumes "invar t" and "entries t (low i) = None" and "insert i p t = (PMT_HM_SUCCESS, u)"
  shows "count u = count t + 1"
  using insert_fresh [OF assms] count_entries [OF assms(1)] count_entries [of u] assms(2)
  by (auto simp: domIff)

text \<open>Insert then remove is the identity on the map, and hands the pointer back.\<close>

lemma insert_remove:
  assumes "invar t" and "entries t (low i) = None" and "insert i p t = (PMT_HM_SUCCESS, u)"
    and "remove i u = (q, v)"
  shows "q = p \<and> entries v = entries t"
proof -
  from insert_fresh [OF assms(1,2,3)] have u: "invar u" "entries u = (entries t)(low i \<mapsto> (i, p))"
    by auto
  from remove_entries [OF u(1) assms(4)] lookup_entries [OF u(1), of i] u(2) assms(2)
  show ?thesis by (auto simp: fun_eq_iff)
qed

end

section \<open>The hash table meets the contract\<close>

definition table_entries ::
  "('b law_table \<Rightarrow> law_table_node set) \<Rightarrow> 'b law_table \<Rightarrow> u32 \<Rightarrow> (u64 \<times> ptr) option" where
  "table_entries nodes t k =
     (if \<exists>n \<in> nodes t. ucast (tn_id n) = k
      then Some (let n = (THE n. n \<in> nodes t \<and> ucast (tn_id n) = k) in (tn_id n, tn_pointer n))
      else None)"

definition table_inv where
  "table_inv H nodes ok t \<longleftrightarrow> pmt_hm_spec H nodes ok \<and> ok (law_table_iface (hm_fnv H)) t"

definition table_insert :: "'b pmt_hm \<Rightarrow> u64 \<Rightarrow> ptr \<Rightarrow> 'b law_table \<Rightarrow> hm_result \<times> 'b law_table" where
  "table_insert H i p t = hm_insert H (law_table_iface (hm_fnv H)) t \<lparr>tn_id = i, tn_pointer = p\<rparr>"

lemma law_table_insert_eq: "law_table_insert H True i p t = Inr (table_insert H i p t)"
  by (simp add: law_table_insert_def table_insert_def)

lemma table_inv_facts:
  fixes H :: "'b pmt_hm"
  assumes "table_inv H nodes ok t"
  shows "finite (nodes t)" and "tb_size t = card (nodes t)"
    and "x \<in> nodes t \<Longrightarrow> y \<in> nodes t \<Longrightarrow> (ucast (tn_id x) :: u32) = ucast (tn_id y) \<Longrightarrow> x = y"
    and "hm_lookup H (law_table_iface (hm_fnv H)) t k = None \<Longrightarrow>
           (\<forall>x \<in> nodes t. (ucast (tn_id x) :: u32) \<noteq> ucast k) \<and>
           hm_remove H (law_table_iface (hm_fnv H)) t k = (None, t)"
    and "hm_lookup H (law_table_iface (hm_fnv H)) t k = Some x \<Longrightarrow>
           x \<in> nodes t \<and> (ucast (tn_id x) :: u32) = ucast k \<and>
           (\<exists>u. hm_remove H (law_table_iface (hm_fnv H)) t k = (Some x, u) \<and>
                table_inv H nodes ok u \<and> nodes u = nodes t - {x} \<and> tb_capacity u = tb_capacity t)"
    and "\<exists>y \<in> nodes t. (ucast (tn_id y) :: u32) = ucast i \<Longrightarrow>
           table_insert H i p t = (PMT_HM_EXISTS, t)"
    and "\<forall>y \<in> nodes t. (ucast (tn_id y) :: u32) \<noteq> ucast i \<Longrightarrow>
           (\<exists>u. table_insert H i p t = (PMT_HM_SUCCESS, u) \<and> table_inv H nodes ok u \<and>
                nodes u = insert \<lparr>tn_id = i, tn_pointer = p\<rparr> (nodes t) \<and>
                (tb_size t + 1 < tb_capacity t * 3 div 4 \<longrightarrow> tb_capacity u = tb_capacity t)) \<or>
           (table_insert H i p t = (PMT_HM_RESIZE, t) \<and> \<not> tb_size t + 1 < tb_capacity t * 3 div 4)"
proof -
  let ?i = "law_table_iface (hm_fnv H)"
  have spec: "pmt_hm_spec H nodes ok" and ok: "ok ?i t"
    using assms by (auto simp: table_inv_def)
  note all = spec [unfolded pmt_hm_spec_def, rule_format, OF law_table_iface_ok [of "hm_fnv H"]]
  note at = conjunct2 [OF all, rule_format, OF ok]
  have eq: "hmi_equals ?i a b \<longleftrightarrow> (ucast a :: u32) = ucast b" and key: "hmi_key ?i x = tn_id x" for a b x
    by (simp_all add: law_table_iface_def law_table_equals_def)
  show "finite (nodes t)" and "tb_size t = card (nodes t)" using at by blast+
  show "x = y" if "x \<in> nodes t" "y \<in> nodes t" "(ucast (tn_id x) :: u32) = ucast (tn_id y)"
    using at that unfolding eq key by blast
  from at have look: "case hm_lookup H ?i t k of
                None \<Rightarrow> (\<forall>x \<in> nodes t. \<not> hmi_equals ?i (hmi_key ?i x) k) \<and>
                  hm_remove H ?i t k = (None, t)
              | Some x \<Rightarrow> x \<in> nodes t \<and> hmi_equals ?i (hmi_key ?i x) k \<and>
                  (\<exists>u. hm_remove H ?i t k = (Some x, u) \<and> ok ?i u \<and> nodes u = nodes t - {x} \<and>
                       tb_capacity u = tb_capacity t)" by blast
  show "(\<forall>x \<in> nodes t. (ucast (tn_id x) :: u32) \<noteq> ucast k) \<and> hm_remove H ?i t k = (None, t)"
    if "hm_lookup H ?i t k = None"
    using look that by (simp add: eq key)
  show "x \<in> nodes t \<and> (ucast (tn_id x) :: u32) = ucast k \<and>
           (\<exists>u. hm_remove H ?i t k = (Some x, u) \<and>
                table_inv H nodes ok u \<and> nodes u = nodes t - {x} \<and> tb_capacity u = tb_capacity t)"
    if "hm_lookup H ?i t k = Some x"
    using look that spec by (simp add: eq key table_inv_def)
  note at2 = conjunct2 [OF conjunct2 [OF conjunct2 [OF conjunct2 [OF at]]], rule_format,
      of "\<lparr>tn_id = i, tn_pointer = p\<rparr>"]
  show "table_insert H i p t = (PMT_HM_EXISTS, t)"
    if "\<exists>y \<in> nodes t. (ucast (tn_id y) :: u32) = ucast i"
    using at2 that by (simp add: eq key table_insert_def)
  show "(\<exists>u. table_insert H i p t = (PMT_HM_SUCCESS, u) \<and> table_inv H nodes ok u \<and>
                nodes u = insert \<lparr>tn_id = i, tn_pointer = p\<rparr> (nodes t) \<and>
                (tb_size t + 1 < tb_capacity t * 3 div 4 \<longrightarrow> tb_capacity u = tb_capacity t)) \<or>
           (table_insert H i p t = (PMT_HM_RESIZE, t) \<and> \<not> tb_size t + 1 < tb_capacity t * 3 div 4)"
    if none: "\<forall>y \<in> nodes t. (ucast (tn_id y) :: u32) \<noteq> ucast i"
  proof -
    have "\<not> (\<exists>y \<in> nodes t. hmi_equals ?i (hmi_key ?i y) (hmi_key ?i \<lparr>tn_id = i, tn_pointer = p\<rparr>))"
      using none by (simp add: eq key)
    with at2 spec show ?thesis by (simp add: table_inv_def table_insert_def)
  qed
qed

lemma table_entries_Some:
  assumes "table_inv H nodes ok t"
  shows "table_entries nodes t k = Some (i, p) \<longleftrightarrow>
     \<lparr>tn_id = i, tn_pointer = p\<rparr> \<in> nodes t \<and> ucast i = k"
proof (cases "\<exists>n \<in> nodes t. ucast (tn_id n) = k")
  case True
  then obtain n where n: "n \<in> nodes t" "ucast (tn_id n) = k" by blast
  have the: "(THE m. m \<in> nodes t \<and> ucast (tn_id m) = k) = n"
    using n table_inv_facts(3) [OF assms] by (intro the_equality) auto
  have e: "table_entries nodes t k = Some (tn_id n, tn_pointer n)"
    using True by (simp add: table_entries_def the Let_def)
  show ?thesis
  proof
    assume "table_entries nodes t k = Some (i, p)"
    with e have "n = \<lparr>tn_id = i, tn_pointer = p\<rparr>" by (cases n) simp
    with n show "\<lparr>tn_id = i, tn_pointer = p\<rparr> \<in> nodes t \<and> ucast i = k" by simp
  next
    assume m: "\<lparr>tn_id = i, tn_pointer = p\<rparr> \<in> nodes t \<and> ucast i = k"
    then have "n = \<lparr>tn_id = i, tn_pointer = p\<rparr>"
      using n by (intro table_inv_facts(3) [OF assms]) simp_all
    with e show "table_entries nodes t k = Some (i, p)" by simp
  qed
next
  case False
  then have "table_entries nodes t k = None" by (simp add: table_entries_def)
  moreover have "\<not> (\<lparr>tn_id = i, tn_pointer = p\<rparr> \<in> nodes t \<and> ucast i = k)"
  proof
    assume "\<lparr>tn_id = i, tn_pointer = p\<rparr> \<in> nodes t \<and> ucast i = k"
    then have "\<exists>n \<in> nodes t. ucast (tn_id n) = k"
      by (intro bexI [of _ "\<lparr>tn_id = i, tn_pointer = p\<rparr>"]) auto
    with False show False by contradiction
  qed
  ultimately show ?thesis by simp
qed

lemma table_entries_None:
  "table_entries nodes t k = None \<longleftrightarrow> (\<forall>n \<in> nodes t. ucast (tn_id n) \<noteq> k)"
  by (auto simp: table_entries_def)

lemma table_entries_eqI:
  assumes "table_inv H nodes ok t"
    and "\<And>k i p. m k = Some (i, p) \<longleftrightarrow> \<lparr>tn_id = i, tn_pointer = p\<rparr> \<in> nodes t \<and> ucast i = k"
  shows "table_entries nodes t = m"
proof
  fix k
  have e: "table_entries nodes t k = Some x \<longleftrightarrow> m k = Some x" for x
    using table_entries_Some [OF assms(1)] assms(2) by (cases x) simp
  show "table_entries nodes t k = m k"
    using e [of "the (m k)"] e [of "the (table_entries nodes t k)"]
    by (cases "m k"; cases "table_entries nodes t k") simp_all
qed

interpretation tb: id_map "table_insert H" "law_table_lookup H" "law_table_remove H" law_table_size
  "\<lambda>t. tb_size t + 1 < tb_capacity t * 3 div 4" "\<lambda>i. ucast i :: u32" "table_entries nodes"
  "table_inv H nodes ok" for H nodes ok
proof
  fix t i p r u
  assume inv: "table_inv H nodes ok t"
  note facts = table_inv_facts [OF inv]
  note ent = table_entries_Some [OF inv]
  let ?i = "law_table_iface (hm_fnv H)"
  show look: "law_table_lookup H i t =
      (case table_entries nodes t (ucast i) of None \<Rightarrow> NULL | Some (_, p) \<Rightarrow> p)"
  proof (cases "hm_lookup H ?i t i")
    case None
    then have "table_entries nodes t (ucast i) = None"
      using facts(4) by (simp add: table_entries_None)
    with None show ?thesis by (simp add: law_table_lookup_def)
  next
    case (Some n)
    then have "n \<in> nodes t \<and> (ucast (tn_id n) :: u32) = ucast i"
      using facts(5) by blast
    then have "table_entries nodes t (ucast i) = Some (tn_id n, tn_pointer n)"
      by (cases n) (simp add: ent)
    with Some show ?thesis by (simp add: law_table_lookup_def)
  qed
  show "table_insert H i p t = (PMT_HM_EXISTS, t)" if "table_entries nodes t (ucast i) \<noteq> None"
    using that facts(6) by (auto simp: table_entries_None)
  show "(r = PMT_HM_SUCCESS \<and> table_inv H nodes ok u \<and>
          table_entries nodes u = (table_entries nodes t)(ucast i \<mapsto> (i, p))) \<or>
      (r = PMT_HM_RESIZE \<and> u = t \<and> \<not> tb_size t + 1 < tb_capacity t * 3 div 4)"
    if n: "table_entries nodes t (ucast i) = None" and e: "table_insert H i p t = (r, u)"
  proof -
    from n have fresh: "\<forall>y \<in> nodes t. (ucast (tn_id y) :: u32) \<noteq> ucast i"
      by (simp add: table_entries_None)
    from facts(7) [OF this, of p] e consider
      "r = PMT_HM_SUCCESS" "table_inv H nodes ok u" "nodes u = insert \<lparr>tn_id = i, tn_pointer = p\<rparr> (nodes t)"
      | "r = PMT_HM_RESIZE" "u = t" "\<not> tb_size t + 1 < tb_capacity t * 3 div 4"
      by auto
    then show ?thesis
    proof cases
      case 1
      have "table_entries nodes u = (table_entries nodes t)(ucast i \<mapsto> (i, p))"
        using 1 fresh ent by (intro table_entries_eqI [OF 1(2)]) auto
      with 1 show ?thesis by blast
    qed blast
  qed
  show "p = law_table_lookup H i t \<and> table_inv H nodes ok u \<and>
      table_entries nodes u = (table_entries nodes t)(ucast i := None)"
    if "law_table_remove H i t = (p, u)"
  proof (cases "hm_lookup H ?i t i")
    case None
    then have "table_entries nodes t (ucast i) = None"
      using facts(4) by (simp add: table_entries_None)
    with None facts(4) that inv show ?thesis
      by (auto simp: law_table_remove_def law_table_lookup_def)
  next
    case (Some n)
    with facts(5) obtain v where v: "n \<in> nodes t" "(ucast (tn_id n) :: u32) = ucast i"
      "hm_remove H ?i t i = (Some n, v)" "table_inv H nodes ok v" "nodes v = nodes t - {n}"
      by blast
    have "table_entries nodes v = (table_entries nodes t)(ucast i := None)"
    proof (rule table_entries_eqI [OF v(4)])
      fix k j q
      let ?n = "\<lparr>tn_id = j, tn_pointer = q\<rparr>"
      have "?n \<in> nodes t \<Longrightarrow> (ucast j :: u32) = ucast i \<longleftrightarrow> ?n = n"
        using facts(3) [of ?n n] v(1,2) by (cases n) auto
      then show "((table_entries nodes t)(ucast i := None)) k = Some (j, q) \<longleftrightarrow>
          ?n \<in> nodes v \<and> ucast j = k"
        unfolding v(5) by (cases "k = ucast i") (auto simp: ent)
    qed
    with Some v that show ?thesis
      by (auto simp: law_table_remove_def law_table_lookup_def)
  qed
  show "finite (dom (table_entries nodes t)) \<and>
      law_table_size t = card (dom (table_entries nodes t))"
  proof -
    have "dom (table_entries nodes t) = (\<lambda>n. ucast (tn_id n)) ` nodes t"
      using table_entries_None [of nodes t] by (auto simp: dom_def image_iff)
    moreover have "inj_on (\<lambda>n. ucast (tn_id n) :: u32) (nodes t)"
      using facts(3) by (auto intro: inj_onI)
    ultimately show ?thesis using facts(1,2) by (simp add: card_image law_table_size_def)
  qed
qed

section \<open>An instance of the map\<close>

text \<open>A list of nodes without equal keys meets the library's contract.\<close>

definition ref_hm :: "law_table_node list pmt_hm" where
  "ref_hm = \<lparr>
     hm_fnv = (\<lambda>bs. word_of_nat (le_value bs)),
     hm_create = (\<lambda>i n. Some \<lparr>tb_capacity = n, tb_size = 0, tb_buffer = []\<rparr>),
     hm_insert = (\<lambda>i t x.
       if \<exists>y \<in> set (tb_buffer t). hmi_equals i (hmi_key i y) (hmi_key i x) then (PMT_HM_EXISTS, t)
       else (PMT_HM_SUCCESS, t\<lparr>tb_size := tb_size t + 1, tb_buffer := x # tb_buffer t\<rparr>)),
     hm_lookup = (\<lambda>i t k. find (\<lambda>y. hmi_equals i (hmi_key i y) k) (tb_buffer t)),
     hm_remove = (\<lambda>i t k.
       case find (\<lambda>y. hmi_equals i (hmi_key i y) k) (tb_buffer t) of
         None \<Rightarrow> (None, t)
       | Some x \<Rightarrow> (Some x, t\<lparr>tb_size := tb_size t - 1, tb_buffer := remove1 x (tb_buffer t)\<rparr>))\<rparr>"

definition ref_hm_nodes :: "law_table_node list law_table \<Rightarrow> law_table_node set" where
  "ref_hm_nodes t = set (tb_buffer t)"

definition ref_hm_ok :: "hm_iface \<Rightarrow> law_table_node list law_table \<Rightarrow> bool" where
  "ref_hm_ok i t \<longleftrightarrow> tb_size t = length (tb_buffer t) \<and> distinct (tb_buffer t) \<and>
     (\<forall>x \<in> set (tb_buffer t). \<forall>y \<in> set (tb_buffer t).
        hmi_equals i (hmi_key i x) (hmi_key i y) \<longrightarrow> x = y)"

lemma ref_hm_found:
  assumes "ref_hm_ok i t"
  shows "case hm_lookup ref_hm i t k of
           None \<Rightarrow> (\<forall>x \<in> ref_hm_nodes t. \<not> hmi_equals i (hmi_key i x) k) \<and>
             hm_remove ref_hm i t k = (None, t)
         | Some x \<Rightarrow> x \<in> ref_hm_nodes t \<and> hmi_equals i (hmi_key i x) k \<and>
             (\<exists>u. hm_remove ref_hm i t k = (Some x, u) \<and> ref_hm_ok i u \<and>
                  ref_hm_nodes u = ref_hm_nodes t - {x} \<and> tb_capacity u = tb_capacity t)"
proof (cases "find (\<lambda>y. hmi_equals i (hmi_key i y) k) (tb_buffer t)")
  case None
  then have "\<forall>x \<in> set (tb_buffer t). \<not> hmi_equals i (hmi_key i x) k"
    by (simp add: find_None_iff)
  with None show ?thesis by (simp add: ref_hm_def ref_hm_nodes_def)
next
  case (Some x)
  then have x: "x \<in> set (tb_buffer t)" "hmi_equals i (hmi_key i x) k"
    by (auto simp: find_Some_iff)
  with Some assms show ?thesis
    by (simp add: ref_hm_def ref_hm_nodes_def ref_hm_ok_def length_remove1 set_remove1_eq)
qed

lemma ref_hm_inserts:
  assumes "ref_hm_ok i t" and "hm_iface_ok i"
    and "\<not> (\<exists>y \<in> ref_hm_nodes t. hmi_equals i (hmi_key i y) (hmi_key i x))"
  shows "\<exists>u. hm_insert ref_hm i t x = (PMT_HM_SUCCESS, u) \<and> ref_hm_ok i u \<and>
     ref_hm_nodes u = insert x (ref_hm_nodes t) \<and> tb_capacity u = tb_capacity t"
proof -
  have sym: "hmi_equals i a b \<Longrightarrow> hmi_equals i b a" and refl: "hmi_equals i a a" for a b
    using assms(2) unfolding hm_iface_ok_def by blast+
  have "x \<notin> set (tb_buffer t)" using assms(3) refl by (auto simp: ref_hm_nodes_def)
  moreover have "\<not> hmi_equals i (hmi_key i x) (hmi_key i y)" if "y \<in> set (tb_buffer t)" for y
    using assms(3) sym that by (auto simp: ref_hm_nodes_def)
  ultimately show ?thesis
    using assms(1,3) by (auto simp: ref_hm_def ref_hm_nodes_def ref_hm_ok_def)
qed

lemma ref_hm_spec: "pmt_hm_spec ref_hm ref_hm_nodes ref_hm_ok"
  unfolding pmt_hm_spec_def
proof (intro allI impI conjI)
  fix i x and t :: "law_table_node list law_table"
  assume i: "hm_iface_ok i"
  show "ref_hm_ok i t" "ref_hm_nodes t = {}" "tb_capacity t = n"
    if "hm_create ref_hm i n = Some t" for n
    using that by (auto simp: ref_hm_def ref_hm_ok_def ref_hm_nodes_def)
  assume ok: "ref_hm_ok i t"
  show "finite (ref_hm_nodes t)" by (simp add: ref_hm_nodes_def)
  show "tb_size t = card (ref_hm_nodes t)"
    using ok by (simp add: ref_hm_ok_def ref_hm_nodes_def distinct_card)
  show "\<forall>x \<in> ref_hm_nodes t. \<forall>y \<in> ref_hm_nodes t.
      hmi_equals i (hmi_key i x) (hmi_key i y) \<longrightarrow> x = y"
    using ok by (simp add: ref_hm_ok_def ref_hm_nodes_def)
  show "case hm_lookup ref_hm i t k of
           None \<Rightarrow> (\<forall>x \<in> ref_hm_nodes t. \<not> hmi_equals i (hmi_key i x) k) \<and>
             hm_remove ref_hm i t k = (None, t)
         | Some x \<Rightarrow> x \<in> ref_hm_nodes t \<and> hmi_equals i (hmi_key i x) k \<and>
             (\<exists>u. hm_remove ref_hm i t k = (Some x, u) \<and> ref_hm_ok i u \<and>
                  ref_hm_nodes u = ref_hm_nodes t - {x} \<and> tb_capacity u = tb_capacity t)" for k
    using ref_hm_found [OF ok] .
  show "if \<exists>y \<in> ref_hm_nodes t. hmi_equals i (hmi_key i y) (hmi_key i x)
        then hm_insert ref_hm i t x = (PMT_HM_EXISTS, t)
        else (\<exists>u. hm_insert ref_hm i t x = (PMT_HM_SUCCESS, u) \<and> ref_hm_ok i u \<and>
                  ref_hm_nodes u = insert x (ref_hm_nodes t) \<and>
                  (tb_size t + 1 < tb_capacity t * 3 div 4 \<longrightarrow> tb_capacity u = tb_capacity t)) \<or>
             (hm_insert ref_hm i t x = (PMT_HM_RESIZE, t) \<and>
                  \<not> tb_size t + 1 < tb_capacity t * 3 div 4)"
    using ref_hm_inserts [OF ok i] by (auto simp: ref_hm_def ref_hm_nodes_def)
qed

lemma ref_hm_grows: "fst (hm_insert ref_hm i t x) \<noteq> PMT_HM_RESIZE"
  by (simp add: ref_hm_def)

section \<open>Room\<close>

lemma worker_table_room:
  assumes "w < 2 ^ 60"
  shows "w + 1 \<le> worker_table_size w * 3 div 4" and "worker_table_size w * 3 < 2 ^ 64"
proof -
  have "w * 4 div 3 * 3 \<le> w * 4" and "w * 4 \<le> w * 4 div 3 * 3 + 2" by arith+
  then have "worker_table_size w * 3 \<le> 4 * w + 6" and "(w + 1) * 4 \<le> worker_table_size w * 3"
    unfolding worker_table_size_def by (simp_all add: algebra_simps)
  then show "w + 1 \<le> worker_table_size w * 3 div 4" and "worker_table_size w * 3 < 2 ^ 64"
    using assms by (simp_all add: less_eq_div_iff_mult_less_eq)
qed

text \<open>
  The capacity \<^verbatim>\<open>law_worker_create\<close> computes holds the worker's tasks: a table of
  \<^verbatim>\<open>worker_tasks * 4 / 3 + 2\<close> slots reports a maximum size of at least
  \<^verbatim>\<open>worker_tasks\<close>.
\<close>

theorem worker_table_fits:
  assumes "w < 2 ^ 60"
  shows "w \<le> law_table_max_size \<lparr>tb_capacity = worker_table_size w, tb_size = 0, tb_buffer = b\<rparr>"
proof -
  let ?c = "worker_table_size w"
  have "law_table_max_size \<lparr>tb_capacity = ?c, tb_size = 0, tb_buffer = b\<rparr> = ?c * 3 div 4 - 1"
    using worker_table_room [OF assms] by (simp add: law_table_max_size_def mod_if)
  with worker_table_room(1) [OF assms] show ?thesis by simp
qed

theorem worker_table_fits_witness:
  "4096 \<le> law_table_max_size \<lparr>tb_capacity = worker_table_size 4096, tb_size = 0, tb_buffer = ()\<rparr>"
  by (rule worker_table_fits) simp

text \<open>
  C26: the table confuses identifiers that agree in their low 32 bits: after an insertion under
  \<open>i\<close>, a lookup of any such \<open>j\<close> returns \<open>i\<close>'s pointer, and every other
  identifier reads as before.
\<close>

theorem table_lookup_inserted:
  assumes "table_inv H nodes ok t"
    and "table_entries nodes t (ucast i) = None"
    and "law_table_insert H True i p t = Inr (PMT_HM_SUCCESS, u)"
  shows "law_table_lookup H j u = (if ucast j = (ucast i :: u32) then p else law_table_lookup H j t)"
  using tb.insert_lookup [OF assms(1,2)] assms(3) by (simp add: law_table_insert_eq)

lemma ref_hm_empty_inv:
  "table_inv ref_hm ref_hm_nodes ref_hm_ok \<lparr>tb_capacity = n, tb_size = 0, tb_buffer = []\<rparr>"
  by (simp add: table_inv_def ref_hm_spec ref_hm_ok_def)

theorem table_lookup_inserted_witness:
  "law_table_lookup ref_hm (5 + 2 ^ 32)
     (snd (projr (law_table_insert ref_hm True 5 77 \<lparr>tb_capacity = 8, tb_size = 0, tb_buffer = []\<rparr>))) = 77"
proof -
  let ?t = "\<lparr>tb_capacity = 8, tb_size = 0, tb_buffer = []\<rparr> :: law_table_node list law_table"
  let ?u = "\<lparr>tb_capacity = 8, tb_size = 1, tb_buffer = [\<lparr>tn_id = 5, tn_pointer = 77\<rparr>]\<rparr>"
  have i: "law_table_insert ref_hm True 5 77 ?t = Inr (PMT_HM_SUCCESS, ?u)"
    by (simp add: law_table_insert_def ref_hm_def)
  have "table_entries ref_hm_nodes ?t (ucast (5 :: u64)) = None"
    by (simp add: table_entries_None ref_hm_nodes_def)
  from table_lookup_inserted [OF ref_hm_empty_inv this i] i show ?thesis
    by simp
qed

end
