(* ===== verification/World.thy ===== *)
theory World
  imports Slots Event Pipe Timer Table
begin

text \<open>
  The state of a running server and the program around it. \<open>law_server\<close> holds what the
  threads share: the configuration, the mode, the seed of identifiers, the pool, the workers'
  two queues, and the store of tasks; \<open>law_worker\<close> holds what one worker thread keeps
  for itself. \<open>lib\<close> gathers the parameters of the model: the three pubmt libraries, the
  readings of the clock, of \<^verbatim>\<open>rand\<close>, of the allocator and of epoll, and the code that
  tasks run.
\<close>

section \<open>Configuration and state\<close>

datatype law_network_protocol =
    LAW_PROTOCOL_UDP | LAW_PROTOCOL_UDP6 | LAW_PROTOCOL_TCP | LAW_PROTOCOL_TCP6
  | LAW_PROTOCOL_NONE

text \<open>A callback pointer of type \<^verbatim>\<open>law_callback_t\<close>: the server's own or a user's.\<close>

datatype 'cb callback = LAW_ACCEPT_CALLBACK | USER_CALLBACK 'cb

text \<open>\<open>cf_on_error\<close> says whether an error callback is set; \<open>cf_on_accept\<close> is the
  user's accept callback, if one is set.\<close>

record 'cb law_server_cfg =
  cf_protocol :: law_network_protocol
  cf_port :: int
  cf_backlog :: int
  cf_workers :: int
  cf_worker_tasks :: int
  cf_server_timeout :: int
  cf_worker_timeout :: int
  cf_stack :: nat
  cf_guards :: nat
  cf_server_events :: int
  cf_worker_events :: int
  cf_on_accept :: "'cb option"
  cf_on_error :: bool
  cf_data :: u64

definition law_server_sanity :: "'cb law_server_cfg" where
  "law_server_sanity =
     \<lparr>cf_protocol = LAW_PROTOCOL_TCP, cf_port = 80, cf_backlog = 8,
      cf_workers = 1, cf_worker_tasks = 4, cf_server_timeout = 5000, cf_worker_timeout = 5000,
      cf_stack = 0x100000, cf_guards = 0x1000, cf_server_events = 32, cf_worker_events = 32,
      cf_on_accept = None, cf_on_error = False, cf_data = 0\<rparr>"

text \<open>
  \<open>s_in_fds\<close> are the write ends of the workers' task queues, \<open>s_errs\<close> is the
  main thread's error stack. The fields \<open>s_heap\<close> (the tasks), \<open>s_draws\<close> (how many
  readings of the outside world were made), \<open>s_errors\<close> (the errors handed to the error
  callback) and \<open>s_closed\<close> (the connections that the acceptor closed) are the model's.
\<close>

record ('cb, 'u) law_server =
  s_cfg :: "'cb law_server_cfg"
  s_socket :: nat
  s_mode :: law_server_mode
  s_seed :: u64
  s_pool :: law_task_pool
  s_messages :: "pipe list"
  s_incoming :: "pipe list"
  s_in_fds :: "nat list"
  s_evo :: law_evo
  s_heap :: "('cb callback, 'u) heap"
  s_draws :: nat
  s_errors :: "sel_err_t list"
  s_errs :: law_err_stack
  s_closed :: "nat list"

record ('b, 't) law_worker =
  w_id :: nat
  w_mode :: law_server_mode
  w_ready :: ptr
  w_table :: "'b law_table"
  w_timer :: "'t law_timer"
  w_active :: ptr
  w_evo :: law_evo
  w_errs :: law_err_stack

text \<open>
  What a task can ask about itself and where it runs. A worker that runs no task has no active one.
\<close>

definition law_get_active_id :: "('b, 't) law_worker \<Rightarrow> ('cb, 'u) law_server \<Rightarrow> u64 run" where
  "law_get_active_id w s = require NULL_DEREF (w_active w \<noteq> NULL) (Inr (t_id (s_heap s (w_active w))))"

definition law_get_worker_id :: "('b, 't) law_worker \<Rightarrow> nat" where
  "law_get_worker_id w = w_id w"

definition law_get_server_socket :: "('cb, 'u) law_server \<Rightarrow> nat" where
  "law_get_server_socket s = s_socket s"

section \<open>The code of tasks\<close>

text \<open>
  A task's code is the user's. It is known by the next call it makes on the library, which names
  the state \<open>'u\<close> in which it goes on, and by what it does with the call's result.
\<close>

datatype ('cb, 'u) ucall =
    U_RETURN sel_err_t
  | U_EWAIT law_time_t "law_event list option" int 'u
  | U_ECTL nat law_ev_op u32 u32 u8 'u
  | U_SPAWN "'cb option" u64 'u
  | U_STOP 'u
  | U_ID 'u
  | U_MILLIS 'u

datatype uret =
    R_EWAIT "sel_err_t + int" "law_event list option"
  | R_ERR sel_err_t
  | R_ID u64
  | R_MILLIS law_time_t

text \<open>The failures of \<^verbatim>\<open>accept\<close> that the acceptor tells apart.\<close>

datatype accept_errno =
    A_EAGAIN | A_EWOULDBLOCK
  | A_EHOSTUNREACH | A_ENETUNREACH | A_ENONET | A_EHOSTDOWN | A_ENETDOWN
  | A_EPROTO | A_ENOPROTOOPT | A_ECONNABORTED | A_EOPNOTSUPP
  | A_OTHER

record ('cb, 'u, 'b, 't) lib =
  lib_ll :: "('cb callback, 'u) heap pmt_ll"
  lib_bh :: "'t pmt_bh"
  lib_hm :: "'b pmt_hm"
  lib_time :: "nat \<Rightarrow> law_time_t"
  lib_rand :: "nat \<Rightarrow> u32"
  lib_alloc :: "nat \<Rightarrow> bool"
  lib_ctl :: "nat \<Rightarrow> bool"
  lib_epoll :: "nat \<Rightarrow> law_time_t \<Rightarrow> law_event list option"
  lib_conn :: "nat \<Rightarrow> accept_errno + nat"
  lib_fcntl :: "nat \<Rightarrow> bool"
  lib_callback :: "'cb \<Rightarrow> u64 \<Rightarrow> ('cb, 'u) ucall"
  lib_accept :: "'cb \<Rightarrow> u64 \<Rightarrow> u64 \<Rightarrow> ('cb, 'u) ucall"
  lib_resume :: "'u \<Rightarrow> uret \<Rightarrow> ('cb, 'u) ucall"
  lib_ufuel :: nat

type_synonym ('cb, 'u, 'b, 't) st = "('b, 't) law_worker \<times> ('cb, 'u) law_server"

definition draw :: "('cb, 'u) law_server \<Rightarrow> ('cb, 'u) law_server" where
  "draw s = s\<lparr>s_draws := s_draws s + 1\<rparr>"

definition law_time_millis ::
  "('cb, 'u, 'b, 't) lib \<Rightarrow> ('cb, 'u) law_server \<Rightarrow> law_time_t \<times> ('cb, 'u) law_server" where
  "law_time_millis A s = (lib_time A (s_draws s), draw s)"

definition set_task ::
  "ptr \<Rightarrow> ('cb callback, 'u) law_task \<Rightarrow> ('cb, 'u) law_server \<Rightarrow> ('cb, 'u) law_server" where
  "set_task p t s = s\<lparr>s_heap := (s_heap s)(p := t)\<rparr>"

lemma set_task_simps [simp]:
  "s_heap (set_task p t s) = (s_heap s)(p := t)"
  "s_cfg (set_task p t s) = s_cfg s"
  "s_pool (set_task p t s) = s_pool s"
  "s_messages (set_task p t s) = s_messages s"
  "s_incoming (set_task p t s) = s_incoming s"
  "s_mode (set_task p t s) = s_mode s"
  "s_seed (set_task p t s) = s_seed s"
  "s_draws (set_task p t s) = s_draws s"
  "s_evo (set_task p t s) = s_evo s"
  "s_socket (set_task p t s) = s_socket s"
  "s_in_fds (set_task p t s) = s_in_fds s"
  "s_errs (set_task p t s) = s_errs s"
  "s_errors (set_task p t s) = s_errors s"
  by (simp_all add: set_task_def)

lemma draw_simps [simp]:
  "s_heap (draw s) = s_heap s"
  "s_cfg (draw s) = s_cfg s"
  "s_pool (draw s) = s_pool s"
  "s_messages (draw s) = s_messages s"
  "s_incoming (draw s) = s_incoming s"
  "s_mode (draw s) = s_mode s"
  "s_seed (draw s) = s_seed s"
  "s_errors (draw s) = s_errors s"
  "s_evo (draw s) = s_evo s"
  "s_socket (draw s) = s_socket s"
  "s_in_fds (draw s) = s_in_fds s"
  "s_errs (draw s) = s_errs s"
  by (simp_all add: draw_def)

section \<open>Identifiers and spawning\<close>

definition law_server_genid :: "('cb, 'u) law_server \<Rightarrow> u64 \<times> ('cb, 'u) law_server" where
  "law_server_genid s =
     (let seed = (s_seed s + 1) mod word_of_nat LAW_ID_MODULO in (seed, s\<lparr>s_seed := seed\<rparr>))"

text \<open>The loop of \<^verbatim>\<open>law_spawn\<close> over the workers' queues, from worker \<open>x\<close> on.\<close>

function spawn_push ::
  "nat \<Rightarrow> ptr \<Rightarrow> ('cb, 'u) law_server \<Rightarrow> (sel_err_t \<times> ('cb, 'u) law_server) run" where
  "spawn_push x task s =
     (if int x < cf_workers (s_cfg s) then
        bindE (law_task_queue_push task (s_incoming s ! x)) (\<lambda>(e, q).
          let s = s\<lparr>s_incoming := (s_incoming s)[x := q]\<rparr> in
          if e = LAW_ERR_WANTW then spawn_push (x + 1) task s
          else if e = LAW_ERR_OK then Inr (LAW_ERR_OK, s)
          else Inl SEL_HALT)
      else Inr (LAW_ERR_WANTW, s))"
  by pat_completeness auto
termination
  by (relation "measure (\<lambda>(x, _, s). nat (cf_workers (s_cfg s) - int x))") auto

declare spawn_push.simps [simp del]

definition law_spawn ::
  "('cb, 'u, 'b, 't) lib \<Rightarrow> 'cb option \<Rightarrow> u64 \<Rightarrow> ('cb, 'u) law_server \<Rightarrow>
   (sel_err_t \<times> ('cb, 'u) law_server) run" where
  "law_spawn A callback data s =
     require SEL_ASSERT (callback \<noteq> None)
      (bindE (law_task_pool_pop (lib_ll A) (s_pool s) (s_heap s)) (\<lambda>(task, pool, h).
        let s = s\<lparr>s_pool := pool, s_heap := h\<rparr> in
        if task = NULL then Inr (LAW_ERR_LIMIT, s)
        else
          let (i, s) = law_server_genid s;
              t = law_task_setup (lib_rand A (s_draws s)) i
                    (map_option USER_CALLBACK callback) data (s_heap s task)
          in spawn_push 0 task (draw (set_task task t s))))"

definition law_stop :: "('cb, 'u) law_server \<Rightarrow> sel_err_t \<times> ('cb, 'u) law_server" where
  "law_stop s =
     (if s_mode s \<noteq> LAW_MODE_RUNNING then (LAW_ERR_MODE, s)
      else (LAW_ERR_OK, s\<lparr>s_mode := LAW_MODE_STOPPING\<rparr>))"

end
