(* ===== verification/Server.thy ===== *)
theory Server
  imports World
begin

text \<open>
  The main thread of \<^verbatim>\<open>server.c\<close>: it accepts connections, hands each to a worker's queue as
  a task, and when the server stops waits for the tasks and tells the workers to leave. The body of
  each loop is a definition of its own, so that the theory \<open>System\<close> can interleave it with
  the workers.
\<close>

section \<open>Handing a task to a worker\<close>

text \<open>The loop over the queues starts at the worker that the task's identifier selects.\<close>

function dispatch_push ::
  "nat \<Rightarrow> ptr \<Rightarrow> ('cb, 'u) law_server \<Rightarrow> (bool \<times> ('cb, 'u) law_server) run" where
  "dispatch_push x task s =
     (if int x < cf_workers (s_cfg s) then
        let index = ((x + unat (t_id (s_heap s task))) mod 2 ^ 64) mod nat (cf_workers (s_cfg s)) in
        bindE (law_task_queue_push task (s_incoming s ! index)) (\<lambda>(e, q).
          let s = s\<lparr>s_incoming := (s_incoming s)[index := q]\<rparr> in
          if e = LAW_ERR_WANTW then dispatch_push (x + 1) task s
          else if e = LAW_ERR_OK then Inr (True, s)
          else Inl SEL_HALT)
      else Inr (False, s))"
  by pat_completeness auto
termination
  by (relation "measure (\<lambda>(x, _, s). nat (cf_workers (s_cfg s) - int x))") auto

declare dispatch_push.simps [simp del]

definition must_ctl ::
  "('cb, 'u, 'b, 't) lib \<Rightarrow> law_ev_op \<Rightarrow> u32 \<Rightarrow> nat \<Rightarrow> ('cb, 'u) law_server \<Rightarrow>
   ('cb, 'u) law_server run" where
  "must_ctl A op events d s =
     (case law_evo_ctl (lib_ctl A (s_draws s)) d op 0 \<lparr>ev_events = events, ev_data = 0\<rparr> (s_evo s) of
        (r, evo) \<Rightarrow> require SEL_TEST (r = 0) (Inr ((draw s)\<lparr>s_evo := evo\<rparr>)))"

primrec must_ctls ::
  "('cb, 'u, 'b, 't) lib \<Rightarrow> law_ev_op \<Rightarrow> u32 \<Rightarrow> nat list \<Rightarrow> ('cb, 'u) law_server \<Rightarrow>
   ('cb, 'u) law_server run" where
  "must_ctls A op events [] s = Inr s"
| "must_ctls A op events (d # ds) s = bindE (must_ctl A op events d s) (must_ctls A op events ds)"

text \<open>
  When every queue is full the main thread waits, for a tenth of a second at most, until one can
  be written to, and gives up the attempt.
\<close>

definition law_spawn_dispatch_once ::
  "('cb, 'u, 'b, 't) lib \<Rightarrow> ptr \<Rightarrow> ('cb, 'u) law_server \<Rightarrow> (bool \<times> ('cb, 'u) law_server) run" where
  "law_spawn_dispatch_once A task s =
     bindE (dispatch_push 0 task s) (\<lambda>(sent, s).
       if sent then Inr (True, s)
       else
         let fds = take (nat (cf_workers (s_cfg s))) (s_in_fds s) in
         bindE (must_ctl A LAW_EV_DEL 0 (s_socket s) s) (\<lambda>s.
         bindE (must_ctls A LAW_EV_ADD LAW_EV_W fds s) (\<lambda>s.
           case law_evo_wait (lib_epoll A (s_draws s) 100) (s_evo s) of
             (r, evo) \<Rightarrow>
               require SEL_TEST (r \<noteq> - 1)
                (bindE (must_ctl A LAW_EV_ADD LAW_EV_R (s_socket s) ((draw s)\<lparr>s_evo := evo\<rparr>)) (\<lambda>s.
                 bindE (must_ctls A LAW_EV_DEL 0 fds s) (\<lambda>s. Inr (False, s)))))))"

definition law_spawn_dispatch ::
  "('cb, 'u, 'b, 't) lib \<Rightarrow> nat \<Rightarrow> ptr \<Rightarrow> ('cb, 'u) law_server \<Rightarrow> ('cb, 'u) law_server run" where
  "law_spawn_dispatch A n task s =
     loop n (\<lambda>s. bindE (law_spawn_dispatch_once A task s) (\<lambda>(sent, s). Inr (\<not> sent, s))) s"

section \<open>Accepting\<close>

datatype accept_result = ACCEPT_EMPTY | ACCEPT_RETURN sel_err_t | ACCEPT_AGAIN | ACCEPT_TASK ptr

definition server_err ::
  "string \<Rightarrow> int \<Rightarrow> ('cb, 'u) law_server \<Rightarrow> ('cb, 'u) law_server run" where
  "server_err action line s =
     bindE (law_err_push LAW_ERR_SYS action ''source/lawd/server.c'' ''law_server_accept'' line
              (s_errs s)) (\<lambda>(_, es). Inr (s\<lparr>s_errs := es\<rparr>))"

text \<open>One round of \<^verbatim>\<open>law_server_accept\<close>, up to the dispatch of the task it has set up.\<close>

definition accept_failed ::
  "accept_errno \<Rightarrow> ('cb, 'u) law_server \<Rightarrow> (accept_result \<times> ('cb, 'u) law_server) run" where
  "accept_failed err s =
     (if err = A_EAGAIN \<or> err = A_EWOULDBLOCK then Inr (ACCEPT_RETURN LAW_ERR_OK, s)
      else
        bindE (server_err ''accept'' 1356 s) (\<lambda>s.
        require NULL_CALL (cf_on_error (s_cfg s))
         (let s = s\<lparr>s_errors := s_errors s @ [LAW_ERR_SYS]\<rparr> in
          case err of
            A_EHOSTUNREACH \<Rightarrow> Inr (ACCEPT_RETURN LAW_ERR_OK, s)
          | A_ENETUNREACH \<Rightarrow> Inr (ACCEPT_RETURN LAW_ERR_OK, s)
          | A_ENONET \<Rightarrow> Inr (ACCEPT_RETURN LAW_ERR_OK, s)
          | A_EHOSTDOWN \<Rightarrow> Inr (ACCEPT_RETURN LAW_ERR_OK, s)
          | A_ENETDOWN \<Rightarrow> Inr (ACCEPT_RETURN LAW_ERR_OK, s)
          | A_EPROTO \<Rightarrow> Inr (ACCEPT_AGAIN, s)
          | A_ENOPROTOOPT \<Rightarrow> Inr (ACCEPT_AGAIN, s)
          | A_ECONNABORTED \<Rightarrow> Inr (ACCEPT_AGAIN, s)
          | A_EOPNOTSUPP \<Rightarrow> Inr (ACCEPT_AGAIN, s)
          | _ \<Rightarrow> Inr (ACCEPT_RETURN LAW_ERR_SYS, s))))"

definition accept_close ::
  "nat \<Rightarrow> int \<Rightarrow> ('cb, 'u) law_server \<Rightarrow> (accept_result \<times> ('cb, 'u) law_server) run" where
  "accept_close d line s =
     bindE (server_err ''fcntl'' line (s\<lparr>s_closed := s_closed s @ [d]\<rparr>))
       (\<lambda>s. Inr (ACCEPT_RETURN LAW_ERR_SYS, s))"

definition accept_task ::
  "('cb, 'u, 'b, 't) lib \<Rightarrow> nat \<Rightarrow> ('cb, 'u) law_server \<Rightarrow>
   (accept_result \<times> ('cb, 'u) law_server) run" where
  "accept_task A d s =
     bindE (law_task_pool_pop (lib_ll A) (s_pool s) (s_heap s)) (\<lambda>(task, pool, h).
     require SEL_TEST (task \<noteq> NULL)
      (let s = s\<lparr>s_pool := pool, s_heap := h\<rparr>;
           (i, s) = law_server_genid s;
           t = law_task_setup (lib_rand A (s_draws s)) i (Some LAW_ACCEPT_CALLBACK) (word_of_nat d)
                 (s_heap s task)
       in Inr (ACCEPT_TASK task, draw (set_task task t s))))"

definition accept_once ::
  "('cb, 'u, 'b, 't) lib \<Rightarrow> ('cb, 'u) law_server \<Rightarrow> (accept_result \<times> ('cb, 'u) law_server) run" where
  "accept_once A s =
     bindE (law_task_pool_is_empty (s_pool s)) (\<lambda>empty.
     if empty then Inr (ACCEPT_EMPTY, s)
     else
       bindE (law_err_clear (s_errs s)) (\<lambda>es.
         let s = s\<lparr>s_errs := es\<rparr> in
         case lib_conn A (s_draws s) of
           Inl err \<Rightarrow> accept_failed err (draw s)
         | Inr d \<Rightarrow>
             let s = draw s; getfl = lib_fcntl A (s_draws s); s = draw s in
             if \<not> getfl then accept_close d 1381 s
             else
               let setfl = lib_fcntl A (s_draws s); s = draw s in
               if \<not> setfl then accept_close d 1386 s else accept_task A d s))"

definition accept_body ::
  "('cb, 'u, 'b, 't) lib \<Rightarrow> nat \<Rightarrow> sel_err_t \<times> ('cb, 'u) law_server \<Rightarrow>
   (bool \<times> sel_err_t \<times> ('cb, 'u) law_server) run" where
  "accept_body A n = (\<lambda>(e, s).
     bindE (accept_once A s) (\<lambda>(r, s).
       case r of
         ACCEPT_EMPTY \<Rightarrow> Inr (False, LAW_ERR_OK, s)
       | ACCEPT_RETURN e \<Rightarrow> Inr (False, e, s)
       | ACCEPT_AGAIN \<Rightarrow> Inr (True, e, s)
       | ACCEPT_TASK task \<Rightarrow>
           bindE (law_spawn_dispatch A n task s) (\<lambda>s. Inr (True, LAW_ERR_OK, s))))"

definition law_server_accept ::
  "('cb, 'u, 'b, 't) lib \<Rightarrow> nat \<Rightarrow> ('cb, 'u) law_server \<Rightarrow>
   (sel_err_t \<times> ('cb, 'u) law_server) run" where
  "law_server_accept A n s = loop n (accept_body A n) (LAW_ERR_OK, s)"

section \<open>Spinning and stopping\<close>

definition server_poll ::
  "('cb, 'u, 'b, 't) lib \<Rightarrow> ('cb, 'u) law_server \<Rightarrow> ('cb, 'u) law_server run" where
  "server_poll A s =
     (case law_evo_wait (lib_epoll A (s_draws s) (cf_server_timeout (s_cfg s))) (s_evo s) of
        (r, evo) \<Rightarrow> require SEL_TEST (r \<ge> 0) (Inr ((draw s)\<lparr>s_evo := evo\<rparr>)))"

definition spin_body ::
  "('cb, 'u, 'b, 't) lib \<Rightarrow> nat \<Rightarrow> sel_err_t \<times> ('cb, 'u) law_server \<Rightarrow>
   (bool \<times> sel_err_t \<times> ('cb, 'u) law_server) run" where
  "spin_body A n = (\<lambda>(e, s).
     if s_mode s \<noteq> LAW_MODE_RUNNING then Inr (False, e, s)
     else
       bindE (law_server_accept A n s) (\<lambda>(e, s).
         if e \<noteq> LAW_ERR_OK then Inr (False, e, s)
         else bindE (server_poll A s) (\<lambda>s. Inr (True, e, s))))"

primrec send_shutdown :: "nat \<Rightarrow> ('cb, 'u) law_server \<Rightarrow> ('cb, 'u) law_server run" where
  "send_shutdown 0 s = Inr s"
| "send_shutdown (Suc n) s =
     bindE (send_shutdown n s) (\<lambda>s.
     bindE (law_msg_queue_push \<lparr>msg_type = LAW_MSG_SHUTDOWN, msg_data = 0\<rparr> (s_messages s ! n))
       (\<lambda>(_, q). Inr (s\<lparr>s_messages := (s_messages s)[n := q]\<rparr>)))"

text \<open>\<open>n\<close> bounds the rounds of each of the loops.\<close>

definition law_server_spin ::
  "('cb, 'u, 'b, 't) lib \<Rightarrow> nat \<Rightarrow> ('cb, 'u) law_server \<Rightarrow> (sel_err_t \<times> ('cb, 'u) law_server) run"
  where
  "law_server_spin A n s =
     bindE (loop n (spin_body A n) (LAW_ERR_OK, s)) (\<lambda>(e, s).
     bindE (loop n (\<lambda>s. bindE (law_task_pool_is_full (s_pool s)) (\<lambda>full. Inr (\<not> full, s))) s) (\<lambda>s.
     bindE (send_shutdown (nat (cf_workers (s_cfg s))) s) (\<lambda>s. Inr (e, s))))"

text \<open>\<open>law_start\<close> up to the first statement of the main loop, and its last statements.\<close>

definition law_start_enter :: "('cb, 'u) law_server \<Rightarrow> (sel_err_t \<times> ('cb, 'u) law_server) run" where
  "law_start_enter s =
     bindE (law_err_clear (s_errs s)) (\<lambda>es.
       let s = s\<lparr>s_errs := es\<rparr> in
       if s_mode s \<noteq> LAW_MODE_CREATED then Inr (LAW_ERR_MODE, s)
       else Inr (LAW_ERR_OK, s\<lparr>s_mode := LAW_MODE_RUNNING\<rparr>))"

definition law_start_leave :: "('cb, 'u) law_server \<Rightarrow> ('cb, 'u) law_server" where
  "law_start_leave s = s\<lparr>s_mode := LAW_MODE_STOPPED\<rparr>"

section \<open>What dispatch does to the queues\<close>

text \<open>The queues of the server's workers, in the order of a search from worker \<open>x\<close> on.\<close>

definition queues_inv :: "('cb, 'u) law_server \<Rightarrow> bool" where
  "queues_inv s \<longleftrightarrow> 0 < cf_workers (s_cfg s) \<and>
     length (s_incoming s) = nat (cf_workers (s_cfg s)) \<and> (\<forall>q \<in> set (s_incoming s). task_queue_inv q)"

abbreviation queue_room :: "pipe \<Rightarrow> bool" where
  "queue_room q \<equiv> length (pp_data q) + 8 \<le> pp_cap q"

abbreviation queued :: "pipe \<Rightarrow> ptr list" where
  "queued \<equiv> pipe_items 8 ptr_of_bytes"

definition dispatch_index :: "nat \<Rightarrow> ptr \<Rightarrow> ('cb, 'u) law_server \<Rightarrow> nat" where
  "dispatch_index x task s =
     ((x + unat (t_id (s_heap s task))) mod 2 ^ 64) mod nat (cf_workers (s_cfg s))"

lemma dispatch_index_less: "queues_inv s \<Longrightarrow> dispatch_index x task s < length (s_incoming s)"
  by (simp add: dispatch_index_def queues_inv_def)

lemma dispatch_push_cases:
  assumes "queues_inv s"
  shows "(\<exists>y q. x \<le> y \<and> int y < cf_workers (s_cfg s) \<and>
            (\<forall>z. x \<le> z \<and> z < y \<longrightarrow> \<not> queue_room (s_incoming s ! dispatch_index z task s)) \<and>
            queue_room (s_incoming s ! dispatch_index y task s) \<and>
            task_queue_inv q \<and> queued q = queued (s_incoming s ! dispatch_index y task s) @ [task] \<and>
            dispatch_push x task s =
              Inr (True, s\<lparr>s_incoming := (s_incoming s)[dispatch_index y task s := q]\<rparr>)) \<or>
         ((\<forall>z. x \<le> z \<and> int z < cf_workers (s_cfg s) \<longrightarrow>
              \<not> queue_room (s_incoming s ! dispatch_index z task s)) \<and>
          dispatch_push x task s = Inr (False, s))"
proof (induction "nat (cf_workers (s_cfg s)) - x" arbitrary: x)
  case 0
  then have "\<not> int x < cf_workers (s_cfg s)" by linarith
  then show ?case by (auto simp: dispatch_push.simps [of x])
next
  case (Suc n)
  then have x: "int x < cf_workers (s_cfg s)" by linarith
  let ?i = "dispatch_index x task s"
  have q: "task_queue_inv (s_incoming s ! ?i)"
    using assms dispatch_index_less [OF assms] by (simp add: queues_inv_def)
  show ?case
  proof (cases "queue_room (s_incoming s ! ?i)")
    case True
    from tq.push_room [OF q True, of task] obtain r where
      r: "law_task_queue_push task (s_incoming s ! ?i) = Inr (LAW_ERR_OK, r)" "task_queue_inv r"
      "queued r = queued (s_incoming s ! ?i) @ [task]" by blast
    have "dispatch_push x task s = Inr (True, s\<lparr>s_incoming := (s_incoming s)[?i := r]\<rparr>)"
      using x r(1) by (simp add: dispatch_push.simps [of x] dispatch_index_def Let_def)
    with True x r show ?thesis by (intro disjI1 exI [of _ x] exI [of _ r]) simp
  next
    case False
    have step: "dispatch_push x task s = dispatch_push (x + 1) task s"
      using x tq.push_full [OF q False, of task]
      by (simp add: dispatch_push.simps [of x] dispatch_index_def Let_def)
    have "n = nat (cf_workers (s_cfg s)) - (x + 1)" using Suc.hyps(2) by simp
    from Suc.hyps(1) [OF this] show ?thesis
    proof (elim disjE exE conjE)
      fix y r
      assume y: "x + 1 \<le> y" "int y < cf_workers (s_cfg s)"
        "\<forall>z. x + 1 \<le> z \<and> z < y \<longrightarrow> \<not> queue_room (s_incoming s ! dispatch_index z task s)"
        "queue_room (s_incoming s ! dispatch_index y task s)" "task_queue_inv r"
        "queued r = queued (s_incoming s ! dispatch_index y task s) @ [task]"
        "dispatch_push (x + 1) task s =
           Inr (True, s\<lparr>s_incoming := (s_incoming s)[dispatch_index y task s := r]\<rparr>)"
      have "\<not> queue_room (s_incoming s ! dispatch_index z task s)" if "x \<le> z" "z < y" for z
        using y(3) that False by (cases "z = x") auto
      with y step show ?thesis by (intro disjI1 exI [of _ y] exI [of _ r]) simp
    next
      assume n: "\<forall>z. x + 1 \<le> z \<and> int z < cf_workers (s_cfg s) \<longrightarrow>
          \<not> queue_room (s_incoming s ! dispatch_index z task s)"
        and "dispatch_push (x + 1) task s = Inr (False, s)"
      moreover have "\<not> queue_room (s_incoming s ! dispatch_index z task s)"
        if "x \<le> z" "int z < cf_workers (s_cfg s)" for z
        using n that False by (cases "z = x") auto
      ultimately show ?thesis using step by auto
    qed
  qed
qed

text \<open>
  C16: the search for a worker never stops the process and never loses or duplicates a task: it
  appends the task to the queue of the first worker with room, in the cyclic order that starts at
  the worker the identifier selects, and changes nothing else; or no worker has room, it reports
  that, and changes nothing at all.
\<close>

theorem dispatch_push_first_room:
  assumes "queues_inv s"
  shows "(\<exists>y q. int y < cf_workers (s_cfg s) \<and>
            (\<forall>z < y. \<not> queue_room (s_incoming s ! dispatch_index z task s)) \<and>
            task_queue_inv q \<and> queued q = queued (s_incoming s ! dispatch_index y task s) @ [task] \<and>
            dispatch_push 0 task s =
              Inr (True, s\<lparr>s_incoming := (s_incoming s)[dispatch_index y task s := q]\<rparr>)) \<or>
         ((\<forall>z. int z < cf_workers (s_cfg s) \<longrightarrow>
              \<not> queue_room (s_incoming s ! dispatch_index z task s)) \<and>
          dispatch_push 0 task s = Inr (False, s))"
proof -
  from dispatch_push_cases [OF assms, of 0 task] show ?thesis
  proof (elim disjE exE conjE)
    fix y q
    assume "int y < cf_workers (s_cfg s)"
      "\<forall>z. 0 \<le> z \<and> z < y \<longrightarrow> \<not> queue_room (s_incoming s ! dispatch_index z task s)"
      "task_queue_inv q" "queued q = queued (s_incoming s ! dispatch_index y task s) @ [task]"
      "dispatch_push 0 task s =
         Inr (True, s\<lparr>s_incoming := (s_incoming s)[dispatch_index y task s := q]\<rparr>)"
    then show ?thesis by (intro disjI1 exI [of _ y] exI [of _ q]) simp
  qed simp
qed

end
