(* ===== verification/Worker.thy ===== *)
theory Worker
  imports World
begin

text \<open>
  A worker thread: the calls a task makes while it runs (\<open>law_ectl\<close>, the two halves of
  \<open>law_ewait\<close>), \<open>law_worker_dispatch\<close>, which runs the ready tasks, and
  \<open>law_worker_tick\<close>, one round of the worker's loop. Each \<^verbatim>\<open>while\<close> of the sources is a
  \<open>loop\<close> over a body defined on its own; the number of rounds given to it is read off the
  state, and the lemmas of the theory \<open>WorkerInv\<close> show that it is never used up.
\<close>

section \<open>Calls of the running task\<close>

definition law_ectl ::
  "('cb, 'u, 'b, 't) lib \<Rightarrow> nat \<Rightarrow> law_ev_op \<Rightarrow> u32 \<Rightarrow> u32 \<Rightarrow> u8 \<Rightarrow>
   ('cb, 'u, 'b, 't) st \<Rightarrow> (sel_err_t \<times> ('cb, 'u, 'b, 't) st) run" where
  "law_ectl A d op flags events data = (\<lambda>(w, s).
     bindE (law_slot_encode \<lparr>slot_id = t_id (s_heap s (w_active w)), slot_data = data\<rparr>) (\<lambda>code.
       case law_evo_ctl (lib_ctl A (s_draws s)) d op flags
              \<lparr>ev_events = events, ev_data = code\<rparr> (w_evo w) of
         (r, evo) \<Rightarrow>
           Inr (if r = - 1 then LAW_ERR_SYS else LAW_ERR_OK, w\<lparr>w_evo := evo\<rparr>, draw s)))"

text \<open>\<open>law_ewait\<close> up to the yield; \<open>Inl\<close> is its early return.\<close>

definition law_ewait ::
  "('cb, 'u, 'b, 't) lib \<Rightarrow> law_time_t \<Rightarrow> law_event list option \<Rightarrow> int \<Rightarrow>
   ('cb, 'u, 'b, 't) st \<Rightarrow> ((sel_err_t + unit) \<times> ('cb, 'u, 'b, 't) st) run" where
  "law_ewait A millis events max_events = (\<lambda>(w, s).
     require SEL_ASSERT (w_active w \<noteq> NULL \<and> 0 \<le> millis)
      (let task = w_active w;
           (now, s) = law_time_millis A s;
           (ok, tmr) = law_timer_insert (lib_bh A) (now + millis) (t_id (s_heap s task))
                         (t_version (s_heap s task)) (w_timer w);
           w = w\<lparr>w_timer := tmr\<rparr>
       in if \<not> ok then Inr (Inl LAW_ERR_OOM, w, s)
          else Inr (Inr (), w,
                 set_task task ((s_heap s task)\<lparr>t_max_events := max_events, t_num_events := 0,
                                                t_events := events\<rparr>) s)))"

text \<open>
  \<open>law_ewait\<close> from the yield on: the number of events, and the user's array, which the
  worker has filled meanwhile.
\<close>

definition law_ewait_resumed ::
  "('cb, 'u, 'b, 't) st \<Rightarrow> int \<times> law_event list option \<times> ('cb, 'u, 'b, 't) st" where
  "law_ewait_resumed = (\<lambda>(w, s).
     let t = s_heap s (w_active w)
     in (t_num_events t, t_events t, w,
         set_task (w_active w) (t\<lparr>t_max_events := 0, t_num_events := 0, t_events := None\<rparr>) s))"

text \<open>
  The coroutine runs until it yields or its callback returns; the result is the value that
  \<^verbatim>\<open>law_cor_call\<close> or \<^verbatim>\<open>law_cor_resume\<close> gives the worker. A yield gives the number of
  \<^verbatim>\<open>LAW_MODE_SUSPENDED\<close>, and a callback may return any number.
\<close>

definition SIGNAL_SUSPENDED :: sel_err_t where
  "SIGNAL_SUSPENDED = ERR_OTHER 6"

fun law_cor_run ::
  "('cb, 'u, 'b, 't) lib \<Rightarrow> nat \<Rightarrow> ('cb, 'u) ucall \<Rightarrow> ('cb, 'u, 'b, 't) st \<Rightarrow>
   (sel_err_t \<times> ('cb, 'u, 'b, 't) st) run" where
  "law_cor_run A 0 c ws = Inl NO_RETURN"
| "law_cor_run A (Suc n) (U_RETURN e) ws = Inr (e, ws)"
| "law_cor_run A (Suc n) (U_EWAIT millis events k u) ws =
     bindE (law_ewait A millis events k ws) (\<lambda>(r, w, s).
       case r of
         Inl e \<Rightarrow> law_cor_run A n (lib_resume A u (R_EWAIT (Inl e) events)) (w, s)
       | Inr _ \<Rightarrow> Inr (SIGNAL_SUSPENDED, w,
                   set_task (w_active w) ((s_heap s (w_active w))\<lparr>t_callee := Some u\<rparr>) s))"
| "law_cor_run A (Suc n) (U_ECTL d op flags events data u) ws =
     bindE (law_ectl A d op flags events data ws) (\<lambda>(e, ws).
       law_cor_run A n (lib_resume A u (R_ERR e)) ws)"
| "law_cor_run A (Suc n) (U_SPAWN callback data u) (w, s) =
     bindE (law_spawn A callback data s) (\<lambda>(e, s).
       law_cor_run A n (lib_resume A u (R_ERR e)) (w, s))"
| "law_cor_run A (Suc n) (U_STOP u) (w, s) =
     (case law_stop s of (e, s) \<Rightarrow> law_cor_run A n (lib_resume A u (R_ERR e)) (w, s))"
| "law_cor_run A (Suc n) (U_ID u) (w, s) =
     law_cor_run A n (lib_resume A u (R_ID (t_id (s_heap s (w_active w))))) (w, s)"
| "law_cor_run A (Suc n) (U_MILLIS u) (w, s) =
     (case law_time_millis A s of (now, s) \<Rightarrow> law_cor_run A n (lib_resume A u (R_MILLIS now)) (w, s))"

definition law_accept_callback ::
  "('cb, 'u, 'b, 't) lib \<Rightarrow> ('cb, 'u) law_server \<Rightarrow> u64 \<Rightarrow> ('cb, 'u) ucall run" where
  "law_accept_callback A s data =
     (case cf_on_accept (s_cfg s) of
        None \<Rightarrow> Inl NULL_CALL
      | Some f \<Rightarrow> Inr (lib_accept A f data (cf_data (s_cfg s))))"

definition law_task_cor_trampoline ::
  "('cb, 'u, 'b, 't) lib \<Rightarrow> ('cb, 'u, 'b, 't) st \<Rightarrow> ('cb, 'u) ucall run" where
  "law_task_cor_trampoline A = (\<lambda>(w, s).
     let task = s_heap s (w_active w) in
     case t_callback task of
       None \<Rightarrow> Inl NULL_CALL
     | Some LAW_ACCEPT_CALLBACK \<Rightarrow> law_accept_callback A s (t_data task)
     | Some (USER_CALLBACK f) \<Rightarrow> Inr (lib_callback A f (t_data task)))"

section \<open>Dispatch\<close>

text \<open>The \<^verbatim>\<open>switch\<close>: a new task's callback is called, a suspended one goes on after its yield.\<close>

definition dispatch_run ::
  "('cb, 'u, 'b, 't) lib \<Rightarrow> ('cb, 'u, 'b, 't) st \<Rightarrow> (sel_err_t \<times> ('cb, 'u, 'b, 't) st) run" where
  "dispatch_run A = (\<lambda>(w, s).
     let task = w_active w; t = s_heap s task;
         running = (w, set_task task (t\<lparr>t_mode := LAW_MODE_RUNNING\<rparr>) s) in
     case t_mode t of
       LAW_MODE_SPAWNED \<Rightarrow>
         bindE (law_task_cor_trampoline A running) (\<lambda>c. law_cor_run A (lib_ufuel A) c running)
     | LAW_MODE_SUSPENDED \<Rightarrow>
         (case t_callee t of
            None \<Rightarrow> Inl NULL_CALL
          | Some u \<Rightarrow>
              (case law_ewait_resumed running of
                 (k, events, ws) \<Rightarrow>
                   law_cor_run A (lib_ufuel A) (lib_resume A u (R_EWAIT (Inr k) events)) ws))
     | _ \<Rightarrow> Inl SEL_HALT)"

definition dispatch_finish ::
  "('cb, 'u, 'b, 't) lib \<Rightarrow> ptr \<Rightarrow> ('cb, 'u, 'b, 't) st \<Rightarrow> ('cb, 'u, 'b, 't) st run" where
  "dispatch_finish A task = (\<lambda>(w, s).
     case law_table_remove (lib_hm A) (t_id (s_heap s task)) (w_table w) of
       (p, tbl) \<Rightarrow>
         require SEL_TEST (p = task)
          (bindE (law_task_pool_push (lib_ll A) (s_pool s) task (s_heap s)) (\<lambda>(pool, h).
             Inr (w\<lparr>w_table := tbl\<rparr>, s\<lparr>s_pool := pool, s_heap := h\<rparr>))))"

definition dispatch_body ::
  "('cb, 'u, 'b, 't) lib \<Rightarrow> ('cb, 'u, 'b, 't) st \<Rightarrow> (bool \<times> ('cb, 'u, 'b, 't) st) run" where
  "dispatch_body A = (\<lambda>(w, s).
     case law_ready_set_pop (lib_ll A) (w_ready w) (s_heap s) of
       (task, rset, h) \<Rightarrow>
         let w = w\<lparr>w_ready := rset\<rparr>; s = s\<lparr>s_heap := h\<rparr> in
         if task = NULL then Inr (False, w, s)
         else
           require SEL_ASSERT (t_next (h task) = NULL \<and> \<not> t_mark (h task))
            (bindE (dispatch_run A (w\<lparr>w_active := task\<rparr>,
                      set_task task ((h task)\<lparr>t_version := t_version (h task) + 1\<rparr>) s))
              (\<lambda>(signal, w, s).
                 if signal = SIGNAL_SUSPENDED then
                   Inr (True, w, set_task task ((s_heap s task)\<lparr>t_mode := LAW_MODE_SUSPENDED\<rparr>) s)
                 else bindE (dispatch_finish A task (w, s)) (\<lambda>ws. Inr (True, ws)))))"

definition law_worker_dispatch ::
  "('cb, 'u, 'b, 't) lib \<Rightarrow> ('cb, 'u, 'b, 't) st \<Rightarrow> ('cb, 'u, 'b, 't) st run" where
  "law_worker_dispatch A ws = loop (Suc (law_table_size (w_table (fst ws)))) (dispatch_body A) ws"

section \<open>One round of the worker\<close>

text \<open>An event for a task: it goes to the task's array, and the task becomes ready.\<close>

definition tick_wake ::
  "('cb, 'u, 'b, 't) lib \<Rightarrow> law_event \<Rightarrow> ptr \<Rightarrow> ('cb, 'u, 'b, 't) st \<Rightarrow> ('cb, 'u, 'b, 't) st run"
  where
  "tick_wake A ev task = (\<lambda>(w, s).
     bindE (law_task_push_event ev (s_heap s task)) (\<lambda>t.
     bindE (law_ready_set_push (lib_ll A) (w_ready w) task ((s_heap s)(task := t))) (\<lambda>(rset, h).
       Inr (w\<lparr>w_ready := rset\<rparr>, s\<lparr>s_heap := h\<rparr>))))"

definition tick_report ::
  "sel_err_t \<Rightarrow> int \<Rightarrow> ('cb, 'u, 'b, 't) st \<Rightarrow> ('cb, 'u, 'b, 't) st run" where
  "tick_report e line = (\<lambda>(w, s).
     bindE (law_err_push e ''law_table_lookup'' ''source/lawd/server.c'' ''law_worker_tick'' line
              (w_errs w)) (\<lambda>(_, es).
       require NULL_CALL (cf_on_error (s_cfg s))
        (Inr (w\<lparr>w_errs := es\<rparr>, s\<lparr>s_errors := s_errors s @ [e]\<rparr>))))"

definition tick_timeout ::
  "('cb, 'u, 'b, 't) lib \<Rightarrow> ('cb, 'u, 'b, 't) st \<Rightarrow> law_time_t \<times> ('cb, 'u, 'b, 't) st" where
  "tick_timeout A = (\<lambda>(w, s).
     let timeout = cf_worker_timeout (s_cfg s) in
     case law_timer_peek (lib_bh A) (w_timer w) of
       None \<Rightarrow> (timeout, w, s)
     | Some (min_expiry, _, _) \<Rightarrow>
         (case law_time_millis A s of
            (now, s) \<Rightarrow>
              (if min_expiry \<le> now then 0 else min timeout (min_expiry - now), w, s)))"

definition expire_body ::
  "('cb, 'u, 'b, 't) lib \<Rightarrow> law_time_t \<Rightarrow> ('cb, 'u, 'b, 't) st \<Rightarrow>
   (bool \<times> ('cb, 'u, 'b, 't) st) run" where
  "expire_body A now = (\<lambda>(w, s).
     case law_timer_peek (lib_bh A) (w_timer w) of
       None \<Rightarrow> Inr (False, w, s)
     | Some (min_expiry, i, version) \<Rightarrow>
         bindE (law_err_clear (w_errs w)) (\<lambda>es.
           let w = w\<lparr>w_errs := es\<rparr> in
           if min_expiry > now then Inr (False, w, s)
           else
             (case law_timer_pop (lib_bh A) (w_timer w) of
                None \<Rightarrow> Inl SEL_TEST
              | Some (_, tmr) \<Rightarrow>
                  let w = w\<lparr>w_timer := tmr\<rparr>; task = law_table_lookup (lib_hm A) i (w_table w) in
                  bindE
                    (if task = NULL then tick_report LAW_ERR_NOID 1238 (w, s)
                     else if t_version (s_heap s task) \<noteq> version then
                       tick_report LAW_ERR_VERS 1243 (w, s)
                     else tick_wake A \<lparr>ev_events = LAW_EV_TIM, ev_data = 0\<rparr> task (w, s))
                    (\<lambda>ws. Inr (True, ws)))))"

definition events_body ::
  "('cb, 'u, 'b, 't) lib \<Rightarrow> ('cb, 'u, 'b, 't) st \<Rightarrow> (bool \<times> ('cb, 'u, 'b, 't) st) run" where
  "events_body A = (\<lambda>(w, s).
     bindE (law_evo_next (w_evo w)) (\<lambda>(r, evo).
       let w = w\<lparr>w_evo := evo\<rparr> in
       case r of
         None \<Rightarrow> Inr (False, w, s)
       | Some ev \<Rightarrow>
           if ev_data ev = 0 then Inr (True, w, s)
           else
             let slot = law_slot_decode (ev_data ev);
                 task = law_table_lookup (lib_hm A) (slot_id slot) (w_table w)
             in if task = NULL then Inr (True, w, s)
                else
                  bindE (tick_wake A (ev\<lparr>ev_data := set_data_i8 (ev_data ev) (slot_data slot)\<rparr>)
                           task (w, s))
                    (\<lambda>ws. Inr (True, ws))))"

text \<open>The first component is the flag \<^verbatim>\<open>reloop\<close>.\<close>

definition messages_body ::
  "('cb, 'u, 'b, 't) lib \<Rightarrow> bool \<times> ('cb, 'u, 'b, 't) st \<Rightarrow>
   (bool \<times> bool \<times> ('cb, 'u, 'b, 't) st) run" where
  "messages_body A = (\<lambda>(reloop, w, s).
     bindE (law_msg_queue_pop (s_messages s ! w_id w)) (\<lambda>(e, m, q).
       let s = s\<lparr>s_messages := (s_messages s)[w_id w := q]\<rparr> in
       case m of
         None \<Rightarrow> Inr (False, reloop, w, s)
       | Some msg \<Rightarrow>
           if msg_type msg = LAW_MSG_SHUTDOWN then Inr (True, False, w, s)
           else if msg_type msg = LAW_MSG_WAKEUP then
             (let task = law_table_lookup (lib_hm A) (msg_data msg) (w_table w) in
              if task = NULL then Inr (True, reloop, w, s)
              else bindE (tick_wake A \<lparr>ev_events = LAW_EV_WAK, ev_data = 0\<rparr> task (w, s))
                     (\<lambda>ws. Inr (True, reloop, ws)))
           else Inl SEL_HALT))"

text \<open>The comparison is on \<^verbatim>\<open>size_t\<close>.\<close>

definition intake_body ::
  "('cb, 'u, 'b, 't) lib \<Rightarrow> ('cb, 'u, 'b, 't) st \<Rightarrow> (bool \<times> ('cb, 'u, 'b, 't) st) run" where
  "intake_body A = (\<lambda>(w, s).
     if law_table_size (w_table w) \<le> nat (cf_worker_tasks (s_cfg s) mod 2 ^ 64) then
       bindE (law_task_queue_pop (s_incoming s ! w_id w)) (\<lambda>(e, p, q).
         let s = s\<lparr>s_incoming := (s_incoming s)[w_id w := q]\<rparr> in
         case p of
           None \<Rightarrow> Inr (False, w, s)
         | Some task \<Rightarrow>
             require SEL_ASSERT (task \<noteq> NULL \<and> t_mode (s_heap s task) = LAW_MODE_SPAWNED)
              (bindE (law_table_insert (lib_hm A) (lib_alloc A (s_draws s))
                        (t_id (s_heap s task)) task (w_table w)) (\<lambda>(r, tbl).
                require SEL_TEST (r = PMT_HM_SUCCESS)
                 (bindE (law_ready_set_push (lib_ll A) (w_ready w) task (s_heap s)) (\<lambda>(rset, h).
                   Inr (True, w\<lparr>w_table := tbl, w_ready := rset\<rparr>, (draw s)\<lparr>s_heap := h\<rparr>)))))
       )
     else Inr (False, w, s))"

definition tick_wait ::
  "('cb, 'u, 'b, 't) lib \<Rightarrow> ('cb, 'u, 'b, 't) st \<Rightarrow> ('cb, 'u, 'b, 't) st run" where
  "tick_wait A ws =
     (case tick_timeout A ws of
        (timeout, w, s) \<Rightarrow>
          (case law_evo_wait (lib_epoll A (s_draws s) timeout) (w_evo w) of
             (r, evo) \<Rightarrow> require SEL_TEST (r \<ge> 0) (Inr (w\<lparr>w_evo := evo\<rparr>, draw s))))"

definition law_worker_tick ::
  "('cb, 'u, 'b, 't) lib \<Rightarrow> ('cb, 'u, 'b, 't) st \<Rightarrow> (bool \<times> ('cb, 'u, 'b, 't) st) run" where
  "law_worker_tick A ws =
     bindE (tick_wait A ws) (\<lambda>(w, s).
       case law_time_millis A s of
         (now, s) \<Rightarrow>
           bindE (loop (Suc (law_timer_size (w_timer w))) (expire_body A now) (w, s)) (\<lambda>(w, s).
           bindE (loop (Suc (evo_nevents (w_evo w))) (events_body A) (w, s)) (\<lambda>(w, s).
           bindE (loop (Suc (length (pp_data (s_messages s ! w_id w)))) (messages_body A)
                    (True, w, s)) (\<lambda>(reloop, w, s).
           bindE (loop (Suc (length (pp_data (s_incoming s ! w_id w)))) (intake_body A) (w, s))
             (\<lambda>(w, s).
           bindE (law_worker_dispatch A (w, s)) (\<lambda>ws. Inr (reloop, ws)))))))"

text \<open>\<open>law_worker_run\<close> for at most \<open>n\<close> rounds.\<close>

definition law_worker_run ::
  "('cb, 'u, 'b, 't) lib \<Rightarrow> nat \<Rightarrow> ('cb, 'u, 'b, 't) st \<Rightarrow> ('cb, 'u, 'b, 't) st run" where
  "law_worker_run A n ws = loop n (law_worker_tick A) ws"

end
