(* ===== verification/WorkerInv.thy ===== *)
theory WorkerInv
  imports Worker
begin

text \<open>
  The invariant of a worker and the steps of its round that keep it. \<open>T\<close> is the set of
  tasks in the worker's table, \<open>R\<close> its ready list, \<open>P\<close> the pool's list and \<open>I\<close>
  the tasks in its incoming queue; the three last are disjoint from each other and from
  \<open>T\<close>. A task in the table is suspended, with a timer of its own pending unless it is
  already ready, or it is new and ready. \<open>X\<close> exempts the task that is running. The queue may
  hold any number of tasks; the table never more than \<^verbatim>\<open>worker_tasks + 1\<close>, since the intake's
  test lets in a task while there are \<^verbatim>\<open>worker_tasks\<close>.
\<close>

section \<open>What is asked of the parameters\<close>

primrec ucall_ok :: "('cb, 'u, 'b, 't) lib \<Rightarrow> 'u set \<Rightarrow> nat \<Rightarrow> ('cb, 'u) ucall \<Rightarrow> bool" where
  "ucall_ok A G 0 c = False"
| "ucall_ok A G (Suc n) c =
     (case c of
        U_RETURN e \<Rightarrow> e \<noteq> SIGNAL_SUSPENDED
      | U_EWAIT millis events k u \<Rightarrow>
          0 \<le> millis \<and> u \<in> G \<and> (\<exists>xs. events = Some xs \<and> 0 \<le> k \<and> k \<le> int (length xs)) \<and>
          ucall_ok A G n (lib_resume A u (R_EWAIT (Inl LAW_ERR_OOM) events))
      | U_ECTL d op flags events data u \<Rightarrow> \<forall>e. ucall_ok A G n (lib_resume A u (R_ERR e))
      | U_SPAWN callback data u \<Rightarrow> False
      | U_STOP u \<Rightarrow> \<forall>e. ucall_ok A G n (lib_resume A u (R_ERR e))
      | U_ID u \<Rightarrow> \<forall>i. ucall_ok A G n (lib_resume A u (R_ID i))
      | U_MILLIS u \<Rightarrow> \<forall>t. ucall_ok A G n (lib_resume A u (R_MILLIS t)))"

text \<open>
  The tasks' code is well behaved: between two suspensions it makes fewer than
  \<open>lib_ufuel\<close> calls, it waits with an event array that is long enough, it does not spawn,
  and no callback returns the number of \<^verbatim>\<open>LAW_MODE_SUSPENDED\<close>. \<open>G\<close> holds the states
  in which it waits.
\<close>

definition user_ok :: "('cb, 'u, 'b, 't) lib \<Rightarrow> 'u set \<Rightarrow> bool" where
  "user_ok A G \<longleftrightarrow>
     (\<forall>f d. ucall_ok A G (lib_ufuel A) (lib_callback A f d)) \<and>
     (\<forall>f fd d. ucall_ok A G (lib_ufuel A) (lib_accept A f fd d)) \<and>
     (\<forall>u \<in> G. \<forall>k xs. ucall_ok A G (lib_ufuel A) (lib_resume A u (R_EWAIT (Inr k) (Some xs))))"

text \<open>
  The libraries keep their contracts, allocations succeed, those by which a table grows included, and
  epoll reports what fits.
\<close>

definition lib_ok where
  "lib_ok A elems tok nodes hok M \<longleftrightarrow>
     pmt_ll_spec (lib_ll A) \<and> pmt_bh_spec (lib_bh A) elems tok \<and> pmt_hm_spec (lib_hm A) nodes hok \<and>
     (\<forall>n. lib_alloc A n) \<and> (\<forall>i t x. fst (hm_insert (lib_hm A) i t x) \<noteq> PMT_HM_RESIZE) \<and>
     (\<forall>n timeout. \<exists>evs. lib_epoll A n timeout = Some evs \<and> length evs \<le> M)"

section \<open>The invariant\<close>

definition callback_ok :: "'cb law_server_cfg \<Rightarrow> 'cb callback option \<Rightarrow> bool" where
  "callback_ok cfg c \<longleftrightarrow>
     (case c of None \<Rightarrow> False
      | Some LAW_ACCEPT_CALLBACK \<Rightarrow> cf_on_accept cfg \<noteq> None
      | Some (USER_CALLBACK f) \<Rightarrow> True)"

definition suspended_ok :: "'u set \<Rightarrow> ('cb callback, 'u) law_task \<Rightarrow> bool" where
  "suspended_ok G t \<longleftrightarrow>
     t_mode t = LAW_MODE_SUSPENDED \<and> task_waits t \<and> (\<exists>u \<in> G. t_callee t = Some u)"

definition task_ok ::
  "'cb law_server_cfg \<Rightarrow> 'u set \<Rightarrow> ptr set \<Rightarrow> (law_time_t \<times> u64 \<times> u32) multiset \<Rightarrow> ptr \<Rightarrow>
   ('cb callback, 'u) law_task \<Rightarrow> bool" where
  "task_ok cfg G Rs pend p t \<longleftrightarrow>
     (suspended_ok G t \<and> (p \<in> Rs \<or> (\<exists>e. (e, t_id t, t_version t) \<in># pend))) \<or>
     (t_mode t = LAW_MODE_SPAWNED \<and> p \<in> Rs \<and> callback_ok cfg (t_callback t))"

text \<open>The table's nodes carry the identifiers of the tasks they point to.\<close>

definition table_names ::
  "('b law_table \<Rightarrow> law_table_node set) \<Rightarrow> ('cb callback, 'u) heap \<Rightarrow> 'b law_table \<Rightarrow> ptr set \<Rightarrow> bool"
  where
  "table_names nodes h tb T \<longleftrightarrow>
     T = tn_pointer ` nodes tb \<and> (\<forall>x \<in> nodes tb. t_id (h (tn_pointer x)) = tn_id x)"

definition own_inv where
  "own_inv A elems tok nodes hok w s T \<longleftrightarrow>
     timer_inv (lib_bh A) elems tok (w_timer w) \<and>
     table_inv (lib_hm A) nodes hok (w_table w) \<and> table_names nodes (s_heap s) (w_table w) T \<and>
     evo_inv (w_evo w) \<and> int (evo_max_events (w_evo w)) = cf_worker_events (s_cfg s) \<and>
     err_inv (w_errs w) \<and>
     cf_on_error (s_cfg s) \<and> 0 \<le> cf_worker_tasks (s_cfg s) \<and> cf_worker_tasks (s_cfg s) < 2 ^ 60 \<and>
     w_id w < length (s_messages s) \<and> msg_queue_inv (s_messages s ! w_id w) \<and>
     (\<forall>m \<in> set (pipe_items 16 msg_of_bytes (s_messages s ! w_id w)).
        msg_type m = LAW_MSG_SHUTDOWN \<or> msg_type m = LAW_MSG_WAKEUP)"

definition low_id :: "('cb callback, 'u) heap \<Rightarrow> ptr \<Rightarrow> u32" where
  "low_id h p = ucast (t_id (h p))"

definition shared_inv ::
  "nat \<Rightarrow> ptr set \<Rightarrow> ptr list \<Rightarrow> ptr list \<Rightarrow> ('cb, 'u) law_server \<Rightarrow> bool" where
  "shared_inv n T P I s \<longleftrightarrow>
     pool_holds (s_heap s) (s_pool s) P \<and>
     n < length (s_incoming s) \<and> pipe_holds ptr_bytes I (s_incoming s ! n) \<and>
     NULL \<notin> set I \<and> distinct I \<and>
     T \<inter> set P = {} \<and> T \<inter> set I = {} \<and> set P \<inter> set I = {} \<and>
     (\<forall>p \<in> set P \<union> set I. \<not> t_mark (s_heap s p)) \<and>
     (\<forall>p \<in> set I. t_mode (s_heap s p) = LAW_MODE_SPAWNED \<and>
        callback_ok (s_cfg s) (t_callback (s_heap s p))) \<and>
     (\<forall>p \<in> T \<union> set I. unat (t_id (s_heap s p)) < LAW_ID_MODULO) \<and>
     inj_on (low_id (s_heap s)) (T \<union> set I) \<and>
     int (card T) \<le> cf_worker_tasks (s_cfg s) + 1"

definition worker_inv where
  "worker_inv A elems tok nodes hok G T X R P I ws \<longleftrightarrow>
     (case ws of (w, s) \<Rightarrow>
       own_inv A elems tok nodes hok w s T \<and> shared_inv (w_id w) T P I s \<and>
       ready_holds T (s_heap s) (w_ready w) R \<and>
       (\<forall>p \<in> T - X. task_ok (s_cfg s) G (set R) (timer_pending elems (w_timer w)) p (s_heap s p)))"

section \<open>Frames\<close>

lemma pool_holds_cong:
  "(\<And>p. p \<in> set xs \<Longrightarrow> t_next (h' p) = t_next (h p)) \<Longrightarrow> pool_holds h pool xs \<Longrightarrow> pool_holds h' pool xs"
  unfolding pool_holds_def
  using chain_cong [of xs "law_task_get_next h'" "law_task_get_next h"]
  by (auto simp: law_task_get_next_def)

lemma ready_holds_cong:
  assumes "ready_holds D h rset xs"
    and "\<And>p. p \<in> D \<Longrightarrow> t_next (h' p) = t_next (h p) \<and> t_mark (h' p) = t_mark (h p)"
  shows "ready_holds D h' rset xs"
proof -
  have "set xs \<subseteq> D" using assms(1) by (simp add: ready_holds_def)
  then have "chain (law_task_get_next h') rset xs = chain (law_task_get_next h) rset xs"
    using assms(2) by (intro chain_cong) (auto simp: law_task_get_next_def)
  with assms show ?thesis by (simp add: ready_holds_def)
qed

lemma table_names_cong:
  assumes "table_names nodes h tb T" and "\<And>p. p \<in> T \<Longrightarrow> t_id (h' p) = t_id (h p)"
  shows "table_names nodes h' tb T"
  using assms by (auto simp: table_names_def)

lemma low_id_cong: "t_id (h' p) = t_id (h p) \<Longrightarrow> low_id h' p = low_id h p"
  by (simp add: low_id_def)

lemma shared_inv_frame:
  assumes "shared_inv n T P I s" and "\<And>p. p \<notin> T \<Longrightarrow> h p = s_heap s p"
    and "\<And>p. p \<in> T \<Longrightarrow> t_id (h p) = t_id (s_heap s p)"
  shows "shared_inv n T P I (s\<lparr>s_heap := h\<rparr>)"
proof -
  have ids: "t_id (h p) = t_id (s_heap s p)" for p using assms(2,3) by (cases "p \<in> T") auto
  then have "low_id h = low_id (s_heap s)" by (auto simp: low_id_def)
  moreover have "h p = s_heap s p" if "p \<in> set P \<union> set I" for p
    using assms(1,2) that by (auto simp: shared_inv_def)
  ultimately show ?thesis
    using assms(1) ids pool_holds_cong [of P h "s_heap s" "s_pool s"]
    by (simp add: shared_inv_def)
qed

lemma own_inv_frame:
  assumes "own_inv A elems tok nodes hok w s T" and "\<And>p. p \<in> T \<Longrightarrow> t_id (h p) = t_id (s_heap s p)"
  shows "own_inv A elems tok nodes hok (w\<lparr>w_ready := r\<rparr>) (s\<lparr>s_heap := h\<rparr>) T"
  using assms table_names_cong [of nodes "s_heap s" "w_table w" T h]
  by (simp add: own_inv_def)

section \<open>Waking a task\<close>

definition task_same :: "('cb, 'u) law_task \<Rightarrow> ('cb, 'u) law_task \<Rightarrow> bool" where
  "task_same t t' \<longleftrightarrow>
     t_mode t' = t_mode t \<and> t_id t' = t_id t \<and> t_version t' = t_version t \<and>
     t_callee t' = t_callee t \<and> t_callback t' = t_callback t \<and> t_data t' = t_data t"

definition events_after :: "law_event \<Rightarrow> ('cb, 'u) law_task \<Rightarrow> law_event list" where
  "events_after ev t =
     (if t_num_events t < t_max_events t then task_events t @ [ev] else task_events t)"

text \<open>
  A task that waits receives the event, if its array has room, and becomes ready; no other
  task changes.
\<close>

lemma tick_wake_ok:
  assumes L: "pmt_ll_spec (lib_ll A)" and r: "ready_holds T (s_heap s) (w_ready w) R"
    and p: "p \<in> T" and waits: "task_waits (s_heap s p)"
  obtains r' h R' where "tick_wake A ev p (w, s) = Inr (w\<lparr>w_ready := r'\<rparr>, s\<lparr>s_heap := h\<rparr>)"
    and "ready_holds T h r' R'" and "set R' = insert p (set R)"
    and "\<And>q. q \<noteq> p \<Longrightarrow> h q = s_heap s q" and "task_same (s_heap s p) (h p)"
    and "task_waits (h p)" and "task_events (h p) = events_after ev (s_heap s p)"
proof -
  obtain t where t: "law_task_push_event ev (s_heap s p) = Inr t" "task_waits t"
      "task_events t = events_after ev (s_heap s p)" "task_same (s_heap s p) t"
      "t_mark t = t_mark (s_heap s p)" "t_next t = t_next (s_heap s p)"
    using law_task_push_event_ok [OF waits, of ev] unfolding task_same_def events_after_def by metis
  let ?h = "(s_heap s)(p := t)"
  have r': "ready_holds T ?h (w_ready w) R"
    by (rule ready_holds_cong [OF r]) (simp add: t)
  show thesis
  proof (cases "p \<in> set R")
    case True
    have "tick_wake A ev p (w, s) = Inr (w\<lparr>w_ready := w_ready w\<rparr>, s\<lparr>s_heap := ?h\<rparr>)"
      using law_ready_set_push_ok(1) [OF L r' p] True t(1) by (simp add: tick_wake_def)
    then show thesis
      using r' True t by (intro that [of "w_ready w" ?h R]) auto
  next
    case False
    let ?h' = "ready_pushed (w_ready w) p ?h"
    have "tick_wake A ev p (w, s) = Inr (w\<lparr>w_ready := p\<rparr>, s\<lparr>s_heap := ?h'\<rparr>)"
      using law_ready_set_push_ok(1) [OF L r' p] False t(1) by (simp add: tick_wake_def)
    moreover have "ready_holds T ?h' p (p # R)"
      by (rule law_ready_set_push_ok(2) [OF L r' p False])
    ultimately show thesis
      using t by (intro that [of p ?h' "p # R"])
        (auto simp: ready_pushed_def task_same_def task_waits_def task_events_def)
  qed
qed

lemma suspended_ok_same:
  "task_same t t' \<Longrightarrow> task_waits t' \<Longrightarrow> suspended_ok G t \<Longrightarrow> suspended_ok G t'"
  by (simp add: suspended_ok_def task_same_def)

lemma task_ok_mono:
  "task_ok cfg G Rs pend p t \<Longrightarrow> Rs \<subseteq> Rs' \<Longrightarrow> set_mset pend \<subseteq> set_mset pend' \<Longrightarrow>
     task_ok cfg G Rs' pend' p t"
  by (auto simp: task_ok_def)

text \<open>Waking keeps the invariant; the woken task needs no timer any more.\<close>

lemma tick_wake_inv:
  assumes lib: "lib_ok A elems tok nodes hok M"
    and inv: "worker_inv A elems tok nodes hok G T X R P I (w, s)"
    and p: "p \<in> T" and susp: "suspended_ok G (s_heap s p)"
  obtains r' h R' where "tick_wake A ev p (w, s) = Inr (w\<lparr>w_ready := r'\<rparr>, s\<lparr>s_heap := h\<rparr>)"
    and "worker_inv A elems tok nodes hok G T (X - {p}) R' P I (w\<lparr>w_ready := r'\<rparr>, s\<lparr>s_heap := h\<rparr>)"
    and "set R' = insert p (set R)"
    and "\<And>q. q \<noteq> p \<Longrightarrow> h q = s_heap s q" and "suspended_ok G (h p)"
    and "t_id (h p) = t_id (s_heap s p)"
    and "task_events (h p) = events_after ev (s_heap s p)"
proof -
  have L: "pmt_ll_spec (lib_ll A)" using lib by (simp add: lib_ok_def)
  have own: "own_inv A elems tok nodes hok w s T" and sh: "shared_inv (w_id w) T P I s"
    and r: "ready_holds T (s_heap s) (w_ready w) R"
    and ok: "\<forall>q \<in> T - X. task_ok (s_cfg s) G (set R) (timer_pending elems (w_timer w)) q (s_heap s q)"
    using inv by (simp_all add: worker_inv_def)
  have waits: "task_waits (s_heap s p)" using susp by (simp add: suspended_ok_def)
  from tick_wake_ok [where A = A and s = s and w = w and p = p and ev = ev, OF L r p waits]
  obtain r' h R' where e: "tick_wake A ev p (w, s) = Inr (w\<lparr>w_ready := r'\<rparr>, s\<lparr>s_heap := h\<rparr>)"
    and r': "ready_holds T h r' R'" and R': "set R' = insert p (set R)"
    and out: "\<And>q. q \<noteq> p \<Longrightarrow> h q = s_heap s q" and same: "task_same (s_heap s p) (h p)"
    and w': "task_waits (h p)" and ev': "task_events (h p) = events_after ev (s_heap s p)" by blast
  have ids: "t_id (h q) = t_id (s_heap s q)" for q
    using out [of q] same by (cases "q = p") (auto simp: task_same_def)
  have susp': "suspended_ok G (h p)" by (rule suspended_ok_same [OF same w' susp])
  have "task_ok (s_cfg s) G (set R') (timer_pending elems (w_timer w)) q (h q)"
    if "q \<in> T - (X - {p})" for q
  proof (cases "q = p")
    case True
    with susp' R' show ?thesis by (simp add: task_ok_def)
  next
    case False
    with ok that have "task_ok (s_cfg s) G (set R) (timer_pending elems (w_timer w)) q (s_heap s q)"
      by blast
    from task_ok_mono [OF this, of "set R'"] R' out [OF False] show ?thesis by auto
  qed
  moreover have "h q = s_heap s q" if "q \<notin> T" for q
    using out [of q] p that by blast
  then have "shared_inv (w_id w) T P I (s\<lparr>s_heap := h\<rparr>)"
    by (rule shared_inv_frame [OF sh]) (simp_all add: ids)
  ultimately have "worker_inv A elems tok nodes hok G T (X - {p}) R' P I
      (w\<lparr>w_ready := r'\<rparr>, s\<lparr>s_heap := h\<rparr>)"
    using own_inv_frame [OF own] ids r' by (simp add: worker_inv_def)
  with e R' out susp' ev' ids that show thesis by blast
qed

section \<open>Lookups\<close>

lemma lookup_task:
  assumes "own_inv A elems tok nodes hok w s T" and "NULL \<notin> T"
  shows "law_table_lookup (lib_hm A) i (w_table w) = p \<Longrightarrow> p \<noteq> NULL \<Longrightarrow>
           p \<in> T \<and> low_id (s_heap s) p = ucast i"
    and "law_table_lookup (lib_hm A) i (w_table w) = NULL \<Longrightarrow> q \<in> T \<Longrightarrow> low_id (s_heap s) q \<noteq> ucast i"
proof -
  have tb: "table_inv (lib_hm A) nodes hok (w_table w)"
    and names: "table_names nodes (s_heap s) (w_table w) T"
    using assms(1) by (simp_all add: own_inv_def)
  note facts = table_inv_facts [OF tb]
  show "p \<in> T \<and> low_id (s_heap s) p = ucast i"
    if l: "law_table_lookup (lib_hm A) i (w_table w) = p" and n: "p \<noteq> NULL"
  proof -
    from l n obtain x where x: "hm_lookup (lib_hm A) (law_table_iface (hm_fnv (lib_hm A))) (w_table w) i = Some x"
      "tn_pointer x = p" by (auto simp: law_table_lookup_def split: option.splits)
    with facts(5) have "x \<in> nodes (w_table w)" "(ucast (tn_id x) :: u32) = ucast i" by blast+
    with x names show ?thesis by (auto simp: table_names_def low_id_def)
  qed
  show "low_id (s_heap s) q \<noteq> ucast i"
    if l: "law_table_lookup (lib_hm A) i (w_table w) = NULL" and q: "q \<in> T"
  proof (cases "hm_lookup (lib_hm A) (law_table_iface (hm_fnv (lib_hm A))) (w_table w) i")
    case None
    with facts(4) have "\<forall>x \<in> nodes (w_table w). (ucast (tn_id x) :: u32) \<noteq> ucast i" by blast
    with q names show ?thesis by (auto simp: table_names_def low_id_def)
  next
    case (Some x)
    with facts(5) have "x \<in> nodes (w_table w)" by blast
    then have "tn_pointer x \<in> T" using names by (auto simp: table_names_def)
    with l Some assms(2) show ?thesis by (simp add: law_table_lookup_def)
  qed
qed

lemma table_size_card:
  assumes "own_inv A elems tok nodes hok w s T"
  shows "tb_size (w_table w) = card T" and "finite T"
proof -
  have tb: "table_inv (lib_hm A) nodes hok (w_table w)"
    and names: "table_names nodes (s_heap s) (w_table w) T"
    using assms by (simp_all add: own_inv_def)
  note facts = table_inv_facts [OF tb]
  have "inj_on tn_pointer (nodes (w_table w))"
  proof (rule inj_onI)
    fix x y assume x: "x \<in> nodes (w_table w)" and y: "y \<in> nodes (w_table w)"
      and e: "tn_pointer x = tn_pointer y"
    from x y names have "tn_id x = t_id (s_heap s (tn_pointer x))"
      and "tn_id y = t_id (s_heap s (tn_pointer y))"
      by (simp_all add: table_names_def)
    with e have "tn_id x = tn_id y" by simp
    with facts(3) [OF x y] show "x = y" by simp
  qed
  then show "tb_size (w_table w) = card T" and "finite T"
    using facts(1,2) names by (auto simp: table_names_def card_image)
qed

end
