(* ===== verification/WorkerPhases.thy ===== *)
theory WorkerPhases
  imports WorkerInv
begin

text \<open>
  The first three loops of \<open>law_worker_tick\<close>: expired timers, input and output events,
  messages. Each keeps the worker's invariant, ends, and raises no fault.
\<close>

section \<open>What a round leaves alone\<close>

abbreviation msgs :: "pipe \<Rightarrow> law_msg list" where
  "msgs \<equiv> pipe_items 16 msg_of_bytes"

text \<open>
  From \<open>s\<close> to \<open>s'\<close> only tasks in \<open>D\<close> changed, no task changed its identifier,
  and of the queues only those of worker \<open>n\<close> changed, which received no message; an empty
  message queue stayed as it was.
\<close>

definition touches :: "nat \<Rightarrow> ptr set \<Rightarrow> ('cb, 'u) law_server \<Rightarrow> ('cb, 'u) law_server \<Rightarrow> bool" where
  "touches n D s s' \<longleftrightarrow>
     s_cfg s' = s_cfg s \<and> s_seed s' = s_seed s \<and> s_socket s' = s_socket s \<and>
     length (s_incoming s') = length (s_incoming s) \<and> length (s_messages s') = length (s_messages s) \<and>
     (\<forall>m. m \<noteq> n \<longrightarrow> s_incoming s' ! m = s_incoming s ! m \<and> s_messages s' ! m = s_messages s ! m) \<and>
     (\<forall>p. t_id (s_heap s' p) = t_id (s_heap s p)) \<and>
     set (msgs (s_messages s' ! n)) \<subseteq> set (msgs (s_messages s ! n)) \<and>
     (msgs (s_messages s ! n) = [] \<longrightarrow> s_messages s' ! n = s_messages s ! n) \<and>
     s_errs s' = s_errs s \<and> s_evo s' = s_evo s \<and> s_in_fds s' = s_in_fds s \<and>
     p_capacity (s_pool s') = p_capacity (s_pool s) \<and>
     (\<forall>p. p \<notin> D \<longrightarrow> s_heap s' p = s_heap s p)"

lemma touches_refl [simp]: "touches n D s s"
  by (simp add: touches_def)

lemma touches_trans: "touches n D s1 s2 \<Longrightarrow> touches n D s2 s3 \<Longrightarrow> touches n D s1 s3"
  unfolding touches_def by auto

lemma touches_mono: "touches n D s s' \<Longrightarrow> D \<subseteq> E \<Longrightarrow> touches n E s s'"
  by (auto simp: touches_def)

lemma touches_heap:
  "(\<And>q. q \<notin> D \<Longrightarrow> h q = s_heap s q) \<Longrightarrow> (\<And>q. t_id (h q) = t_id (s_heap s q)) \<Longrightarrow>
     touches n D s (s\<lparr>s_heap := h\<rparr>)"
  by (simp add: touches_def)

section \<open>The state between the loops\<close>

definition phase_inv where
  "phase_inv A elems tok nodes hok G n T P I s0 ws \<longleftrightarrow>
     (\<exists>R. worker_inv A elems tok nodes hok G T {} R P I ws) \<and>
     (\<forall>p \<in> T. suspended_ok G (s_heap (snd ws) p)) \<and>
     w_id (fst ws) = n \<and> touches n T s0 (snd ws) \<and> s_pool (snd ws) = s_pool s0"

lemma phase_invE:
  assumes "phase_inv A elems tok nodes hok G n T P I s0 (w, s)"
  obtains R where "worker_inv A elems tok nodes hok G T {} R P I (w, s)"
    and "\<And>p. p \<in> T \<Longrightarrow> suspended_ok G (s_heap s p)"
    and "w_id w = n" and "touches n T s0 s" and "s_pool s = s_pool s0"
  using assms by (auto simp: phase_inv_def)

lemma phase_invI:
  assumes "worker_inv A elems tok nodes hok G T {} R P I (w, s)"
    and "\<And>p. p \<in> T \<Longrightarrow> suspended_ok G (s_heap s p)"
    and "w_id w = n" and "touches n T s0 s" and "s_pool s = s_pool s0"
  shows "phase_inv A elems tok nodes hok G n T P I s0 (w, s)"
  using assms by (auto simp: phase_inv_def)

lemma worker_inv_facts:
  assumes "worker_inv A elems tok nodes hok G T X R P I (w, s)"
  shows "own_inv A elems tok nodes hok w s T" and "shared_inv (w_id w) T P I s"
    and "ready_holds T (s_heap s) (w_ready w) R" and "NULL \<notin> T"
    and "\<And>p. p \<in> T - X \<Longrightarrow> task_ok (s_cfg s) G (set R) (timer_pending elems (w_timer w)) p (s_heap s p)"
  using assms by (auto simp: worker_inv_def ready_holds_def)

lemma shared_inv_facts:
  assumes "shared_inv n T P I s"
  shows "pool_holds (s_heap s) (s_pool s) P" and "n < length (s_incoming s)"
    and "pipe_holds ptr_bytes I (s_incoming s ! n)" and "NULL \<notin> set I" and "distinct I"
    and "T \<inter> set P = {}" and "T \<inter> set I = {}" and "set P \<inter> set I = {}"
    and "\<And>p. p \<in> set P \<union> set I \<Longrightarrow> \<not> t_mark (s_heap s p)"
    and "\<And>p. p \<in> set I \<Longrightarrow> t_mode (s_heap s p) = LAW_MODE_SPAWNED"
    and "\<And>p. p \<in> set I \<Longrightarrow> callback_ok (s_cfg s) (t_callback (s_heap s p))"
    and "\<And>p. p \<in> T \<union> set I \<Longrightarrow> unat (t_id (s_heap s p)) < LAW_ID_MODULO"
    and "inj_on (low_id (s_heap s)) (T \<union> set I)"
    and "int (card T) \<le> cf_worker_tasks (s_cfg s) + 1"
  using assms unfolding shared_inv_def by blast+

text \<open>Waking a task of the table, from a state between the loops to another.\<close>

lemma tick_wake_phase:
  assumes lib: "lib_ok A elems tok nodes hok M"
    and inv: "worker_inv A elems tok nodes hok G T X R P I (w, s)"
    and susp: "\<And>p. p \<in> T \<Longrightarrow> suspended_ok G (s_heap s p)" and X: "X \<subseteq> {p}"
    and n: "w_id w = n" and fr: "touches n T s0 s" and pool: "s_pool s = s_pool s0"
    and p: "p \<in> T"
  obtains r' h where "tick_wake A ev p (w, s) = Inr (w\<lparr>w_ready := r'\<rparr>, s\<lparr>s_heap := h\<rparr>)"
    and "phase_inv A elems tok nodes hok G n T P I s0 (w\<lparr>w_ready := r'\<rparr>, s\<lparr>s_heap := h\<rparr>)"
proof -
  show thesis
  proof (rule tick_wake_inv [OF lib inv p susp [OF p]])
    fix r' h R'
    assume e: "tick_wake A ev p (w, s) = Inr (w\<lparr>w_ready := r'\<rparr>, s\<lparr>s_heap := h\<rparr>)"
      and inv': "worker_inv A elems tok nodes hok G T (X - {p}) R' P I
                   (w\<lparr>w_ready := r'\<rparr>, s\<lparr>s_heap := h\<rparr>)"
      and out: "\<And>q. q \<noteq> p \<Longrightarrow> h q = s_heap s q" and sp: "suspended_ok G (h p)"
      and id: "t_id (h p) = t_id (s_heap s p)"
    have "X - {p} = {}" using X by blast
    with inv' have inv'': "worker_inv A elems tok nodes hok G T {} R' P I
        (w\<lparr>w_ready := r'\<rparr>, s\<lparr>s_heap := h\<rparr>)" by simp
    have 1: "suspended_ok G (h q)" if "q \<in> T" for q
      using sp out [of q] susp [OF that] by (cases "q = p") simp_all
    have "h q = s_heap s q" if "q \<notin> T" for q
      using out [of q] p that by blast
    moreover have "t_id (h q) = t_id (s_heap s q)" for q
      using out [of q] id by (cases "q = p") simp_all
    ultimately have "touches n T s0 (s\<lparr>s_heap := h\<rparr>)"
      by (intro touches_trans [OF fr] touches_heap)
    with 1 have "phase_inv A elems tok nodes hok G n T P I s0 (w\<lparr>w_ready := r'\<rparr>, s\<lparr>s_heap := h\<rparr>)"
      using n pool by (intro phase_invI [OF inv'']) simp_all
    with e show thesis by (rule that)
  qed
qed

section \<open>Expired timers\<close>

lemma tick_report_ok:
  assumes "err_inv (w_errs w)" and "cf_on_error (s_cfg s)"
  obtains es where "tick_report e line (w, s) =
      Inr (w\<lparr>w_errs := es\<rparr>, s\<lparr>s_errors := s_errors s @ [e]\<rparr>)" and "err_inv es"
proof -
  obtain t where "law_err_push e ''law_table_lookup'' ''source/lawd/server.c'' ''law_worker_tick''
      line (w_errs w) = Inr (e, t)" "err_inv t"
    using law_err_push_ok [OF assms(1)] by blast
  with assms(2) that show thesis by (simp add: tick_report_def)
qed

lemma worker_inv_timer:
  assumes inv: "worker_inv A elems tok nodes hok G T X R P I (w, s)"
    and "timer_inv (lib_bh A) elems tok tmr" and "err_inv es"
    and "\<And>q. q \<in> T - Y \<Longrightarrow> task_ok (s_cfg s) G (set R) (timer_pending elems tmr) q (s_heap s q)"
  shows "worker_inv A elems tok nodes hok G T Y R P I (w\<lparr>w_errs := es, w_timer := tmr\<rparr>, s)"
  using assms by (simp add: worker_inv_def own_inv_def)

lemma worker_inv_errors:
  "worker_inv A elems tok nodes hok G T X R P I (w, s) \<Longrightarrow> err_inv es \<Longrightarrow>
     worker_inv A elems tok nodes hok G T X R P I
       (w\<lparr>w_errs := es\<rparr>, s\<lparr>s_errors := x\<rparr>)"
  by (simp add: worker_inv_def own_inv_def shared_inv_def)

text \<open>A timer that no task of the table waits for may go.\<close>

lemma task_ok_drop:
  assumes "task_ok cfg G Rs pend q t" and "\<not> (t_id t = i \<and> t_version t = v)"
  shows "task_ok cfg G Rs (pend - {#(e, i, v)#}) q t"
  using assms by (auto simp: task_ok_def in_diff_count)

lemma expire_body_ok:
  assumes lib: "lib_ok A elems tok nodes hok M"
    and ph: "phase_inv A elems tok nodes hok G n T P I s0 (w, s)"
  shows "\<exists>go w' s'. expire_body A now (w, s) = Inr (go, w', s') \<and>
     phase_inv A elems tok nodes hok G n T P I s0 (w', s') \<and> evo_rest (w_evo w') = evo_rest (w_evo w) \<and>
     s_messages s' = s_messages s \<and>
     (if go then
        (\<exists>x. x \<in># timer_pending elems (w_timer w) \<and> fst x \<le> now \<and>
             timer_pending elems (w_timer w') = timer_pending elems (w_timer w) - {#x#})
      else timer_pending elems (w_timer w') = timer_pending elems (w_timer w) \<and>
           (\<forall>x \<in># timer_pending elems (w_timer w). now < fst x))"
proof -
  from ph obtain R where inv: "worker_inv A elems tok nodes hok G T {} R P I (w, s)"
    and susp: "\<And>p. p \<in> T \<Longrightarrow> suspended_ok G (s_heap s p)"
    and n: "w_id w = n" and fr: "touches n T s0 s" and pool: "s_pool s = s_pool s0"
    by (rule phase_invE) blast
  note W = worker_inv_facts [OF inv]
  have tmr: "timer_inv (lib_bh A) elems tok (w_timer w)" and ei: "err_inv (w_errs w)"
    and oe: "cf_on_error (s_cfg s)"
    using W(1) by (simp_all add: own_inv_def)
  show ?thesis
  proof (cases "law_timer_peek (lib_bh A) (w_timer w)")
    case None
    then have "timer_pending elems (w_timer w) = {#}" using tm.peek_None [OF tmr] by simp
    with None ph show ?thesis
      by (intro exI [of _ False] exI [of _ w] exI [of _ s]) (simp add: expire_body_def)
  next
    case (Some x)
    obtain e i v where x: "x = (e, i, v)" by (cases x)
    have xin: "x \<in># timer_pending elems (w_timer w)"
      and least: "\<forall>y \<in># timer_pending elems (w_timer w). e \<le> fst y"
      using tm.peek_least [OF tmr Some] x by auto
    obtain es where es: "law_err_clear (w_errs w) = Inr es" "err_inv es"
      using ei by (simp add: law_err_clear_def err_inv_def)
    show ?thesis
    proof (cases "e > now")
      case True
      have "worker_inv A elems tok nodes hok G T {} R P I (w\<lparr>w_errs := es, w_timer := w_timer w\<rparr>, s)"
        using W(5) by (intro worker_inv_timer [OF inv tmr es(2)]) auto
      then have "phase_inv A elems tok nodes hok G n T P I s0 (w\<lparr>w_errs := es\<rparr>, s)"
        using susp n fr pool by (intro phase_invI [where R = R]) auto
      moreover have "\<forall>y \<in># timer_pending elems (w_timer w). now < fst y" using least True by auto
      moreover have "expire_body A now (w, s) = Inr (False, w\<lparr>w_errs := es\<rparr>, s)"
        using Some x es True by (simp add: expire_body_def)
      ultimately show ?thesis
        by (intro exI [of _ False] exI [of _ "w\<lparr>w_errs := es\<rparr>"] exI [of _ s]) simp
    next
      case False
      obtain t where t: "law_timer_pop (lib_bh A) (w_timer w) = Some (x, t)"
        "timer_inv (lib_bh A) elems tok t" "timer_pending elems t = timer_pending elems (w_timer w) - {#x#}"
        using tm.pop_peek [OF tmr Some] by blast
      let ?w = "w\<lparr>w_errs := es, w_timer := t\<rparr>"
      let ?p = "law_table_lookup (lib_hm A) i (w_table w)"
      have look: "?p \<noteq> NULL \<Longrightarrow> ?p \<in> T \<and> low_id (s_heap s) ?p = ucast i"
        "?p = NULL \<Longrightarrow> q \<in> T \<Longrightarrow> low_id (s_heap s) q \<noteq> ucast i" for q
        using lookup_task [OF W(1) W(4)] by blast+
      have inj: "inj_on (low_id (s_heap s)) (T \<union> set I)" using W(2) by (simp add: shared_inv_def)
      text \<open>Only the task that the lookup finds can wait for the timer.\<close>
      have waits: "q = ?p" if "q \<in> T" "t_id (s_heap s q) = i" for q
      proof -
        have l: "low_id (s_heap s) q = ucast i" using that(2) by (simp add: low_id_def)
        with look(2) that(1) have "?p \<noteq> NULL" by blast
        with look(1) l inj that(1) show ?thesis by (metis UnI1 inj_onD)
      qed
      have drop: "task_ok (s_cfg s) G (set R) (timer_pending elems t) q (s_heap s q)"
        if "q \<in> T" "\<not> (t_id (s_heap s q) = i \<and> t_version (s_heap s q) = v)" for q
        using task_ok_drop [OF W(5) that(2)] that(1) by (simp add: t(3) x)
      have due: "\<exists>y. y \<in># timer_pending elems (w_timer w) \<and> fst y \<le> now \<and>
          timer_pending elems t = timer_pending elems (w_timer w) - {#y#}"
        using xin t(3) False x by (intro exI [of _ x]) auto
      have body: "expire_body A now (w, s) =
          bindE (if ?p = NULL then tick_report LAW_ERR_NOID 1238 (?w, s)
                 else if t_version (s_heap s ?p) \<noteq> v then tick_report LAW_ERR_VERS 1243 (?w, s)
                 else tick_wake A \<lparr>ev_events = LAW_EV_TIM, ev_data = 0\<rparr> ?p (?w, s))
            (\<lambda>ws. Inr (True, ws))"
        using Some x es False t(1) by (simp add: expire_body_def Let_def)
      show ?thesis
      proof (cases "?p = NULL \<or> t_version (s_heap s ?p) \<noteq> v")
        case True
        then have "\<not> (t_id (s_heap s q) = i \<and> t_version (s_heap s q) = v)" if "q \<in> T" for q
          using waits [OF that] that W(4) by auto
        with drop have inv': "worker_inv A elems tok nodes hok G T {} R P I (?w, s)"
          by (intro worker_inv_timer [OF inv t(2) es(2)]) auto
        define err where "err = (if ?p = NULL then LAW_ERR_NOID else LAW_ERR_VERS)"
        define line :: int where "line = (if ?p = NULL then 1238 else 1243)"
        have b: "expire_body A now (w, s) = bindE (tick_report err line (?w, s)) (\<lambda>ws. Inr (True, ws))"
          using True unfolding body err_def line_def by auto
        obtain es' where r: "tick_report err line (?w, s) =
            Inr (?w\<lparr>w_errs := es'\<rparr>, s\<lparr>s_errors := s_errors s @ [err]\<rparr>)" "err_inv es'"
          using tick_report_ok [of ?w s err line] es(2) oe by auto
        have "phase_inv A elems tok nodes hok G n T P I s0
            (?w\<lparr>w_errs := es'\<rparr>, s\<lparr>s_errors := s_errors s @ [err]\<rparr>)"
          using susp n fr pool
          by (intro phase_invI [OF worker_inv_errors [OF inv' r(2)]]) (auto simp: touches_def)
        with b r(1) due show ?thesis
          by (intro exI [of _ True] exI [of _ "?w\<lparr>w_errs := es'\<rparr>"]
              exI [of _ "s\<lparr>s_errors := s_errors s @ [err]\<rparr>"]) (simp del: split_paired_Ex)
      next
        case wake: False
        with look(1) have p: "?p \<in> T" by blast
        have inv': "worker_inv A elems tok nodes hok G T {?p} R P I (?w, s)"
          using drop waits by (intro worker_inv_timer [OF inv t(2) es(2)]) auto
        have n': "w_id ?w = n" using n by simp
        show ?thesis
        proof (rule tick_wake_phase [OF lib inv' susp _ n' fr pool p])
          fix r' h
          assume "tick_wake A \<lparr>ev_events = LAW_EV_TIM, ev_data = 0\<rparr> ?p (?w, s) =
              Inr (?w\<lparr>w_ready := r'\<rparr>, s\<lparr>s_heap := h\<rparr>)"
            and "phase_inv A elems tok nodes hok G n T P I s0 (?w\<lparr>w_ready := r'\<rparr>, s\<lparr>s_heap := h\<rparr>)"
          with wake body due show ?thesis
            by (intro exI [of _ True] exI [of _ "?w\<lparr>w_ready := r'\<rparr>"] exI [of _ "s\<lparr>s_heap := h\<rparr>"])
              (simp del: split_paired_Ex)
        qed simp_all
      qed
    qed
  qed
qed

lemma expire_loop_ok:
  assumes lib: "lib_ok A elems tok nodes hok M"
    and ph: "phase_inv A elems tok nodes hok G n T P I s0 (w, s)"
  obtains w' s' where "loop (Suc (law_timer_size (w_timer w))) (expire_body A now) (w, s) = Inr (w', s')"
    and "phase_inv A elems tok nodes hok G n T P I s0 (w', s')"
    and "evo_rest (w_evo w') = evo_rest (w_evo w)" and "s_messages s' = s_messages s"
    and "timer_pending elems (w_timer w') =
           filter_mset (\<lambda>x. now < fst x) (timer_pending elems (w_timer w))"
proof -
  let ?pend = "\<lambda>ws. timer_pending elems (w_timer (fst ws))"
  let ?I = "\<lambda>k ws. phase_inv A elems tok nodes hok G n T P I s0 ws \<and>
     evo_rest (w_evo (fst ws)) = evo_rest (w_evo w) \<and> s_messages (snd ws) = s_messages s \<and>
     filter_mset (\<lambda>x. now < fst x) (?pend ws) = filter_mset (\<lambda>x. now < fst x) (?pend (w, s)) \<and>
     k = size (?pend ws)"
  let ?Q = "\<lambda>ws. phase_inv A elems tok nodes hok G n T P I s0 ws \<and>
     evo_rest (w_evo (fst ws)) = evo_rest (w_evo w) \<and> s_messages (snd ws) = s_messages s \<and>
     ?pend ws = filter_mset (\<lambda>x. now < fst x) (?pend (w, s))"
  have step: "\<exists>go t. expire_body A now ws = Inr (go, t) \<and> (if go then \<exists>j < k. ?I j t else ?Q t)"
    if I: "?I k ws" for k ws
  proof -
    obtain w1 s1 where ws: "ws = (w1, s1)" by (cases ws)
    from I have ph1: "phase_inv A elems tok nodes hok G n T P I s0 (w1, s1)" by (simp add: ws)
    from expire_body_ok [OF lib ph1, of now] obtain go w2 s2 where
      b: "expire_body A now (w1, s1) = Inr (go, w2, s2)"
      and ph2: "phase_inv A elems tok nodes hok G n T P I s0 (w2, s2)"
      and ev: "evo_rest (w_evo w2) = evo_rest (w_evo w1)" "s_messages s2 = s_messages s1"
      and c: "if go then
         (\<exists>x. x \<in># timer_pending elems (w_timer w1) \<and> fst x \<le> now \<and>
             timer_pending elems (w_timer w2) = timer_pending elems (w_timer w1) - {#x#})
         else timer_pending elems (w_timer w2) = timer_pending elems (w_timer w1) \<and>
           (\<forall>x \<in># timer_pending elems (w_timer w1). now < fst x)"
      by blast
    show ?thesis
    proof (cases go)
      case True
      with c obtain x where x: "x \<in># timer_pending elems (w_timer w1)" "fst x \<le> now"
        "timer_pending elems (w_timer w2) = timer_pending elems (w_timer w1) - {#x#}" by auto
      have p1: "timer_pending elems (w_timer w1) = add_mset x (timer_pending elems (w_timer w2))"
        using x(1,3) by simp
      then have "size (timer_pending elems (w_timer w2)) < size (timer_pending elems (w_timer w1))"
        and "filter_mset (\<lambda>x. now < fst x) (timer_pending elems (w_timer w2)) =
             filter_mset (\<lambda>x. now < fst x) (timer_pending elems (w_timer w1))"
        using x(2) by simp_all
      with b ph2 ev I True show ?thesis by (auto simp: ws)
    next
      case False
      with c have "timer_pending elems (w_timer w2) =
          filter_mset (\<lambda>x. now < fst x) (timer_pending elems (w_timer w1))"
        by (simp add: filter_mset_all)
      with b ph2 ev I False show ?thesis by (auto simp: ws)
    qed
  qed
  have tmr: "timer_inv (lib_bh A) elems tok (w_timer w)"
    using ph by (auto simp: phase_inv_def worker_inv_def own_inv_def)
  have k: "size (?pend (w, s)) < Suc (law_timer_size (w_timer w))"
    using tm.count_ok [OF tmr] by simp
  have i: "?I (size (?pend (w, s))) (w, s)" using ph by simp
  show thesis
  proof (rule loop_rule [where I = ?I, OF step i k])
    fix t assume "loop (Suc (law_timer_size (w_timer w))) (expire_body A now) (w, s) = Inr t" and "?Q t"
    then show thesis by (cases t) (auto intro: that)
  qed
qed

section \<open>Input and output events\<close>

lemma worker_inv_evo:
  "worker_inv A elems tok nodes hok G T X R P I (w, s) \<Longrightarrow> evo_inv evo \<Longrightarrow>
     evo_max_events evo = evo_max_events (w_evo w) \<Longrightarrow>
     worker_inv A elems tok nodes hok G T X R P I (w\<lparr>w_evo := evo\<rparr>, s)"
  by (simp add: worker_inv_def own_inv_def)

lemma events_body_ok:
  assumes lib: "lib_ok A elems tok nodes hok M"
    and ph: "phase_inv A elems tok nodes hok G n T P I s0 (w, s)"
  shows "\<exists>go w' s'. events_body A (w, s) = Inr (go, w', s') \<and>
     phase_inv A elems tok nodes hok G n T P I s0 (w', s') \<and> w_timer w' = w_timer w \<and>
     s_messages s' = s_messages s \<and>
     (if go then evo_rest (w_evo w') = tl (evo_rest (w_evo w)) \<and> evo_rest (w_evo w) \<noteq> []
      else evo_rest (w_evo w) = [])"
proof -
  from ph obtain R where inv: "worker_inv A elems tok nodes hok G T {} R P I (w, s)"
    and susp: "\<And>p. p \<in> T \<Longrightarrow> suspended_ok G (s_heap s p)"
    and n: "w_id w = n" and fr: "touches n T s0 s" and pool: "s_pool s = s_pool s0"
    by (rule phase_invE) blast
  note W = worker_inv_facts [OF inv]
  have evo: "evo_inv (w_evo w)" using W(1) by (simp add: own_inv_def)
  show ?thesis
  proof (cases "evo_rest (w_evo w)")
    case Nil
    with ph law_evo_next_empty [OF evo] show ?thesis
      by (intro exI [of _ False] exI [of _ w] exI [of _ s]) (simp add: events_body_def)
  next
    case (Cons ev evs)
    from law_evo_next_event [OF evo Cons] obtain e' where
      e': "law_evo_next (w_evo w) = Inr (Some ev, e')" "evo_inv e'" "evo_rest e' = evs"
      "evo_max_events e' = evo_max_events (w_evo w)" by blast
    let ?w = "w\<lparr>w_evo := e'\<rparr>"
    let ?slot = "law_slot_decode (ev_data ev)"
    let ?p = "law_table_lookup (lib_hm A) (slot_id ?slot) (w_table w)"
    let ?ev = "ev\<lparr>ev_data := set_data_i8 (ev_data ev) (slot_data ?slot)\<rparr>"
    have inv': "worker_inv A elems tok nodes hok G T {} R P I (?w, s)"
      by (rule worker_inv_evo [OF inv e'(2,4)])
    show ?thesis
    proof (cases "ev_data ev = 0 \<or> ?p = NULL")
      case True
      then have "events_body A (w, s) = Inr (True, ?w, s)"
        using e'(1) by (auto simp: events_body_def Let_def)
      moreover have "phase_inv A elems tok nodes hok G n T P I s0 (?w, s)"
        using susp n fr pool by (intro phase_invI [OF inv']) simp_all
      ultimately show ?thesis using e'(3) Cons
        by (intro exI [of _ True] exI [of _ ?w] exI [of _ s]) simp
    next
      case False
      then have b: "events_body A (w, s) = bindE (tick_wake A ?ev ?p (?w, s)) (\<lambda>ws. Inr (True, ws))"
        using e'(1) by (simp add: events_body_def Let_def)
      have p: "?p \<in> T" using lookup_task(1) [OF W(1) W(4)] False by blast
      from n have n': "w_id ?w = n" by simp
      show ?thesis
      proof (rule tick_wake_phase [OF lib inv' susp _ n' fr pool p])
        fix r' h
        assume "tick_wake A ?ev ?p (?w, s) = Inr (?w\<lparr>w_ready := r'\<rparr>, s\<lparr>s_heap := h\<rparr>)"
          and "phase_inv A elems tok nodes hok G n T P I s0 (?w\<lparr>w_ready := r'\<rparr>, s\<lparr>s_heap := h\<rparr>)"
        with b e'(3) Cons show ?thesis
          by (intro exI [of _ True] exI [of _ "?w\<lparr>w_ready := r'\<rparr>"] exI [of _ "s\<lparr>s_heap := h\<rparr>"]) simp
      qed simp_all
    qed
  qed
qed

lemma events_loop_ok:
  assumes lib: "lib_ok A elems tok nodes hok M"
    and ph: "phase_inv A elems tok nodes hok G n T P I s0 (w, s)"
  obtains w' s' where "loop (Suc (evo_nevents (w_evo w))) (events_body A) (w, s) = Inr (w', s')"
    and "phase_inv A elems tok nodes hok G n T P I s0 (w', s')" and "w_timer w' = w_timer w"
    and "evo_rest (w_evo w') = []" and "s_messages s' = s_messages s"
proof -
  let ?I = "\<lambda>k ws. phase_inv A elems tok nodes hok G n T P I s0 ws \<and> w_timer (fst ws) = w_timer w \<and>
     s_messages (snd ws) = s_messages s \<and> k = length (evo_rest (w_evo (fst ws)))"
  let ?Q = "\<lambda>ws. phase_inv A elems tok nodes hok G n T P I s0 ws \<and> w_timer (fst ws) = w_timer w \<and>
     s_messages (snd ws) = s_messages s \<and> evo_rest (w_evo (fst ws)) = []"
  have step: "\<exists>go t. events_body A ws = Inr (go, t) \<and> (if go then \<exists>j < k. ?I j t else ?Q t)"
    if I: "?I k ws" for k ws
  proof -
    obtain w1 s1 where ws: "ws = (w1, s1)" by (cases ws)
    from I have "phase_inv A elems tok nodes hok G n T P I s0 (w1, s1)" by (simp add: ws)
    from events_body_ok [OF lib this] obtain go w2 s2 where
      b: "events_body A (w1, s1) = Inr (go, w2, s2)"
        "phase_inv A elems tok nodes hok G n T P I s0 (w2, s2)" "w_timer w2 = w_timer w1"
        "s_messages s2 = s_messages s1"
      and c: "if go then evo_rest (w_evo w2) = tl (evo_rest (w_evo w1)) \<and> evo_rest (w_evo w1) \<noteq> []
              else evo_rest (w_evo w1) = [] "
      by blast
    show ?thesis
    proof (cases go)
      case True
      with b c I show ?thesis by (auto simp: ws)
    next
      case False
      have "evo_rest (w_evo w2) = []"
        using b(1) c False by (auto simp: events_body_def bindE_Inr_iff Let_def law_evo_next_def
            require_Inr_iff evo_rest_def split: option.splits if_splits)
      with b I False show ?thesis by (auto simp: ws)
    qed
  qed
  have k: "length (evo_rest (w_evo w)) < Suc (evo_nevents (w_evo w))"
    by (simp add: evo_rest_def)
  have i: "?I (length (evo_rest (w_evo w))) (w, s)" using ph by simp
  show thesis
  proof (rule loop_rule [where I = ?I, OF step i k])
    fix t assume "loop (Suc (evo_nevents (w_evo w))) (events_body A) (w, s) = Inr t" and "?Q t"
    then show thesis by (cases t) (auto intro: that)
  qed
qed

section \<open>Messages\<close>

lemma worker_inv_messages:
  assumes "worker_inv A elems tok nodes hok G T X R P I (w, s)" and "msg_queue_inv q"
    and "set (msgs q) \<subseteq> set (msgs (s_messages s ! w_id w))"
  shows "worker_inv A elems tok nodes hok G T X R P I
           (w, s\<lparr>s_messages := (s_messages s)[w_id w := q]\<rparr>)"
  using assms by (auto simp: worker_inv_def own_inv_def shared_inv_def)

lemma messages_body_ok:
  assumes lib: "lib_ok A elems tok nodes hok M"
    and ph: "phase_inv A elems tok nodes hok G n T P I s0 (w, s)"
  shows "\<exists>go b' w' s'. messages_body A (b, w, s) = Inr (go, b', w', s') \<and>
     phase_inv A elems tok nodes hok G n T P I s0 (w', s') \<and> w_timer w' = w_timer w \<and>
     w_evo w' = w_evo w \<and>
     (case msgs (s_messages s ! n) of
        [] \<Rightarrow> \<not> go \<and> b' = b \<and> msgs (s_messages s' ! n) = []
      | m # ms \<Rightarrow> go \<and> b' = (b \<and> msg_type m \<noteq> LAW_MSG_SHUTDOWN) \<and> msgs (s_messages s' ! n) = ms)"
proof -
  from ph obtain R where inv: "worker_inv A elems tok nodes hok G T {} R P I (w, s)"
    and susp: "\<And>p. p \<in> T \<Longrightarrow> suspended_ok G (s_heap s p)"
    and n: "w_id w = n" and fr: "touches n T s0 s" and pool: "s_pool s = s_pool s0"
    by (rule phase_invE) blast
  note W = worker_inv_facts [OF inv]
  have q: "msg_queue_inv (s_messages s ! n)" and len: "n < length (s_messages s)"
    and types: "\<forall>m \<in> set (msgs (s_messages s ! n)).
      msg_type m = LAW_MSG_SHUTDOWN \<or> msg_type m = LAW_MSG_WAKEUP"
    using W(1) n by (simp_all add: own_inv_def)
  show ?thesis
  proof (cases "msgs (s_messages s ! n)")
    case Nil
    have "(s_messages s)[n := s_messages s ! n] = s_messages s" by simp
    then have "messages_body A (b, w, s) = Inr (False, b, w, s)"
      using mq.pop_empty [OF q Nil] n by (simp add: messages_body_def Let_def)
    with Nil ph show ?thesis
      by (intro exI [of _ False] exI [of _ b] exI [of _ w] exI [of _ s]) simp
  next
    case (Cons m ms)
    obtain r where r: "law_msg_queue_pop (s_messages s ! n) = Inr (LAW_ERR_OK, Some m, r)"
      "msg_queue_inv r" "msgs r = ms"
      using mq.pop_item [OF q Cons] by blast
    let ?s = "s\<lparr>s_messages := (s_messages s)[w_id w := r]\<rparr>"
    have at: "msgs (s_messages ?s ! n) = ms" using len n r(3) by simp
    have inv': "worker_inv A elems tok nodes hok G T {} R P I (w, ?s)"
      using Cons n r(3) by (intro worker_inv_messages [OF inv r(2)]) auto
    have "touches n T s ?s" using n at Cons by (auto simp: touches_def)
    with fr have fr': "touches n T s0 ?s" by (rule touches_trans)
    have pool': "s_pool ?s = s_pool s0" using pool by simp
    have susp': "p \<in> T \<Longrightarrow> suspended_ok G (s_heap ?s p)" for p using susp by simp
    have ph': "phase_inv A elems tok nodes hok G n T P I s0 (w, ?s)"
      by (rule phase_invI [OF inv' susp' n fr' pool'])
    let ?p = "law_table_lookup (lib_hm A) (msg_data m) (w_table w)"
    have mt: "msg_type m = LAW_MSG_SHUTDOWN \<or> msg_type m = LAW_MSG_WAKEUP"
      using types Cons by simp
    consider (stop) "msg_type m = LAW_MSG_SHUTDOWN"
      | (none) "msg_type m \<noteq> LAW_MSG_SHUTDOWN" "msg_type m = LAW_MSG_WAKEUP" "?p = NULL"
      | (wake) "msg_type m \<noteq> LAW_MSG_SHUTDOWN" "msg_type m = LAW_MSG_WAKEUP" "?p \<noteq> NULL"
      using mt by blast
    then show ?thesis
    proof cases
      case stop
      with r(1) n have "messages_body A (b, w, s) = Inr (True, False, w, ?s)"
        by (simp add: messages_body_def Let_def)
      with ph' at Cons stop show ?thesis
        by (intro exI [of _ True] exI [of _ False] exI [of _ w] exI [of _ ?s]) simp
    next
      case none
      with r(1) n have "messages_body A (b, w, s) = Inr (True, b, w, ?s)"
        by (simp add: messages_body_def Let_def)
      with ph' at Cons none show ?thesis
        by (intro exI [of _ True] exI [of _ b] exI [of _ w] exI [of _ ?s]) simp
    next
      case wake
      then have body: "messages_body A (b, w, s) =
          bindE (tick_wake A \<lparr>ev_events = LAW_EV_WAK, ev_data = 0\<rparr> ?p (w, ?s))
            (\<lambda>ws. Inr (True, b, ws))"
        using r(1) n by (simp add: messages_body_def Let_def)
      have p: "?p \<in> T" using lookup_task(1) [OF W(1) W(4)] wake(3) by blast
      show ?thesis
      proof (rule tick_wake_phase [OF lib inv' susp' _ n fr' pool' p])
        fix r' h
        assume "tick_wake A \<lparr>ev_events = LAW_EV_WAK, ev_data = 0\<rparr> ?p (w, ?s) =
            Inr (w\<lparr>w_ready := r'\<rparr>, ?s\<lparr>s_heap := h\<rparr>)"
          and "phase_inv A elems tok nodes hok G n T P I s0 (w\<lparr>w_ready := r'\<rparr>, ?s\<lparr>s_heap := h\<rparr>)"
        with body at Cons wake(1) show ?thesis
          by (intro exI [of _ True] exI [of _ b] exI [of _ "w\<lparr>w_ready := r'\<rparr>"]
              exI [of _ "?s\<lparr>s_heap := h\<rparr>"]) simp
      qed simp_all
    qed
  qed
qed

lemma length_msgs:
  assumes "msg_queue_inv q"
  shows "length (msgs q) \<le> length (pp_data q)"
proof -
  have "pp_data q = concat (map msg_bytes (msgs q))"
    using assms by (simp add: msg_queue_inv_def pipe_holds_def)
  then have "length (pp_data q) = 16 * length (msgs q)"
    using length_concat_const [of msg_bytes 16 "msgs q"] length_msg_bytes by simp
  then show ?thesis by simp
qed

lemma messages_loop_ok:
  assumes lib: "lib_ok A elems tok nodes hok M"
    and ph: "phase_inv A elems tok nodes hok G n T P I s0 (w, s)"
  obtains w' s' where "loop (Suc (length (pp_data (s_messages s ! n)))) (messages_body A) (b, w, s) =
      Inr (b \<and> (\<forall>m \<in> set (msgs (s_messages s ! n)). msg_type m \<noteq> LAW_MSG_SHUTDOWN), w', s')"
    and "phase_inv A elems tok nodes hok G n T P I s0 (w', s')" and "w_timer w' = w_timer w"
    and "w_evo w' = w_evo w" and "msgs (s_messages s' ! n) = []"
proof -
  let ?go = "b \<and> (\<forall>m \<in> set (msgs (s_messages s ! n)). msg_type m \<noteq> LAW_MSG_SHUTDOWN)"
  let ?J = "\<lambda>x. phase_inv A elems tok nodes hok G n T P I s0 (snd x) \<and>
     w_timer (fst (snd x)) = w_timer w \<and> w_evo (fst (snd x)) = w_evo w"
  let ?ms = "\<lambda>x. msgs (s_messages (snd (snd x)) ! n)"
  let ?I = "\<lambda>k x. ?J x \<and>
     (?go \<longleftrightarrow> fst x \<and> (\<forall>m \<in> set (?ms x). msg_type m \<noteq> LAW_MSG_SHUTDOWN)) \<and> k = length (?ms x)"
  let ?Q = "\<lambda>x. ?J x \<and> fst x = ?go \<and> ?ms x = []"
  have step: "\<exists>go t. messages_body A x = Inr (go, t) \<and> (if go then \<exists>j < k. ?I j t else ?Q t)"
    if I: "?I k x" for k x
  proof -
    obtain b1 w1 s1 where x: "x = (b1, w1, s1)" by (cases x)
    from I have "phase_inv A elems tok nodes hok G n T P I s0 (w1, s1)" by (simp add: x)
    from messages_body_ok [OF lib this, of b1] obtain go b2 w2 s2 where
      m: "messages_body A (b1, w1, s1) = Inr (go, b2, w2, s2)"
        "phase_inv A elems tok nodes hok G n T P I s0 (w2, s2)" "w_timer w2 = w_timer w1"
        "w_evo w2 = w_evo w1"
      and c: "case msgs (s_messages s1 ! n) of
        [] \<Rightarrow> \<not> go \<and> b2 = b1 \<and> msgs (s_messages s2 ! n) = []
      | m # ms \<Rightarrow> go \<and> b2 = (b1 \<and> msg_type m \<noteq> LAW_MSG_SHUTDOWN) \<and> msgs (s_messages s2 ! n) = ms"
      by blast
    show ?thesis
    proof (cases "msgs (s_messages s1 ! n)")
      case Nil
      with m c I show ?thesis by (intro exI [of _ False] exI [of _ "(b2, w2, s2)"]) (simp add: x)
    next
      case (Cons m1 ms)
      with m c I show ?thesis
        by (intro exI [of _ True] exI [of _ "(b2, w2, s2)"]) (auto simp: x)
    qed
  qed
  have q: "msg_queue_inv (s_messages s ! n)"
    using ph by (auto simp: phase_inv_def worker_inv_def own_inv_def)
  have k: "length (msgs (s_messages s ! n)) < Suc (length (pp_data (s_messages s ! n)))"
    using length_msgs [OF q] by simp
  have i: "?I (length (msgs (s_messages s ! n))) (b, w, s)" using ph by simp
  show thesis
  proof (rule loop_rule [where I = ?I, OF step i k])
    fix t assume "loop (Suc (length (pp_data (s_messages s ! n)))) (messages_body A) (b, w, s) = Inr t"
      and "?Q t"
    then show thesis by (cases t) (auto intro: that)
  qed
qed

end
