(* ===== verification/WorkerTick.thy ===== *)
theory WorkerTick
  imports WorkerPhases
begin

text \<open>
  The last two loops of \<open>law_worker_tick\<close>, the intake of new tasks and the dispatch of
  ready ones, and the whole round.
\<close>

section \<open>Intake\<close>

lemma ready_pushed_simps [simp]:
  "t_mode (ready_pushed r p h q) = t_mode (h q)"
  "t_id (ready_pushed r p h q) = t_id (h q)"
  "t_version (ready_pushed r p h q) = t_version (h q)"
  "t_callback (ready_pushed r p h q) = t_callback (h q)"
  "t_callee (ready_pushed r p h q) = t_callee (h q)"
  "task_waits (ready_pushed r p h q) = task_waits (h q)"
  by (simp_all add: ready_pushed_def task_waits_def)

lemma ready_pushed_other: "q \<noteq> p \<Longrightarrow> ready_pushed r p h q = h q"
  by (simp add: ready_pushed_def)

text \<open>The first task of the queue moves to the table and the ready set.\<close>

lemma shared_inv_intake:
  assumes sh: "shared_inv n T P (p # I) s" and fin: "finite T"
    and q: "pipe_holds ptr_bytes I q" and room: "int (card T) \<le> cf_worker_tasks (s_cfg s)"
  shows "shared_inv n (insert p T) P I
     ((draw (s\<lparr>s_incoming := (s_incoming s)[n := q]\<rparr>))\<lparr>s_heap := ready_pushed r p (s_heap s)\<rparr>)"
proof -
  note F = shared_inv_facts [OF sh]
  have p: "p \<notin> T" "p \<notin> set P" "p \<notin> set I" using F(5,7,8) by auto
  let ?h = "ready_pushed r p (s_heap s)"
  have low: "low_id ?h = low_id (s_heap s)"
    by (rule ext) (simp add: low_id_def)
  have same: "?h x = s_heap s x" if "x \<in> set P \<union> set I" for x
    using p that by (intro ready_pushed_other) auto
  have pool: "pool_holds ?h (s_pool s) P"
    by (rule pool_holds_cong [OF _ F(1)]) (simp add: same)
  have un: "insert p T \<union> set I = T \<union> set (p # I)" by auto
  have marks: "\<forall>x \<in> set P \<union> set I. \<not> t_mark (?h x)"
    using F(9) same by simp
  have modes: "\<forall>x \<in> set I. t_mode (?h x) = LAW_MODE_SPAWNED \<and>
      callback_ok (s_cfg s) (t_callback (?h x))"
    using F(10,11) by simp
  have ids: "\<forall>x \<in> insert p T \<union> set I. unat (t_id (?h x)) < LAW_ID_MODULO"
    using F(12) unfolding un by simp
  have dis: "NULL \<notin> set I" "distinct I" "insert p T \<inter> set P = {}" "insert p T \<inter> set I = {}"
    "set P \<inter> set I = {}" using F(4,5,6,7,8) p by auto
  have inj: "inj_on (low_id ?h) (insert p T \<union> set I)"
    using F(13) unfolding un low .
  have lim: "int (card (insert p T)) \<le> cf_worker_tasks (s_cfg s) + 1"
    using room p(1) fin by simp
  show ?thesis
    unfolding shared_inv_def using q pool marks modes ids dis inj lim F(2)
    by (intro conjI) simp_all
qed

lemma intake_body_ok:
  assumes lib: "lib_ok A elems tok nodes hok M"
    and inv: "worker_inv A elems tok nodes hok G T {} R P I (w, s)" and n: "w_id w = n"
  shows "if cf_worker_tasks (s_cfg s) < int (card T) then intake_body A (w, s) = Inr (False, w, s)
    else case I of
      [] \<Rightarrow> intake_body A (w, s) = Inr (False, w, s)
    | p # I' \<Rightarrow> \<exists>w' s'. intake_body A (w, s) = Inr (True, w', s') \<and>
        worker_inv A elems tok nodes hok G (insert p T) {} (p # R) P I' (w', s') \<and>
        w_id w' = n \<and> touches n {p} s s' \<and> s_pool s' = s_pool s \<and>
        w_timer w' = w_timer w"
proof -
  note W = worker_inv_facts [OF inv]
  note size = table_size_card [OF W(1)]
  have sh: "shared_inv n T P I s" using W(2) n by simp
  let ?c = "cf_worker_tasks (s_cfg s)"
  have wt: "0 \<le> ?c" "?c < 2 ^ 60" using W(1) by (simp_all add: own_inv_def)
  have test: "law_table_size (w_table w) \<le> nat (?c mod 2 ^ 64) \<longleftrightarrow> int (card T) \<le> ?c"
    using wt size(1) by (simp add: law_table_size_def mod_pos_pos_trivial) linarith
  have qh: "pipe_holds ptr_bytes I (s_incoming s ! n)" and len: "n < length (s_incoming s)"
    using sh by (simp_all add: shared_inv_def)
  note qi = task_queue_invI [OF qh] and items = task_items_holds [OF qh]
  show ?thesis
  proof (cases "int (card T) \<le> ?c")
    case False
    then have "intake_body A (w, s) = Inr (False, w, s)" using test by (simp add: intake_body_def)
    with False show ?thesis by simp
  next
    case small: True
    show ?thesis
    proof (cases I)
      case Nil
      have "(s_incoming s)[n := s_incoming s ! n] = s_incoming s" by simp
      then have "intake_body A (w, s) = Inr (False, w, s)"
        using small test tq.pop_empty [OF qi] items Nil n by (simp add: intake_body_def Let_def)
      with Nil small show ?thesis by simp
    next
      case (Cons p I')
      obtain q where q: "law_task_queue_pop (s_incoming s ! n) = Inr (LAW_ERR_OK, Some p, q)"
        "task_queue_inv q" "pipe_items 8 ptr_of_bytes q = I'"
        using tq.pop_item [OF qi, of p I'] items Cons by blast
      have qh': "pipe_holds ptr_bytes I' q" using q(2,3) by (simp add: task_queue_inv_def)
      have p: "p \<noteq> NULL" "p \<notin> T" "p \<notin> set I'" "t_mode (s_heap s p) = LAW_MODE_SPAWNED"
        "callback_ok (s_cfg s) (t_callback (s_heap s p))" "\<not> t_mark (s_heap s p)"
        using sh Cons by (auto simp: shared_inv_def)
      have inj: "inj_on (low_id (s_heap s)) (T \<union> set I)" using sh by (simp add: shared_inv_def)
      have tbl: "table_inv (lib_hm A) nodes hok (w_table w)"
        and names: "table_names nodes (s_heap s) (w_table w) T"
        using W(1) by (simp_all add: own_inv_def)
      have fresh: "\<forall>y \<in> nodes (w_table w). (ucast (tn_id y) :: u32) \<noteq> ucast (t_id (s_heap s p))"
      proof
        fix y assume y: "y \<in> nodes (w_table w)"
        then have "tn_pointer y \<in> T" "low_id (s_heap s) (tn_pointer y) = ucast (tn_id y)"
          using names by (auto simp: table_names_def low_id_def)
        with inj p(2) Cons show "(ucast (tn_id y) :: u32) \<noteq> ucast (t_id (s_heap s p))"
          unfolding low_id_def by (metis UnI1 UnI2 inj_onD list.set_intros(1))
      qed
      have "fst (table_insert (lib_hm A) (t_id (s_heap s p)) p (w_table w)) \<noteq> PMT_HM_RESIZE"
        using lib by (simp add: lib_ok_def table_insert_def)
      then obtain u where u:
        "table_insert (lib_hm A) (t_id (s_heap s p)) p (w_table w) = (PMT_HM_SUCCESS, u)"
        "table_inv (lib_hm A) nodes hok u"
        "nodes u = insert \<lparr>tn_id = t_id (s_heap s p), tn_pointer = p\<rparr> (nodes (w_table w))"
        using table_inv_facts(7) [OF tbl fresh, of p] by auto
      have L: "pmt_ll_spec (lib_ll A)" and alloc: "lib_alloc A k" for k
        using lib by (auto simp: lib_ok_def)
      have rh: "ready_holds (insert p T) (s_heap s) (w_ready w) R"
        using W(3) p(1,2,6) by (auto simp: ready_holds_def)
      have pR: "p \<notin> set R" using W(3) p(2) by (auto simp: ready_holds_def)
      let ?h = "ready_pushed (w_ready w) p (s_heap s)"
      let ?w = "w\<lparr>w_table := u, w_ready := p\<rparr>"
      let ?s = "(draw (s\<lparr>s_incoming := (s_incoming s)[n := q]\<rparr>))\<lparr>s_heap := ?h\<rparr>"
      have body: "intake_body A (w, s) = Inr (True, ?w, ?s)"
        using small test q(1) p(1,4) u(1) alloc n law_ready_set_push_ok(1) [OF L rh] pR
        by (simp add: intake_body_def Let_def law_table_insert_eq)
      have rh': "ready_holds (insert p T) ?h p (p # R)"
        using law_ready_set_push_ok(2) [OF L rh _ pR] by simp
      have sh': "shared_inv n (insert p T) P I' ?s"
        using sh Cons by (intro shared_inv_intake size(2) qh' small) simp
      have own': "own_inv A elems tok nodes hok ?w ?s (insert p T)"
        using W(1) u(2,3) names by (auto simp: own_inv_def table_names_def)
      have "task_ok (s_cfg s) G (set (p # R)) (timer_pending elems (w_timer w)) x (?h x)"
        if "x \<in> insert p T" for x
      proof (cases "x = p")
        case True
        with p(4,5) show ?thesis by (simp add: task_ok_def)
      next
        case False
        with that have "task_ok (s_cfg s) G (set R) (timer_pending elems (w_timer w)) x (s_heap s x)"
          using W(5) by simp
        from task_ok_mono [OF this, of "set (p # R)" "timer_pending elems (w_timer w)"]
        show ?thesis by (auto simp: ready_pushed_other [OF False])
      qed
      then have "worker_inv A elems tok nodes hok G (insert p T) {} (p # R) P I' (?w, ?s)"
        using own' sh' rh' n by (simp add: worker_inv_def)
      moreover have "touches n {p} s ?s"
        by (simp add: touches_def ready_pushed_other)
      ultimately show ?thesis using body Cons n small by simp
    qed
  qed
qed

text \<open>
  The loop takes in a first part \<open>I1\<close> of the queue: all of it, or as much as the table may hold.
\<close>

lemma intake_loop_ok:
  assumes lib: "lib_ok A elems tok nodes hok M"
    and inv: "worker_inv A elems tok nodes hok G T {} R P I (w, s)" and n: "w_id w = n"
  obtains w' s' R' I1 I2 where
      "loop (Suc (length (pp_data (s_incoming s ! n)))) (intake_body A) (w, s) = Inr (w', s')"
    and "worker_inv A elems tok nodes hok G (T \<union> set I1) {} R' P I2 (w', s')"
    and "I = I1 @ I2" and "I2 = [] \<or> cf_worker_tasks (s_cfg s) < int (card (T \<union> set I1))"
    and "w_id w' = n" and "touches n (set I1) s s'" and "s_pool s' = s_pool s"
    and "w_timer w' = w_timer w"
proof -
  let ?J = "\<lambda>R' I1 I2 ws. worker_inv A elems tok nodes hok G (T \<union> set I1) {} R' P I2 ws \<and>
     I = I1 @ I2 \<and> w_id (fst ws) = n \<and> touches n (set I1) s (snd ws) \<and>
     s_pool (snd ws) = s_pool s \<and> w_timer (fst ws) = w_timer w"
  let ?I = "\<lambda>k ws. \<exists>R' I1 I2. ?J R' I1 I2 ws \<and> k = length I2"
  let ?Q = "\<lambda>ws. \<exists>R' I1 I2. ?J R' I1 I2 ws \<and>
     (I2 = [] \<or> cf_worker_tasks (s_cfg s) < int (card (T \<union> set I1)))"
  have step: "\<exists>go t. intake_body A ws = Inr (go, t) \<and> (if go then \<exists>j < k. ?I j t else ?Q t)"
    if I: "?I k ws" for k ws
  proof -
    obtain w1 s1 where ws: "ws = (w1, s1)" by (cases ws)
    from I obtain R' I1 I2 where J: "?J R' I1 I2 (w1, s1)" and k: "k = length I2"
      unfolding ws by blast
    from J have inv1: "worker_inv A elems tok nodes hok G (T \<union> set I1) {} R' P I2 (w1, s1)"
      and n1: "w_id w1 = n" by simp_all
    have cfg: "s_cfg s1 = s_cfg s" using J by (simp add: touches_def)
    note body = intake_body_ok [OF lib inv1 n1, unfolded cfg]
    show ?thesis
    proof (cases "I2 = [] \<or> cf_worker_tasks (s_cfg s) < int (card (T \<union> set I1))")
      case True
      have "intake_body A ws = Inr (False, w1, s1)"
      proof (cases "cf_worker_tasks (s_cfg s) < int (card (T \<union> set I1))")
        case True
        from body [unfolded if_P [OF True]] show ?thesis by (simp only: ws)
      next
        case full: False
        with True have "I2 = []" by simp
        with body [unfolded if_not_P [OF full]] show ?thesis by (simp only: ws list.case)
      qed
      moreover from J True have "?Q (w1, s1)" by blast
      ultimately show ?thesis by (intro exI [of _ False] exI [of _ "(w1, s1)"]) (simp only: if_False simp_thms)
    next
      case False
      then obtain p I3 where I2: "I2 = p # I3" by (cases I2) auto
      from False have small: "\<not> cf_worker_tasks (s_cfg s) < int (card (T \<union> set I1))" by simp
      from body [unfolded if_not_P [OF small] I2 list.case] obtain w2 s2 where
        b: "intake_body A (w1, s1) = Inr (True, w2, s2)"
        "worker_inv A elems tok nodes hok G (insert p (T \<union> set I1)) {} (p # R') P I3 (w2, s2)"
        "w_id w2 = n" "touches n {p} s1 s2" "s_pool s2 = s_pool s1" "w_timer w2 = w_timer w1"
        by blast
      have t1: "touches n (set I1) s s1" and J': "I = I1 @ I2" "s_pool s1 = s_pool s" "w_timer w1 = w_timer w"
        using J by simp_all
      have sub: "set I1 \<subseteq> set (I1 @ [p])" "{p} \<subseteq> set (I1 @ [p])" by auto
      have "touches n (set (I1 @ [p])) s s1" by (rule touches_mono [OF t1 sub(1)])
      moreover have "touches n (set (I1 @ [p])) s1 s2" by (rule touches_mono [OF b(4) sub(2)])
      ultimately have "touches n (set (I1 @ [p])) s s2" by (rule touches_trans)
      then have "?J (p # R') (I1 @ [p]) I3 (w2, s2)" using b(2,3,5,6) J' I2 by simp
      then have "?I (length I3) (w2, s2)" by blast
      moreover have "length I3 < k" using k I2 by simp
      ultimately have "\<exists>j < k. ?I j (w2, s2)" by blast
      with b(1) show ?thesis
        unfolding ws by (intro exI [of _ True] exI [of _ "(w2, s2)"]) (simp only: if_True simp_thms)
    qed
  qed
  have qh: "pipe_holds ptr_bytes I (s_incoming s ! n)"
    using inv n by (auto simp: worker_inv_def shared_inv_def)
  then have "length (pp_data (s_incoming s ! n)) = 8 * length I"
    using length_concat_const [of ptr_bytes 8 I] length_ptr_bytes by (simp add: pipe_holds_def)
  then have k: "length I < Suc (length (pp_data (s_incoming s ! n)))" by simp
  have i: "?I (length I) (w, s)"
    using inv n by (intro exI [of _ R] exI [of _ "[]"] exI [of _ I]) simp
  show thesis
  proof (rule loop_rule [where I = ?I, OF step i k])
    fix t assume "loop (Suc (length (pp_data (s_incoming s ! n)))) (intake_body A) (w, s) = Inr t"
      and "?Q t"
    then show thesis by (cases t) (auto intro: that)
  qed
qed

section \<open>The running task\<close>

lemma worker_inv_active:
  assumes inv: "worker_inv A elems tok nodes hok G T X R P I (w, s)" and p: "p \<in> T" "p \<in> X"
    and t: "t_id t = t_id (s_heap s p)" "t_next t = t_next (s_heap s p)" "t_mark t = t_mark (s_heap s p)"
  shows "worker_inv A elems tok nodes hok G T X R P I (w, set_task p t s)"
proof -
  note W = worker_inv_facts [OF inv]
  let ?h = "(s_heap s)(p := t)"
  have own: "own_inv A elems tok nodes hok (w\<lparr>w_ready := w_ready w\<rparr>) (s\<lparr>s_heap := ?h\<rparr>) T"
    by (rule own_inv_frame [OF W(1)]) (simp add: t)
  have sh: "shared_inv (w_id w) T P I (s\<lparr>s_heap := ?h\<rparr>)"
    using p(1) t(1) by (intro shared_inv_frame [OF W(2)]) auto
  have r: "ready_holds T ?h (w_ready w) R"
    by (rule ready_holds_cong [OF W(3)]) (simp add: t)
  have "task_ok (s_cfg s) G (set R) (timer_pending elems (w_timer w)) q (?h q)" if "q \<in> T - X" for q
    using W(5) [OF that] p(2) that by auto
  with own sh r show ?thesis by (simp add: worker_inv_def set_task_def)
qed

text \<open>Components the invariant does not look at.\<close>

lemma worker_inv_draw:
  "worker_inv A elems tok nodes hok G T X R P I (w, draw s) =
   worker_inv A elems tok nodes hok G T X R P I (w, s)"
  by (simp add: worker_inv_def own_inv_def shared_inv_def)

lemma worker_inv_mode:
  "worker_inv A elems tok nodes hok G T X R P I (w, s\<lparr>s_mode := m\<rparr>) =
   worker_inv A elems tok nodes hok G T X R P I (w, s)"
  by (simp add: worker_inv_def own_inv_def shared_inv_def)

lemma touches_draw [simp]: "touches n D s (draw s') = touches n D s s'"
  by (simp add: touches_def draw_def)

lemma touches_mode [simp]: "touches n D s (s'\<lparr>s_mode := m\<rparr>) = touches n D s s'"
  by (simp add: touches_def)

lemma touches_set_task:
  "touches n D s s' \<Longrightarrow> p \<in> D \<Longrightarrow> t_id t = t_id (s_heap s' p) \<Longrightarrow> touches n D s (set_task p t s')"
  by (auto simp: touches_def set_task_def)

text \<open>
  \<open>running_inv\<close>: the task \<open>p\<close> runs; everything else is as the invariant says.
\<close>

definition running_inv where
  "running_inv A elems tok nodes hok G n T R P I p s0 ws \<longleftrightarrow>
     worker_inv A elems tok nodes hok G T {p} R P I ws \<and> w_active (fst ws) = p \<and> p \<in> T \<and>
     w_id (fst ws) = n \<and> touches n {p} s0 (snd ws) \<and> s_pool (snd ws) = s_pool s0"

lemma running_inv_set:
  assumes "running_inv A elems tok nodes hok G n T R P I p s0 (w, s)"
    and "t_id t = t_id (s_heap s p)" "t_next t = t_next (s_heap s p)" "t_mark t = t_mark (s_heap s p)"
  shows "running_inv A elems tok nodes hok G n T R P I p s0 (w, set_task p t s)"
  using assms worker_inv_active [of A elems tok nodes hok G T "{p}" R P I w s p t]
  by (auto simp: running_inv_def intro: touches_set_task)

text \<open>
  The task that has just suspended: it waits with its array, and a timer for its version is
  pending.
\<close>

definition just_suspended where
  "just_suspended elems G p ws \<longleftrightarrow>
     task_waits (s_heap (snd ws) p) \<and> (\<exists>u \<in> G. t_callee (s_heap (snd ws) p) = Some u) \<and>
     (\<exists>e. (e, t_id (s_heap (snd ws) p), t_version (s_heap (snd ws) p))
            \<in># timer_pending elems (w_timer (fst ws)))"

lemma running_inv_timer:
  assumes r: "running_inv A elems tok nodes hok G n T R P I p s0 (w, s)"
    and t: "timer_inv (lib_bh A) elems tok tmr"
    and sub: "set_mset (timer_pending elems (w_timer w)) \<subseteq> set_mset (timer_pending elems tmr)"
  shows "running_inv A elems tok nodes hok G n T R P I p s0 (w\<lparr>w_timer := tmr\<rparr>, s)"
proof -
  from r have inv: "worker_inv A elems tok nodes hok G T {p} R P I (w, s)"
    by (simp add: running_inv_def)
  note W = worker_inv_facts [OF inv]
  have "task_ok (s_cfg s) G (set R) (timer_pending elems tmr) q (s_heap s q)" if "q \<in> T - {p}" for q
    using task_ok_mono [OF W(5) [OF that] subset_refl sub] .
  moreover have "err_inv (w_errs w)" using W(1) by (simp add: own_inv_def)
  ultimately have "worker_inv A elems tok nodes hok G T {p} R P I
      (w\<lparr>w_errs := w_errs w, w_timer := tmr\<rparr>, s)"
    by (intro worker_inv_timer [OF inv t]) auto
  with r show ?thesis by (simp add: running_inv_def)
qed

lemma law_ewait_ok:
  assumes r: "running_inv A elems tok nodes hok G n T R P I p s0 (w, s)" and m: "0 \<le> millis"
    and k: "0 \<le> k" "k \<le> int (length xs)"
  shows "\<exists>res w' s'. law_ewait A millis (Some xs) k (w, s) = Inr (res, w', s') \<and>
     running_inv A elems tok nodes hok G n T R P I p s0 (w', s') \<and>
     (res = Inl LAW_ERR_OOM \<or>
      (res = Inr () \<and> task_waits (s_heap s' p) \<and>
       (\<exists>e. (e, t_id (s_heap s' p), t_version (s_heap s' p)) \<in># timer_pending elems (w_timer w'))))"
proof -
  from r have inv: "worker_inv A elems tok nodes hok G T {p} R P I (w, s)" and act: "w_active w = p"
    and p: "p \<in> T" by (simp_all add: running_inv_def)
  note W = worker_inv_facts [OF inv]
  have nn: "p \<noteq> NULL" using p W(4) by blast
  have tmr: "timer_inv (lib_bh A) elems tok (w_timer w)" using W(1) by (simp add: own_inv_def)
  let ?now = "lib_time A (s_draws s)"
  let ?t = "s_heap s p"
  obtain ok t' where ins: "law_timer_insert (lib_bh A) (?now + millis) (t_id ?t) (t_version ?t)
      (w_timer w) = (ok, t')" by fastforce
  from tm.insert_ok [OF tmr ins] have t': "timer_inv (lib_bh A) elems tok t'"
    and pend: "timer_pending elems t' = (if ok then
      add_mset (?now + millis, t_id ?t, t_version ?t) (timer_pending elems (w_timer w))
      else timer_pending elems (w_timer w))" by auto
  have r1: "running_inv A elems tok nodes hok G n T R P I p s0 (w\<lparr>w_timer := t'\<rparr>, draw s)"
    using running_inv_timer [OF r t'] pend
    by (auto simp: running_inv_def worker_inv_draw split: if_splits)
  show ?thesis
  proof (cases ok)
    case False
    then have "law_ewait A millis (Some xs) k (w, s) = Inr (Inl LAW_ERR_OOM, w\<lparr>w_timer := t'\<rparr>, draw s)"
      using ins act nn m by (simp add: law_ewait_def law_time_millis_def Let_def)
    with r1 show ?thesis by blast
  next
    case True
    let ?u = "?t\<lparr>t_max_events := k, t_num_events := 0, t_events := Some xs\<rparr>"
    have "law_ewait A millis (Some xs) k (w, s) =
        Inr (Inr (), w\<lparr>w_timer := t'\<rparr>, set_task p ?u (draw s))"
      using True ins act nn m by (simp add: law_ewait_def law_time_millis_def Let_def)
    moreover have "running_inv A elems tok nodes hok G n T R P I p s0
        (w\<lparr>w_timer := t'\<rparr>, set_task p ?u (draw s))"
      by (rule running_inv_set [OF r1]) simp_all
    moreover have "task_waits ?u" using k by (simp add: task_waits_def)
    ultimately show ?thesis using pend True
      by (intro exI [of _ "Inr ()"] exI [of _ "w\<lparr>w_timer := t'\<rparr>"] exI [of _ "set_task p ?u (draw s)"])
        auto
  qed
qed

lemma law_ectl_ok:
  assumes r: "running_inv A elems tok nodes hok G n T R P I p s0 (w, s)"
  shows "\<exists>e w' s'. law_ectl A d op flags events data (w, s) = Inr (e, w', s') \<and>
     running_inv A elems tok nodes hok G n T R P I p s0 (w', s')"
proof -
  from r have inv: "worker_inv A elems tok nodes hok G T {p} R P I (w, s)" and act: "w_active w = p"
    and p: "p \<in> T" by (simp_all add: running_inv_def)
  note W = worker_inv_facts [OF inv]
  have "unat (t_id (s_heap s p)) < LAW_ID_MODULO" using shared_inv_facts(12) [OF W(2)] p by blast
  then obtain code where code:
    "law_slot_encode \<lparr>slot_id = t_id (s_heap s p), slot_data = data\<rparr> = Inr code"
    by (simp add: law_slot_encode_def)
  obtain c evo where c: "law_evo_ctl (lib_ctl A (s_draws s)) d op flags
      \<lparr>ev_events = events, ev_data = code\<rparr> (w_evo w) = (c, evo)" by fastforce
  have "evo_inv evo" "evo_max_events evo = evo_max_events (w_evo w)"
    using law_evo_ctl_inv [OF c] W(1) by (simp_all add: own_inv_def)
  then have "running_inv A elems tok nodes hok G n T R P I p s0 (w\<lparr>w_evo := evo\<rparr>, draw s)"
    using r worker_inv_evo [OF inv] by (simp add: running_inv_def worker_inv_draw)
  with code c act show ?thesis by (auto simp: law_ectl_def)
qed

text \<open>A well-behaved coroutine comes back to the worker.\<close>

lemma law_cor_run_ok:
  "running_inv A elems tok nodes hok G n T R P I p s0 (w, s) \<Longrightarrow> ucall_ok A G m c \<Longrightarrow>
   \<exists>sig w' s'. law_cor_run A m c (w, s) = Inr (sig, w', s') \<and>
     running_inv A elems tok nodes hok G n T R P I p s0 (w', s') \<and>
     (sig = SIGNAL_SUSPENDED \<longrightarrow> just_suspended elems G p (w', s'))"
proof (induction m arbitrary: c w s)
  case 0
  then show ?case by simp
next
  case (Suc m)
  note r = Suc.prems(1)
  show ?case
  proof (cases c)
    case (U_RETURN e)
    with Suc.prems show ?thesis by auto
  next
    case (U_EWAIT millis events k u)
    with Suc.prems(2) obtain xs where xs: "events = Some xs" "0 \<le> k" "k \<le> int (length xs)" "0 \<le> millis"
      "u \<in> G" "ucall_ok A G m (lib_resume A u (R_EWAIT (Inl LAW_ERR_OOM) events))" by auto
    from law_ewait_ok [OF r xs(4,2,3)] obtain res w1 s1 where
      e: "law_ewait A millis (Some xs) k (w, s) = Inr (res, w1, s1)"
      and r1: "running_inv A elems tok nodes hok G n T R P I p s0 (w1, s1)"
      and res: "res = Inl LAW_ERR_OOM \<or>
      (res = Inr () \<and> task_waits (s_heap s1 p) \<and>
       (\<exists>e. (e, t_id (s_heap s1 p), t_version (s_heap s1 p)) \<in># timer_pending elems (w_timer w1)))"
      by blast
    from res show ?thesis
    proof
      assume "res = Inl LAW_ERR_OOM"
      with e Suc.IH [OF r1 xs(6)] show ?thesis by (simp add: U_EWAIT xs(1))
    next
      assume res: "res = Inr () \<and> task_waits (s_heap s1 p) \<and>
       (\<exists>e. (e, t_id (s_heap s1 p), t_version (s_heap s1 p)) \<in># timer_pending elems (w_timer w1))"
      let ?t = "(s_heap s1 p)\<lparr>t_callee := Some u\<rparr>"
      have "running_inv A elems tok nodes hok G n T R P I p s0 (w1, set_task p ?t s1)"
        by (rule running_inv_set [OF r1]) simp_all
      moreover have "just_suspended elems G p (w1, set_task p ?t s1)"
        using res xs(5) by (auto simp: just_suspended_def task_waits_def)
      moreover have "w_active w1 = p" using r1 by (simp add: running_inv_def)
      ultimately show ?thesis using e res by (simp add: U_EWAIT xs(1))
    qed
  next
    case (U_ECTL d op flags events data u)
    from law_ectl_ok [OF r] obtain e w1 s1 where
      e: "law_ectl A d op flags events data (w, s) = Inr (e, w1, s1)"
      and r1: "running_inv A elems tok nodes hok G n T R P I p s0 (w1, s1)" by blast
    from Suc.prems(2) have "ucall_ok A G m (lib_resume A u (R_ERR e))" by (simp add: U_ECTL)
    with e Suc.IH [OF r1] show ?thesis by (simp add: U_ECTL)
  next
    case (U_SPAWN callback data u)
    with Suc.prems(2) show ?thesis by simp
  next
    case (U_STOP u)
    obtain e s1 where e: "law_stop s = (e, s1)" by fastforce
    have "running_inv A elems tok nodes hok G n T R P I p s0 (w, s1)"
      using r e by (auto simp: law_stop_def running_inv_def worker_inv_mode split: if_splits)
    from Suc.IH [OF this] Suc.prems(2) e show ?thesis by (simp add: U_STOP)
  next
    case (U_ID u)
    from Suc.IH [OF r] Suc.prems(2) show ?thesis by (simp add: U_ID)
  next
    case (U_MILLIS u)
    have "running_inv A elems tok nodes hok G n T R P I p s0 (w, draw s)"
      using r by (simp add: running_inv_def worker_inv_draw)
    from Suc.IH [OF this] Suc.prems(2) show ?thesis by (simp add: U_MILLIS law_time_millis_def)
  qed
qed

section \<open>Dispatch\<close>

lemma trampoline_ok:
  assumes "user_ok A G" and "callback_ok (s_cfg s) (t_callback (s_heap s (w_active w)))"
  obtains c where "law_task_cor_trampoline A (w, s) = Inr c" and "ucall_ok A G (lib_ufuel A) c"
  using assms unfolding law_task_cor_trampoline_def callback_ok_def law_accept_callback_def
  by (auto simp: user_ok_def split: option.splits callback.splits)

lemma dispatch_run_ok:
  assumes user: "user_ok A G" and r: "running_inv A elems tok nodes hok G n T R P I p s0 (w, s)"
    and t: "suspended_ok G (s_heap s p) \<or>
            (t_mode (s_heap s p) = LAW_MODE_SPAWNED \<and> callback_ok (s_cfg s) (t_callback (s_heap s p)))"
  shows "\<exists>sig w' s'. dispatch_run A (w, s) = Inr (sig, w', s') \<and>
     running_inv A elems tok nodes hok G n T R P I p s0 (w', s') \<and>
     (sig = SIGNAL_SUSPENDED \<longrightarrow> just_suspended elems G p (w', s'))"
proof -
  from r have act: "w_active w = p" by (simp add: running_inv_def)
  let ?t = "(s_heap s p)\<lparr>t_mode := LAW_MODE_RUNNING\<rparr>"
  let ?s = "set_task p ?t s"
  have r1: "running_inv A elems tok nodes hok G n T R P I p s0 (w, ?s)"
    by (rule running_inv_set [OF r]) simp_all
  from t show ?thesis
  proof
    assume susp: "suspended_ok G (s_heap s p)"
    then obtain u xs where u: "u \<in> G" "t_callee (s_heap s p) = Some u"
      "t_events (s_heap s p) = Some xs" "t_mode (s_heap s p) = LAW_MODE_SUSPENDED"
      by (auto simp: suspended_ok_def task_waits_def)
    let ?k = "t_num_events (s_heap s p)"
    let ?s2 = "set_task p (?t\<lparr>t_max_events := 0, t_num_events := 0, t_events := None\<rparr>) ?s"
    have "running_inv A elems tok nodes hok G n T R P I p s0 (w, ?s2)"
      by (rule running_inv_set [OF r1]) simp_all
    moreover have "ucall_ok A G (lib_ufuel A) (lib_resume A u (R_EWAIT (Inr ?k) (Some xs)))"
      using user u(1) by (simp add: user_ok_def)
    moreover have "dispatch_run A (w, s) =
        law_cor_run A (lib_ufuel A) (lib_resume A u (R_EWAIT (Inr ?k) (Some xs))) (w, ?s2)"
      using u act by (simp add: dispatch_run_def law_ewait_resumed_def Let_def)
    ultimately show ?thesis using law_cor_run_ok by simp
  next
    assume sp: "t_mode (s_heap s p) = LAW_MODE_SPAWNED \<and>
                callback_ok (s_cfg s) (t_callback (s_heap s p))"
    have "callback_ok (s_cfg ?s) (t_callback (s_heap ?s (w_active w)))" using sp act by simp
    from trampoline_ok [OF user this] obtain c where
      c: "law_task_cor_trampoline A (w, ?s) = Inr c" "ucall_ok A G (lib_ufuel A) c" by blast
    then have "dispatch_run A (w, s) = law_cor_run A (lib_ufuel A) c (w, ?s)"
      using sp act by (simp add: dispatch_run_def Let_def)
    with law_cor_run_ok [OF r1 c(2)] show ?thesis by simp
  qed
qed

text \<open>A finished task leaves the table for the pool.\<close>

lemma dispatch_finish_ok:
  assumes lib: "lib_ok A elems tok nodes hok M"
    and r: "running_inv A elems tok nodes hok G n T R P I p s0 (w, s)" and pR: "p \<notin> set R"
  shows "\<exists>w' s'. dispatch_finish A p (w, s) = Inr (w', s') \<and>
     worker_inv A elems tok nodes hok G (T - {p}) {} R (p # P) I (w', s') \<and>
     w_id w' = n \<and> touches n {p} s0 s'"
proof -
  from r have inv: "worker_inv A elems tok nodes hok G T {p} R P I (w, s)"
    and p: "p \<in> T" and n: "w_id w = n" and fr: "touches n {p} s0 s" by (simp_all add: running_inv_def)
  note W = worker_inv_facts [OF inv]
  note F = shared_inv_facts [OF W(2)]
  have fin: "finite T" by (rule table_size_card(2) [OF W(1)])
  let ?i = "t_id (s_heap s p)"
  have tbl: "table_inv (lib_hm A) nodes hok (w_table w)"
    and names: "table_names nodes (s_heap s) (w_table w) T"
    using W(1) by (simp_all add: own_inv_def)
  obtain x where x: "hm_lookup (lib_hm A) (law_table_iface (hm_fnv (lib_hm A))) (w_table w) ?i = Some x"
  proof (cases "hm_lookup (lib_hm A) (law_table_iface (hm_fnv (lib_hm A))) (w_table w) ?i")
    case None
    then have "law_table_lookup (lib_hm A) ?i (w_table w) = NULL" by (simp add: law_table_lookup_def)
    from lookup_task(2) [OF W(1) W(4) this p] show thesis by (simp add: low_id_def)
  qed (rule that)
  from table_inv_facts(5) [OF tbl x] obtain u where u: "x \<in> nodes (w_table w)"
    "(ucast (tn_id x) :: u32) = ucast ?i"
    "hm_remove (lib_hm A) (law_table_iface (hm_fnv (lib_hm A))) (w_table w) ?i = (Some x, u)"
    "table_inv (lib_hm A) nodes hok u" "nodes u = nodes (w_table w) - {x}"
    "tb_capacity u = tb_capacity (w_table w)" by blast
  have tid: "tn_id y = t_id (s_heap s (tn_pointer y))" and tin: "tn_pointer y \<in> T"
    if "y \<in> nodes (w_table w)" for y
    using names that by (auto simp: table_names_def)
  have xp: "tn_pointer x = p"
    using F(13) p tin [OF u(1)] u(2) tid [OF u(1)]
    by (auto simp: low_id_def inj_on_def)
  have pts: "tn_pointer y \<noteq> p" if y: "y \<in> nodes (w_table w)" "y \<noteq> x" for y
  proof
    assume "tn_pointer y = p"
    then have "tn_id y = tn_id x" using tid [OF y(1)] tid [OF u(1)] xp by simp
    with table_inv_facts(3) [OF tbl y(1) u(1)] y(2) show False by simp
  qed
  have L: "pmt_ll_spec (lib_ll A)" using lib by (simp add: lib_ok_def)
  have nn: "p \<noteq> NULL" "p \<notin> set P" using p W(4) F(6) by auto
  let ?h = "law_task_set_next (s_heap s) p (p_list (s_pool s))"
  let ?pool = "(s_pool s)\<lparr>p_list := p, p_size := p_size (s_pool s) + 1\<rparr>"
  let ?w = "w\<lparr>w_table := u\<rparr>" and ?s = "s\<lparr>s_pool := ?pool, s_heap := ?h\<rparr>"
  have push: "law_task_pool_push (lib_ll A) (s_pool s) p (s_heap s) = Inr (?pool, ?h)"
    and pool: "pool_holds ?h ?pool (p # P)"
    using law_task_pool_push_ok [OF L F(1) nn] by simp_all
  have fin': "dispatch_finish A p (w, s) = Inr (?w, ?s)"
    using u(3) xp push by (simp add: dispatch_finish_def law_table_remove_def)
  have same: "?h q = s_heap s q" if "q \<noteq> p" for q using that by (simp add: law_task_set_next_def)
  have ids: "t_id (?h q) = t_id (s_heap s q)" "t_mark (?h q) = t_mark (s_heap s q)"
    "t_mode (?h q) = t_mode (s_heap s q)" "t_callback (?h q) = t_callback (s_heap s q)" for q
    by (simp_all add: law_task_set_next_def)
  have low: "low_id ?h = low_id (s_heap s)" by (rule ext) (simp add: low_id_def ids)
  have own: "own_inv A elems tok nodes hok ?w ?s (T - {p})"
  proof -
    have "T - {p} = tn_pointer ` (nodes (w_table w) - {x})"
      using names xp pts by (auto simp: table_names_def)
    then have "table_names nodes ?h u (T - {p})"
      using names by (simp add: table_names_def u(5) ids)
    with W(1) u(4,6) show ?thesis by (simp add: own_inv_def)
  qed
  have mark: "\<not> t_mark (s_heap s p)" using W(3) p pR by (simp add: ready_holds_def)
  have sh: "shared_inv n (T - {p}) (p # P) I ?s"
  proof -
    have d: "(T - {p}) \<inter> set (p # P) = {}" "(T - {p}) \<inter> set I = {}" "set (p # P) \<inter> set I = {}"
      using F(6,7,8) p by auto
    have m: "\<forall>q \<in> set (p # P) \<union> set I. \<not> t_mark (?h q)" using F(9) mark by (auto simp: ids)
    have i: "\<forall>q \<in> T - {p} \<union> set I. unat (t_id (?h q)) < LAW_ID_MODULO" using F(12) by (auto simp: ids)
    have j: "inj_on (low_id ?h) (T - {p} \<union> set I)"
      unfolding low by (rule inj_on_subset [OF F(13)]) blast
    have c: "int (card (T - {p})) \<le> cf_worker_tasks (s_cfg s) + 1"
      using F(14) card_Diff1_le [of T p] by linarith
    have o: "\<forall>q \<in> set I. t_mode (?h q) = LAW_MODE_SPAWNED \<and> callback_ok (s_cfg s) (t_callback (?h q))"
      using F(10,11) by (simp add: ids)
    show ?thesis
      unfolding shared_inv_def using pool F(2,3,4,5) d m i j c o n
      by (intro conjI) simp_all
  qed
  have r1: "ready_holds T ?h (w_ready w) R"
  proof -
    have "chain (law_task_get_next ?h) (w_ready w) R = chain (law_task_get_next (s_heap s)) (w_ready w) R"
      unfolding law_task_get_next_def law_task_set_next_def by (intro chain_cong) (use pR in auto)
    with W(3) show ?thesis by (simp add: ready_holds_def ids)
  qed
  then have rd: "ready_holds (T - {p}) ?h (w_ready w) R"
    using pR by (auto simp: ready_holds_def)
  have "task_ok (s_cfg s) G (set R) (timer_pending elems (w_timer w)) q (?h q)" if "q \<in> T - {p}" for q
    using W(5) [OF that] that same by simp
  with own sh rd n have "worker_inv A elems tok nodes hok G (T - {p}) {} R (p # P) I (?w, ?s)"
    by (simp add: worker_inv_def)
  moreover have "touches n {p} s0 ?s" using fr same by (simp add: touches_def ids)
  ultimately show ?thesis using fin' n by auto
qed

lemma ready_popped_simps [simp]:
  "t_mode (ready_popped p h q) = t_mode (h q)"
  "t_id (ready_popped p h q) = t_id (h q)"
  "t_callback (ready_popped p h q) = t_callback (h q)"
  "suspended_ok G (ready_popped p h q) = suspended_ok G (h q)"
  by (simp_all add: ready_popped_def suspended_ok_def task_waits_def)

lemma dispatch_pop_running:
  fixes A :: "('cb, 'u, 'b, 't) lib" and s :: "('cb, 'u) law_server"
  assumes lib: "lib_ok A elems tok nodes hok M"
    and inv: "worker_inv A elems tok nodes hok G T {} (p # R) P I (w, s)" and n: "w_id w = n"
    and t: "t = (ready_popped p (s_heap s) p)\<lparr>t_version := v\<rparr>"
  shows "running_inv A elems tok nodes hok G n T R P I p s
     (w\<lparr>w_ready := law_task_get_next (s_heap s) p, w_active := p\<rparr>,
      set_task p t (s\<lparr>s_heap := ready_popped p (s_heap s)\<rparr>))"
proof -
  note W = worker_inv_facts [OF inv]
  have L: "pmt_ll_spec (lib_ll A)" using lib by (simp add: lib_ok_def)
  let ?r = "law_task_get_next (s_heap s) p"
  let ?h = "(ready_popped p (s_heap s))(p := t)"
  have p: "p \<in> T" using W(3) by (auto simp: ready_holds_def)
  have same: "?h q = s_heap s q" if "q \<noteq> p" for q using that by (simp add: ready_popped_def)
  have ids: "t_id (?h q) = t_id (s_heap s q)" for q by (simp add: t)
  have rd: "ready_holds T ?h ?r R"
    by (rule ready_holds_cong [OF law_ready_set_pop_ok(2) [OF L W(3)]]) (simp add: t)
  have own: "own_inv A elems tok nodes hok (w\<lparr>w_ready := ?r\<rparr>) (s\<lparr>s_heap := ?h\<rparr>) T"
    by (rule own_inv_frame [OF W(1)]) (rule ids)
  have sh: "shared_inv n T P I (s\<lparr>s_heap := ?h\<rparr>)"
    using n by (intro shared_inv_frame) (use W(2) p same ids in auto)
  have ok: "task_ok (s_cfg s) G (set R) (timer_pending elems (w_timer w)) q (?h q)"
    if "q \<in> T - {p}" for q
  proof -
    from W(5) [of q] that
    have "task_ok (s_cfg s) G (set (p # R)) (timer_pending elems (w_timer w)) q (s_heap s q)" by simp
    with that same [of q] show ?thesis by (auto simp: task_ok_def)
  qed
  have "worker_inv A elems tok nodes hok G T {p} R P I (w\<lparr>w_ready := ?r\<rparr>, s\<lparr>s_heap := ?h\<rparr>)"
    using own sh rd ok n by (simp add: worker_inv_def)
  then have "worker_inv A elems tok nodes hok G T {p} R P I
      (w\<lparr>w_ready := ?r, w_active := p\<rparr>, s\<lparr>s_heap := ?h\<rparr>)"
    by (simp add: worker_inv_def own_inv_def)
  moreover have "touches n {p} s (s\<lparr>s_heap := ?h\<rparr>)" by (rule touches_heap) (use same ids in auto)
  ultimately show ?thesis using p n by (simp add: running_inv_def set_task_def)
qed

text \<open>One round: the first ready task runs, and suspends or returns to the pool.\<close>

lemma dispatch_body_ok:
  fixes A :: "('cb, 'u, 'b, 't) lib" and s :: "('cb, 'u) law_server"
  assumes lib: "lib_ok A elems tok nodes hok M" and user: "user_ok A G"
    and inv: "worker_inv A elems tok nodes hok G T {} R P I (w, s)" and n: "w_id w = n"
  shows "case R of
      [] \<Rightarrow> dispatch_body A (w, s) = Inr (False, w\<lparr>w_ready := NULL\<rparr>, s)
    | p # R' \<Rightarrow> \<exists>w' s' T' P'. dispatch_body A (w, s) = Inr (True, w', s') \<and>
        worker_inv A elems tok nodes hok G T' {} R' P' I (w', s') \<and>
        w_id w' = n \<and> touches n {p} s s' \<and>
        (T' = T \<and> P' = P \<or> T' = T - {p} \<and> P' = p # P)"
proof -
  note W = worker_inv_facts [OF inv]
  have L: "pmt_ll_spec (lib_ll A)" using lib by (simp add: lib_ok_def)
  show ?thesis
  proof (cases R)
    case Nil
    with law_ready_set_pop_empty [OF L] W(3)
    have "law_ready_set_pop (lib_ll A) (w_ready w) (s_heap s) = (NULL, NULL, s_heap s)" by blast
    with Nil show ?thesis by (simp add: dispatch_body_def Let_def)
  next
    case (Cons p R')
    have rd: "ready_holds T (s_heap s) (w_ready w) (p # R')" using W(3) Cons by simp
    have p: "p \<in> T" "p \<noteq> NULL" using rd by (auto simp: ready_holds_def)
    have "distinct (p # R')" using rd chain_distinct unfolding ready_holds_def by blast
    then have dist: "p \<notin> set R'" by simp
    let ?h = "ready_popped p (s_heap s)" and ?r = "law_task_get_next (s_heap s) p"
    let ?t = "(?h p)\<lparr>t_version := t_version (?h p) + 1\<rparr>"
    let ?w = "w\<lparr>w_ready := ?r, w_active := p\<rparr>" and ?s = "set_task p ?t (s\<lparr>s_heap := ?h\<rparr>)"
    have run: "running_inv A elems tok nodes hok G n T R' P I p s (?w, ?s)"
      by (rule dispatch_pop_running [OF lib inv [unfolded Cons] n refl])
    have "task_ok (s_cfg s) G (set R) (timer_pending elems (w_timer w)) p (s_heap s p)"
      using W(5) p(1) by simp
    then have "suspended_ok G (s_heap ?s p) \<or> (t_mode (s_heap ?s p) = LAW_MODE_SPAWNED \<and>
        callback_ok (s_cfg ?s) (t_callback (s_heap ?s p)))"
      by (auto simp: task_ok_def suspended_ok_def task_waits_def ready_popped_def)
    from dispatch_run_ok [OF user run this] obtain sig w1 s1 where
      e: "dispatch_run A (?w, ?s) = Inr (sig, w1, s1)"
      and r1: "running_inv A elems tok nodes hok G n T R' P I p s (w1, s1)"
      and js: "sig = SIGNAL_SUSPENDED \<longrightarrow> just_suspended elems G p (w1, s1)" by blast
    have pop: "law_ready_set_pop (lib_ll A) (w_ready w) (s_heap s) = (p, ?r, ?h)"
      by (rule law_ready_set_pop_ok(1) [OF L rd])
    have asserts: "t_next (?h p) = NULL \<and> \<not> t_mark (?h p)" by (simp add: ready_popped_def)
    have body: "dispatch_body A (w, s) =
        (if sig = SIGNAL_SUSPENDED then
           Inr (True, w1, set_task p ((s_heap s1 p)\<lparr>t_mode := LAW_MODE_SUSPENDED\<rparr>) s1)
         else bindE (dispatch_finish A p (w1, s1)) (\<lambda>ws. Inr (True, ws)))"
      using pop asserts p(2) e by (simp add: dispatch_body_def Let_def)
    show ?thesis
    proof (cases "sig = SIGNAL_SUSPENDED")
      case True
      let ?s2 = "set_task p ((s_heap s1 p)\<lparr>t_mode := LAW_MODE_SUSPENDED\<rparr>) s1"
      have r2: "running_inv A elems tok nodes hok G n T R' P I p s (w1, ?s2)"
        by (rule running_inv_set [OF r1]) simp_all
      have "task_ok (s_cfg ?s2) G (set R') (timer_pending elems (w_timer w1)) p (s_heap ?s2 p)"
        using js True by (auto simp: just_suspended_def task_ok_def suspended_ok_def task_waits_def)
      with r2 have "worker_inv A elems tok nodes hok G T {} R' P I (w1, ?s2)"
        by (auto simp: running_inv_def worker_inv_def)
      with body True r2 Cons show ?thesis by (auto simp: running_inv_def)
    next
      case False
      from dispatch_finish_ok [OF lib r1 dist] obtain w2 s2 where
        "dispatch_finish A p (w1, s1) = Inr (w2, s2)"
        "worker_inv A elems tok nodes hok G (T - {p}) {} R' (p # P) I (w2, s2)"
        "w_id w2 = n" "touches n {p} s s2" by blast
      with body False Cons show ?thesis by auto
    qed
  qed
qed

lemma dispatch_loop_ok:
  fixes A :: "('cb, 'u, 'b, 't) lib" and s :: "('cb, 'u) law_server"
  assumes lib: "lib_ok A elems tok nodes hok M" and user: "user_ok A G"
    and inv: "worker_inv A elems tok nodes hok G T {} R P I (w, s)" and n: "w_id w = n"
  obtains w' s' T' F where "law_worker_dispatch A (w, s) = Inr (w', s')"
    and "worker_inv A elems tok nodes hok G T' {} [] (F @ P) I (w', s')"
    and "w_id w' = n" and "w_ready w' = NULL" and "touches n T s s'"
    and "T' \<union> set F = T" and "T' \<inter> set F = {}" and "distinct F"
proof -
  let ?J = "\<lambda>T' R' F ws. worker_inv A elems tok nodes hok G T' {} R' (F @ P) I ws \<and>
     w_id (fst ws) = n \<and> touches n T s (snd ws) \<and>
     T' \<union> set F = T \<and> T' \<inter> set F = {} \<and> distinct F"
  let ?I = "\<lambda>k ws. \<exists>T' R' F. ?J T' R' F ws \<and> k = length R'"
  let ?Q = "\<lambda>ws. w_ready (fst ws) = NULL \<and> (\<exists>T' F. ?J T' [] F ws)"
  have step: "\<exists>go t. dispatch_body A ws = Inr (go, t) \<and> (if go then \<exists>j < k. ?I j t else ?Q t)"
    if I: "?I k ws" for k ws
  proof -
    obtain w1 s1 where ws: "ws = (w1, s1)" by (cases ws)
    from I obtain T' R' F where J: "?J T' R' F (w1, s1)" and k: "k = length R'"
      unfolding ws by blast
    from J have inv1: "worker_inv A elems tok nodes hok G T' {} R' (F @ P) I (w1, s1)"
      and n1: "w_id w1 = n" by simp_all
    note body = dispatch_body_ok [OF lib user inv1 n1]
    show ?thesis
    proof (cases R')
      case Nil
      have "worker_inv A elems tok nodes hok G T' {} [] (F @ P) I (w1\<lparr>w_ready := NULL\<rparr>, s1)"
        using inv1 Nil by (auto simp: worker_inv_def own_inv_def ready_holds_def)
      then have "?Q (w1\<lparr>w_ready := NULL\<rparr>, s1)" using J by auto
      with body Nil ws show ?thesis by auto
    next
      case (Cons p R2)
      with body obtain w2 s2 T2 P2 where b: "dispatch_body A (w1, s1) = Inr (True, w2, s2)"
        "worker_inv A elems tok nodes hok G T2 {} R2 P2 I (w2, s2)"
        "w_id w2 = n" "touches n {p} s1 s2"
        "T2 = T' \<and> P2 = F @ P \<or> T2 = T' - {p} \<and> P2 = p # F @ P"
        by auto
      have p: "p \<in> T'" using worker_inv_facts(3) [OF inv1] Cons by (auto simp: ready_holds_def)
      have tt: "touches n T s s2"
        using J p touches_mono [OF b(4), of T] touches_trans [of n T s s1 s2] by auto
      from b(5) have "?J T2 R2 F (w2, s2) \<or> ?J T2 R2 (p # F) (w2, s2)"
      proof
        assume "T2 = T' \<and> P2 = F @ P"
        with b(2,3) J tt show ?thesis by simp
      next
        assume e: "T2 = T' - {p} \<and> P2 = p # F @ P"
        then have "T2 \<union> set (p # F) = T" "T2 \<inter> set (p # F) = {}" "distinct (p # F)"
          using J p by auto
        with b(2,3) tt e show ?thesis by simp
      qed
      then have nx: "?I (length R2) (w2, s2)" by blast
      have "length R2 < k" using k Cons by simp
      with nx have "\<exists>j < k. ?I j (w2, s2)" by blast
      with b(1) ws show ?thesis
        by (intro exI [of _ True] exI [of _ "(w2, s2)"] conjI) simp_all
    qed
  qed
  note W = worker_inv_facts [OF inv]
  have "distinct R" "set R \<subseteq> T"
    using W(3) chain_distinct by (auto simp: ready_holds_def)
  then have "length R \<le> card T"
    using card_mono [OF table_size_card(2) [OF W(1)], of "set R"] by (simp add: distinct_card)
  then have k: "length R < Suc (law_table_size (w_table w))"
    using table_size_card(1) [OF W(1)] by (simp add: law_table_size_def)
  have i: "?I (length R) (w, s)"
    using inv n by (intro exI [of _ T] exI [of _ R] exI [of _ "[]"]) simp
  show thesis
  proof (rule loop_rule [where I = ?I, OF step i k])
    fix t assume "loop (Suc (law_table_size (w_table w))) (dispatch_body A) (w, s) = Inr t" and "?Q t"
    then show thesis by (cases t) (auto simp: law_worker_dispatch_def intro: that)
  qed
qed

section \<open>The round\<close>

lemma tick_wait_ok:
  fixes A :: "('cb, 'u, 'b, 't) lib" and s :: "('cb, 'u) law_server"
  assumes lib: "lib_ok A elems tok nodes hok M" and M: "int M \<le> cf_worker_events (s_cfg s)"
    and inv: "worker_inv A elems tok nodes hok G T X R P I (w, s)"
  obtains w' s' where "tick_wait A (w, s) = Inr (w', s')"
    and "worker_inv A elems tok nodes hok G T X R P I (w', s')"
    and "w_id w' = w_id w" and "touches n {} s s'" and "s_pool s' = s_pool s"
    and "w_timer w' = w_timer w"
    and "s_messages s' = s_messages s" and "s_incoming s' = s_incoming s" and "s_heap s' = s_heap s"
proof -
  obtain t s1 where t: "tick_timeout A (w, s) = (t, w, s1)" "s1 = s \<or> s1 = draw s"
    by (cases "law_timer_peek (lib_bh A) (w_timer w)")
       (auto simp: tick_timeout_def law_time_millis_def Let_def)
  note W = worker_inv_facts [OF inv]
  obtain evs where evs: "lib_epoll A (s_draws s1) t = Some evs" "length evs \<le> M"
    using lib unfolding lib_ok_def by blast
  obtain r evo where r: "law_evo_wait (Some evs) (w_evo w) = (r, evo)" by fastforce
  have e: "evo_inv (w_evo w)" "length evs \<le> evo_max_events (w_evo w)"
    using W(1) M evs(2) by (simp_all add: own_inv_def)
  note ok = law_evo_wait_ok [OF e r]
  have inv1: "worker_inv A elems tok nodes hok G T X R P I (w, s1)"
    using t(2) inv by (auto simp: worker_inv_draw)
  have "worker_inv A elems tok nodes hok G T X R P I (w\<lparr>w_evo := evo\<rparr>, draw s1)"
    using worker_inv_evo [OF inv1 ok(2,5)] by (simp add: worker_inv_draw)
  moreover have "tick_wait A (w, s) = Inr (w\<lparr>w_evo := evo\<rparr>, draw s1)"
    using t(1) evs(1) r ok(1) by (simp add: tick_wait_def)
  moreover have "touches n {} s s1" using t(2) by auto
  ultimately show thesis using t(2)
    by (intro that [of "w\<lparr>w_evo := evo\<rparr>" "draw s1"]) auto
qed

lemma rest_suspended:
  assumes "worker_inv A elems tok nodes hok G T {} [] P I (w, s)" and "p \<in> T"
  shows "suspended_ok G (s_heap s p)"
    and "\<exists>e. (e, t_id (s_heap s p), t_version (s_heap s p)) \<in># timer_pending elems (w_timer w)"
  using worker_inv_facts(5) [OF assms(1), of p] assms(2) by (auto simp: task_ok_def)

text \<open>The flag a round returns: no shutdown message was waiting.\<close>

definition keeps_running :: "nat \<Rightarrow> ('cb, 'u) law_server \<Rightarrow> bool" where
  "keeps_running n s \<longleftrightarrow> (\<forall>m \<in> set (msgs (s_messages s ! n)). msg_type m \<noteq> LAW_MSG_SHUTDOWN)"

lemma law_worker_tick_ok:
  fixes A :: "('cb, 'u, 'b, 't) lib" and s :: "('cb, 'u) law_server"
  assumes lib: "lib_ok A elems tok nodes hok M" and user: "user_ok A G"
    and M: "int M \<le> cf_worker_events (s_cfg s)"
    and inv: "worker_inv A elems tok nodes hok G T {} [] P I (w, s)"
  obtains w' s' T' F I1 I2 where
      "law_worker_tick A (w, s) = Inr (keeps_running (w_id w) s, w', s')"
    and "worker_inv A elems tok nodes hok G T' {} [] (F @ P) I2 (w', s')"
    and "w_id w' = w_id w" and "w_ready w' = NULL" and "touches (w_id w) (T \<union> set I1) s s'"
    and "I = I1 @ I2" and "I2 = [] \<or> cf_worker_tasks (s_cfg s) < int (card (T \<union> set I1))"
    and "T' \<union> set F = T \<union> set I1" and "T' \<inter> set F = {}" and "distinct F"
proof -
  let ?n = "w_id w"
  obtain w1 s1 where 1: "tick_wait A (w, s) = Inr (w1, s1)"
    "worker_inv A elems tok nodes hok G T {} [] P I (w1, s1)"
    "w_id w1 = ?n" "touches ?n {} s s1" "s_messages s1 = s_messages s"
    using tick_wait_ok [OF lib M inv] by metis
  let ?s2 = "draw s1"
  have inv2: "worker_inv A elems tok nodes hok G T {} [] P I (w1, ?s2)"
    using 1(2) by (simp add: worker_inv_draw)
  have ph: "phase_inv A elems tok nodes hok G ?n T P I ?s2 (w1, ?s2)"
    using rest_suspended(1) [OF inv2] 1(3) by (intro phase_invI [OF inv2]) auto
  let ?now = "lib_time A (s_draws s1)"
  obtain w3 s3 where 3: "loop (Suc (law_timer_size (w_timer w1))) (expire_body A ?now) (w1, ?s2) = Inr (w3, s3)"
    "phase_inv A elems tok nodes hok G ?n T P I ?s2 (w3, s3)" "s_messages s3 = s_messages ?s2"
    using expire_loop_ok [OF lib ph] by metis
  obtain w4 s4 where 4: "loop (Suc (evo_nevents (w_evo w3))) (events_body A) (w3, s3) = Inr (w4, s4)"
    "phase_inv A elems tok nodes hok G ?n T P I ?s2 (w4, s4)" "s_messages s4 = s_messages s3"
    using events_loop_ok [OF lib 3(2)] by metis
  have msg4: "s_messages s4 ! ?n = s_messages s ! ?n"
    using 1(5) 3(3) 4(3) by simp
  have kr: "(True \<and> (\<forall>m \<in> set (msgs (s_messages s4 ! ?n)). msg_type m \<noteq> LAW_MSG_SHUTDOWN)) =
      keeps_running ?n s" using msg4 by (simp add: keeps_running_def)
  obtain w5 s5 where 5: "loop (Suc (length (pp_data (s_messages s4 ! ?n)))) (messages_body A) (True, w4, s4) =
      Inr (keeps_running ?n s, w5, s5)"
    "phase_inv A elems tok nodes hok G ?n T P I ?s2 (w5, s5)"
    using messages_loop_ok [OF lib 4(2), of True] unfolding kr by metis
  from 5(2) obtain R where inv5: "worker_inv A elems tok nodes hok G T {} R P I (w5, s5)"
    and n5: "w_id w5 = ?n" and t5: "touches ?n T ?s2 s5" and p5: "s_pool s5 = s_pool ?s2"
    by (rule phase_invE) blast
  have cfg5: "s_cfg s5 = s_cfg s" using t5 1(4) by (simp add: touches_def)
  obtain w6 s6 R' I1 I2 where 6: "loop (Suc (length (pp_data (s_incoming s5 ! ?n)))) (intake_body A) (w5, s5) = Inr (w6, s6)"
    "worker_inv A elems tok nodes hok G (T \<union> set I1) {} R' P I2 (w6, s6)"
    "w_id w6 = ?n" "touches ?n (set I1) s5 s6" and I: "I = I1 @ I2"
    and rest: "I2 = [] \<or> cf_worker_tasks (s_cfg s) < int (card (T \<union> set I1))"
    by (rule intake_loop_ok [OF lib inv5 n5, unfolded cfg5])
  obtain w7 s7 T' F where 7: "law_worker_dispatch A (w6, s6) = Inr (w7, s7)"
    "worker_inv A elems tok nodes hok G T' {} [] (F @ P) I2 (w7, s7)"
    "w_id w7 = ?n" "w_ready w7 = NULL" "touches ?n (T \<union> set I1) s6 s7"
    "T' \<union> set F = T \<union> set I1" "T' \<inter> set F = {}" "distinct F"
    using dispatch_loop_ok [OF lib user 6(2,3)] by metis
  have "w_id w4 = ?n" using 4(2) by (simp add: phase_inv_def)
  then have tick: "law_worker_tick A (w, s) = Inr (keeps_running ?n s, w7, s7)"
    using 1(1) 3(1) 4(1) 5(1) 6(1) 7(1) n5 by (simp add: law_worker_tick_def law_time_millis_def)
  have "touches ?n (T \<union> set I1) s ?s2" using touches_mono [OF 1(4)] by simp
  moreover have "touches ?n (T \<union> set I1) ?s2 s5" using touches_mono [OF t5] by blast
  moreover have "touches ?n (T \<union> set I1) s5 s6" using touches_mono [OF 6(4)] by blast
  ultimately have "touches ?n (T \<union> set I1) s s7" using 7(5) touches_trans by metis
  from that [OF tick 7(2,3,4) this I rest 7(6-8)] show thesis .
qed

end
