(* ===== verification/Demo.thy ===== *)
theory Demo
  imports WorkerTick
begin

text \<open>
  A concrete library and a concrete program, on which the theorems about the worker are applied:
  the list instances of the three pubmt structures, a clock that advances by a second at each
  reading, and a task that waits once for ten milliseconds and returns.
\<close>

definition demo_array :: "law_event list" where
  "demo_array = [\<lparr>ev_events = 0, ev_data = 0\<rparr>]"

definition demo_lib :: "(unit, unit, law_table_node list, law_timer_elem list) lib" where
  "demo_lib = \<lparr>
     lib_ll = ref_ll, lib_bh = ref_bh, lib_hm = ref_hm,
     lib_time = (\<lambda>n. 1000 * int n), lib_rand = (\<lambda>n. word_of_nat n), lib_alloc = (\<lambda>n. True),
     lib_ctl = (\<lambda>n. True), lib_epoll = (\<lambda>n timeout. Some []),
     lib_conn = (\<lambda>n. Inr (n + 10)), lib_fcntl = (\<lambda>n. True),
     lib_callback = (\<lambda>f d. U_EWAIT 10 (Some demo_array) 1 ()),
     lib_accept = (\<lambda>f fd d. U_EWAIT 10 (Some demo_array) 1 ()),
     lib_resume = (\<lambda>u r. U_RETURN LAW_ERR_OK),
     lib_ufuel = 2\<rparr>"

lemma demo_lib_ok: "lib_ok demo_lib ref_bh_elems ref_bh_ok ref_hm_nodes ref_hm_ok M"
  by (simp add: lib_ok_def demo_lib_def ref_ll_spec ref_bh_spec ref_hm_spec ref_hm_grows)

lemma demo_user_ok: "user_ok demo_lib UNIV"
  by (simp add: user_ok_def demo_lib_def demo_array_def SIGNAL_SUSPENDED_def numeral_2_eq_2)

definition demo_task :: "nat \<Rightarrow> law_server_mode \<Rightarrow> (unit callback, unit) law_task" where
  "demo_task i m = \<lparr>t_mode = m, t_mark = False, t_max_events = 0, t_num_events = 0, t_version = 7,
     t_id = word_of_nat i, t_events = None, t_next = NULL, t_callee = None,
     t_callback = Some (USER_CALLBACK ()), t_data = 0\<rparr>"

definition demo_cfg :: "unit law_server_cfg" where
  "demo_cfg = law_server_sanity\<lparr>cf_on_error := True\<rparr>"

definition demo_pipe :: "u8 list \<Rightarrow> pipe" where
  "demo_pipe bs = \<lparr>pp_cap = 4096, pp_data = bs, pp_rd = True, pp_wr = True\<rparr>"

definition demo_evo :: law_evo where
  "demo_evo = \<lparr>evo_fd = 4, evo_nevents = 0, evo_offset = 0, evo_max_events = 32,
     evo_events = replicate 32 \<lparr>ev_events = 0, ev_data = 0\<rparr>, evo_interest = (\<lambda>_. None)\<rparr>"

definition demo_errs :: law_err_stack where
  "demo_errs = \<lparr>es_array = replicate 16
     \<lparr>ei_type = LAW_ERR_OK, ei_action = [], ei_file = [], ei_function = [], ei_line = 0\<rparr>,
     es_offset = 0\<rparr>"

text \<open>One task, at address 1 with identifier 5, waits in the queue of a worker.\<close>

definition demo_server :: "(unit, unit) law_server" where
  "demo_server = \<lparr>s_cfg = demo_cfg, s_socket = 3, s_mode = LAW_MODE_RUNNING, s_seed = 5,
     s_pool = \<lparr>p_lock = False, p_list = NULL, p_capacity = 4, p_size = 0\<rparr>,
     s_messages = [demo_pipe []], s_incoming = [demo_pipe (ptr_bytes 1)], s_in_fds = [6],
     s_evo = demo_evo\<lparr>evo_interest := [3 \<mapsto> \<lparr>ev_events = LAW_EV_R, ev_data = 0\<rparr>]\<rparr>,
     s_heap = (\<lambda>p. demo_task 5 LAW_MODE_SPAWNED), s_draws = 0, s_errors = [],
     s_errs = demo_errs, s_closed = []\<rparr>"

definition demo_worker :: "(law_table_node list, law_timer_elem list) law_worker" where
  "demo_worker = \<lparr>w_id = 0, w_mode = LAW_MODE_CREATED, w_ready = NULL,
     w_table = \<lparr>tb_capacity = worker_table_size 4, tb_size = 0, tb_buffer = []\<rparr>,
     w_timer = \<lparr>tm_size = 0, tm_capacity = 4, tm_buffer = []\<rparr>, w_active = NULL, w_evo = demo_evo,
     w_errs = demo_errs\<rparr>"

lemma demo_pipe_msgs: "msg_queue_inv (demo_pipe [])" "msgs (demo_pipe []) = []"
proof -
  have "pipe_holds msg_bytes [] (demo_pipe [])" by (simp add: pipe_holds_def demo_pipe_def)
  then show "msg_queue_inv (demo_pipe [])" "msgs (demo_pipe []) = []"
    by (auto intro: msg_queue_invI simp: msg_items_holds)
qed

lemma demo_timer_empty:
  "timer_inv ref_bh ref_bh_elems ref_bh_ok \<lparr>tm_size = 0, tm_capacity = n, tm_buffer = []\<rparr>"
  by (simp add: timer_inv_def ref_bh_spec ref_bh_ok_def)

lemma demo_inv:
  "worker_inv demo_lib ref_bh_elems ref_bh_ok ref_hm_nodes ref_hm_ok UNIV {} {} [] [] [1]
     (demo_worker, demo_server)"
proof -
  have "own_inv demo_lib ref_bh_elems ref_bh_ok ref_hm_nodes ref_hm_ok demo_worker demo_server {}"
    using demo_timer_empty [of 4] ref_hm_empty_inv [of "worker_table_size 4"] demo_pipe_msgs
    by (simp add: own_inv_def demo_lib_def demo_worker_def demo_server_def table_names_def
        ref_hm_nodes_def demo_cfg_def law_server_sanity_def evo_inv_def demo_evo_def err_inv_def
        demo_errs_def LAW_ERR_STACK_MAX_def)
  moreover have "shared_inv 0 {} [] [1] demo_server"
    by (simp add: shared_inv_def demo_server_def pool_holds_def pipe_holds_def demo_pipe_def
        demo_task_def callback_ok_def LAW_ID_MODULO_def demo_cfg_def law_server_sanity_def)
  moreover have "ready_holds {} (s_heap demo_server) (w_ready demo_worker) []"
    by (simp add: ready_holds_def demo_worker_def)
  ultimately show ?thesis by (simp add: worker_inv_def demo_worker_def)
qed

section \<open>Evaluation\<close>

text \<open>The rules that compute a round on concrete data.\<close>

lemmas worker_eval =
  law_worker_tick_def tick_wait_def tick_timeout_def law_time_millis_def law_timer_peek_def
  law_timer_size_def expire_body_def events_body_def messages_body_def intake_body_def
  law_worker_dispatch_def dispatch_body_def dispatch_run_def law_evo_wait_def law_evo_next_def
  law_msg_queue_pop_def law_pipe_read_def pipe_read_def law_task_queue_pop_def law_table_size_def
  law_table_insert_def law_ready_set_push_def law_ready_set_pop_def law_task_cor_trampoline_def
  law_ewait_def law_timer_insert_def draw_def set_task_def SIGNAL_SUSPENDED_def
  law_task_lln_iface_def law_task_set_next_def law_task_get_next_def law_table_iface_def
  law_table_equals_def ref_ll_def ref_bh_def ref_hm_def ptr_of_bytes_ptr_bytes length_ptr_bytes
  loop.simps loop_numeral Let_def

lemmas demo_eval =
  demo_lib_def demo_worker_def demo_server_def demo_cfg_def law_server_sanity_def demo_pipe_def
  demo_evo_def demo_task_def demo_array_def demo_errs_def

lemma ptr_bytes_not_Nil: "ptr_bytes p \<noteq> []"
  using length_ptr_bytes [of p] by (auto simp del: length_greater_0_conv)

text \<open>The demonstration task is taken in, runs, and waits until its timer.\<close>

lemma demo_tick:
  "\<exists>w s. law_worker_tick demo_lib (demo_worker, demo_server) = Inr (True, w, s) \<and>
     tb_buffer (w_table w) = [\<lparr>tn_id = 5, tn_pointer = 1\<rparr>] \<and> w_id w = 0 \<and> t_id (s_heap s 1) = 5 \<and>
     tm_buffer (w_timer w) = [\<lparr>te_expiration = 3010, te_identifier = 5, te_version = 8\<rparr>]"
  by (simp add: worker_eval demo_eval ptr_bytes_not_Nil numeral_2_eq_2)

lemma demo_events: "int 32 \<le> cf_worker_events (s_cfg demo_server)"
  by (simp add: demo_server_def demo_cfg_def law_server_sanity_def)

lemma demo_waiting:
  obtains w s where "law_worker_tick demo_lib (demo_worker, demo_server) = Inr (True, w, s)"
    and "tb_buffer (w_table w) = [\<lparr>tn_id = 5, tn_pointer = 1\<rparr>]" and "t_id (s_heap s 1) = 5"
    and "s_cfg s = demo_cfg" and "timer_pending ref_bh_elems (w_timer w) = {#(3010, 5, 8)#}"
    and "worker_inv demo_lib ref_bh_elems ref_bh_ok ref_hm_nodes ref_hm_ok UNIV {1} {} [] [] [] (w, s)"
proof -
  obtain w s where t: "law_worker_tick demo_lib (demo_worker, demo_server) = Inr (True, w, s)"
    and b: "tb_buffer (w_table w) = [\<lparr>tn_id = 5, tn_pointer = 1\<rparr>]" "t_id (s_heap s 1) = 5"
    and tm: "tm_buffer (w_timer w) = [\<lparr>te_expiration = 3010, te_identifier = 5, te_version = 8\<rparr>]"
    using demo_tick by blast
  obtain w1 s1 T F I1 I2 where
    1: "law_worker_tick demo_lib (demo_worker, demo_server) =
        Inr (keeps_running (w_id demo_worker) demo_server, w1, s1)"
    and inv1: "worker_inv demo_lib ref_bh_elems ref_bh_ok ref_hm_nodes ref_hm_ok UNIV
      T {} [] (F @ []) I2 (w1, s1)" and c: "T \<union> set F = {} \<union> set I1" "T \<inter> set F = {}"
    and fr: "touches (w_id demo_worker) ({} \<union> set I1) demo_server s1" and I: "[1] = I1 @ I2"
    and rest: "I2 = [] \<or> cf_worker_tasks (s_cfg demo_server) < int (card ({} \<union> set I1))"
    by (rule law_worker_tick_ok [OF demo_lib_ok demo_user_ok demo_events demo_inv])
  from 1 t have ws: "w1 = w" "s1 = s" by simp_all
  have "length I1 \<le> 1" using arg_cong [OF I, of length] by simp
  then have "int (card ({} \<union> set I1)) \<le> 1" using card_length [of I1] by simp
  moreover have "1 \<le> cf_worker_tasks (s_cfg demo_server)"
    by (simp add: demo_server_def demo_cfg_def law_server_sanity_def)
  ultimately have I2: "I2 = []" using rest by linarith
  with I have I1: "I1 = [1]" by simp
  have inv: "worker_inv demo_lib ref_bh_elems ref_bh_ok ref_hm_nodes ref_hm_ok UNIV
      T {} [] (F @ []) [] (w, s)" using inv1 by (simp only: ws I2)
  have cfg: "s_cfg s = demo_cfg" using fr by (simp add: touches_def ws demo_server_def)
  have "T = {1}"
    using worker_inv_facts(1) [OF inv] by (simp add: own_inv_def table_names_def ref_hm_nodes_def b)
  with c I1 have "F = []" by (cases F) auto
  with inv \<open>T = {1}\<close> have "worker_inv demo_lib ref_bh_elems ref_bh_ok ref_hm_nodes ref_hm_ok UNIV
      {1} {} [] [] [] (w, s)" by simp
  moreover have "timer_pending ref_bh_elems (w_timer w) = {#(3010, 5, 8)#}"
    by (simp add: timer_pending_def ref_bh_elems_def tm elem_triple_def)
  ultimately show thesis using t b cfg that by blast
qed

end
