(* ===== verification/WorkerSpec.thy ===== *)
theory WorkerSpec
  imports Demo
begin

text \<open>
  What a worker promises: a round never faults and loses no task, leaves no task without a
  timer, wakes every task whose timer is due and delivers an event to the task whose slot it
  carries.
\<close>

section \<open>A round\<close>

text \<open>
  C3: a round of a worker's loop, started between rounds with any batch of new tasks waiting,
  ends without a fault (no failed assertion or test, no deadlock, no null call, no write outside
  an array, no endless loop) whatever epoll reports, for every well-behaved user program. Of the
  queue it takes in a first part, all of it unless the table holds more than
  \<^verbatim>\<open>worker_tasks\<close> by then; the rest waits, in its order. The tasks it owned or took in are
  afterwards each either in the table or in front of the pool, never both; the ready set is
  empty, the invariant holds again; no other task and no other worker's queue changed; and the
  round asks for another one exactly if no shutdown message was waiting.
\<close>

theorem worker_tick_safe:
  fixes A :: "('cb, 'u, 'b, 't) lib" and s :: "('cb, 'u) law_server"
  assumes "lib_ok A elems tok nodes hok M" and "user_ok A G"
    and "int M \<le> cf_worker_events (s_cfg s)"
    and "worker_inv A elems tok nodes hok G T {} [] P I (w, s)"
  shows "\<exists>w' s' T' F I1 I2. law_worker_tick A (w, s) = Inr (keeps_running (w_id w) s, w', s') \<and>
     worker_inv A elems tok nodes hok G T' {} [] (F @ P) I2 (w', s') \<and> w_ready w' = NULL \<and>
     I = I1 @ I2 \<and> (I2 = [] \<or> cf_worker_tasks (s_cfg s) < int (card (T \<union> set I1))) \<and>
     T' \<union> set F = T \<union> set I1 \<and> T' \<inter> set F = {} \<and> distinct F \<and>
     touches (w_id w) (T \<union> set I1) s s'"
  by (rule law_worker_tick_ok [OF assms]) blast

theorem worker_tick_safe_witness:
  "\<exists>w' s' T' F I1 I2. law_worker_tick demo_lib (demo_worker, demo_server) = Inr (True, w', s') \<and>
     worker_inv demo_lib ref_bh_elems ref_bh_ok ref_hm_nodes ref_hm_ok UNIV T' {} [] F I2 (w', s') \<and>
     T' \<union> set F = set I1 \<and> [1] = I1 @ I2"
proof -
  have k: "keeps_running (w_id demo_worker) demo_server"
    by (simp add: keeps_running_def demo_worker_def demo_server_def demo_pipe_msgs)
  from worker_tick_safe [OF demo_lib_ok demo_user_ok demo_events demo_inv] obtain w' s' T' F I1 I2
    where "law_worker_tick demo_lib (demo_worker, demo_server) =
        Inr (keeps_running (w_id demo_worker) demo_server, w', s')"
      "worker_inv demo_lib ref_bh_elems ref_bh_ok ref_hm_nodes ref_hm_ok UNIV T' {} [] (F @ []) I2 (w', s')"
      "[1] = I1 @ I2" "T' \<union> set F = {} \<union> set I1" by metis
  with k show ?thesis
    by (intro exI [of _ w'] exI [of _ s'] exI [of _ T'] exI [of _ F] exI [of _ I1] exI [of _ I2])
       (simp only: append_Nil2 Un_empty_left simp_thms)
qed

text \<open>
  C8: no task sleeps for ever: after a round every task of the table is suspended, with an
  event array of its own, and a timer for its identifier and its present version is pending.
\<close>

theorem worker_tick_armed:
  fixes A :: "('cb, 'u, 'b, 't) lib" and s :: "('cb, 'u) law_server"
  assumes "lib_ok A elems tok nodes hok M" and "user_ok A G"
    and "int M \<le> cf_worker_events (s_cfg s)"
    and "worker_inv A elems tok nodes hok G T {} [] P I (w, s)"
    and "law_worker_tick A (w, s) = Inr (go, w', s')" and "x \<in> nodes (w_table w')"
  shows "t_mode (s_heap s' (tn_pointer x)) = LAW_MODE_SUSPENDED \<and> task_waits (s_heap s' (tn_pointer x)) \<and>
     (\<exists>e. (e, tn_id x, t_version (s_heap s' (tn_pointer x))) \<in># timer_pending elems (w_timer w'))"
proof -
  obtain T' P' I' where inv: "worker_inv A elems tok nodes hok G T' {} [] P' I' (w', s')"
    using law_worker_tick_ok [OF assms(1-4)] assms(5) by (metis Inr_inject Pair_inject)
  then have names: "table_names nodes (s_heap s') (w_table w') T'"
    using worker_inv_facts(1) [OF inv] by (simp add: own_inv_def)
  then have p: "tn_pointer x \<in> T'" "t_id (s_heap s' (tn_pointer x)) = tn_id x"
    using assms(6) by (auto simp: table_names_def)
  show ?thesis
    using rest_suspended [OF inv p(1)] p(2) by (simp add: suspended_ok_def)
qed

theorem worker_tick_armed_witness:
  "\<exists>w' s' e. law_worker_tick demo_lib (demo_worker, demo_server) = Inr (True, w', s') \<and>
     t_mode (s_heap s' 1) = LAW_MODE_SUSPENDED \<and>
     (e, 5, t_version (s_heap s' 1)) \<in># timer_pending ref_bh_elems (w_timer w')"
proof (rule demo_waiting)
  fix w' s'
  assume t: "law_worker_tick demo_lib (demo_worker, demo_server) = Inr (True, w', s')"
    and b: "tb_buffer (w_table w') = [\<lparr>tn_id = 5, tn_pointer = 1\<rparr>]"
  have x: "\<lparr>tn_id = 5, tn_pointer = 1\<rparr> \<in> ref_hm_nodes (w_table w')" by (simp add: ref_hm_nodes_def b)
  from worker_tick_armed [OF demo_lib_ok demo_user_ok demo_events demo_inv t x] t
  show ?thesis by auto
qed

section \<open>Timers and events\<close>

text \<open>
  C10: the expiry loop takes out of the timer exactly the entries that are due, and afterwards
  every task of the table is ready or has a timer of its present version that is still ahead:
  no due task stays asleep, stale timers wake nobody for good, and the loop ends.
\<close>

theorem expire_loop_exact:
  fixes A :: "('cb, 'u, 'b, 't) lib" and s :: "('cb, 'u) law_server"
  assumes "lib_ok A elems tok nodes hok M"
    and "worker_inv A elems tok nodes hok G T {} R P I (w, s)"
    and "\<forall>p \<in> T. suspended_ok G (s_heap s p)"
  shows "\<exists>w' s'. loop (Suc (law_timer_size (w_timer w))) (expire_body A now) (w, s) = Inr (w', s') \<and>
     timer_pending elems (w_timer w') = filter_mset (\<lambda>x. now < fst x) (timer_pending elems (w_timer w)) \<and>
     (\<forall>p \<in> T. t_mark (s_heap s' p) \<or>
        (\<exists>e > now. (e, t_id (s_heap s' p), t_version (s_heap s' p)) \<in># timer_pending elems (w_timer w')))"
proof -
  have ph: "phase_inv A elems tok nodes hok G (w_id w) T P I s (w, s)"
    using assms(2,3) by (intro phase_invI [where R = R]) auto
  from expire_loop_ok [OF assms(1) ph, of now] obtain w' s' where
    l: "loop (Suc (law_timer_size (w_timer w))) (expire_body A now) (w, s) = Inr (w', s')"
    and ph': "phase_inv A elems tok nodes hok G (w_id w) T P I s (w', s')"
    and pend: "timer_pending elems (w_timer w') =
      filter_mset (\<lambda>x. now < fst x) (timer_pending elems (w_timer w))" by metis
  from ph' obtain R' where inv: "worker_inv A elems tok nodes hok G T {} R' P I (w', s')"
    by (auto simp: phase_inv_def)
  have "t_mark (s_heap s' p) \<or> (\<exists>e > now. (e, t_id (s_heap s' p), t_version (s_heap s' p))
      \<in># timer_pending elems (w_timer w'))" if p: "p \<in> T" for p
  proof -
    have "t_mark (s_heap s' p) \<longleftrightarrow> p \<in> set R'"
      using worker_inv_facts(3) [OF inv] p by (simp add: ready_holds_def)
    moreover have "task_ok (s_cfg s') G (set R') (timer_pending elems (w_timer w')) p (s_heap s' p)"
      using worker_inv_facts(5) [OF inv] p by simp
    ultimately show ?thesis using pend by (auto simp: task_ok_def)
  qed
  with l pend show ?thesis by blast
qed

theorem expire_loop_exact_witness:
  "\<exists>w s w' s'. law_worker_tick demo_lib (demo_worker, demo_server) = Inr (True, w, s) \<and>
     loop (Suc (law_timer_size (w_timer w))) (expire_body demo_lib 4000) (w, s) = Inr (w', s') \<and>
     timer_pending ref_bh_elems (w_timer w') = {#} \<and> t_mark (s_heap s' 1)"
proof (rule demo_waiting)
  fix w s
  assume t: "law_worker_tick demo_lib (demo_worker, demo_server) = Inr (True, w, s)"
    and p: "timer_pending ref_bh_elems (w_timer w) = {#(3010, 5, 8)#}"
    and i: "worker_inv demo_lib ref_bh_elems ref_bh_ok ref_hm_nodes ref_hm_ok UNIV {1} {} [] [] [] (w, s)"
  have "\<forall>p \<in> {1}. suspended_ok UNIV (s_heap s p)" using rest_suspended(1) [OF i] by blast
  from expire_loop_exact [OF demo_lib_ok i this, of 4000] t p show ?thesis by auto
qed

lemma set_data_same: "set_data_i8 e (slot_data (law_slot_decode e)) = e"
proof -
  have "unat e mod 256 + 256 * (unat e div 256) = unat e" by simp
  then show ?thesis
    by (simp only: set_data_i8_def law_slot_decode_eq law_slot.select_convs unat_byte_of_mod) simp
qed

lemma lookup_own:
  assumes "own_inv A elems tok nodes hok w s T" and "NULL \<notin> T"
    and "inj_on (low_id (s_heap s)) (T \<union> J)" and "p \<in> T"
  shows "law_table_lookup (lib_hm A) (t_id (s_heap s p)) (w_table w) = p"
proof -
  let ?q = "law_table_lookup (lib_hm A) (t_id (s_heap s p)) (w_table w)"
  have "?q \<noteq> NULL" using lookup_task(2) [OF assms(1,2) _ assms(4)] by (auto simp: low_id_def)
  then have "?q \<in> T \<and> low_id (s_heap s) ?q = low_id (s_heap s) p"
    using lookup_task(1) [OF assms(1,2)] by (simp add: low_id_def)
  with assms(3,4) show ?thesis by (auto dest: inj_onD)
qed

text \<open>
  C9: an event whose word is the slot that \<^verbatim>\<open>law_ectl\<close> encoded for a task of the table is
  delivered to that task and to no other: it is appended to the task's event array if there is
  room, with the word unchanged, and the task becomes ready.
\<close>

theorem event_delivered:
  fixes A :: "('cb, 'u, 'b, 't) lib" and s :: "('cb, 'u) law_server"
  assumes "lib_ok A elems tok nodes hok M"
    and "worker_inv A elems tok nodes hok G T {} R P I (w, s)"
    and "\<forall>p \<in> T. suspended_ok G (s_heap s p)" and "p \<in> T"
    and "law_slot_encode \<lparr>slot_id = t_id (s_heap s p), slot_data = d\<rparr> = Inr (ev_data ev)"
    and "t_id (s_heap s p) \<noteq> 0" and "evo_rest (w_evo w) = ev # evs"
  shows "\<exists>w' s'. events_body A (w, s) = Inr (True, w', s') \<and> evo_rest (w_evo w') = evs \<and>
     t_mark (s_heap s' p) \<and> task_events (s_heap s' p) = events_after ev (s_heap s p) \<and>
     (\<forall>q. q \<noteq> p \<longrightarrow> s_heap s' q = s_heap s q)"
proof -
  note W = worker_inv_facts [OF assms(2)]
  let ?slot = "\<lparr>slot_id = t_id (s_heap s p), slot_data = d\<rparr>"
  have b: "unat (slot_id ?slot) < LAW_ID_MODULO"
    using assms(5) by (simp add: law_slot_encode_def require_Inr_iff)
  have "law_slot_encode ?slot \<noteq> Inr 0" using slot_code_zero_iff [OF b] assms(6) by simp
  with assms(5) have nz: "ev_data ev \<noteq> 0" by auto
  have dec: "law_slot_decode (ev_data ev) = ?slot"
    using law_slot_decode_encode [OF b] assms(5) by simp
  have look: "law_table_lookup (lib_hm A) (slot_id (law_slot_decode (ev_data ev))) (w_table w) = p"
    using lookup_own [OF W(1) W(4) shared_inv_facts(13) [OF W(2)] assms(4)] by (simp add: dec)
  have evo: "evo_inv (w_evo w)" using W(1) by (simp add: own_inv_def)
  from law_evo_next_event [OF evo assms(7)] obtain e' where
    e': "law_evo_next (w_evo w) = Inr (Some ev, e')" "evo_inv e'" "evo_rest e' = evs"
      "evo_max_events e' = evo_max_events (w_evo w)" by blast
  let ?w = "w\<lparr>w_evo := e'\<rparr>"
  have inv': "worker_inv A elems tok nodes hok G T {} R P I (?w, s)"
    by (rule worker_inv_evo [OF assms(2) e'(2,4)])
  have nn: "p \<noteq> NULL" using W(4) assms(4) by blast
  have body: "events_body A (w, s) = bindE (tick_wake A ev p (?w, s)) (\<lambda>ws. Inr (True, ws))"
    using e'(1) nz look nn by (simp add: events_body_def Let_def set_data_same)
  have susp: "suspended_ok G (s_heap s p)" using assms(3,4) by blast
  show ?thesis
  proof (rule tick_wake_inv [where w = ?w and ev = ev, OF assms(1) inv' assms(4) susp])
    fix r' h R'
    assume w: "tick_wake A ev p (?w, s) = Inr (?w\<lparr>w_ready := r'\<rparr>, s\<lparr>s_heap := h\<rparr>)"
      and i: "worker_inv A elems tok nodes hok G T ({} - {p}) R' P I (?w\<lparr>w_ready := r'\<rparr>, s\<lparr>s_heap := h\<rparr>)"
      and R': "set R' = insert p (set R)" and o: "\<And>q. q \<noteq> p \<Longrightarrow> h q = s_heap s q"
      and t: "task_events (h p) = events_after ev (s_heap s p)"
    have "t_mark (h p)"
      using worker_inv_facts(3) [OF i] R' assms(4) by (simp add: ready_holds_def)
    with body w e'(3) o t show ?thesis
      by (intro exI [of _ "?w\<lparr>w_ready := r'\<rparr>"] exI [of _ "s\<lparr>s_heap := h\<rparr>"]) simp
  qed
qed

theorem event_delivered_witness:
  "\<exists>w s w' s'. worker_inv demo_lib ref_bh_elems ref_bh_ok ref_hm_nodes ref_hm_ok UNIV {1} {} [] [] [] (w, s) \<and>
     events_body demo_lib (w, s) = Inr (True, w', s') \<and> t_mark (s_heap s' 1) \<and>
     task_events (s_heap s' 1) = events_after \<lparr>ev_events = LAW_EV_R, ev_data = 0x502\<rparr> (s_heap s 1)"
proof (rule demo_waiting)
  fix w :: "(law_table_node list, law_timer_elem list) law_worker" and s :: "(unit, unit) law_server"
  assume id: "t_id (s_heap s 1) = 5" and cfg: "s_cfg s = demo_cfg"
    and i: "worker_inv demo_lib ref_bh_elems ref_bh_ok ref_hm_nodes ref_hm_ok UNIV {1} {} [] [] [] (w, s)"
  let ?ev = "\<lparr>ev_events = LAW_EV_R, ev_data = 0x502\<rparr>"
  obtain r e where e: "law_evo_wait (Some [?ev]) (w_evo w) = (r, e)" by fastforce
  have "evo_inv (w_evo w)" "int (evo_max_events (w_evo w)) = cf_worker_events (s_cfg s)"
    using worker_inv_facts(1) [OF i] by (simp_all add: own_inv_def)
  moreover have "0 < cf_worker_events (s_cfg s)"
    by (simp add: cfg demo_cfg_def law_server_sanity_def)
  ultimately have "evo_inv (w_evo w)" "length [?ev] \<le> evo_max_events (w_evo w)" by simp_all
  note ok = law_evo_wait_ok [OF this e]
  have i': "worker_inv demo_lib ref_bh_elems ref_bh_ok ref_hm_nodes ref_hm_ok UNIV {1} {} [] [] []
      (w\<lparr>w_evo := e\<rparr>, s)" by (rule worker_inv_evo [OF i ok(2,5)])
  have s: "\<forall>p \<in> {1}. suspended_ok UNIV (s_heap s p)" using rest_suspended(1) [OF i] by blast
  have c: "law_slot_encode \<lparr>slot_id = t_id (s_heap s 1), slot_data = 2\<rparr> = Inr (ev_data ?ev)"
    by (simp add: id law_slot_encode_eq LAW_ID_MODULO_def)
  have n: "t_id (s_heap s 1) \<noteq> 0" by (simp add: id)
  have r: "evo_rest (w_evo (w\<lparr>w_evo := e\<rparr>)) = ?ev # []" using ok(3) by simp
  from event_delivered [OF demo_lib_ok i' s insertI1 c n r] i' show ?thesis by blast
qed

end
