(* ===== verification/System.thy ===== *)
theory System
  imports Server WorkerSpec
begin

text \<open>
  The running server as a state machine: the main thread of \<^verbatim>\<open>law_start\<close> and any number of
  worker threads, with a call of \<^verbatim>\<open>law_stop\<close> at any moment. \<open>main_pc\<close> says where the
  main thread is; each step is one of the definitions of the theories \<open>Server\<close> and
  \<open>Worker\<close>. The steps of the threads interleave freely; they share the pool, under its lock,
  and the queues, whose reads and writes are atomic in the kernel. A worker's round is one step: it
  meets the other threads only in the pool, in its two queues and in the server's mode, and what it
  does there in the course of a round is taken together.
\<close>

section \<open>The machine\<close>

text \<open>
  \<open>MAIN_SPAWN\<close> is the loop of \<^verbatim>\<open>law_server_run_threads\<close> about to create a thread,
  \<open>MAIN_TEST\<close> is the condition of the loop of \<^verbatim>\<open>law_server_spin\<close>,
  \<open>MAIN_ACCEPT\<close> a round of \<^verbatim>\<open>law_server_accept\<close>, \<open>MAIN_DISPATCH\<close> a round of
  \<^verbatim>\<open>law_spawn_dispatch\<close>, \<open>MAIN_POLL\<close> the wait for the next connection,
  \<open>MAIN_DRAIN\<close> the wait for the pool to fill, \<open>MAIN_JOIN\<close> the wait for the workers.
\<close>

datatype main_pc =
    MAIN_START | MAIN_SPAWN nat | MAIN_TEST | MAIN_ACCEPT | MAIN_DISPATCH ptr | MAIN_POLL
  | MAIN_DRAIN sel_err_t | MAIN_JOIN sel_err_t | MAIN_DONE sel_err_t

text \<open>\<open>y_live\<close> says of each worker whether its thread is running.\<close>

record ('cb, 'u, 'b, 't) sys =
  y_main :: main_pc
  y_live :: "bool list"
  y_workers :: "('b, 't) law_worker list"
  y_server :: "('cb, 'u) law_server"

definition after_accept :: "accept_result \<Rightarrow> main_pc" where
  "after_accept r =
     (case r of
        ACCEPT_EMPTY \<Rightarrow> MAIN_POLL
      | ACCEPT_RETURN e \<Rightarrow> if e = LAW_ERR_OK then MAIN_POLL else MAIN_DRAIN e
      | ACCEPT_AGAIN \<Rightarrow> MAIN_ACCEPT
      | ACCEPT_TASK p \<Rightarrow> MAIN_DISPATCH p)"

inductive sys_step ::
  "('cb, 'u, 'b, 't) lib \<Rightarrow> ('cb, 'u, 'b, 't) sys \<Rightarrow> ('cb, 'u, 'b, 't) sys \<Rightarrow> bool" for A
where
  start: "y_main y = MAIN_START \<Longrightarrow> law_start_enter (y_server y) = Inr (LAW_ERR_OK, s) \<Longrightarrow>
    sys_step A y (y\<lparr>y_main := MAIN_SPAWN 0, y_server := s\<rparr>)"
| thread: "y_main y = MAIN_SPAWN n \<Longrightarrow> int n < cf_workers (s_cfg (y_server y)) \<Longrightarrow>
    sys_step A y (y\<lparr>y_live := (y_live y)[n := True], y_main := MAIN_SPAWN (n + 1)\<rparr>)"
| threads: "y_main y = MAIN_SPAWN n \<Longrightarrow> \<not> int n < cf_workers (s_cfg (y_server y)) \<Longrightarrow>
    sys_step A y (y\<lparr>y_main := MAIN_TEST\<rparr>)"
| tick: "n < length (y_workers y) \<Longrightarrow> y_live y ! n \<Longrightarrow>
    law_worker_tick A (y_workers y ! n, y_server y) = Inr (go, w, s) \<Longrightarrow>
    sys_step A y
      (y\<lparr>y_live := (y_live y)[n := go], y_workers := (y_workers y)[n := w], y_server := s\<rparr>)"
| run: "y_main y = MAIN_TEST \<Longrightarrow> s_mode (y_server y) = LAW_MODE_RUNNING \<Longrightarrow>
    sys_step A y (y\<lparr>y_main := MAIN_ACCEPT\<rparr>)"
| halt: "y_main y = MAIN_TEST \<Longrightarrow> s_mode (y_server y) \<noteq> LAW_MODE_RUNNING \<Longrightarrow>
    sys_step A y (y\<lparr>y_main := MAIN_DRAIN LAW_ERR_OK\<rparr>)"
| accept: "y_main y = MAIN_ACCEPT \<Longrightarrow> accept_once A (y_server y) = Inr (r, s) \<Longrightarrow>
    sys_step A y (y\<lparr>y_main := after_accept r, y_server := s\<rparr>)"
| dispatch: "y_main y = MAIN_DISPATCH p \<Longrightarrow> law_spawn_dispatch_once A p (y_server y) = Inr (b, s) \<Longrightarrow>
    sys_step A y (y\<lparr>y_main := (if b then MAIN_ACCEPT else MAIN_DISPATCH p), y_server := s\<rparr>)"
| poll: "y_main y = MAIN_POLL \<Longrightarrow> server_poll A (y_server y) = Inr s \<Longrightarrow>
    sys_step A y (y\<lparr>y_main := MAIN_TEST, y_server := s\<rparr>)"
| drain: "y_main y = MAIN_DRAIN e \<Longrightarrow> law_task_pool_is_full (s_pool (y_server y)) = Inr True \<Longrightarrow>
    send_shutdown (nat (cf_workers (s_cfg (y_server y)))) (y_server y) = Inr s \<Longrightarrow>
    sys_step A y (y\<lparr>y_main := MAIN_JOIN e, y_server := s\<rparr>)"
| join: "y_main y = MAIN_JOIN e \<Longrightarrow> True \<notin> set (y_live y) \<Longrightarrow>
    sys_step A y (y\<lparr>y_main := MAIN_DONE e, y_server := law_start_leave (y_server y)\<rparr>)"
| stop: "law_stop (y_server y) = (e, s) \<Longrightarrow> sys_step A y (y\<lparr>y_server := s\<rparr>)"

inductive_cases sys_stepE: "sys_step A y y'"

section \<open>The invariant\<close>

definition held :: "main_pc \<Rightarrow> ptr set" where
  "held pc = (case pc of MAIN_DISPATCH p \<Rightarrow> {p} | _ \<Rightarrow> {})"

definition shut :: "main_pc \<Rightarrow> bool" where
  "shut pc \<longleftrightarrow> (\<exists>e. pc = MAIN_JOIN e \<or> pc = MAIN_DONE e)"

text \<open>How many of \<open>N\<close> threads have been created.\<close>

definition started :: "nat \<Rightarrow> main_pc \<Rightarrow> nat" where
  "started N pc = (case pc of MAIN_START \<Rightarrow> 0 | MAIN_SPAWN n \<Rightarrow> min n N | _ \<Rightarrow> N)"

text \<open>The main thread's event object watches the listening socket and nothing else.\<close>

definition main_evo_inv :: "('cb, 'u) law_server \<Rightarrow> bool" where
  "main_evo_inv s \<longleftrightarrow>
     evo_inv (s_evo s) \<and> int (evo_max_events (s_evo s)) = cf_server_events (s_cfg s) \<and>
     dom (evo_interest (s_evo s)) = {s_socket s} \<and>
     distinct (s_in_fds s) \<and> s_socket s \<notin> set (s_in_fds s)"

text \<open>Identifiers are handed out in order, so those in use are distinct and not above the seed.\<close>

definition ids_inv :: "ptr set \<Rightarrow> ('cb, 'u) law_server \<Rightarrow> bool" where
  "ids_inv L s \<longleftrightarrow>
     unat (s_seed s) < 2 ^ 32 \<and> inj_on (\<lambda>p. t_id (s_heap s p)) L \<and>
     (\<forall>p \<in> L. 0 < unat (t_id (s_heap s p)) \<and> unat (t_id (s_heap s p)) \<le> unat (s_seed s))"

definition held_ok :: "ptr set \<Rightarrow> ('cb, 'u) law_server \<Rightarrow> bool" where
  "held_ok H s \<longleftrightarrow>
     (\<forall>p \<in> H. p \<noteq> NULL \<and> t_mode (s_heap s p) = LAW_MODE_SPAWNED \<and> \<not> t_mark (s_heap s p) \<and>
        callback_ok (s_cfg s) (t_callback (s_heap s p)))"

text \<open>
  Worker \<open>n\<close> has the tasks \<open>T n\<close> in its table and \<open>I n\<close> in its queue. What the
  workers own, the pool's list and the task the main thread holds share out all the tasks there
  are, \<open>U\<close>, and nobody has a task twice.
\<close>

definition owned :: "(nat \<Rightarrow> ptr set) \<Rightarrow> (nat \<Rightarrow> ptr list) \<Rightarrow> nat \<Rightarrow> ptr set" where
  "owned T I n = T n \<union> set (I n)"

definition all_owned :: "nat \<Rightarrow> (nat \<Rightarrow> ptr set) \<Rightarrow> (nat \<Rightarrow> ptr list) \<Rightarrow> ptr set" where
  "all_owned N T I = (\<Union>n < N. owned T I n)"

definition shares :: "ptr set \<Rightarrow> nat \<Rightarrow> (nat \<Rightarrow> ptr set) \<Rightarrow> ptr list \<Rightarrow> (nat \<Rightarrow> ptr list) \<Rightarrow> ptr set \<Rightarrow> bool"
  where
  "shares U N T P I H \<longleftrightarrow>
     all_owned N T I \<union> set P \<union> H = U \<and> H \<inter> (all_owned N T I \<union> set P) = {} \<and>
     (\<forall>n < N. \<forall>m < N. n \<noteq> m \<longrightarrow> owned T I n \<inter> owned T I m = {})"

definition sys_parts where
  "sys_parts A elems tok nodes hok G U T P I y \<longleftrightarrow>
     (\<forall>n < length (y_workers y).
        worker_inv A elems tok nodes hok G (T n) {} [] P (I n) (y_workers y ! n, y_server y) \<and>
        w_id (y_workers y ! n) = n) \<and>
     shares U (length (y_workers y)) T P I (held (y_main y)) \<and>
     held_ok (held (y_main y)) (y_server y) \<and>
     ids_inv (all_owned (length (y_workers y)) T I \<union> held (y_main y)) (y_server y) \<and>
     (shut (y_main y) \<longrightarrow> (\<forall>n < length (y_workers y). T n = {} \<and> I n = []))"

definition cfg_inv :: "ptr set \<Rightarrow> nat \<Rightarrow> ('cb, 'u) law_server \<Rightarrow> bool" where
  "cfg_inv U N s \<longleftrightarrow>
     finite U \<and> card U = p_capacity (s_pool s) \<and> 0 < N \<and> cf_workers (s_cfg s) = int N \<and>
     length (s_incoming s) = N \<and> length (s_messages s) = N \<and> length (s_in_fds s) = N \<and>
     cf_on_accept (s_cfg s) \<noteq> None \<and> err_inv (s_errs s) \<and> main_evo_inv s"

text \<open>An empty message queue with room for a message.\<close>

definition mail_idle :: "pipe \<Rightarrow> bool" where
  "mail_idle q \<longleftrightarrow> msgs q = [] \<and> length (pp_data q) + 16 \<le> pp_cap q"

text \<open>
  Until the end the workers that have been started run, with nothing in their message queues; once
  the main thread waits for them, those still running have been told to leave.
\<close>

definition live_inv :: "('cb, 'u, 'b, 't) sys \<Rightarrow> bool" where
  "live_inv y \<longleftrightarrow>
     length (y_live y) = length (y_workers y) \<and>
     (if shut (y_main y)
      then \<forall>n < length (y_workers y). y_live y ! n \<longrightarrow> \<not> keeps_running n (y_server y)
      else (\<forall>n < length (y_workers y). mail_idle (s_messages (y_server y) ! n)) \<and>
        (\<forall>n < started (length (y_workers y)) (y_main y). y_live y ! n))"

definition sys_inv where
  "sys_inv A elems tok nodes hok G U y \<longleftrightarrow>
     cfg_inv U (length (y_workers y)) (y_server y) \<and>
     (\<exists>T P I. sys_parts A elems tok nodes hok G U T P I y) \<and> live_inv y"

text \<open>What is asked of the parameters: \<open>M\<close> bounds the events of one report.\<close>

definition sys_lib where
  "sys_lib A elems tok nodes hok G M \<longleftrightarrow>
     lib_ok A elems tok nodes hok M \<and> user_ok A G \<and> (\<forall>n. lib_ctl A n)"

definition fits :: "nat \<Rightarrow> ('cb, 'u) law_server \<Rightarrow> bool" where
  "fits M s \<longleftrightarrow> int M \<le> cf_worker_events (s_cfg s) \<and> int M \<le> cf_server_events (s_cfg s)"

section \<open>What the main thread's changes leave alone\<close>

lemma worker_inv_cong:
  assumes "worker_inv A elems tok nodes hok G T X R P I (w, s)"
    and "s_cfg s' = s_cfg s" "s_messages s' = s_messages s" "s_incoming s' = s_incoming s"
    and "s_heap s' = s_heap s" "s_pool s' = s_pool s"
  shows "worker_inv A elems tok nodes hok G T X R P I (w, s')"
  using assms by (simp add: worker_inv_def own_inv_def shared_inv_def)

text \<open>A task outside the worker, the pool and the queue may change freely.\<close>

lemma worker_inv_free:
  assumes inv: "worker_inv A elems tok nodes hok G T X R P I (w, s)"
    and p: "p \<notin> T" "p \<notin> set P" "p \<notin> set I"
  shows "worker_inv A elems tok nodes hok G T X R P I (w, set_task p t s)"
proof -
  note W = worker_inv_facts [OF inv]
  note F = shared_inv_facts [OF W(2)]
  let ?h = "(s_heap s)(p := t)"
  have same: "?h q = s_heap s q" if "q \<in> T \<union> set P \<union> set I" for q using that p by auto
  have "low_id ?h q = low_id (s_heap s) q" if "q \<in> T \<union> set I" for q
    using that p by (auto simp: low_id_def)
  then have inj: "inj_on (low_id ?h) (T \<union> set I)" using F(13) inj_on_cong by blast
  have pool: "pool_holds ?h (s_pool s) P" by (rule pool_holds_cong [OF _ F(1)]) (use same in simp)
  have own: "own_inv A elems tok nodes hok (w\<lparr>w_ready := w_ready w\<rparr>) (s\<lparr>s_heap := ?h\<rparr>) T"
    by (rule own_inv_frame [OF W(1)]) (use same in simp)
  have "ready_holds T ?h (w_ready w) R" by (rule ready_holds_cong [OF W(3)]) (use same in simp)
  moreover have "shared_inv (w_id w) T P I (s\<lparr>s_heap := ?h\<rparr>)"
    unfolding shared_inv_def using F(2-8) F(9-12) F(14) pool inj p by (intro conjI) auto
  moreover have "task_ok (s_cfg s) G (set R) (timer_pending elems (w_timer w)) q (?h q)"
    if "q \<in> T - X" for q using W(5) [OF that] same [of q] that by auto
  ultimately show ?thesis using own by (simp add: worker_inv_def set_task_def)
qed

text \<open>The first task of the pool leaves it.\<close>

lemma worker_inv_pop:
  assumes inv: "worker_inv A elems tok nodes hok G T X R (p # P) I (w, s)"
    and pool: "pool_holds (law_task_set_next (s_heap s) p NULL) pool P"
  shows "worker_inv A elems tok nodes hok G T X R P I
     (w, s\<lparr>s_pool := pool, s_heap := law_task_set_next (s_heap s) p NULL\<rparr>)"
proof -
  note W = worker_inv_facts [OF inv]
  note F = shared_inv_facts [OF W(2)]
  let ?h = "law_task_set_next (s_heap s) p NULL"
  have pT: "p \<notin> T" using F(6) by auto
  have ids: "t_id (?h q) = t_id (s_heap s q)" "t_mark (?h q) = t_mark (s_heap s q)"
    "t_mode (?h q) = t_mode (s_heap s q)" "t_callback (?h q) = t_callback (s_heap s q)" for q
    by (simp_all add: law_task_set_next_def)
  have same: "?h q = s_heap s q" if "q \<in> T" for q using that pT by (auto simp: law_task_set_next_def)
  have low: "low_id ?h = low_id (s_heap s)" by (rule ext) (simp add: low_id_def ids)
  have own: "own_inv A elems tok nodes hok (w\<lparr>w_ready := w_ready w\<rparr>) (s\<lparr>s_heap := ?h\<rparr>) T"
    by (rule own_inv_frame [OF W(1)]) (simp add: ids)
  have "ready_holds T ?h (w_ready w) R" by (rule ready_holds_cong [OF W(3)]) (use same in simp)
  moreover have "shared_inv (w_id w) T P I (s\<lparr>s_pool := pool, s_heap := ?h\<rparr>)"
    unfolding shared_inv_def using F(2-5) F(6-9) F(10-14) pool by (intro conjI) (auto simp: ids low)
  moreover have "task_ok (s_cfg s) G (set R) (timer_pending elems (w_timer w)) q (?h q)"
    if "q \<in> T - X" for q using W(5) [OF that] same [of q] that by auto
  ultimately show ?thesis using own by (simp add: worker_inv_def own_inv_def)
qed

text \<open>Another thread's changes, to the pool and to tasks the worker does not own, are harmless to it.\<close>

lemma worker_inv_other:
  assumes inv: "worker_inv A elems tok nodes hok G T X R P I (w, s)"
    and fr: "touches n D s s'" and n: "w_id w \<noteq> n" and D: "D \<inter> (T \<union> set I) = {}"
    and pool: "pool_holds (s_heap s') (s_pool s') P'" and P': "set P' \<inter> (T \<union> set I) = {}"
    and mark: "\<And>p. p \<in> set P' \<Longrightarrow> \<not> t_mark (s_heap s' p)"
  shows "worker_inv A elems tok nodes hok G T X R P' I (w, s')"
proof -
  note W = worker_inv_facts [OF inv]
  note F = shared_inv_facts [OF W(2)]
  have eq: "s_cfg s' = s_cfg s" "length (s_messages s') = length (s_messages s)"
    "length (s_incoming s') = length (s_incoming s)"
    "s_messages s' ! w_id w = s_messages s ! w_id w" "s_incoming s' ! w_id w = s_incoming s ! w_id w"
    "t_id (s_heap s' q) = t_id (s_heap s q)" for q
    using fr n by (simp_all add: touches_def)
  have same: "s_heap s' q = s_heap s q" if "q \<in> T \<union> set I" for q
    using fr that D by (auto simp: touches_def)
  have low: "low_id (s_heap s') = low_id (s_heap s)" by (rule ext) (simp add: low_id_def eq)
  have own: "own_inv A elems tok nodes hok w s' T"
    using W(1) table_names_cong [of nodes "s_heap s" "w_table w" T "s_heap s'"]
    by (simp add: own_inv_def eq)
  have "ready_holds T (s_heap s') (w_ready w) R" by (rule ready_holds_cong [OF W(3)]) (use same in simp)
  moreover have "shared_inv (w_id w) T P' I s'"
    unfolding shared_inv_def using pool F(2-5) F(7) F(9-14) P' mark same
    by (intro conjI) (auto simp: eq low)
  moreover have "task_ok (s_cfg s') G (set R) (timer_pending elems (w_timer w)) q (s_heap s' q)"
    if "q \<in> T - X" for q using W(5) [OF that] same [of q] that by (simp add: eq)
  ultimately show ?thesis using own by (simp add: worker_inv_def)
qed

section \<open>Sharing out the tasks\<close>

lemma all_owned_mem: "n < N \<Longrightarrow> p \<in> owned T I n \<Longrightarrow> p \<in> all_owned N T I"
  by (auto simp: all_owned_def)

lemma owned_upd [simp]: "owned (T(n := t)) (I(n := i)) m = (if m = n then t \<union> set i else owned T I m)"
  by (simp add: owned_def)

lemma sharesD:
  assumes "shares U N T P I H"
  shows "all_owned N T I \<union> set P \<union> H = U" and "H \<inter> (all_owned N T I \<union> set P) = {}"
    and "n < N \<Longrightarrow> m < N \<Longrightarrow> n \<noteq> m \<Longrightarrow> owned T I n \<inter> owned T I m = {}"
  using assms by (auto simp: shares_def)

text \<open>One worker and one other party, the pool or the main thread, exchange tasks.\<close>

lemma all_owned_upd:
  assumes "n < N"
  shows "all_owned N (T(n := t)) (I(n := i)) = (\<Union>m \<in> {..<N} - {n}. owned T I m) \<union> (t \<union> set i)"
    and "all_owned N T I = (\<Union>m \<in> {..<N} - {n}. owned T I m) \<union> owned T I n"
  using assms by (auto simp: all_owned_def)

lemma shares_exchange:
  assumes sh: "shares U N T P I H" and n: "n < N"
    and sum: "t \<union> set i \<union> set P' \<union> H' = owned T I n \<union> set P \<union> H"
    and H': "H' \<inter> (t \<union> set i \<union> set P') = {}"
    and out: "\<And>m. m < N \<Longrightarrow> m \<noteq> n \<Longrightarrow> owned T I m \<inter> set P = {}"
  shows "shares U N (T(n := t)) P' (I(n := i)) H'"
proof -
  let ?O = "\<Union>m \<in> {..<N} - {n}. owned T I m"
  note S = sharesD [OF sh]
  have rest: "owned T I m \<inter> (owned T I n \<union> set P \<union> H) = {}" if "m < N" "m \<noteq> n" for m
  proof -
    have "owned T I m \<subseteq> all_owned N T I" using that(1) by (auto simp: all_owned_def)
    with S(2) S(3) [OF that(1) n that(2)] out [OF that] show ?thesis by blast
  qed
  have new: "owned T I m \<inter> (t \<union> set i \<union> set P' \<union> H') = {}" if "m < N" "m \<noteq> n" for m
    unfolding sum by (rule rest [OF that])
  have "all_owned N (T(n := t)) (I(n := i)) \<union> set P' \<union> H' = ?O \<union> (t \<union> set i \<union> set P' \<union> H')"
    by (simp only: all_owned_upd(1) [OF n] Un_assoc)
  also have "\<dots> = ?O \<union> (owned T I n \<union> set P \<union> H)" by (simp only: sum)
  also have "\<dots> = all_owned N T I \<union> set P \<union> H"
    by (simp only: all_owned_upd(2) [OF n] Un_assoc)
  finally have "all_owned N (T(n := t)) (I(n := i)) \<union> set P' \<union> H' = U" by (simp only: S(1))
  moreover have "?O \<inter> H' = {}" using new by blast
  then have "H' \<inter> (all_owned N (T(n := t)) (I(n := i)) \<union> set P') = {}"
    using H' unfolding all_owned_upd(1) [OF n] by blast
  moreover have "owned (T(n := t)) (I(n := i)) k \<inter> owned (T(n := t)) (I(n := i)) m = {}"
    if "k < N" "m < N" "k \<noteq> m" for k m
    using new [OF that(1)] new [OF that(2)] S(3) [OF that] that(3) by auto
  ultimately show ?thesis by (simp add: shares_def)
qed

section \<open>The workers' steps\<close>

lemma sys_partsI:
  assumes "\<And>n. n < length (y_workers y) \<Longrightarrow>
      worker_inv A elems tok nodes hok G (T n) {} [] P (I n) (y_workers y ! n, y_server y)"
    and "\<And>n. n < length (y_workers y) \<Longrightarrow> w_id (y_workers y ! n) = n"
    and "shares U (length (y_workers y)) T P I (held (y_main y))"
    and "held_ok (held (y_main y)) (y_server y)"
    and "ids_inv (all_owned (length (y_workers y)) T I \<union> held (y_main y)) (y_server y)"
    and "\<And>n. shut (y_main y) \<Longrightarrow> n < length (y_workers y) \<Longrightarrow> T n = {} \<and> I n = []"
  shows "sys_parts A elems tok nodes hok G U T P I y"
  using assms by (simp add: sys_parts_def)

lemma sys_partsD:
  assumes "sys_parts A elems tok nodes hok G U T P I y"
  shows "\<And>n. n < length (y_workers y) \<Longrightarrow>
      worker_inv A elems tok nodes hok G (T n) {} [] P (I n) (y_workers y ! n, y_server y)"
    and "\<And>n. n < length (y_workers y) \<Longrightarrow> w_id (y_workers y ! n) = n"
    and "shares U (length (y_workers y)) T P I (held (y_main y))"
    and "held_ok (held (y_main y)) (y_server y)"
    and "ids_inv (all_owned (length (y_workers y)) T I \<union> held (y_main y)) (y_server y)"
    and "\<And>n. shut (y_main y) \<Longrightarrow> n < length (y_workers y) \<Longrightarrow> T n = {} \<and> I n = []"
  using assms by (simp_all add: sys_parts_def)

lemma sys_invE:
  assumes "sys_inv A elems tok nodes hok G U y"
  obtains T P I where "sys_parts A elems tok nodes hok G U T P I y"
    and "cfg_inv U (length (y_workers y)) (y_server y)" and "live_inv y"
  using assms by (auto simp: sys_inv_def)

lemma sys_invI:
  "sys_parts A elems tok nodes hok G U T P I y \<Longrightarrow> cfg_inv U (length (y_workers y)) (y_server y) \<Longrightarrow>
     live_inv y \<Longrightarrow> sys_inv A elems tok nodes hok G U y"
  by (auto simp: sys_inv_def)

lemma sys_parts_pool:
  assumes parts: "sys_parts A elems tok nodes hok G U T P I y" and N: "0 < length (y_workers y)"
  shows "pool_holds (s_heap (y_server y)) (s_pool (y_server y)) P" and "distinct P"
    and "n < length (y_workers y) \<Longrightarrow> owned T I n \<inter> set P = {}"
proof -
  note F = shared_inv_facts [OF worker_inv_facts(2) [OF sys_partsD(1) [OF parts]]]
  show pool: "pool_holds (s_heap (y_server y)) (s_pool (y_server y)) P" by (rule F(1) [OF N])
  then show "distinct P" using chain_distinct by (auto simp: pool_holds_def)
  show "owned T I n \<inter> set P = {}" if "n < length (y_workers y)"
    using F(6,8) [OF that] by (auto simp: owned_def)
qed

lemma ids_inv_sub:
  assumes "ids_inv L s" and "L' \<subseteq> L" and "s_seed s' = s_seed s"
    and "\<And>p. p \<in> L' \<Longrightarrow> t_id (s_heap s' p) = t_id (s_heap s p)"
  shows "ids_inv L' s'"
proof -
  have "inj_on (\<lambda>p. t_id (s_heap s p)) L'"
    using assms(1,2) inj_on_subset unfolding ids_inv_def by blast
  then have "inj_on (\<lambda>p. t_id (s_heap s' p)) L'"
    using assms(4) by (simp add: inj_on_def)
  with assms show ?thesis unfolding ids_inv_def by auto
qed

lemma mail_idle_touches:
  "touches n D s s' \<Longrightarrow> mail_idle (s_messages s ! m) \<Longrightarrow> mail_idle (s_messages s' ! m)"
  by (cases "m = n") (auto simp: mail_idle_def touches_def)

lemma mail_idle_keeps: "mail_idle (s_messages s ! n) \<Longrightarrow> keeps_running n s"
  by (simp add: mail_idle_def keeps_running_def)

text \<open>A round of worker \<open>n\<close>: it goes on unless it has been told to leave.\<close>

lemma live_inv_tick:
  assumes live: "live_inv y" and n: "n < length (y_workers y)" "y_live y ! n"
    and fr: "touches n D (y_server y) s"
  shows "live_inv (y\<lparr>y_live := (y_live y)[n := keeps_running n (y_server y)],
    y_workers := (y_workers y)[n := w], y_server := s\<rparr>)"
proof (cases "shut (y_main y)")
  case True
  have "keeps_running k s = keeps_running k (y_server y)" if "k \<noteq> n" for k
    using fr that by (simp add: keeps_running_def touches_def)
  with True live n show ?thesis by (auto simp: live_inv_def nth_list_update)
next
  case False
  then have idle: "\<forall>k < length (y_workers y). mail_idle (s_messages (y_server y) ! k)"
    using live by (simp add: live_inv_def)
  then have "\<forall>k < length (y_workers y). mail_idle (s_messages s ! k)"
    using mail_idle_touches [OF fr] by blast
  moreover have "keeps_running n (y_server y)" using idle n(1) by (intro mail_idle_keeps) simp
  ultimately show ?thesis using False live n(1) by (auto simp: live_inv_def nth_list_update)
qed

lemma cfg_inv_touches: "cfg_inv U N s \<Longrightarrow> touches n D s s' \<Longrightarrow> cfg_inv U N s'"
  by (simp add: cfg_inv_def touches_def main_evo_inv_def)

lemma sys_tick_ok:
  fixes A :: "('cb, 'u, 'b, 't) lib" and y :: "('cb, 'u, 'b, 't) sys"
  assumes lib: "sys_lib A elems tok nodes hok G M" and fits: "fits M (y_server y)"
    and inv: "sys_inv A elems tok nodes hok G U y" and n: "n < length (y_workers y)"
  obtains w s where
      "law_worker_tick A (y_workers y ! n, y_server y) = Inr (keeps_running n (y_server y), w, s)"
    and "y_live y ! n \<longrightarrow> sys_inv A elems tok nodes hok G U
           (y\<lparr>y_live := (y_live y)[n := keeps_running n (y_server y)],
              y_workers := (y_workers y)[n := w], y_server := s\<rparr>)"
    and "s_cfg s = s_cfg (y_server y)" and "s_seed s = s_seed (y_server y)"
proof -
  from inv obtain T P I where parts: "sys_parts A elems tok nodes hok G U T P I y"
    and cfg: "cfg_inv U (length (y_workers y)) (y_server y)" and live: "live_inv y" by (rule sys_invE)
  note D = sys_partsD [OF parts]
  have N0: "0 < length (y_workers y)" using n by linarith
  note pool = sys_parts_pool [OF parts N0]
  have l: "lib_ok A elems tok nodes hok M" "user_ok A G" using lib by (simp_all add: sys_lib_def)
  have m: "int M \<le> cf_worker_events (s_cfg (y_server y))" using fits by (simp add: fits_def)
  have id: "w_id (y_workers y ! n) = n" by (rule D(2) [OF n])
  obtain w s T' F I1 I2 where t: "law_worker_tick A (y_workers y ! n, y_server y) =
      Inr (keeps_running n (y_server y), w, s)"
    and i: "worker_inv A elems tok nodes hok G T' {} [] (F @ P) I2 (w, s)"
    and wn: "w_id w = n" and fr: "touches n (T n \<union> set I1) (y_server y) s"
    and I: "I n = I1 @ I2" and u: "T' \<union> set F = T n \<union> set I1" "T' \<inter> set F = {}"
    using law_worker_tick_ok [OF l m D(1) [OF n]] unfolding id by metis
  note Fs = shared_inv_facts [OF worker_inv_facts(2) [OF i]]
  have own: "owned T I n = T' \<union> set F \<union> set I2" unfolding owned_def I using u(1) by auto
  let ?y = "y\<lparr>y_live := (y_live y)[n := keeps_running n (y_server y)],
    y_workers := (y_workers y)[n := w], y_server := s\<rparr>"
  have Hd: "held (y_main y) \<inter> (owned T I n \<union> set P) = {}"
    using sharesD(2) [OF D(3)] all_owned_mem [OF n] by blast
  have "sys_parts A elems tok nodes hok G U (T(n := T')) (F @ P) (I(n := I2)) ?y"
  proof (rule sys_partsI)
    fix k assume k: "k < length (y_workers ?y)"
    show "w_id (y_workers ?y ! k) = k" using k D(2) wn by (cases "k = n") simp_all
    show "worker_inv A elems tok nodes hok G ((T(n := T')) k) {} [] (F @ P) ((I(n := I2)) k)
        (y_workers ?y ! k, y_server ?y)"
    proof (cases "k = n")
      case True
      with i n show ?thesis by simp
    next
      case False
      have k': "k < length (y_workers y)" using k by simp
      have d: "owned T I k \<inter> owned T I n = {}" by (rule sharesD(3) [OF D(3) k' n False])
      have "worker_inv A elems tok nodes hok G (T k) {} [] (F @ P) (I k) (y_workers y ! k, s)"
      proof (rule worker_inv_other [OF D(1) [OF k'] fr])
        show "w_id (y_workers y ! k) \<noteq> n" using D(2) [OF k'] False by simp
        show "(T n \<union> set I1) \<inter> (T k \<union> set (I k)) = {}"
          using d unfolding owned_def I by auto
        show "pool_holds (s_heap s) (s_pool s) (F @ P)" by (rule Fs(1))
        show "set (F @ P) \<inter> (T k \<union> set (I k)) = {}"
          using d [unfolded own] pool(3) [OF k'] unfolding owned_def by auto
        show "\<not> t_mark (s_heap s p)" if "p \<in> set (F @ P)" for p using Fs(9) that by blast
      qed
      with False show ?thesis by simp
    qed
  next
    have "shares U (length (y_workers y)) (T(n := T')) (F @ P) (I(n := I2)) (held (y_main y))"
    proof (rule shares_exchange [OF D(3) n])
      show "T' \<union> set I2 \<union> set (F @ P) \<union> held (y_main y) = owned T I n \<union> set P \<union> held (y_main y)"
        unfolding own by auto
      show "held (y_main y) \<inter> (T' \<union> set I2 \<union> set (F @ P)) = {}" using Hd unfolding own by auto
    qed (rule pool(3))
    then show "shares U (length (y_workers ?y)) (T(n := T')) (F @ P) (I(n := I2)) (held (y_main ?y))"
      by simp
    have "s_heap s p = s_heap (y_server y) p" if "p \<in> held (y_main y)" for p
      using fr that Hd I by (auto simp: touches_def owned_def)
    then show "held_ok (held (y_main ?y)) (y_server ?y)"
      using D(4) fr by (simp add: held_ok_def touches_def)
    show "ids_inv (all_owned (length (y_workers ?y)) (T(n := T')) (I(n := I2)) \<union> held (y_main ?y))
        (y_server ?y)"
      by (rule ids_inv_sub [OF D(5)])
         (use fr own all_owned_upd [OF n] in \<open>auto simp: touches_def\<close>)
    fix k assume "shut (y_main ?y)" and "k < length (y_workers ?y)"
    with D(6) n u(1) I show "(T(n := T')) k = {} \<and> (I(n := I2)) k = []"
      by (cases "k = n") auto
  qed
  moreover have "cfg_inv U (length (y_workers ?y)) (y_server ?y)"
    using cfg_inv_touches [OF cfg fr] by simp
  ultimately have "y_live y ! n \<longrightarrow> sys_inv A elems tok nodes hok G U ?y"
    using live_inv_tick [OF live n _ fr] by (intro impI sys_invI)
  with t fr that show thesis by (simp add: touches_def)
qed

section \<open>The main thread's steps\<close>

text \<open>
  A step that moves no task: it may change the place in the program, the error stack, the mode
  and the event object.
\<close>

definition quiet :: "('cb, 'u) law_server \<Rightarrow> ('cb, 'u) law_server \<Rightarrow> bool" where
  "quiet s s' \<longleftrightarrow>
     s_cfg s' = s_cfg s \<and> s_messages s' = s_messages s \<and> s_incoming s' = s_incoming s \<and>
     s_heap s' = s_heap s \<and> s_pool s' = s_pool s \<and> s_seed s' = s_seed s \<and>
     s_in_fds s' = s_in_fds s \<and> s_socket s' = s_socket s"

lemma sys_inv_quiet:
  assumes inv: "sys_inv A elems tok nodes hok G U y" and q: "quiet (y_server y) s"
    and pc: "held pc = held (y_main y)" "shut pc = shut (y_main y)"
    and cfg: "cfg_inv U (length (y_workers y)) s"
    and live: "\<not> shut pc \<Longrightarrow> started (length (y_workers y)) pc = started (length (y_workers y)) (y_main y)"
  shows "sys_inv A elems tok nodes hok G U (y\<lparr>y_main := pc, y_server := s\<rparr>)"
proof -
  from inv obtain T P I where parts: "sys_parts A elems tok nodes hok G U T P I y"
    and l: "live_inv y" by (rule sys_invE)
  note D = sys_partsD [OF parts]
  let ?y = "y\<lparr>y_main := pc, y_server := s\<rparr>"
  have "sys_parts A elems tok nodes hok G U T P I ?y"
  proof (rule sys_partsI)
    show "worker_inv A elems tok nodes hok G (T n) {} [] P (I n) (y_workers ?y ! n, y_server ?y)"
      if "n < length (y_workers ?y)" for n
      using worker_inv_cong [OF D(1) [of n]] q that by (simp add: quiet_def)
    show "ids_inv (all_owned (length (y_workers ?y)) T I \<union> held (y_main ?y)) (y_server ?y)"
      by (rule ids_inv_sub [OF D(5)]) (use q pc in \<open>auto simp: quiet_def\<close>)
  qed (use D pc q in \<open>simp_all add: held_ok_def quiet_def\<close>)
  moreover have "keeps_running n s = keeps_running n (y_server y)" for n
    using q by (simp add: keeps_running_def quiet_def)
  then have "live_inv ?y" using l pc live q by (simp add: live_inv_def quiet_def)
  ultimately show ?thesis using cfg by (intro sys_invI) simp_all
qed

lemma cfg_inv_quiet:
  assumes "cfg_inv U N s" and "quiet s s'" and "err_inv (s_errs s')" and "s_evo s' = s_evo s"
  shows "cfg_inv U N s'"
  using assms by (simp add: cfg_inv_def quiet_def main_evo_inv_def)

lemma server_err_ok:
  assumes "err_inv (s_errs s)"
  obtains es where "server_err action line s = Inr (s\<lparr>s_errs := es\<rparr>)" and "err_inv es"
proof -
  obtain t where "law_err_push LAW_ERR_SYS action ''source/lawd/server.c'' ''law_server_accept''
      line (s_errs s) = Inr (LAW_ERR_SYS, t)" "err_inv t"
    using law_err_push_ok [OF assms] by blast
  with that show thesis by (simp add: server_err_def)
qed

lemma accept_failed_ok:
  assumes "err_inv (s_errs s)" and "cf_on_error (s_cfg s)"
  obtains r s' where "accept_failed err s = Inr (r, s')" and "quiet s s'" and "s_evo s' = s_evo s"
    and "err_inv (s_errs s')" and "r = ACCEPT_AGAIN \<or> (\<exists>e. r = ACCEPT_RETURN e)"
proof -
  obtain es where es: "server_err ''accept'' 1356 s = Inr (s\<lparr>s_errs := es\<rparr>)" "err_inv es"
    using server_err_ok [OF assms(1)] by blast
  let ?s = "s\<lparr>s_errs := es, s_errors := s_errors s @ [LAW_ERR_SYS]\<rparr>"
  have "\<exists>r s'. accept_failed err s = Inr (r, s') \<and> (s' = s \<or> s' = ?s) \<and>
      (r = ACCEPT_AGAIN \<or> (\<exists>e. r = ACCEPT_RETURN e))"
    using es assms by (cases err) (simp_all add: accept_failed_def Let_def)
  then obtain r s' where r: "accept_failed err s = Inr (r, s')" "s' = s \<or> s' = ?s"
    "r = ACCEPT_AGAIN \<or> (\<exists>e. r = ACCEPT_RETURN e)" by blast
  from r(2) es(2) assms(1) have "quiet s s'" "s_evo s' = s_evo s" "err_inv (s_errs s')"
    by (auto simp: quiet_def)
  with r(1,3) that show thesis by blast
qed

lemma accept_close_ok:
  assumes "err_inv (s_errs s)"
  obtains s' where "accept_close d line s = Inr (ACCEPT_RETURN LAW_ERR_SYS, s')"
    and "quiet s s'" and "s_evo s' = s_evo s" and "err_inv (s_errs s')"
proof -
  obtain es where es: "server_err ''fcntl'' line (s\<lparr>s_closed := s_closed s @ [d]\<rparr>) =
      Inr ((s\<lparr>s_closed := s_closed s @ [d]\<rparr>)\<lparr>s_errs := es\<rparr>)" "err_inv es"
    using server_err_ok [of "s\<lparr>s_closed := s_closed s @ [d]\<rparr>"] assms by auto
  then show thesis
    by (intro that [of "(s\<lparr>s_closed := s_closed s @ [d]\<rparr>)\<lparr>s_errs := es\<rparr>"])
       (simp_all add: accept_close_def quiet_def)
qed

text \<open>The next identifier is above all that are in use.\<close>

lemma genid_value:
  assumes "unat (s_seed s) + 1 < 2 ^ 32"
  shows "unat (fst (law_server_genid s)) = unat (s_seed s) + 1"
proof -
  have u: "unat (s_seed s + 1) = unat (s_seed s) + 1"
    using assms by (simp add: unat_word_ariths)
  have "unat (word_of_nat LAW_ID_MODULO :: u64) = LAW_ID_MODULO"
    by (rule unat_word_of_nat_64) (simp add: LAW_ID_MODULO_def)
  with u assms show ?thesis
    by (simp add: law_server_genid_def Let_def unat_mod LAW_ID_MODULO_def)
qed

lemma ids_inv_insert:
  assumes "ids_inv L s" and same: "\<And>q. q \<in> L \<Longrightarrow> t_id (s_heap s' q) = t_id (s_heap s q)"
    and new: "unat (t_id (s_heap s' p)) = unat (s_seed s) + 1"
    and seed: "unat (s_seed s') = unat (s_seed s) + 1" "unat (s_seed s) + 1 < 2 ^ 32"
  shows "ids_inv (L \<union> {p}) s'"
proof -
  have inj: "inj_on (\<lambda>q. t_id (s_heap s q)) L"
    and old: "\<And>q. q \<in> L \<Longrightarrow> 0 < unat (t_id (s_heap s q)) \<and> unat (t_id (s_heap s q)) \<le> unat (s_seed s)"
    using assms(1) by (simp_all add: ids_inv_def)
  have "inj_on (\<lambda>q. t_id (s_heap s' q)) (L \<union> {p})"
  proof (rule inj_onI)
    fix a b assume ab: "a \<in> L \<union> {p}" "b \<in> L \<union> {p}" "t_id (s_heap s' a) = t_id (s_heap s' b)"
    have ne: "t_id (s_heap s' q) \<noteq> t_id (s_heap s' p)" if "q \<in> L" for q
      using same [OF that] old [OF that] new by auto
    from ab consider "a \<in> L" "b \<in> L" | "a = b"
      using ne by (metis Un_iff empty_iff insert_iff)
    then show "a = b"
    proof cases
      case 1
      with ab(3) same inj show ?thesis by (simp add: inj_on_def)
    qed
  qed
  moreover have "0 < unat (t_id (s_heap s' q)) \<and> unat (t_id (s_heap s' q)) \<le> unat (s_seed s')"
    if "q \<in> L \<union> {p}" for q
    using that old [of q] same [of q] new seed by auto
  ultimately show ?thesis using seed by (simp add: ids_inv_def)
qed

lemma accept_task_ok:
  fixes A :: "('cb, 'u, 'b, 't) lib" and s :: "('cb, 'u) law_server"
  assumes lib: "lib_ok A elems tok nodes hok M"
    and pl: "pool_holds (s_heap s) (s_pool s) (p # P)" and mark: "\<not> t_mark (s_heap s p)"
    and seed: "unat (s_seed s) + 1 < 2 ^ 32" and ids: "ids_inv L s" and pL: "p \<notin> L"
    and acc: "cf_on_accept (s_cfg s) \<noteq> None"
  obtains s' where "accept_task A d s = Inr (ACCEPT_TASK p, s')"
    and "\<forall>T X R I (w :: ('b, 't) law_worker). worker_inv A elems tok nodes hok G T X R (p # P) I (w, s) \<longrightarrow>
           worker_inv A elems tok nodes hok G T X R P I (w, s')"
    and "p \<notin> set P" and "held_ok {p} s'" and "ids_inv (L \<union> {p}) s'"
    and "s_cfg s' = s_cfg s" and "s_messages s' = s_messages s" and "s_incoming s' = s_incoming s"
    and "s_in_fds s' = s_in_fds s" and "s_socket s' = s_socket s" and "s_evo s' = s_evo s"
    and "s_errs s' = s_errs s" and "p_capacity (s_pool s') = p_capacity (s_pool s)"
proof -
  have L: "pmt_ll_spec (lib_ll A)" using lib by (simp add: lib_ok_def)
  let ?pool = "(s_pool s)\<lparr>p_list := law_task_get_next (s_heap s) p, p_size := length P\<rparr>"
  let ?h = "law_task_set_next (s_heap s) p NULL"
  have pop: "law_task_pool_pop (lib_ll A) (s_pool s) (s_heap s) = Inr (p, ?pool, ?h)"
    and pool: "pool_holds ?h ?pool P"
    using law_task_pool_pop_ok [OF L pl] by simp_all
  have "chain (law_task_get_next (s_heap s)) (p_list (s_pool s)) (p # P)"
    using pl by (simp add: pool_holds_def)
  from chain_distinct [OF this] chain_not_NULL [OF this]
  have p: "p \<noteq> NULL" "p \<notin> set P" by auto
  let ?s1 = "s\<lparr>s_pool := ?pool, s_heap := ?h\<rparr>"
  define j where "j = fst (law_server_genid ?s1)"
  let ?s2 = "?s1\<lparr>s_seed := j\<rparr>"
  let ?t = "law_task_setup (lib_rand A (s_draws s)) j (Some LAW_ACCEPT_CALLBACK) (word_of_nat d) (?h p)"
  let ?s3 = "draw (set_task p ?t ?s2)"
  have gen: "law_server_genid ?s1 = (j, ?s2)" by (simp add: j_def law_server_genid_def Let_def)
  have i: "unat j = unat (s_seed s) + 1" using genid_value [of ?s1] seed by (simp add: j_def)
  have run: "accept_task A d s = Inr (ACCEPT_TASK p, ?s3)"
    using pop p(1) by (simp add: accept_task_def gen)
  have inv: "worker_inv A elems tok nodes hok G T X R P I (w, ?s3)"
    if w: "worker_inv A elems tok nodes hok G T X R (p # P) I (w, s)"
    for T X R I and w :: "('b, 't) law_worker"
  proof -
    note F = shared_inv_facts [OF worker_inv_facts(2) [OF w]]
    have q: "p \<notin> T" "p \<notin> set I" using F(6,8) by auto
    have "worker_inv A elems tok nodes hok G T X R P I (w, ?s2)"
      by (rule worker_inv_cong [OF worker_inv_pop [OF w pool]]) simp_all
    from worker_inv_free [OF this q(1) p(2) q(2)] show ?thesis by (simp add: worker_inv_draw)
  qed
  have held: "held_ok {p} ?s3"
    using p(1) mark acc
    by (simp add: held_ok_def law_task_setup_def callback_ok_def law_task_set_next_def)
  have same: "t_id (s_heap ?s3 q) = t_id (s_heap s q)" if "q \<in> L" for q
    using that pL by (auto simp: law_task_set_next_def)
  have new: "t_id (s_heap ?s3 p) = j" by (simp add: law_task_setup_def)
  have ids': "ids_inv (L \<union> {p}) ?s3"
    by (rule ids_inv_insert [OF ids same _ _ seed]) (use new i in simp_all)
  show thesis
    by (rule that [OF run _ p(2) held ids']) (use inv in simp_all)
qed

text \<open>
  A round of \<^verbatim>\<open>law_server_accept\<close> that finds the pool empty, fails, or drops the connection.
\<close>

lemma accept_once_quiet:
  assumes "err_inv (s_errs s)" and "cf_on_error (s_cfg s)" and "pool_holds (s_heap s) (s_pool s) P"
    and other: "\<And>d es k p Q. P = p # Q \<Longrightarrow> err_inv es \<Longrightarrow>
      accept_once A s = accept_task A d (s\<lparr>s_errs := es, s_draws := k\<rparr>) \<Longrightarrow> thesis"
    and quiet: "\<And>r s'. accept_once A s = Inr (r, s') \<Longrightarrow> quiet s s' \<Longrightarrow> s_evo s' = s_evo s \<Longrightarrow>
      err_inv (s_errs s') \<Longrightarrow> \<forall>p. r \<noteq> ACCEPT_TASK p \<Longrightarrow> thesis"
  shows thesis
proof (cases P)
  case Nil
  then have "accept_once A s = Inr (ACCEPT_EMPTY, s)"
    using assms(3) by (simp add: accept_once_def law_task_pool_is_empty_def pool_holds_def)
  then show thesis by (rule quiet) (simp_all add: quiet_def assms(1))
next
  case (Cons p Q)
  have ne: "law_task_pool_is_empty (s_pool s) = Inr False"
    using assms(3) Cons by (auto simp: law_task_pool_is_empty_def pool_holds_def)
  obtain es where es: "law_err_clear (s_errs s) = Inr es" "err_inv es"
    using assms(1) by (simp add: law_err_clear_def err_inv_def)
  let ?s = "\<lambda>k. s\<lparr>s_errs := es, s_draws := k\<rparr>"
  have once: "accept_once A s =
      (case lib_conn A (s_draws s) of
         Inl err \<Rightarrow> accept_failed err (?s (s_draws s + 1))
       | Inr d \<Rightarrow>
           if \<not> lib_fcntl A (s_draws s + 1) then accept_close d 1381 (?s (s_draws s + 2))
           else if \<not> lib_fcntl A (s_draws s + 2) then accept_close d 1386 (?s (s_draws s + 3))
           else accept_task A d (?s (s_draws s + 3)))"
    using ne es(1) by (simp add: accept_once_def Let_def draw_def numeral_eq_Suc split: sum.split)
  have q: "quiet s (?s k)" for k by (simp add: quiet_def)
  have qt: "quiet (?s k) s' \<Longrightarrow> quiet s s'" for k s' by (simp add: quiet_def)
  show thesis
  proof (cases "lib_conn A (s_draws s)")
    case (Inl err)
    obtain r s' where "accept_failed err (?s (s_draws s + 1)) = Inr (r, s')"
      "quiet (?s (s_draws s + 1)) s'" "s_evo s' = s_evo (?s (s_draws s + 1))"
      "err_inv (s_errs s')" "r = ACCEPT_AGAIN \<or> (\<exists>e. r = ACCEPT_RETURN e)"
      using accept_failed_ok [of "?s (s_draws s + 1)" err] es(2) assms(2) by auto
    with once Inl show thesis by (intro quiet) (auto intro: qt)
  next
    case (Inr d)
    consider (a) "\<not> lib_fcntl A (s_draws s + 1)"
      | (b) "lib_fcntl A (s_draws s + 1)" "\<not> lib_fcntl A (s_draws s + 2)"
      | (c) "lib_fcntl A (s_draws s + 1)" "lib_fcntl A (s_draws s + 2)" by blast
    then show thesis
    proof cases
      case a
      obtain s' where "accept_close d 1381 (?s (s_draws s + 2)) = Inr (ACCEPT_RETURN LAW_ERR_SYS, s')"
        "quiet (?s (s_draws s + 2)) s'" "s_evo s' = s_evo (?s (s_draws s + 2))" "err_inv (s_errs s')"
        using accept_close_ok [of "?s (s_draws s + 2)" d 1381] es(2) by auto
      with once Inr a show thesis by (intro quiet) (auto intro: qt)
    next
      case b
      obtain s' where "accept_close d 1386 (?s (s_draws s + 3)) = Inr (ACCEPT_RETURN LAW_ERR_SYS, s')"
        "quiet (?s (s_draws s + 3)) s'" "s_evo s' = s_evo (?s (s_draws s + 3))" "err_inv (s_errs s')"
        using accept_close_ok [of "?s (s_draws s + 3)" d 1386] es(2) by auto
      with once Inr b show thesis by (intro quiet) (auto intro: qt)
    next
      case c
      with once Inr have "accept_once A s = accept_task A d (?s (s_draws s + 3))" by simp
      with Cons es(2) show thesis by (rule other)
    qed
  qed
qed

lemma sys_accept_ok:
  fixes A :: "('cb, 'u, 'b, 't) lib" and y :: "('cb, 'u, 'b, 't) sys"
  assumes lib: "sys_lib A elems tok nodes hok G M" and inv: "sys_inv A elems tok nodes hok G U y"
    and pc: "y_main y = MAIN_ACCEPT" and seed: "unat (s_seed (y_server y)) + 1 < 2 ^ 32"
  obtains r s where "accept_once A (y_server y) = Inr (r, s)"
    and "sys_inv A elems tok nodes hok G U (y\<lparr>y_main := after_accept r, y_server := s\<rparr>)"
    and "s_cfg s = s_cfg (y_server y)"
proof -
  let ?s = "y_server y" and ?N = "length (y_workers y)"
  from inv obtain T P I where parts: "sys_parts A elems tok nodes hok G U T P I y"
    and cfg: "cfg_inv U ?N ?s" and live: "live_inv y" by (rule sys_invE)
  note D = sys_partsD [OF parts]
  have N0: "0 < ?N" using cfg by (simp add: cfg_inv_def)
  note pool = sys_parts_pool [OF parts N0]
  have l: "lib_ok A elems tok nodes hok M" using lib by (simp add: sys_lib_def)
  have own: "cf_on_error (s_cfg ?s)"
    using worker_inv_facts(1) [OF D(1) [OF N0]] by (simp add: own_inv_def)
  have err: "err_inv (s_errs ?s)" using cfg by (simp add: cfg_inv_def)
  have H: "held (y_main y) = {}" by (simp add: held_def pc)
  show thesis
  proof (rule accept_once_quiet [OF err own pool(1), of A])
    fix r s'
    assume o: "accept_once A ?s = Inr (r, s')" and q: "quiet ?s s'" and e: "s_evo s' = s_evo ?s"
      "err_inv (s_errs s')" and r: "\<forall>p. r \<noteq> ACCEPT_TASK p"
    have "held (after_accept r) = held (y_main y)" "shut (after_accept r) = shut (y_main y)"
      "started ?N (after_accept r) = started ?N (y_main y)"
      using r by (auto simp: after_accept_def held_def shut_def started_def pc split: accept_result.splits)
    then have "sys_inv A elems tok nodes hok G U (y\<lparr>y_main := after_accept r, y_server := s'\<rparr>)"
      by (intro sys_inv_quiet [OF inv q] cfg_inv_quiet [OF cfg q e(2,1)]) simp_all
    moreover have "s_cfg s' = s_cfg ?s" using q by (simp add: quiet_def)
    ultimately show thesis by (rule that [OF o])
  next
    fix d es k p Q
    assume P: "P = p # Q" and es: "err_inv es"
      and o: "accept_once A ?s = accept_task A d (?s\<lparr>s_errs := es, s_draws := k\<rparr>)"
    let ?s1 = "?s\<lparr>s_errs := es, s_draws := k\<rparr>" and ?L = "all_owned ?N T I"
    have i1: "worker_inv A elems tok nodes hok G (T n) {} [] (p # Q) (I n) (y_workers y ! n, ?s1)"
      if "n < ?N" for n
      using worker_inv_cong [OF D(1) [OF that, unfolded P]] by simp
    have pl: "pool_holds (s_heap ?s1) (s_pool ?s1) (p # Q)" using pool(1) P by simp
    have mark: "\<not> t_mark (s_heap ?s1 p)"
      using shared_inv_facts(9) [OF worker_inv_facts(2) [OF i1 [OF N0]], of p] by simp
    have ids1: "ids_inv ?L ?s1" using D(5) H by (simp add: ids_inv_def)
    have pL: "p \<notin> ?L" using pool(3) P by (auto simp: all_owned_def)
    have seed1: "unat (s_seed ?s1) + 1 < 2 ^ 32" using seed by simp
    have acc: "cf_on_accept (s_cfg ?s1) \<noteq> None" using cfg by (simp add: cfg_inv_def)
    obtain s' where t: "accept_task A d ?s1 = Inr (ACCEPT_TASK p, s')"
      and i2: "\<forall>T X R I (w :: ('b, 't) law_worker). worker_inv A elems tok nodes hok G T X R (p # Q) I (w, ?s1) \<longrightarrow>
           worker_inv A elems tok nodes hok G T X R Q I (w, s')"
      and p: "p \<notin> set Q" "held_ok {p} s'" "ids_inv (?L \<union> {p}) s'"
      and k: "s_cfg s' = s_cfg ?s1" "s_messages s' = s_messages ?s1" "s_incoming s' = s_incoming ?s1"
        "s_in_fds s' = s_in_fds ?s1" "s_socket s' = s_socket ?s1" "s_evo s' = s_evo ?s1"
        "s_errs s' = s_errs ?s1" "p_capacity (s_pool s') = p_capacity (s_pool ?s1)"
      by (rule accept_task_ok [where G = G and d = d, OF l pl mark seed1 ids1 pL acc])
    let ?y = "y\<lparr>y_main := MAIN_DISPATCH p, y_server := s'\<rparr>"
    have H': "held (y_main ?y) = {p}" "\<not> shut (y_main ?y)" by (simp_all add: held_def shut_def)
    have "sys_parts A elems tok nodes hok G U T Q I ?y"
    proof (rule sys_partsI)
      show "shares U (length (y_workers ?y)) T Q I (held (y_main ?y))"
        using D(3) P H p(1) pL unfolding H' by (auto simp: shares_def)
    qed (use i2 i1 D(2) p H' in simp_all)
    moreover have "cfg_inv U ?N s'" using cfg k es by (simp add: cfg_inv_def main_evo_inv_def)
    moreover have "live_inv ?y"
      using live k(2) by (simp add: live_inv_def started_def shut_def pc)
    ultimately have "sys_inv A elems tok nodes hok G U ?y" by (intro sys_invI) simp_all
    with o t k(1) show thesis by (intro that [of "ACCEPT_TASK p" s']) (auto simp: after_accept_def)
  qed
qed

end
