(* ===== verification/SystemSteps.thy ===== *)
theory SystemSteps
  imports System
begin

text \<open>
  The remaining steps of the running server (handing over a task, waiting, draining, leaving) and
  what follows for every state it can reach: no operation of either thread stops the process, no
  task is lost or used twice, and when the server shuts down every task is back in the pool.
\<close>

section \<open>Handing over a task\<close>

lemma low_id_small: "unat (t_id (h p)) < 2 ^ 32 \<Longrightarrow> unat (low_id h p) = unat (t_id (h p))"
  by (simp add: low_id_def unsigned_ucast_eq take_bit_eq_mod)

lemma ids_inv_low:
  assumes "ids_inv L s"
  shows "inj_on (low_id (s_heap s)) L" and "\<And>p. p \<in> L \<Longrightarrow> unat (t_id (s_heap s p)) < 2 ^ 32"
proof -
  show lt: "unat (t_id (s_heap s p)) < 2 ^ 32" if "p \<in> L" for p
    using assms that unfolding ids_inv_def by (meson order.strict_trans1)
  have inj: "inj_on (\<lambda>p. t_id (s_heap s p)) L" using assms by (simp add: ids_inv_def)
  show "inj_on (low_id (s_heap s)) L"
  proof (rule inj_onI)
    fix a b
    assume ab: "a \<in> L" "b \<in> L" and eq: "low_id (s_heap s) a = low_id (s_heap s) b"
    have "unat (t_id (s_heap s a)) = unat (low_id (s_heap s) a)"
      by (rule low_id_small [symmetric]) (rule lt [OF ab(1)])
    also have "\<dots> = unat (low_id (s_heap s) b)" by (simp only: eq)
    also have "\<dots> = unat (t_id (s_heap s b))" by (rule low_id_small) (rule lt [OF ab(2)])
    finally have "unat (t_id (s_heap s a)) = unat (t_id (s_heap s b))" .
    then have "t_id (s_heap s a) = t_id (s_heap s b)" by (simp add: word_unat_eq_iff)
    with ab inj show "a = b" by (simp add: inj_on_def)
  qed
qed

lemma worker_inv_push:
  assumes inv: "worker_inv A elems tok nodes hok G T {} [] P I (w, s)" and n: "w_id w = n"
    and p: "p \<notin> T \<union> set P \<union> set I" and held: "held_ok {p} s" and q: "pipe_holds ptr_bytes (I @ [p]) q"
    and ids: "ids_inv (T \<union> set (I @ [p])) s"
  shows "worker_inv A elems tok nodes hok G T {} [] P (I @ [p])
     (w, s\<lparr>s_incoming := (s_incoming s)[n := q]\<rparr>)"
proof -
  let ?s = "s\<lparr>s_incoming := (s_incoming s)[n := q]\<rparr>"
  note W = worker_inv_facts [OF inv]
  note F = shared_inv_facts [OF W(2)]
  note low = ids_inv_low [OF ids]
  have h: "p \<noteq> NULL" "t_mode (s_heap s p) = LAW_MODE_SPAWNED" "\<not> t_mark (s_heap s p)"
    "callback_ok (s_cfg s) (t_callback (s_heap s p))" using held by (simp_all add: held_ok_def)
  have id: "unat (t_id (s_heap s x)) < LAW_ID_MODULO" if "x \<in> T \<union> set (I @ [p])" for x
    using low(2) [OF that] by (simp add: LAW_ID_MODULO_def)
  have "shared_inv (w_id w) T P (I @ [p]) ?s"
    unfolding shared_inv_def
  proof (intro conjI ballI)
    show "w_id w < length (s_incoming ?s)" using F(2) by simp
    show "pipe_holds ptr_bytes (I @ [p]) (s_incoming ?s ! w_id w)" using q n F(2) by simp
    show "distinct (I @ [p])" "T \<inter> set (I @ [p]) = {}" "set P \<inter> set (I @ [p]) = {}"
      using F(5,7,8) p by auto
    show "inj_on (low_id (s_heap ?s)) (T \<union> set (I @ [p]))" using low(1) by simp
  qed (use F h id in auto)
  moreover have "own_inv A elems tok nodes hok w ?s T" using W(1) by (simp add: own_inv_def)
  ultimately show ?thesis using W(3,4) by (simp add: worker_inv_def) (use inv in \<open>simp add: worker_inv_def\<close>)
qed

lemma must_ctl_ok:
  assumes "\<forall>n. lib_ctl A n"
    and "epoll_ctl True op d \<lparr>ev_events = events, ev_data = 0\<rparr> (evo_interest (s_evo s)) = Some m"
  shows "must_ctl A op events d s = Inr (draw s\<lparr>s_evo := (s_evo s)\<lparr>evo_interest := m\<rparr>\<rparr>)"
  using assms by (simp add: must_ctl_def law_evo_ctl_def)

text \<open>Registering and unregistering the queues, and nothing else.\<close>

abbreviation with_interest ::
  "nat \<Rightarrow> (nat \<rightharpoonup> law_event) \<Rightarrow> ('cb, 'u) law_server \<Rightarrow> ('cb, 'u) law_server" where
  "with_interest k m s \<equiv> s\<lparr>s_draws := k, s_evo := (s_evo s)\<lparr>evo_interest := m\<rparr>\<rparr>"

lemma must_ctls_add:
  assumes ctl: "\<forall>n. lib_ctl A n"
  shows "distinct ds \<Longrightarrow> set ds \<inter> dom (evo_interest (s_evo s)) = {} \<Longrightarrow>
     \<exists>k m. must_ctls A LAW_EV_ADD events ds s = Inr (with_interest k m s) \<and>
       dom m = dom (evo_interest (s_evo s)) \<union> set ds"
proof (induction ds arbitrary: s)
  case Nil
  then show ?case by (intro exI [of _ "s_draws s"] exI [of _ "evo_interest (s_evo s)"]) simp
next
  case (Cons d ds)
  let ?m = "(evo_interest (s_evo s))(d \<mapsto> \<lparr>ev_events = events, ev_data = 0\<rparr>)"
  let ?s = "draw s\<lparr>s_evo := (s_evo s)\<lparr>evo_interest := ?m\<rparr>\<rparr>"
  have "evo_interest (s_evo s) d = None" using Cons.prems(2) by auto
  then have c: "must_ctl A LAW_EV_ADD events d s = Inr ?s"
    by (intro must_ctl_ok [OF ctl]) (simp add: epoll_ctl_def)
  have "distinct ds" "set ds \<inter> dom (evo_interest (s_evo ?s)) = {}" using Cons.prems by auto
  from Cons.IH [OF this] obtain k m where
    "must_ctls A LAW_EV_ADD events ds ?s = Inr (with_interest k m ?s)" "dom m = dom (evo_interest (s_evo ?s)) \<union> set ds" by blast
  with c show ?case by (intro exI [of _ k] exI [of _ m]) (auto simp: draw_def)
qed

lemma must_ctls_del:
  assumes ctl: "\<forall>n. lib_ctl A n"
  shows "distinct ds \<Longrightarrow> set ds \<subseteq> dom (evo_interest (s_evo s)) \<Longrightarrow>
     \<exists>k m. must_ctls A LAW_EV_DEL events ds s = Inr (with_interest k m s) \<and>
       dom m = dom (evo_interest (s_evo s)) - set ds"
proof (induction ds arbitrary: s)
  case Nil
  then show ?case by (intro exI [of _ "s_draws s"] exI [of _ "evo_interest (s_evo s)"]) simp
next
  case (Cons d ds)
  let ?m = "(evo_interest (s_evo s))(d := None)"
  let ?s = "draw s\<lparr>s_evo := (s_evo s)\<lparr>evo_interest := ?m\<rparr>\<rparr>"
  have "evo_interest (s_evo s) d \<noteq> None" using Cons.prems(2) by auto
  then have c: "must_ctl A LAW_EV_DEL events d s = Inr ?s"
    by (intro must_ctl_ok [OF ctl]) (simp add: epoll_ctl_def)
  have "distinct ds" "set ds \<subseteq> dom (evo_interest (s_evo ?s))" using Cons.prems by auto
  from Cons.IH [OF this] obtain k m where
    "must_ctls A LAW_EV_DEL events ds ?s = Inr (with_interest k m ?s)" "dom m = dom (evo_interest (s_evo ?s)) - set ds" by blast
  with c show ?case by (intro exI [of _ k] exI [of _ m]) (auto simp: draw_def)
qed

text \<open>
  The wait for a worker's queue exchanges the listening socket for the queues and back.
\<close>

lemma dispatch_wait_ok:
  fixes A :: "('cb, 'u, 'b, 't) lib" and s :: "('cb, 'u) law_server"
  assumes lib: "sys_lib A elems tok nodes hok G M" and fits: "fits M s" and cfg: "cfg_inv U N s"
    and sent: "dispatch_push 0 p s = Inr (False, s)"
  obtains s' where "law_spawn_dispatch_once A p s = Inr (False, s')" and "quiet s s'" and "cfg_inv U N s'"
proof -
  have ctl: "\<forall>n. lib_ctl A n" using lib by (simp add: sys_lib_def)
  let ?ds = "s_in_fds s" and ?m = "evo_interest (s_evo s)" and ?k = "s_socket s"
  have M: "main_evo_inv s" and fds: "take (nat (cf_workers (s_cfg s))) ?ds = ?ds"
    using cfg by (simp_all add: cfg_inv_def)
  have dom: "dom ?m = {?k}" and dk: "?k \<notin> set ?ds" and dist: "distinct ?ds"
    using M by (simp_all add: main_evo_inv_def)
  have ev: "?m ?k \<noteq> None" using dom by auto
  let ?s1 = "draw s\<lparr>s_evo := (s_evo s)\<lparr>evo_interest := ?m(?k := None)\<rparr>\<rparr>"
  have c1: "must_ctl A LAW_EV_DEL 0 ?k s = Inr ?s1"
    by (rule must_ctl_ok [OF ctl]) (use ev in \<open>simp add: epoll_ctl_def\<close>)
  have "set ?ds \<inter> dom (evo_interest (s_evo ?s1)) = {}" using dom by simp
  from must_ctls_add [OF ctl dist this, of LAW_EV_W] obtain k2 m2 where
    c2: "must_ctls A LAW_EV_ADD LAW_EV_W ?ds ?s1 = Inr (with_interest k2 m2 ?s1)"
    and d2: "dom m2 = dom (evo_interest (s_evo ?s1)) \<union> set ?ds" by blast
  have m2: "dom m2 = set ?ds" using d2 dom by simp
  let ?s2 = "with_interest k2 m2 ?s1"
  obtain evs where ep: "lib_epoll A (s_draws ?s2) 100 = Some evs" "length evs \<le> M"
    using lib unfolding sys_lib_def lib_ok_def by blast
  obtain r e3 where w: "law_evo_wait (Some evs) (s_evo ?s2) = (r, e3)" by fastforce
  have inv2: "evo_inv (s_evo ?s2)" "length evs \<le> evo_max_events (s_evo ?s2)"
    using M ep(2) fits by (auto simp: main_evo_inv_def evo_inv_def fits_def)
  note ok = law_evo_wait_ok [OF inv2 w]
  let ?s3 = "draw ?s2\<lparr>s_evo := e3\<rparr>"
  let ?m4 = "(evo_interest e3)(?k \<mapsto> \<lparr>ev_events = LAW_EV_R, ev_data = 0\<rparr>)"
  let ?s4 = "draw ?s3\<lparr>s_evo := e3\<lparr>evo_interest := ?m4\<rparr>\<rparr>"
  have i3: "evo_interest e3 = m2" using ok(4) by simp
  have "m2 ?k = None" using m2 dk by (metis domIff)
  then have c4: "must_ctl A LAW_EV_ADD LAW_EV_R ?k ?s3 = Inr ?s4"
    by (subst must_ctl_ok [OF ctl]) (use i3 in \<open>simp_all add: epoll_ctl_def\<close>)
  have d4: "dom (evo_interest (s_evo ?s4)) = insert ?k (set ?ds)" using i3 m2 by simp
  have "set ?ds \<subseteq> dom (evo_interest (s_evo ?s4))" unfolding d4 by blast
  from must_ctls_del [OF ctl dist this, of 0] obtain k5 m5 where
    c5: "must_ctls A LAW_EV_DEL 0 ?ds ?s4 = Inr (with_interest k5 m5 ?s4)"
    and m5: "dom m5 = insert ?k (set ?ds) - set ?ds" unfolding d4 by blast
  let ?s5 = "with_interest k5 m5 ?s4"
  have run: "law_spawn_dispatch_once A p s = Inr (False, ?s5)"
    unfolding law_spawn_dispatch_once_def
    using sent c1 c2 c4 c5 ep(1) w ok(1) fds by (simp add: Let_def)
  have q: "quiet s ?s5" by (simp add: quiet_def)
  have "dom m5 = {?k}" unfolding m5 using dk by auto
  then have "main_evo_inv ?s5" using M ok(2,5) by (simp add: main_evo_inv_def evo_inv_def)
  then have "cfg_inv U N ?s5" using cfg by (simp add: cfg_inv_def)
  from that [OF run q this] show thesis .
qed

text \<open>The task goes from the main thread to the end of a worker's queue.\<close>

lemma sys_handed_over:
  assumes inv: "sys_inv A elems tok nodes hok G U y" and pc: "y_main y = MAIN_DISPATCH p"
    and i: "i < length (y_workers y)" and q: "task_queue_inv q"
    and items: "queued q = queued (s_incoming (y_server y) ! i) @ [p]"
  shows "sys_inv A elems tok nodes hok G U
     (y\<lparr>y_main := MAIN_ACCEPT,
        y_server := (y_server y)\<lparr>s_incoming := (s_incoming (y_server y))[i := q]\<rparr>\<rparr>)"
proof -
  let ?s = "y_server y" and ?N = "length (y_workers y)"
  from inv obtain T P I where parts: "sys_parts A elems tok nodes hok G U T P I y"
    and cfg: "cfg_inv U ?N ?s" and live: "live_inv y" by (rule sys_invE)
  note D = sys_partsD [OF parts]
  have N0: "0 < ?N" using i by linarith
  note pool = sys_parts_pool [OF parts N0]
  note F = shared_inv_facts [OF worker_inv_facts(2) [OF D(1) [OF i]]]
  have H: "held (y_main y) = {p}" by (simp add: held_def pc)
  let ?s' = "?s\<lparr>s_incoming := (s_incoming ?s)[i := q]\<rparr>" and ?I = "I(i := I i @ [p])"
  let ?y = "y\<lparr>y_main := MAIN_ACCEPT, y_server := ?s'\<rparr>"
  have H': "held (y_main ?y) = {}" "\<not> shut (y_main ?y)" by (simp_all add: held_def shut_def)
  have "queued (s_incoming ?s ! i) = I i" using task_items_holds [OF F(3)] D(2) [OF i] by simp
  then have q': "pipe_holds ptr_bytes (I i @ [p]) q" using q items by (simp add: task_queue_inv_def)
  have pn: "p \<notin> all_owned ?N T I \<union> set P" using sharesD(2) [OF D(3)] H by simp
  have sub: "T i \<union> set (I i @ [p]) \<subseteq> all_owned ?N T I \<union> held (y_main y)"
    using i H by (auto simp: all_owned_def owned_def)
  have pi: "p \<notin> T i \<union> set P \<union> set (I i)" using pn i by (auto simp: all_owned_def owned_def)
  have ids: "ids_inv (T i \<union> set (I i @ [p])) ?s" by (rule ids_inv_sub [OF D(5) sub]) simp_all
  have held: "held_ok {p} ?s" using D(4) H by simp
  have own: "all_owned ?N T ?I = all_owned ?N T I \<union> {p}"
    using all_owned_upd(1) [OF i, of T "T i" I "I i @ [p]"] all_owned_upd(2) [OF i, of T I]
    by (auto simp: owned_def)
  have "sys_parts A elems tok nodes hok G U T P ?I ?y"
  proof (rule sys_partsI)
    fix k assume k: "k < length (y_workers ?y)"
    then have k': "k < ?N" by simp
    show "w_id (y_workers ?y ! k) = k" using D(2) [OF k'] by simp
    show "worker_inv A elems tok nodes hok G (T k) {} [] P (?I k) (y_workers ?y ! k, y_server ?y)"
    proof (cases "k = i")
      case True
      with worker_inv_push [OF D(1) [OF i] D(2) [OF i] pi held q' ids] show ?thesis by simp
    next
      case False
      have "touches i {} ?s ?s'" by (simp add: touches_def)
      from worker_inv_other [OF D(1) [OF k'] this] False D(2) [OF k'] pool(1) pool(3) [OF k'] F(9)
      have "worker_inv A elems tok nodes hok G (T k) {} [] P (I k) (y_workers y ! k, ?s')"
        by (auto simp: owned_def)
      with False show ?thesis by simp
    qed
  next
    have "shares U ?N (T(i := T i)) P ?I {}"
      by (rule shares_exchange [OF D(3) i _ _ pool(3)]) (auto simp: owned_def H)
    then show "shares U (length (y_workers ?y)) T P ?I (held (y_main ?y))" unfolding H' by simp
    show "ids_inv (all_owned (length (y_workers ?y)) T ?I \<union> held (y_main ?y)) (y_server ?y)"
      using D(5) H own H' by (simp add: ids_inv_def)
  qed (use H' in \<open>simp_all add: held_ok_def\<close>)
  moreover have "cfg_inv U ?N ?s'" using cfg by (simp add: cfg_inv_def main_evo_inv_def)
  moreover have "live_inv ?y"
    using live by (simp add: live_inv_def started_def shut_def pc)
  ultimately show ?thesis by (intro sys_invI) simp_all
qed

lemma sys_dispatch_ok:
  fixes A :: "('cb, 'u, 'b, 't) lib" and y :: "('cb, 'u, 'b, 't) sys"
  assumes lib: "sys_lib A elems tok nodes hok G M" and fits: "fits M (y_server y)"
    and inv: "sys_inv A elems tok nodes hok G U y" and pc: "y_main y = MAIN_DISPATCH p"
  obtains b s where "law_spawn_dispatch_once A p (y_server y) = Inr (b, s)"
    and "sys_inv A elems tok nodes hok G U
           (y\<lparr>y_main := (if b then MAIN_ACCEPT else MAIN_DISPATCH p), y_server := s\<rparr>)"
    and "s_cfg s = s_cfg (y_server y)" and "s_seed s = s_seed (y_server y)"
proof -
  let ?s = "y_server y" and ?N = "length (y_workers y)"
  from inv obtain T P I where parts: "sys_parts A elems tok nodes hok G U T P I y"
    and cfg: "cfg_inv U ?N ?s" by (rule sys_invE)
  note D = sys_partsD [OF parts]
  have queue: "task_queue_inv (s_incoming ?s ! n)" if "n < ?N" for n
    using shared_inv_facts(3) [OF worker_inv_facts(2) [OF D(1) [OF that]]] D(2) [OF that]
    by (auto intro: task_queue_invI)
  have qs: "queues_inv ?s"
    using cfg queue by (auto simp: cfg_inv_def queues_inv_def in_set_conv_nth)
  have len: "length (s_incoming ?s) = ?N" using cfg by (simp add: cfg_inv_def)
  from dispatch_push_cases [OF qs, of 0 p] show thesis
  proof (elim disjE exE conjE)
    fix x q
    let ?i = "dispatch_index x p ?s"
    let ?s' = "?s\<lparr>s_incoming := (s_incoming ?s)[?i := q]\<rparr>"
    assume push: "dispatch_push 0 p ?s = Inr (True, ?s')" and q: "task_queue_inv q"
      "queued q = queued (s_incoming ?s ! ?i) @ [p]"
    have i: "?i < ?N" using dispatch_index_less [OF qs] len by simp
    have "law_spawn_dispatch_once A p ?s = Inr (True, ?s')"
      using push by (simp add: law_spawn_dispatch_once_def)
    with sys_handed_over [OF inv pc i q] show thesis by (intro that [of True ?s']) simp_all
  next
    assume "dispatch_push 0 p ?s = Inr (False, ?s)"
    from dispatch_wait_ok [OF lib fits cfg this] obtain s where
      run: "law_spawn_dispatch_once A p ?s = Inr (False, s)" and qu: "quiet ?s s"
      and c: "cfg_inv U ?N s" by blast
    have "sys_inv A elems tok nodes hok G U (y\<lparr>y_main := MAIN_DISPATCH p, y_server := s\<rparr>)"
      using pc by (intro sys_inv_quiet [OF inv qu _ _ c]) simp_all
    with qu show thesis by (intro that [OF run]) (simp_all add: quiet_def)
  qed
qed

section \<open>Waiting, draining and leaving\<close>

lemma sys_poll_ok:
  fixes A :: "('cb, 'u, 'b, 't) lib" and y :: "('cb, 'u, 'b, 't) sys"
  assumes lib: "sys_lib A elems tok nodes hok G M" and fits: "fits M (y_server y)"
    and inv: "sys_inv A elems tok nodes hok G U y" and pc: "y_main y = MAIN_POLL"
  obtains s where "server_poll A (y_server y) = Inr s"
    and "sys_inv A elems tok nodes hok G U (y\<lparr>y_main := MAIN_TEST, y_server := s\<rparr>)"
    and "quiet (y_server y) s"
proof -
  let ?s = "y_server y"
  have cfg: "cfg_inv U (length (y_workers y)) ?s" using inv by (simp add: sys_inv_def)
  have M: "main_evo_inv ?s" using cfg by (simp add: cfg_inv_def)
  obtain evs where ep: "lib_epoll A (s_draws ?s) (cf_server_timeout (s_cfg ?s)) = Some evs"
      "length evs \<le> M"
    using lib unfolding sys_lib_def lib_ok_def by blast
  obtain r e where w: "law_evo_wait (Some evs) (s_evo ?s) = (r, e)" by fastforce
  have inv2: "evo_inv (s_evo ?s)" "length evs \<le> evo_max_events (s_evo ?s)"
    using M ep(2) fits by (auto simp: main_evo_inv_def fits_def)
  note ok = law_evo_wait_ok [OF inv2 w]
  let ?s' = "draw ?s\<lparr>s_evo := e\<rparr>"
  have run: "server_poll A ?s = Inr ?s'" using ep w ok(1) by (simp add: server_poll_def)
  have q: "quiet ?s ?s'" by (simp add: quiet_def)
  have c: "cfg_inv U (length (y_workers y)) ?s'"
    using cfg ok by (simp add: cfg_inv_def main_evo_inv_def)
  have "sys_inv A elems tok nodes hok G U (y\<lparr>y_main := MAIN_TEST, y_server := ?s'\<rparr>)"
    using pc by (intro sys_inv_quiet [OF inv q _ _ c]) (simp_all add: held_def shut_def started_def)
  with run q that show thesis by blast
qed

text \<open>
  The pool is full exactly when there is no task anywhere else. Only then the workers are told to
  leave.
\<close>

lemma sys_pool_full:
  assumes parts: "sys_parts A elems tok nodes hok G U T P I y"
    and cfg: "cfg_inv U (length (y_workers y)) (y_server y)"
  shows "law_task_pool_is_full (s_pool (y_server y)) =
     Inr (all_owned (length (y_workers y)) T I = {} \<and> held (y_main y) = {})"
proof -
  let ?O = "all_owned (length (y_workers y)) T I" and ?H = "held (y_main y)"
  have N0: "0 < length (y_workers y)" using cfg by (simp add: cfg_inv_def)
  note pool = sys_parts_pool [OF parts N0]
  note S = sharesD [OF sys_partsD(3) [OF parts]]
  have size: "p_size (s_pool (y_server y)) = length P" using pool(1) by (simp add: pool_holds_def)
  have U: "finite U" "card U = p_capacity (s_pool (y_server y))" using cfg by (simp_all add: cfg_inv_def)
  have OP: "?O \<inter> set P = {}" using pool(3) by (auto simp: all_owned_def)
  have sub: "set P \<subseteq> U" using S(1) by auto
  have "length P = card U \<longleftrightarrow> set P = U"
    using card_subset_eq [OF U(1) sub] distinct_card [OF pool(2)] by auto
  also have "\<dots> \<longleftrightarrow> ?O = {} \<and> ?H = {}"
    using S(1,2) OP by blast
  finally show ?thesis using size U(2) pool(1) by (simp add: law_task_pool_is_full_def pool_holds_def)
qed

lemma all_owned_empty: "all_owned N T I = {} \<longleftrightarrow> (\<forall>n < N. T n = {} \<and> I n = [])"
  by (auto simp: all_owned_def owned_def)

text \<open>What a worker asks of its message queue.\<close>

definition messages_ok :: "pipe \<Rightarrow> bool" where
  "messages_ok q \<longleftrightarrow> msg_queue_inv q \<and>
     (\<forall>m \<in> set (msgs q). msg_type m = LAW_MSG_SHUTDOWN \<or> msg_type m = LAW_MSG_WAKEUP)"

lemma worker_inv_mailbox:
  assumes "worker_inv A elems tok nodes hok G T X R P I (w, s)"
  shows "w_id w < length (s_messages s)" and "messages_ok (s_messages s ! w_id w)"
    and "length ms = length (s_messages s) \<Longrightarrow> messages_ok (ms ! w_id w) \<Longrightarrow>
      worker_inv A elems tok nodes hok G T X R P I (w, s\<lparr>s_messages := ms\<rparr>)"
  using assms by (simp_all add: worker_inv_def own_inv_def shared_inv_def messages_ok_def)

text \<open>The message reaches every one of the first \<open>k\<close> workers, whose queues are empty.\<close>

lemma send_shutdown_ok:
  assumes "k \<le> length (s_messages s)"
    and "\<forall>n < length (s_messages s). messages_ok (s_messages s ! n) \<and> mail_idle (s_messages s ! n)"
  shows "\<exists>ms. send_shutdown k s = Inr (s\<lparr>s_messages := ms\<rparr>) \<and> length ms = length (s_messages s) \<and>
     (\<forall>n < length (s_messages s). messages_ok (ms ! n) \<and>
        (if n < k then msgs (ms ! n) = [\<lparr>msg_type = LAW_MSG_SHUTDOWN, msg_data = 0\<rparr>]
         else ms ! n = s_messages s ! n))"
  using assms(1)
proof (induction k)
  case 0
  with assms(2) show ?case by (intro exI [of _ "s_messages s"]) simp
next
  case (Suc k)
  let ?m = "\<lparr>msg_type = LAW_MSG_SHUTDOWN, msg_data = 0\<rparr>"
  let ?ok = "\<lambda>k ms. \<forall>n < length (s_messages s). messages_ok (ms ! n) \<and>
    (if n < k then msgs (ms ! n) = [?m] else ms ! n = s_messages s ! n)"
  from Suc obtain ms where ms: "send_shutdown k s = Inr (s\<lparr>s_messages := ms\<rparr>)"
    "length ms = length (s_messages s)" "?ok k ms" by auto
  have k: "k < length (s_messages s)" using Suc.prems by simp
  then have at: "ms ! k = s_messages s ! k" using ms(3) by auto
  have q: "msg_queue_inv (ms ! k)" "length (pp_data (ms ! k)) + 16 \<le> pp_cap (ms ! k)" "msgs (ms ! k) = []"
    using assms(2) k unfolding at by (simp_all add: messages_ok_def mail_idle_def)
  from mq.push_room [OF q(1,2), of ?m] q(3) obtain r where
    push: "law_msg_queue_push ?m (ms ! k) = Inr (LAW_ERR_OK, r)" and r: "msg_queue_inv r" "msgs r = [?m]"
    by auto
  have "messages_ok r" using r by (simp add: messages_ok_def)
  then have "?ok (Suc k) (ms[k := r])"
    using ms(2,3) r(2) k by (auto simp: nth_list_update less_Suc_eq)
  moreover have "send_shutdown (Suc k) s = Inr (s\<lparr>s_messages := ms[k := r]\<rparr>)" using ms(1) push by simp
  ultimately show ?case using ms(2) by (intro exI [of _ "ms[k := r]"] conjI) (simp_all only: length_list_update)
qed

lemma sys_drain_ok:
  fixes A :: "('cb, 'u, 'b, 't) lib" and y :: "('cb, 'u, 'b, 't) sys"
  assumes inv: "sys_inv A elems tok nodes hok G U y" and pc: "y_main y = MAIN_DRAIN e"
    and full: "law_task_pool_is_full (s_pool (y_server y)) = Inr True"
  obtains s where "send_shutdown (nat (cf_workers (s_cfg (y_server y)))) (y_server y) = Inr s"
    and "sys_inv A elems tok nodes hok G U (y\<lparr>y_main := MAIN_JOIN e, y_server := s\<rparr>)"
    and "s_cfg s = s_cfg (y_server y)" and "s_seed s = s_seed (y_server y)"
proof -
  let ?s = "y_server y" and ?N = "length (y_workers y)"
  from inv obtain T P I where parts: "sys_parts A elems tok nodes hok G U T P I y"
    and cfg: "cfg_inv U ?N ?s" and live: "live_inv y" by (rule sys_invE)
  note D = sys_partsD [OF parts]
  have none: "T n = {} \<and> I n = []" if "n < ?N" for n
    using sys_pool_full [OF parts cfg] full that by (simp add: all_owned_empty)
  have len: "length (s_messages ?s) = ?N" and wk: "nat (cf_workers (s_cfg ?s)) = ?N"
    using cfg by (simp_all add: cfg_inv_def)
  have "\<not> shut (y_main y)" by (simp add: pc shut_def)
  then have "\<forall>n < length (s_messages ?s). messages_ok (s_messages ?s ! n) \<and> mail_idle (s_messages ?s ! n)"
    using worker_inv_mailbox(2) [OF D(1)] D(2) live by (simp add: len live_inv_def)
  from send_shutdown_ok [OF _ this, of ?N] obtain ms where
    run: "send_shutdown ?N ?s = Inr (?s\<lparr>s_messages := ms\<rparr>)" and ml: "length ms = ?N"
    and ok: "\<forall>n < ?N. messages_ok (ms ! n) \<and>
      msgs (ms ! n) = [\<lparr>msg_type = LAW_MSG_SHUTDOWN, msg_data = 0\<rparr>]" unfolding len by auto
  let ?s' = "?s\<lparr>s_messages := ms\<rparr>"
  let ?y = "y\<lparr>y_main := MAIN_JOIN e, y_server := ?s'\<rparr>"
  have H: "held (y_main y) = {}" "held (y_main ?y) = {}" by (simp_all add: held_def pc)
  have "sys_parts A elems tok nodes hok G U T P I ?y"
  proof (rule sys_partsI)
    show "worker_inv A elems tok nodes hok G (T n) {} [] P (I n) (y_workers ?y ! n, y_server ?y)"
      if "n < length (y_workers ?y)" for n
      using worker_inv_mailbox(3) [OF D(1) [of n], of ms] that ok ml len D(2) [of n] by simp
  qed (use D(2,3,5) H none in \<open>simp_all add: held_ok_def ids_inv_def\<close>)
  moreover have "cfg_inv U ?N ?s'" using cfg ml by (simp add: cfg_inv_def main_evo_inv_def)
  moreover have "live_inv ?y" using live ok by (simp add: live_inv_def shut_def keeps_running_def)
  ultimately have "sys_inv A elems tok nodes hok G U ?y" by (intro sys_invI) simp_all
  with run wk show thesis by (intro that [of ?s']) simp_all
qed

lemma law_start_enter_ok:
  assumes "cfg_inv U N s" and "law_start_enter s = Inr (e, s')"
  shows "quiet s s'" and "cfg_inv U N s'"
proof -
  have err: "err_inv (s_errs s)" using assms(1) by (simp add: cfg_inv_def)
  then obtain es where es: "law_err_clear (s_errs s) = Inr es" "err_inv es"
    by (simp add: law_err_clear_def err_inv_def)
  have s': "s' = s\<lparr>s_errs := es\<rparr> \<or> s' = s\<lparr>s_errs := es, s_mode := LAW_MODE_RUNNING\<rparr>"
    using assms(2) es(1) by (auto simp: law_start_enter_def Let_def split: if_splits)
  then show q: "quiet s s'" by (auto simp: quiet_def)
  have "err_inv (s_errs s')" "s_evo s' = s_evo s" using s' es(2) by auto
  with cfg_inv_quiet [OF assms(1) q] show "cfg_inv U N s'" by simp
qed

lemma law_stop_quiet: "law_stop s = (e, s') \<Longrightarrow> quiet s s' \<and> s_errs s' = s_errs s \<and> s_evo s' = s_evo s"
  by (auto simp: law_stop_def quiet_def split: if_splits)

text \<open>The creation of a thread changes no task.\<close>

lemma sys_thread_ok:
  assumes inv: "sys_inv A elems tok nodes hok G U y" and pc: "y_main y = MAIN_SPAWN n"
    and n: "n < length (y_workers y)"
  shows "sys_inv A elems tok nodes hok G U
     (y\<lparr>y_live := (y_live y)[n := True], y_main := MAIN_SPAWN (n + 1)\<rparr>)"
proof -
  let ?y = "y\<lparr>y_live := (y_live y)[n := True], y_main := MAIN_SPAWN (n + 1)\<rparr>"
  have "live_inv ?y"
    using inv n by (auto simp: sys_inv_def live_inv_def started_def shut_def pc nth_list_update less_Suc_eq)
  then show ?thesis
    using inv by (auto simp: sys_inv_def sys_parts_def pc held_def shut_def)
qed

text \<open>A step leads from a good state to a good one, as long as identifiers are left.\<close>

lemma sys_step_inv:
  fixes A :: "('cb, 'u, 'b, 't) lib" and y :: "('cb, 'u, 'b, 't) sys"
  assumes step: "sys_step A y y'" and lib: "sys_lib A elems tok nodes hok G M"
    and fits: "fits M (y_server y)" and seed: "unat (s_seed (y_server y)) + 1 < 2 ^ 32"
    and inv: "sys_inv A elems tok nodes hok G U y"
  shows "sys_inv A elems tok nodes hok G U y'" and "s_cfg (y_server y') = s_cfg (y_server y)"
proof -
  have cfg: "cfg_inv U (length (y_workers y)) (y_server y)" using inv by (simp add: sys_inv_def)
  note Q = sys_inv_quiet [OF inv]
  have id: "quiet (y_server y) (y_server y)" by (simp add: quiet_def)
  have wk: "cf_workers (s_cfg (y_server y)) = int (length (y_workers y))" using cfg by (simp add: cfg_inv_def)
  have "sys_inv A elems tok nodes hok G U y' \<and> s_cfg (y_server y') = s_cfg (y_server y)"
    using step
  proof (cases rule: sys_step.cases)
    case (start s)
    note e = law_start_enter_ok [OF cfg start(3)]
    have "sys_inv A elems tok nodes hok G U (y\<lparr>y_main := MAIN_SPAWN 0, y_server := s\<rparr>)"
      by (rule Q [OF e(1) _ _ e(2)]) (simp_all add: start(2) held_def shut_def started_def)
    then show ?thesis using start(1) e(1) by (simp add: quiet_def)
  next
    case (thread n)
    then show ?thesis using sys_thread_ok [OF inv] wk by simp
  next
    case (threads n)
    have "sys_inv A elems tok nodes hok G U (y\<lparr>y_main := MAIN_TEST, y_server := y_server y\<rparr>)"
      by (rule Q [OF id _ _ cfg]) (use threads wk in \<open>simp_all add: held_def shut_def started_def\<close>)
    with threads(1) show ?thesis by simp
  next
    case (tick n go w s)
    from sys_tick_ok [OF lib fits inv tick(2)] obtain w' s' where
      "law_worker_tick A (y_workers y ! n, y_server y) = Inr (keeps_running n (y_server y), w', s')"
      "y_live y ! n \<longrightarrow> sys_inv A elems tok nodes hok G U
         (y\<lparr>y_live := (y_live y)[n := keeps_running n (y_server y)],
            y_workers := (y_workers y)[n := w'], y_server := s'\<rparr>)"
      "s_cfg s' = s_cfg (y_server y)" by blast
    with tick show ?thesis by simp
  next
    case run
    have "sys_inv A elems tok nodes hok G U (y\<lparr>y_main := MAIN_ACCEPT, y_server := y_server y\<rparr>)"
      by (rule Q [OF id _ _ cfg]) (use run(2) in \<open>simp_all add: held_def shut_def started_def\<close>)
    with run(1) show ?thesis by simp
  next
    case halt
    have "sys_inv A elems tok nodes hok G U (y\<lparr>y_main := MAIN_DRAIN LAW_ERR_OK, y_server := y_server y\<rparr>)"
      by (rule Q [OF id _ _ cfg]) (use halt(2) in \<open>simp_all add: held_def shut_def started_def\<close>)
    with halt(1) show ?thesis by simp
  next
    case (accept r s)
    from sys_accept_ok [OF lib inv accept(2) seed] obtain r' s' where
      "accept_once A (y_server y) = Inr (r', s')"
      "sys_inv A elems tok nodes hok G U (y\<lparr>y_main := after_accept r', y_server := s'\<rparr>)"
      "s_cfg s' = s_cfg (y_server y)" by blast
    with accept show ?thesis by simp
  next
    case (dispatch p b s)
    from sys_dispatch_ok [OF lib fits inv dispatch(2)] obtain b' s' where
      "law_spawn_dispatch_once A p (y_server y) = Inr (b', s')"
      "sys_inv A elems tok nodes hok G U
         (y\<lparr>y_main := (if b' then MAIN_ACCEPT else MAIN_DISPATCH p), y_server := s'\<rparr>)"
      "s_cfg s' = s_cfg (y_server y)" by blast
    with dispatch show ?thesis by simp
  next
    case (poll s)
    from sys_poll_ok [OF lib fits inv poll(2)] obtain s' where
      "server_poll A (y_server y) = Inr s'" "quiet (y_server y) s'"
      "sys_inv A elems tok nodes hok G U (y\<lparr>y_main := MAIN_TEST, y_server := s'\<rparr>)" by blast
    with poll show ?thesis by (simp add: quiet_def)
  next
    case (drain e s)
    from sys_drain_ok [OF inv drain(2,3)] obtain s' where
      "send_shutdown (nat (cf_workers (s_cfg (y_server y)))) (y_server y) = Inr s'"
      "sys_inv A elems tok nodes hok G U (y\<lparr>y_main := MAIN_JOIN e, y_server := s'\<rparr>)"
      "s_cfg s' = s_cfg (y_server y)" by blast
    with drain show ?thesis by simp
  next
    case (join e)
    have q: "quiet (y_server y) (law_start_leave (y_server y))"
      by (simp add: quiet_def law_start_leave_def)
    have "sys_inv A elems tok nodes hok G U
        (y\<lparr>y_main := MAIN_DONE e, y_server := law_start_leave (y_server y)\<rparr>)"
      by (rule Q [OF q _ _ cfg_inv_quiet [OF cfg q]])
        (use cfg join(2) in \<open>simp_all add: held_def shut_def law_start_leave_def cfg_inv_def\<close>)
    with join(1) q show ?thesis by (simp add: quiet_def)
  next
    case (stop e s)
    note q = law_stop_quiet [OF stop(2)]
    have c: "cfg_inv U (length (y_workers y)) s"
      using cfg_inv_quiet [OF cfg, of s] q cfg by (simp add: cfg_inv_def)
    have "sys_inv A elems tok nodes hok G U (y\<lparr>y_main := y_main y, y_server := s\<rparr>)"
      using q c by (intro Q) auto
    with stop(1) q show ?thesis by (simp add: quiet_def)
  qed
  then show "sys_inv A elems tok nodes hok G U y'" "s_cfg (y_server y') = s_cfg (y_server y)"
    by simp_all
qed

end
