(* ===== verification/SystemSpec.thy ===== *)
theory SystemSpec
  imports SystemSteps
begin

text \<open>
  What the running server promises, for every number of workers and every interleaving of the
  main thread, the workers and calls of \<^verbatim>\<open>law_stop\<close>. Identifiers are counted modulo \<open>2 ^ 56\<close>, and the table
  compares the low 32 bits, so the statements are about runs with fewer than \<open>2 ^ 32\<close> tasks
  spawned: \<open>ids_left\<close>.
\<close>

section \<open>Runs\<close>

definition ids_left :: "('cb, 'u, 'b, 't) sys \<Rightarrow> bool" where
  "ids_left y \<longleftrightarrow> unat (s_seed (y_server y)) + 1 < 2 ^ 32"

inductive sys_run ::
  "('cb, 'u, 'b, 't) lib \<Rightarrow> ('cb, 'u, 'b, 't) sys \<Rightarrow> ('cb, 'u, 'b, 't) sys \<Rightarrow> bool" for A y0
where
  init: "sys_run A y0 y0"
| more: "sys_run A y0 y \<Longrightarrow> ids_left y \<Longrightarrow> sys_step A y y' \<Longrightarrow> sys_run A y0 y'"

text \<open>No operation that is due in a state faults: neither a round of a worker nor the main thread's next statement.\<close>

definition fault_free :: "('cb, 'u, 'b, 't) lib \<Rightarrow> ('cb, 'u, 'b, 't) sys \<Rightarrow> bool" where
  "fault_free A y \<longleftrightarrow>
     (\<forall>w \<in> set (y_workers y). \<exists>r. law_worker_tick A (w, y_server y) = Inr r) \<and>
     (case y_main y of
        MAIN_START \<Rightarrow> \<exists>r. law_start_enter (y_server y) = Inr r
      | MAIN_ACCEPT \<Rightarrow> \<exists>r. accept_once A (y_server y) = Inr r
      | MAIN_DISPATCH p \<Rightarrow> \<exists>r. law_spawn_dispatch_once A p (y_server y) = Inr r
      | MAIN_POLL \<Rightarrow> \<exists>r. server_poll A (y_server y) = Inr r
      | MAIN_DRAIN e \<Rightarrow>
          \<exists>b. law_task_pool_is_full (s_pool (y_server y)) = Inr b \<and>
            (b \<longrightarrow> (\<exists>s. send_shutdown (nat (cf_workers (s_cfg (y_server y)))) (y_server y) = Inr s))
      | _ \<Rightarrow> True)"

lemma sys_run_inv:
  assumes run: "sys_run A y0 y" and lib: "sys_lib A elems tok nodes hok G M"
    and fits: "fits M (y_server y0)" and inv: "sys_inv A elems tok nodes hok G U y0"
  shows "sys_inv A elems tok nodes hok G U y \<and> s_cfg (y_server y) = s_cfg (y_server y0)"
  using run
proof induction
  case init
  with inv show ?case by simp
next
  case (more y y')
  have "fits M (y_server y)" using fits more.IH by (simp add: fits_def)
  moreover have "unat (s_seed (y_server y)) + 1 < 2 ^ 32" using more.hyps(2) by (simp add: ids_left_def)
  ultimately show ?case using sys_step_inv [OF more.hyps(3) lib] more.IH by auto
qed

lemma fault_free_inv:
  fixes A :: "('cb, 'u, 'b, 't) lib" and y :: "('cb, 'u, 'b, 't) sys"
  assumes lib: "sys_lib A elems tok nodes hok G M" and fits: "fits M (y_server y)"
    and left: "ids_left y" and inv: "sys_inv A elems tok nodes hok G U y"
  shows "fault_free A y"
proof -
  have seed: "unat (s_seed (y_server y)) + 1 < 2 ^ 32" using left by (simp add: ids_left_def)
  from inv obtain T P I where parts: "sys_parts A elems tok nodes hok G U T P I y"
    and cfg: "cfg_inv U (length (y_workers y)) (y_server y)" by (rule sys_invE)
  have "\<exists>r. law_worker_tick A (y_workers y ! n, y_server y) = Inr r" if "n < length (y_workers y)" for n
    by (rule sys_tick_ok [OF lib fits inv that]) blast
  then have "\<forall>w \<in> set (y_workers y). \<exists>r. law_worker_tick A (w, y_server y) = Inr r"
    by (metis in_set_conv_nth)
  moreover have "\<exists>r. law_start_enter (y_server y) = Inr r"
    using cfg by (auto simp: law_start_enter_def law_err_clear_def cfg_inv_def err_inv_def Let_def)
  moreover have "y_main y = MAIN_ACCEPT \<Longrightarrow> \<exists>r. accept_once A (y_server y) = Inr r"
    by (rule sys_accept_ok [OF lib inv _ seed]) blast+
  moreover have "y_main y = MAIN_DISPATCH p \<Longrightarrow> \<exists>r. law_spawn_dispatch_once A p (y_server y) = Inr r" for p
    by (rule sys_dispatch_ok [OF lib fits inv]) blast+
  moreover have "y_main y = MAIN_POLL \<Longrightarrow> \<exists>r. server_poll A (y_server y) = Inr r"
    by (rule sys_poll_ok [OF lib fits inv]) blast+
  moreover have "\<exists>s. send_shutdown (nat (cf_workers (s_cfg (y_server y)))) (y_server y) = Inr s"
    if "y_main y = MAIN_DRAIN e" "law_task_pool_is_full (s_pool (y_server y)) = Inr True" for e
    by (rule sys_drain_ok [OF inv that]) blast
  ultimately show ?thesis
    using sys_pool_full [OF parts cfg] by (cases "y_main y") (auto simp: fault_free_def)
qed


text \<open>
  C2: no task is lost and none is used twice: in every state that a run reaches, the tasks
  there are, \<open>U\<close>, are shared out between the workers' tables, the workers' queues, the
  pool's free list and the main thread, and no task is in two of these.
\<close>

theorem tasks_conserved:
  assumes "sys_lib A elems tok nodes hok G M" and "fits M (y_server y0)"
    and "sys_inv A elems tok nodes hok G U y0" and "sys_run A y0 y"
  shows "\<exists>T P I.
     (\<forall>n < length (y_workers y).
        table_names nodes (s_heap (y_server y)) (w_table (y_workers y ! n)) (T n) \<and>
        queued (s_incoming (y_server y) ! n) = I n \<and> distinct (I n) \<and> T n \<inter> set (I n) = {} \<and>
        (T n \<union> set (I n)) \<inter> set P = {} \<and>
        (\<forall>m < length (y_workers y). m \<noteq> n \<longrightarrow> (T n \<union> set (I n)) \<inter> (T m \<union> set (I m)) = {}) \<and>
        (T n \<union> set (I n)) \<inter> held (y_main y) = {}) \<and>
     pool_holds (s_heap (y_server y)) (s_pool (y_server y)) P \<and> distinct P \<and>
     set P \<inter> held (y_main y) = {} \<and>
     (\<Union>n < length (y_workers y). T n \<union> set (I n)) \<union> set P \<union> held (y_main y) = U"
proof -
  let ?N = "length (y_workers y)"
  from conjunct1 [OF sys_run_inv [OF assms(4,1-3)]] obtain T P I where
    parts: "sys_parts A elems tok nodes hok G U T P I y" and cfg: "cfg_inv U ?N (y_server y)"
    by (rule sys_invE)
  note D = sys_partsD [OF parts]
  note S = sharesD [OF D(3), unfolded all_owned_def owned_def]
  have "0 < ?N" using cfg by (simp add: cfg_inv_def)
  note pool = sys_parts_pool [OF parts this, unfolded owned_def]
  have "table_names nodes (s_heap (y_server y)) (w_table (y_workers y ! n)) (T n)"
    and "queued (s_incoming (y_server y) ! n) = I n" and "distinct (I n)" and "T n \<inter> set (I n) = {}"
    if n: "n < ?N" for n
  proof -
    note W = worker_inv_facts [OF D(1) [OF n]]
    note F = shared_inv_facts [OF W(2)]
    show "table_names nodes (s_heap (y_server y)) (w_table (y_workers y ! n)) (T n)"
      using W(1) by (simp add: own_inv_def)
    show "queued (s_incoming (y_server y) ! n) = I n"
      using task_items_holds [OF F(3)] D(2) [OF n] by simp
    show "distinct (I n)" "T n \<inter> set (I n) = {}" using F(5,7) by simp_all
  qed
  moreover have "(T n \<union> set (I n)) \<inter> held (y_main y) = {}" if "n < ?N" for n
    using S(2) that by blast
  moreover have "set P \<inter> held (y_main y) = {}" using S(2) by blast
  ultimately show ?thesis using S(1,3) pool
    by (intro exI [of _ T] exI [of _ P] exI [of _ I] conjI allI impI) simp_all
qed

text \<open>
  C4: the server shuts down cleanly: once the main thread has left its wait for the pool, in
  every state that a run reaches, no task is left in a worker's table, in a queue or with the
  main thread, the pool is full, and a worker that still runs has been told to leave; before that
  every worker that was started goes on running.
\<close>

theorem shutdown_clean:
  assumes "sys_lib A elems tok nodes hok G M" and "fits M (y_server y0)"
    and "sys_inv A elems tok nodes hok G U y0" and "sys_run A y0 y"
  shows "if shut (y_main y)
     then law_task_pool_is_full (s_pool (y_server y)) = Inr True \<and>
       (\<forall>n < length (y_workers y). nodes (w_table (y_workers y ! n)) = {} \<and>
          queued (s_incoming (y_server y) ! n) = [] \<and>
          (y_live y ! n \<longrightarrow> \<not> keeps_running n (y_server y)))
     else \<forall>n < started (length (y_workers y)) (y_main y). y_live y ! n"
proof -
  let ?N = "length (y_workers y)"
  from conjunct1 [OF sys_run_inv [OF assms(4,1-3)]] obtain T P I where
    parts: "sys_parts A elems tok nodes hok G U T P I y" and cfg: "cfg_inv U ?N (y_server y)"
    and live: "live_inv y" by (rule sys_invE)
  note D = sys_partsD [OF parts]
  show ?thesis
  proof (cases "shut (y_main y)")
    case True
    then have H: "held (y_main y) = {}" by (auto simp: shut_def held_def)
    note none = D(6) [OF True]
    have "law_task_pool_is_full (s_pool (y_server y)) = Inr True"
      using sys_pool_full [OF parts cfg] none H by (simp add: all_owned_empty)
    moreover have "nodes (w_table (y_workers y ! n)) = {}" "queued (s_incoming (y_server y) ! n) = []"
      if n: "n < ?N" for n
    proof -
      note W = worker_inv_facts [OF D(1) [OF n]]
      show "nodes (w_table (y_workers y ! n)) = {}"
        using W(1) none [OF n] by (simp add: own_inv_def table_names_def)
      show "queued (s_incoming (y_server y) ! n) = []"
        using task_items_holds [OF shared_inv_facts(3) [OF W(2)]] D(2) [OF n] none [OF n] by simp
    qed
    ultimately show ?thesis using True live by (simp add: live_inv_def)
  next
    case False
    with live show ?thesis by (simp add: live_inv_def)
  qed
qed

section \<open>The end\<close>

lemma sys_run_trans: "sys_run A y1 y2 \<Longrightarrow> sys_run A y0 y1 \<Longrightarrow> sys_run A y0 y2"
  by (induction rule: sys_run.induct) (auto intro: sys_run.more)

lemma count_list_turned_off:
  "n < length bs \<Longrightarrow> bs ! n \<Longrightarrow> count_list (bs[n := False]) True < count_list bs True"
proof (induction bs arbitrary: n)
  case (Cons b bs)
  then show ?case by (cases n) auto
qed simp

text \<open>Each worker that still runs leaves in its next round; then the main thread returns.\<close>

lemma join_reached:
  fixes A :: "('cb, 'u, 'b, 't) lib" and y :: "('cb, 'u, 'b, 't) sys"
  assumes lib: "sys_lib A elems tok nodes hok G M"
  shows "fits M (y_server y) \<Longrightarrow> ids_left y \<Longrightarrow> sys_inv A elems tok nodes hok G U y \<Longrightarrow>
     y_main y = MAIN_JOIN e \<Longrightarrow>
     \<exists>y'. sys_run A y y' \<and> y_main y' = MAIN_DONE e \<and> s_mode (y_server y') = LAW_MODE_STOPPED"
proof (induction "count_list (y_live y) True" arbitrary: y rule: less_induct)
  case less
  note fits = less.prems(1) and left = less.prems(2) and inv = less.prems(3) and pc = less.prems(4)
  have live: "live_inv y" using inv by (simp add: sys_inv_def)
  show ?case
  proof (cases "True \<in> set (y_live y)")
    case False
    with pc have "sys_step A y (y\<lparr>y_main := MAIN_DONE e, y_server := law_start_leave (y_server y)\<rparr>)"
      by (rule sys_step.join)
    from sys_run.more [OF sys_run.init left this] show ?thesis
      by (intro exI conjI, assumption) (simp_all add: law_start_leave_def)
  next
    case True
    then obtain n where n: "n < length (y_live y)" "y_live y ! n" by (metis in_set_conv_nth)
    then have nw: "n < length (y_workers y)" and off: "\<not> keeps_running n (y_server y)"
      using live by (simp_all add: live_inv_def shut_def pc)
    obtain w s where t: "law_worker_tick A (y_workers y ! n, y_server y) =
        Inr (keeps_running n (y_server y), w, s)"
      and i: "y_live y ! n \<longrightarrow> sys_inv A elems tok nodes hok G U
           (y\<lparr>y_live := (y_live y)[n := keeps_running n (y_server y)],
              y_workers := (y_workers y)[n := w], y_server := s\<rparr>)"
      and cs: "s_cfg s = s_cfg (y_server y)" "s_seed s = s_seed (y_server y)"
      by (rule sys_tick_ok [OF lib fits inv nw])
    let ?y = "y\<lparr>y_live := (y_live y)[n := False], y_workers := (y_workers y)[n := w], y_server := s\<rparr>"
    have step: "sys_step A y ?y" using sys_step.tick [OF nw n(2)] t off by simp
    have "count_list (y_live ?y) True < count_list (y_live y) True"
      using count_list_turned_off [OF n] by simp
    moreover have "fits M (y_server ?y)" "ids_left ?y" "y_main ?y = MAIN_JOIN e"
      using fits left pc cs by (simp_all add: fits_def ids_left_def)
    moreover have "sys_inv A elems tok nodes hok G U ?y" using i n(2) off by simp
    ultimately obtain y' where "sys_run A ?y y'" "y_main y' = MAIN_DONE e"
      "s_mode (y_server y') = LAW_MODE_STOPPED" using less.hyps [of ?y] by blast
    with sys_run_trans [OF _ sys_run.more [OF sys_run.init left step]] show ?thesis by blast
  qed
qed

text \<open>
  C5: the server's end is never blocked: in every state that a run reaches in which the main thread
  waits for its workers, a worker that still runs leaves in its next round, whatever the others
  do, and the run can go on to the point where \<^verbatim>\<open>law_start\<close> returns the error of the main
  loop, with the server stopped.
\<close>

theorem shutdown_joins:
  fixes A :: "('cb, 'u, 'b, 't) lib" and y :: "('cb, 'u, 'b, 't) sys"
  assumes "sys_lib A elems tok nodes hok G M" and "fits M (y_server y0)"
    and "sys_inv A elems tok nodes hok G U y0" and "sys_run A y0 y" and "ids_left y"
    and "y_main y = MAIN_JOIN e"
  shows "(\<forall>n < length (y_workers y). y_live y ! n \<longrightarrow>
        (\<exists>w s. law_worker_tick A (y_workers y ! n, y_server y) = Inr (False, w, s))) \<and>
     (\<exists>y'. sys_run A y y' \<and> y_main y' = MAIN_DONE e \<and> s_mode (y_server y') = LAW_MODE_STOPPED)"
proof -
  from sys_run_inv [OF assms(4,1-3)] assms(2) have
    inv: "sys_inv A elems tok nodes hok G U y" and fits: "fits M (y_server y)"
    by (simp_all add: fits_def)
  have "\<exists>w s. law_worker_tick A (y_workers y ! n, y_server y) = Inr (False, w, s)"
    if n: "n < length (y_workers y)" "y_live y ! n" for n
  proof -
    have off: "\<not> keeps_running n (y_server y)"
      using inv n assms(6) by (simp add: sys_inv_def live_inv_def shut_def)
    obtain w s where "law_worker_tick A (y_workers y ! n, y_server y) =
        Inr (keeps_running n (y_server y), w, s)"
      by (rule sys_tick_ok [OF assms(1) fits inv n(1)])
    with off show ?thesis by simp
  qed
  with join_reached [OF assms(1) fits assms(5) inv assms(6)] show ?thesis by blast
qed

section \<open>A run of the demonstration server\<close>

text \<open>
  Two workers; eight tasks, at the addresses 1 to 8, are in the pool; the server has not been
  started.
\<close>

definition demo_pool_next :: "ptr \<Rightarrow> ptr" where
  "demo_pool_next p = (if p = 8 then NULL else p + 1)"

definition demo_start :: "(unit, unit, law_table_node list, law_timer_elem list) sys" where
  "demo_start = \<lparr>y_main = MAIN_START, y_live = [False, False],
     y_workers = [demo_worker, demo_worker\<lparr>w_id := 1\<rparr>],
     y_server = demo_server\<lparr>s_cfg := demo_cfg\<lparr>cf_on_accept := Some (), cf_workers := 2\<rparr>,
       s_mode := LAW_MODE_CREATED, s_seed := 0, s_messages := [demo_pipe [], demo_pipe []],
       s_incoming := [demo_pipe [], demo_pipe []], s_in_fds := [6, 8],
       s_pool := \<lparr>p_lock = False, p_list = 1, p_capacity = 8, p_size = 8\<rparr>,
       s_heap := (\<lambda>p. (demo_task 0 LAW_MODE_SPAWNED)\<lparr>t_next := demo_pool_next p\<rparr>)\<rparr>\<rparr>"

lemma demo_sys_lib: "sys_lib demo_lib ref_bh_elems ref_bh_ok ref_hm_nodes ref_hm_ok UNIV M"
  using demo_lib_ok [of M] demo_user_ok by (simp add: sys_lib_def demo_lib_def)

lemma demo_fits: "fits 32 (y_server demo_start)"
  by (simp add: fits_def demo_start_def demo_cfg_def law_server_sanity_def)

lemma demo_worker_inv:
  assumes "n < 2"
  shows "worker_inv demo_lib ref_bh_elems ref_bh_ok ref_hm_nodes ref_hm_ok UNIV {} {} []
     [1, 2, 3, 4, 5, 6, 7, 8] [] (demo_worker\<lparr>w_id := n\<rparr>, y_server demo_start)"
proof -
  let ?s = "y_server demo_start"
  from assms have n: "n = 0 \<or> n = 1" by auto
  have own: "own_inv demo_lib ref_bh_elems ref_bh_ok ref_hm_nodes ref_hm_ok
      (demo_worker\<lparr>w_id := n\<rparr>) ?s {}"
    using n demo_timer_empty [of 4] ref_hm_empty_inv [of "worker_table_size 4"] demo_pipe_msgs
    by (auto simp: own_inv_def demo_lib_def demo_worker_def demo_start_def demo_server_def
        table_names_def ref_hm_nodes_def demo_cfg_def law_server_sanity_def evo_inv_def demo_evo_def
        err_inv_def demo_errs_def LAW_ERR_STACK_MAX_def)
  have shared: "shared_inv n {} [1, 2, 3, 4, 5, 6, 7, 8] [] ?s"
    using n by (auto simp: shared_inv_def demo_start_def pool_holds_def pipe_holds_def demo_pipe_def
        demo_task_def demo_pool_next_def law_task_get_next_def demo_cfg_def law_server_sanity_def)
  have ready: "ready_holds {} (s_heap ?s) (w_ready demo_worker) []"
    by (simp add: ready_holds_def demo_worker_def)
  show ?thesis using own shared ready by (simp add: worker_inv_def)
qed

lemma demo_start_inv:
  "sys_inv demo_lib ref_bh_elems ref_bh_ok ref_hm_nodes ref_hm_ok UNIV {1, 2, 3, 4, 5, 6, 7, 8} demo_start"
proof -
  let ?s = "y_server demo_start"
  have N: "length (y_workers demo_start) = 2" by (simp add: demo_start_def)
  have w: "y_workers demo_start ! n = demo_worker\<lparr>w_id := n\<rparr>" if "n < 2" for n
  proof -
    from that have "n = 0 \<or> n = 1" by auto
    then show ?thesis by (auto simp: demo_start_def demo_worker_def)
  qed
  have none: "all_owned 2 (\<lambda>_. {}) (\<lambda>_. []) = {}" "owned (\<lambda>_. {}) (\<lambda>_. []) n = {}" for n
    by (auto simp: all_owned_def owned_def)
  have pc: "held (y_main demo_start) = {}" by (simp add: demo_start_def held_def)
  have "sys_parts demo_lib ref_bh_elems ref_bh_ok ref_hm_nodes ref_hm_ok UNIV {1, 2, 3, 4, 5, 6, 7, 8}
      (\<lambda>_. {}) [1, 2, 3, 4, 5, 6, 7, 8] (\<lambda>_. []) demo_start"
  proof (rule sys_partsI, unfold N pc)
    show "worker_inv demo_lib ref_bh_elems ref_bh_ok ref_hm_nodes ref_hm_ok UNIV {} {} []
        [1, 2, 3, 4, 5, 6, 7, 8] [] (y_workers demo_start ! n, ?s)" if "n < 2" for n
      using demo_worker_inv [OF that] by (simp only: w [OF that])
    show "w_id (y_workers demo_start ! n) = n" if "n < 2" for n using w [OF that] by simp
    show "shares {1, 2, 3, 4, 5, 6, 7, 8} 2 (\<lambda>_. {}) [1, 2, 3, 4, 5, 6, 7, 8] (\<lambda>_. []) {}"
      by (simp add: shares_def none)
    show "ids_inv (all_owned 2 (\<lambda>_. {}) (\<lambda>_. []) \<union> {}) ?s"
      by (simp add: none ids_inv_def demo_start_def)
  qed (simp_all add: held_ok_def)
  moreover have "cfg_inv {1, 2, 3, 4, 5, 6, 7, 8} (length (y_workers demo_start)) ?s"
    unfolding N
    by (simp add: cfg_inv_def main_evo_inv_def demo_start_def demo_server_def demo_cfg_def
        law_server_sanity_def demo_evo_def evo_inv_def demo_errs_def err_inv_def LAW_ERR_STACK_MAX_def)
  moreover have "live_inv demo_start"
    using demo_pipe_msgs(2)
    by (auto simp: live_inv_def demo_start_def shut_def started_def mail_idle_def less_Suc_eq
        numeral_2_eq_2 demo_pipe_def)
  ultimately show ?thesis by (rule sys_invI)
qed

text \<open>Its threads are created.\<close>

lemma demo_running:
  obtains y where "sys_run demo_lib demo_start y" and "y_main y = MAIN_TEST"
    and "\<exists>es. es_offset es = 0 \<and>
           y_server y = (y_server demo_start)\<lparr>s_errs := es, s_mode := LAW_MODE_RUNNING\<rparr>"
    and "length (y_workers y) = 2"
proof -
  let ?A = demo_lib and ?s = "y_server demo_start"
  obtain es where es: "law_err_clear (s_errs ?s) = Inr es" "es_offset es = 0"
    by (simp add: law_err_clear_def demo_start_def demo_server_def demo_errs_def)
  let ?s1 = "?s\<lparr>s_errs := es, s_mode := LAW_MODE_RUNNING\<rparr>"
  let ?y1 = "demo_start\<lparr>y_main := MAIN_SPAWN 0, y_server := ?s1\<rparr>"
  have left: "ids_left y" if "s_seed (y_server y) = 0"
    for y :: "(unit, unit, law_table_node list, law_timer_elem list) sys"
    using that by (simp add: ids_left_def)
  have wk: "cf_workers (s_cfg ?s) = 2" and seed: "s_seed ?s = 0"
    by (simp_all add: demo_start_def)
  have "law_start_enter ?s = Inr (LAW_ERR_OK, ?s1)"
    using es(1) by (simp add: law_start_enter_def demo_start_def Let_def)
  then have "sys_step ?A demo_start ?y1" by (intro sys_step.start) (simp add: demo_start_def)
  from sys_run.more [OF sys_run.init left this] have 1: "sys_run ?A demo_start ?y1" by (simp add: seed)
  let ?y2 = "?y1\<lparr>y_live := (y_live ?y1)[0 := True], y_main := MAIN_SPAWN (0 + 1)\<rparr>"
  have "sys_step ?A ?y1 ?y2" by (rule sys_step.thread) (simp_all add: wk)
  from sys_run.more [OF 1 left this] have 2: "sys_run ?A demo_start ?y2" by (simp add: seed)
  let ?y3 = "?y2\<lparr>y_live := (y_live ?y2)[1 := True], y_main := MAIN_SPAWN (1 + 1)\<rparr>"
  have "sys_step ?A ?y2 ?y3" by (rule sys_step.thread) (simp_all add: wk)
  from sys_run.more [OF 2 left this] have 3: "sys_run ?A demo_start ?y3" by (simp add: seed)
  let ?y4 = "?y3\<lparr>y_main := MAIN_TEST\<rparr>"
  have "sys_step ?A ?y3 ?y4" by (rule sys_step.threads [of _ "1 + 1"]) (simp_all add: wk)
  from sys_run.more [OF 3 left this] have "sys_run ?A demo_start ?y4" by (simp add: seed)
  then show thesis by (rule that) (use es(2) in \<open>auto simp: demo_start_def\<close>)
qed

text \<open>It accepts a connection.\<close>

lemma demo_run:
  obtains y where "sys_run demo_lib demo_start y" and "y_main y = MAIN_DISPATCH 1" and "ids_left y"
    and "length (y_workers y) = 2"
proof -
  let ?A = demo_lib
  obtain y es where y: "sys_run ?A demo_start y" "y_main y = MAIN_TEST" "length (y_workers y) = 2"
    and es: "es_offset es = 0"
    and s1: "y_server y = (y_server demo_start)\<lparr>s_errs := es, s_mode := LAW_MODE_RUNNING\<rparr>"
    using demo_running by metis
  let ?y2 = "y\<lparr>y_main := MAIN_ACCEPT\<rparr>"
  have "sys_step ?A y ?y2" by (rule sys_step.run) (simp_all add: y(2) s1)
  then have 2: "sys_run ?A demo_start ?y2"
    by (intro sys_run.more [OF y(1)]) (simp_all add: ids_left_def s1 demo_start_def)
  have "\<exists>s. accept_once ?A (y_server y) = Inr (ACCEPT_TASK 1, s) \<and> s_seed s = 1"
    using es
    by (simp add: s1 accept_once_def accept_task_def draw_def set_task_def law_task_pool_is_empty_def law_task_pool_pop_def
        demo_start_def demo_server_def demo_lib_def ref_ll_def Let_def law_server_genid_def
        law_task_lln_iface_def law_task_get_next_def law_task_set_next_def
        LAW_ID_MODULO_def law_err_clear_def)
  then obtain s where s: "accept_once ?A (y_server y) = Inr (ACCEPT_TASK 1, s)" "s_seed s = 1" by blast
  let ?y3 = "?y2\<lparr>y_main := after_accept (ACCEPT_TASK 1), y_server := s\<rparr>"
  have "sys_step ?A ?y2 ?y3" by (rule sys_step.accept) (use s in simp_all)
  then have 3: "sys_run ?A demo_start ?y3"
    by (intro sys_run.more [OF 2]) (simp_all add: ids_left_def s1 demo_start_def)
  then show thesis by (rule that) (use s y(3) in \<open>simp_all add: after_accept_def ids_left_def\<close>)
qed

text \<open>Or it is stopped before any connection, and waits for its workers.\<close>

lemma demo_joining:
  obtains y where "sys_run demo_lib demo_start y" and "y_main y = MAIN_JOIN LAW_ERR_OK" and "ids_left y"
proof -
  let ?A = demo_lib
  obtain y es where y: "sys_run ?A demo_start y" "y_main y = MAIN_TEST" "length (y_workers y) = 2"
    and s1: "y_server y = (y_server demo_start)\<lparr>s_errs := es, s_mode := LAW_MODE_RUNNING\<rparr>"
    using demo_running by metis
  obtain e s where st: "law_stop (y_server y) = (e, s)" by fastforce
  have s: "s_mode s \<noteq> LAW_MODE_RUNNING" "s_seed s = 0" "s_pool s = s_pool (y_server demo_start)"
    using st by (auto simp: law_stop_def s1 demo_start_def)
  let ?y1 = "y\<lparr>y_server := s\<rparr>" and ?y2 = "y\<lparr>y_server := s, y_main := MAIN_DRAIN LAW_ERR_OK\<rparr>"
  have "sys_step ?A y ?y1" by (rule sys_step.stop) (rule st)
  then have 1: "sys_run ?A demo_start ?y1"
    by (intro sys_run.more [OF y(1)]) (simp_all add: ids_left_def s1 demo_start_def)
  have "sys_step ?A ?y1 (?y1\<lparr>y_main := MAIN_DRAIN LAW_ERR_OK\<rparr>)"
    by (rule sys_step.halt) (simp_all add: y(2) s(1))
  from sys_run.more [OF 1 _ this] have 2: "sys_run ?A demo_start ?y2" by (simp add: ids_left_def s(2))
  have full: "law_task_pool_is_full (s_pool (y_server ?y2)) = Inr True"
    by (simp add: s(3) demo_start_def law_task_pool_is_full_def)
  have inv: "sys_inv ?A ref_bh_elems ref_bh_ok ref_hm_nodes ref_hm_ok UNIV {1, 2, 3, 4, 5, 6, 7, 8} ?y2"
    using sys_run_inv [OF 2 demo_sys_lib demo_fits demo_start_inv] by blast
  obtain s' where d: "send_shutdown (nat (cf_workers (s_cfg (y_server ?y2)))) (y_server ?y2) = Inr s'"
    and seed: "s_seed s' = s_seed (y_server ?y2)"
    by (rule sys_drain_ok [OF inv _ full]) simp_all
  have "sys_step ?A ?y2 (?y2\<lparr>y_main := MAIN_JOIN LAW_ERR_OK, y_server := s'\<rparr>)"
    by (rule sys_step.drain [OF _ full d]) simp
  from sys_run.more [OF 2 _ this] have "sys_run ?A demo_start (?y2\<lparr>y_main := MAIN_JOIN LAW_ERR_OK, y_server := s'\<rparr>)"
    by (simp add: ids_left_def s(2))
  then show thesis by (rule that) (use seed s(2) in \<open>simp_all add: ids_left_def\<close>)
qed


theorem tasks_conserved_witness:
  "\<exists>y P. sys_run demo_lib demo_start y \<and> pool_holds (s_heap (y_server y)) (s_pool (y_server y)) P \<and>
     1 \<notin> set P"
proof -
  obtain y where y: "sys_run demo_lib demo_start y" "y_main y = MAIN_DISPATCH 1" "ids_left y"
    by (rule demo_run)
  from tasks_conserved [OF demo_sys_lib demo_fits demo_start_inv y(1)] show ?thesis
  proof (elim exE conjE)
    fix P
    assume "pool_holds (s_heap (y_server y)) (s_pool (y_server y)) P" and "set P \<inter> held (y_main y) = {}"
    with y show ?thesis by (intro exI [of _ y] exI [of _ P]) (simp add: held_def)
  qed
qed

theorem shutdown_clean_witness:
  "\<exists>y. sys_run demo_lib demo_start y \<and> y_main y = MAIN_JOIN LAW_ERR_OK \<and>
     law_task_pool_is_full (s_pool (y_server y)) = Inr True"
proof -
  obtain y where y: "sys_run demo_lib demo_start y" "y_main y = MAIN_JOIN LAW_ERR_OK"
    by (rule demo_joining)
  from shutdown_clean [OF demo_sys_lib demo_fits demo_start_inv y(1)] y show ?thesis
    by (intro exI [of _ y]) (simp add: shut_def)
qed

theorem shutdown_joins_witness:
  "\<exists>y y'. y_main y = MAIN_JOIN LAW_ERR_OK \<and> sys_run demo_lib demo_start y \<and>
     sys_run demo_lib y y' \<and> y_main y' = MAIN_DONE LAW_ERR_OK"
proof -
  obtain y where y: "sys_run demo_lib demo_start y" "y_main y = MAIN_JOIN LAW_ERR_OK" "ids_left y"
    by (rule demo_joining)
  from shutdown_joins [OF demo_sys_lib demo_fits demo_start_inv y(1,3,2)] y show ?thesis by blast
qed

end
