(* ===== verification/Spawn.thy ===== *)
theory Spawn
  imports Server Demo
begin

text \<open>
  Spawning from a task (\<^verbatim>\<open>law_spawn\<close> of \<^verbatim>\<open>server.c\<close>) on every branch, with what its two
  failures leave behind, and the identifiers that \<^verbatim>\<open>law_server_genid\<close> hands out.
\<close>

section \<open>Identifiers\<close>

primrec genids :: "nat \<Rightarrow> ('cb, 'u) law_server \<Rightarrow> u64 list \<times> ('cb, 'u) law_server" where
  "genids 0 s = ([], s)"
| "genids (Suc n) s =
     (let (i, s) = law_server_genid s; (is, s) = genids n s in (i # is, s))"

lemma law_server_genid_unat:
  assumes "unat (s_seed s) < LAW_ID_MODULO"
  shows "unat (fst (law_server_genid s)) = (unat (s_seed s) + 1) mod LAW_ID_MODULO"
    and "snd (law_server_genid s) = s\<lparr>s_seed := fst (law_server_genid s)\<rparr>"
proof -
  have u: "unat (s_seed s + 1) = unat (s_seed s) + 1"
    using assms by (simp add: unat_word_ariths LAW_ID_MODULO_def)
  have "unat (word_of_nat LAW_ID_MODULO :: u64) = LAW_ID_MODULO"
    by (rule unat_word_of_nat_64) (simp add: LAW_ID_MODULO_def)
  with u show "unat (fst (law_server_genid s)) = (unat (s_seed s) + 1) mod LAW_ID_MODULO"
    by (simp add: law_server_genid_def Let_def unat_mod)
  show "snd (law_server_genid s) = s\<lparr>s_seed := fst (law_server_genid s)\<rparr>"
    by (simp add: law_server_genid_def Let_def)
qed

lemma genids_unat:
  "unat (s_seed s) < LAW_ID_MODULO \<Longrightarrow>
     map unat (fst (genids n s)) = map (\<lambda>k. (unat (s_seed s) + Suc k) mod LAW_ID_MODULO) [0..<n]"
proof (induction n arbitrary: s)
  case 0
  then show ?case by simp
next
  case (Suc n)
  let ?i = "fst (law_server_genid s)" and ?t = "snd (law_server_genid s)"
  note g = law_server_genid_unat [OF Suc.prems]
  have seed: "unat (s_seed ?t) = (unat (s_seed s) + 1) mod LAW_ID_MODULO" using g by simp
  moreover have "(0::nat) < LAW_ID_MODULO" by (simp add: LAW_ID_MODULO_def)
  ultimately have "unat (s_seed ?t) < LAW_ID_MODULO" by simp
  moreover have "(unat (s_seed ?t) + Suc k) mod LAW_ID_MODULO =
      (unat (s_seed s) + Suc (Suc k)) mod LAW_ID_MODULO" for k
    using mod_add_left_eq [of "unat (s_seed s) + 1" LAW_ID_MODULO "Suc k"] seed by simp
  ultimately have "map unat (fst (genids n ?t)) =
      map (\<lambda>k. (unat (s_seed s) + Suc (Suc k)) mod LAW_ID_MODULO) [0..<n]"
    using Suc.IH [of ?t] by simp
  moreover have "fst (genids (Suc n) s) = ?i # fst (genids n ?t)" by (simp add: case_prod_beta)
  moreover have "map (\<lambda>k. (unat (s_seed s) + Suc k) mod LAW_ID_MODULO) [0..<Suc n] =
      (unat (s_seed s) + 1) mod LAW_ID_MODULO #
      map (\<lambda>k. (unat (s_seed s) + Suc (Suc k)) mod LAW_ID_MODULO) [0..<n]"
    by (simp add: upt_conv_Cons map_Suc_upt [symmetric] comp_def del: upt_Suc)
  ultimately show ?case using g(1) by simp
qed

lemma mod_window_inj:
  fixes m :: nat
  assumes "n \<le> m" and "j < n" and "k < n" and "(a + j) mod m = (a + k) mod m"
  shows "j = k"
proof -
  have "m dvd (a + k) - (a + j)" if "j \<le> k" "(a + j) mod m = (a + k) mod m" for j k
    using that by (metis mod_eq_dvd_iff_nat add_le_cancel_left)
  moreover have "(a + k) - (a + j) = k - j" for j k by simp
  ultimately have d: "m dvd k - j" if "j \<le> k" "(a + j) mod m = (a + k) mod m" for j k
    using that by metis
  show ?thesis
  proof (cases "j \<le> k")
    case True
    with d [OF True assms(4)] assms(1,3) show ?thesis by (auto dest: dvd_imp_le)
  next
    case False
    with d [of k j] assms(1,2,4) show ?thesis by (auto dest: dvd_imp_le)
  qed
qed

text \<open>
  C25: identifiers are not reused soon: any \<open>2 ^ 56\<close> or fewer consecutive calls of
  \<^verbatim>\<open>law_server_genid\<close> return identifiers that are all different and all fit a slot.
\<close>

theorem genids_distinct:
  assumes "unat (s_seed s) < LAW_ID_MODULO" and "n \<le> LAW_ID_MODULO"
  shows "distinct (fst (genids n s)) \<and> length (fst (genids n s)) = n \<and>
     (\<forall>i \<in> set (fst (genids n s)). unat i < LAW_ID_MODULO)"
proof -
  note m = genids_unat [OF assms(1), of n]
  have "inj_on (\<lambda>k. (unat (s_seed s) + Suc k) mod LAW_ID_MODULO) (set [0..<n])"
  proof (rule inj_onI)
    fix j k
    assume jk: "j \<in> set [0..<n]" "k \<in> set [0..<n]"
      "(unat (s_seed s) + Suc j) mod LAW_ID_MODULO = (unat (s_seed s) + Suc k) mod LAW_ID_MODULO"
    then show "j = k" using mod_window_inj [OF assms(2), of j k "Suc (unat (s_seed s))"] by simp
  qed
  then have "distinct (map unat (fst (genids n s)))" unfolding m by (simp add: distinct_map)
  then have "distinct (fst (genids n s))" by (simp add: distinct_map)
  moreover have "length (map unat (fst (genids n s))) = n" unfolding m by simp
  moreover have "unat i < LAW_ID_MODULO" if "i \<in> set (fst (genids n s))" for i
  proof -
    have "unat i \<in> set (map unat (fst (genids n s)))" using that by simp
    then have "\<exists>k. unat i = (unat (s_seed s) + Suc k) mod LAW_ID_MODULO" unfolding m by auto
    moreover have "(0::nat) < LAW_ID_MODULO" by (simp add: LAW_ID_MODULO_def)
    ultimately show ?thesis by (metis mod_less_divisor)
  qed
  ultimately show ?thesis by simp
qed

theorem genids_distinct_witness: "distinct (fst (genids 3 (demo_server\<lparr>s_seed := 0xFFFFFFFFFFFFFE\<rparr>)))"
  using genids_distinct [of "demo_server\<lparr>s_seed := 0xFFFFFFFFFFFFFE\<rparr>" 3]
  by (simp add: LAW_ID_MODULO_def)

section \<open>Spawning\<close>

lemma spawn_push_cases:
  assumes "queues_inv s"
  shows "(\<exists>y q. x \<le> y \<and> y < length (s_incoming s) \<and>
            (\<forall>z. x \<le> z \<and> z < y \<longrightarrow> \<not> queue_room (s_incoming s ! z)) \<and>
            queue_room (s_incoming s ! y) \<and>
            task_queue_inv q \<and> queued q = queued (s_incoming s ! y) @ [task] \<and>
            spawn_push x task s = Inr (LAW_ERR_OK, s\<lparr>s_incoming := (s_incoming s)[y := q]\<rparr>)) \<or>
         ((\<forall>z. x \<le> z \<and> z < length (s_incoming s) \<longrightarrow> \<not> queue_room (s_incoming s ! z)) \<and>
          spawn_push x task s = Inr (LAW_ERR_WANTW, s))"
proof (induction "length (s_incoming s) - x" arbitrary: x)
  case 0
  then have "\<not> int x < cf_workers (s_cfg s)" using assms by (auto simp: queues_inv_def)
  with 0 show ?case by (auto simp: spawn_push.simps [of x])
next
  case (Suc n)
  then have x: "int x < cf_workers (s_cfg s)" "x < length (s_incoming s)"
    using assms by (auto simp: queues_inv_def)
  have q: "task_queue_inv (s_incoming s ! x)" using assms x(2) by (simp add: queues_inv_def)
  show ?case
  proof (cases "queue_room (s_incoming s ! x)")
    case True
    from tq.push_room [OF q True, of task] obtain r where
      r: "law_task_queue_push task (s_incoming s ! x) = Inr (LAW_ERR_OK, r)" "task_queue_inv r"
      "queued r = queued (s_incoming s ! x) @ [task]" by blast
    have "spawn_push x task s = Inr (LAW_ERR_OK, s\<lparr>s_incoming := (s_incoming s)[x := r]\<rparr>)"
      using x r(1) by (simp add: spawn_push.simps [of x] Let_def)
    with x r True show ?thesis by (intro disjI1 exI [of _ x] exI [of _ r]) simp
  next
    case False
    have step: "spawn_push x task s = spawn_push (x + 1) task s"
      using x tq.push_full [OF q False, of task] by (simp add: spawn_push.simps [of x] Let_def)
    have "n = length (s_incoming s) - (x + 1)" using Suc.hyps(2) by simp
    from Suc.hyps(1) [OF this] show ?thesis
    proof (elim disjE exE conjE)
      fix y r
      assume y: "x + 1 \<le> y" "y < length (s_incoming s)"
        "\<forall>z. x + 1 \<le> z \<and> z < y \<longrightarrow> \<not> queue_room (s_incoming s ! z)"
        "queue_room (s_incoming s ! y)" "task_queue_inv r"
        "queued r = queued (s_incoming s ! y) @ [task]"
        "spawn_push (x + 1) task s = Inr (LAW_ERR_OK, s\<lparr>s_incoming := (s_incoming s)[y := r]\<rparr>)"
      have "\<not> queue_room (s_incoming s ! z)" if "x \<le> z" "z < y" for z
        using y(3) that False by (cases "z = x") auto
      with y step show ?thesis by (intro disjI1 exI [of _ y] exI [of _ r]) simp
    next
      assume n: "\<forall>z. x + 1 \<le> z \<and> z < length (s_incoming s) \<longrightarrow> \<not> queue_room (s_incoming s ! z)"
        and "spawn_push (x + 1) task s = Inr (LAW_ERR_WANTW, s)"
      moreover have "\<not> queue_room (s_incoming s ! z)" if "x \<le> z" "z < length (s_incoming s)" for z
        using n that False by (cases "z = x") auto
      ultimately show ?thesis using step by auto
    qed
  qed
qed

text \<open>
  C23: a task that spawns with a pool that holds a task: the first task of the pool, set up with
  the next identifier, the callback and its argument, and marked as spawned, goes to the end of
  the queue of the first worker with room. If no worker has room the call returns
  \<open>LAW_ERR_WANTW\<close>, and then the task is neither in the pool nor in a queue any more: it
  is lost, and the pool never becomes full again.
\<close>

theorem law_spawn_nonempty:
  fixes A :: "('cb, 'u, 'b, 't) lib" and s :: "('cb, 'u) law_server"
  assumes L: "pmt_ll_spec (lib_ll A)" and pool: "pool_holds (s_heap s) (s_pool s) (p # P)"
    and q: "queues_inv s"
  shows "\<exists>e s'. law_spawn A (Some f) d s = Inr (e, s') \<and> pool_holds (s_heap s') (s_pool s') P \<and>
     t_mode (s_heap s' p) = LAW_MODE_SPAWNED \<and> t_callback (s_heap s' p) = Some (USER_CALLBACK f) \<and>
     t_data (s_heap s' p) = d \<and> t_id (s_heap s' p) = fst (law_server_genid s) \<and>
     (if \<exists>y < length (s_incoming s). queue_room (s_incoming s ! y)
      then e = LAW_ERR_OK \<and>
        (\<exists>y r. y < length (s_incoming s) \<and> (\<forall>z < y. \<not> queue_room (s_incoming s ! z)) \<and>
           queued r = queued (s_incoming s ! y) @ [p] \<and> s_incoming s' = (s_incoming s)[y := r])
      else e = LAW_ERR_WANTW \<and> s_incoming s' = s_incoming s)"
proof -
  note pop = law_task_pool_pop_ok [OF L pool]
  have c: "chain (law_task_get_next (s_heap s)) (p_list (s_pool s)) (p # P)"
    using pool by (simp add: pool_holds_def)
  from chain_distinct [OF c] chain_not_NULL [OF c] have p: "p \<noteq> NULL" "p \<notin> set P" by auto
  let ?pool = "(s_pool s)\<lparr>p_list := law_task_get_next (s_heap s) p, p_size := length P\<rparr>"
  let ?h = "law_task_set_next (s_heap s) p NULL"
  let ?s1 = "s\<lparr>s_pool := ?pool, s_heap := ?h\<rparr>"
  define j where "j = fst (law_server_genid s)"
  have gen: "law_server_genid ?s1 = (j, ?s1\<lparr>s_seed := j\<rparr>)"
    by (simp add: j_def law_server_genid_def Let_def)
  let ?t = "law_task_setup (lib_rand A (s_draws s)) j (Some (USER_CALLBACK f)) d (?h p)"
  let ?s3 = "draw (set_task p ?t (?s1\<lparr>s_seed := j\<rparr>))"
  have run: "law_spawn A (Some f) d s = spawn_push 0 p ?s3"
    using pop(1) p(1) by (simp add: law_spawn_def gen)
  have q3: "queues_inv ?s3" using q by (simp add: queues_inv_def)
  have "pool_holds (?h(p := ?t)) ?pool P" by (rule pool_holds_cong [OF _ pop(2)]) (use p in auto)
  then have pool3: "pool_holds (s_heap ?s3) (s_pool ?s3) P" by simp
  have t: "t_mode ?t = LAW_MODE_SPAWNED" "t_callback ?t = Some (USER_CALLBACK f)" "t_data ?t = d"
    "t_id ?t = j" by (simp_all add: law_task_setup_def)
  from spawn_push_cases [OF q3, of 0 p] show ?thesis
  proof (elim disjE exE conjE)
    fix y r
    assume y: "y < length (s_incoming ?s3)" "\<forall>z. 0 \<le> z \<and> z < y \<longrightarrow> \<not> queue_room (s_incoming ?s3 ! z)"
      "queue_room (s_incoming ?s3 ! y)" "queued r = queued (s_incoming ?s3 ! y) @ [p]"
      and out: "spawn_push 0 p ?s3 = Inr (LAW_ERR_OK, ?s3\<lparr>s_incoming := (s_incoming ?s3)[y := r]\<rparr>)"
    have room: "\<exists>y < length (s_incoming s). queue_room (s_incoming s ! y)" using y(1,3) by auto
    show ?thesis
    proof (intro exI conjI)
      show "law_spawn A (Some f) d s = Inr (LAW_ERR_OK, ?s3\<lparr>s_incoming := (s_incoming ?s3)[y := r]\<rparr>)"
        using run out by simp
    qed (use pool3 t y room in \<open>auto simp: j_def intro!: exI [of _ y] exI [of _ r]\<close>)
  next
    assume full: "\<forall>z. 0 \<le> z \<and> z < length (s_incoming ?s3) \<longrightarrow> \<not> queue_room (s_incoming ?s3 ! z)"
      and out: "spawn_push 0 p ?s3 = Inr (LAW_ERR_WANTW, ?s3)"
    have none: "\<not> (\<exists>y < length (s_incoming s). queue_room (s_incoming s ! y))" using full by simp
    show ?thesis
    proof (intro exI conjI)
      show "law_spawn A (Some f) d s = Inr (LAW_ERR_WANTW, ?s3)" using run out by simp
    qed (use pool3 t none in \<open>auto simp: j_def\<close>)
  qed
qed

text \<open>
  C24: a task that spawns with an empty pool gets \<open>LAW_ERR_LIMIT\<close>, as documented, but the
  pool's lock stays held: whatever operation uses the pool next, from any thread, waits for ever.
\<close>

theorem law_spawn_exhausted:
  assumes "pool_holds (s_heap s) (s_pool s) []"
  shows "\<exists>s'. law_spawn A (Some f) d s = Inr (LAW_ERR_LIMIT, s') \<and>
     law_task_pool_pop L (s_pool s') (s_heap s') = Inl DEADLOCK \<and>
     (p \<noteq> NULL \<longrightarrow> law_task_pool_push L (s_pool s') p (s_heap s') = Inl DEADLOCK) \<and>
     law_task_pool_is_empty (s_pool s') = Inl DEADLOCK \<and>
     law_task_pool_is_full (s_pool s') = Inl DEADLOCK"
  using law_task_pool_pop_empty [OF assms]
  by (simp add: law_spawn_def law_task_pool_pop_def law_task_pool_push_def
      law_task_pool_is_empty_def law_task_pool_is_full_def Let_def)

theorem law_spawn_exhausted_witness:
  "\<exists>s'. law_spawn demo_lib (Some ()) 0 demo_server = Inr (LAW_ERR_LIMIT, s') \<and>
     law_task_pool_is_full (s_pool s') = Inl DEADLOCK"
  using law_spawn_exhausted [of demo_server demo_lib "()" 0 ref_ll 1] worker_inv_facts(2) [OF demo_inv]
    shared_inv_facts(1) by blast

definition demo_full :: "(unit, unit) law_server" where
  "demo_full = demo_server\<lparr>s_heap := (s_heap demo_server)(2 := demo_task 0 LAW_MODE_SPAWNED),
     s_pool := \<lparr>p_lock = False, p_list = 2, p_capacity = 4, p_size = 1\<rparr>\<rparr>"

lemma demo_queues: "queues_inv demo_server"
proof -
  have "pipe_holds ptr_bytes [1] (demo_pipe (ptr_bytes 1))" by (simp add: pipe_holds_def demo_pipe_def)
  then have "task_queue_inv (demo_pipe (ptr_bytes 1))" by (rule task_queue_invI)
  then show ?thesis
    by (simp add: queues_inv_def demo_server_def demo_cfg_def law_server_sanity_def)
qed

theorem law_spawn_nonempty_witness:
  "\<exists>e s'. law_spawn demo_lib (Some ()) 9 demo_full = Inr (e, s') \<and> e = LAW_ERR_OK \<and>
     t_data (s_heap s' 2) = 9"
proof -
  have "pool_holds (s_heap demo_full) (s_pool demo_full) [2]"
    by (simp add: pool_holds_def demo_full_def demo_task_def law_task_get_next_def)
  moreover have "queues_inv demo_full" using demo_queues by (simp add: queues_inv_def demo_full_def)
  moreover have "pmt_ll_spec (lib_ll demo_lib)" by (simp add: demo_lib_def ref_ll_spec)
  moreover have "\<exists>y < length (s_incoming demo_full). queue_room (s_incoming demo_full ! y)"
    by (simp add: demo_full_def demo_server_def demo_pipe_def length_ptr_bytes)
  ultimately show ?thesis using law_spawn_nonempty [of demo_lib demo_full 2 "[]" "()" 9]
    by (metis (no_types))
qed

section \<open>Dispatching\<close>

theorem dispatch_push_first_room_witness:
  "\<exists>q. queued q = [1, 7] \<and>
     dispatch_push 0 7 demo_server = Inr (True, demo_server\<lparr>s_incoming := [q]\<rparr>)"
proof -
  have one: "cf_workers (s_cfg demo_server) = 1" "s_incoming demo_server = [demo_pipe (ptr_bytes 1)]"
    by (simp_all add: demo_server_def demo_cfg_def law_server_sanity_def)
  have idx: "dispatch_index x 7 demo_server = 0" for x by (simp add: dispatch_index_def one)
  have room: "queue_room (s_incoming demo_server ! 0)" by (simp add: one demo_pipe_def length_ptr_bytes)
  have "pipe_holds ptr_bytes [1] (demo_pipe (ptr_bytes 1))" by (simp add: pipe_holds_def demo_pipe_def)
  from task_items_holds [OF this] have "queued (s_incoming demo_server ! 0) = [1]" by (simp add: one)
  with dispatch_push_first_room [OF demo_queues, of 7] room show ?thesis
    by (auto simp: idx one)
qed

end
