(* ===== verification/Containers.thy ===== *)
theory Containers
  imports Server Demo
begin

text \<open>
  What the small containers of the server promise, over the interpretations of their contracts:
  the error stack (\<^verbatim>\<open>error.c\<close>), the task queue and the task pool (\<^verbatim>\<open>server.c\<close>) and the timer
  (\<^verbatim>\<open>time.c\<close>), each as the result of a run of operations.
\<close>

text \<open>
  C21: after \<open>law_err_clear\<close>, whatever was on the stack, any number of pushed records
  followed by as many pops gives back the first sixteen records, the newest first, and leaves the
  stack empty: records beyond the sixteenth are dropped, never written past the array.
\<close>

theorem err_stack_lifo:
  assumes "err_inv s"
  shows "\<exists>t u v. law_err_clear s = Inr t \<and> es.pushes xs t = Inr u \<and>
     es.pops (length xs) u = Inr (rev (take LAW_ERR_STACK_MAX xs), v) \<and> err_contents v = []"
  by (rule es.clear_pushes_pops [OF assms])

theorem err_stack_lifo_witness:
  "\<exists>t u v. law_err_clear demo_errs = Inr t \<and>
     es.pushes [\<lparr>ei_type = LAW_ERR_SYS, ei_action = ''pipe'', ei_file = [], ei_function = [], ei_line = 1\<rparr>,
       \<lparr>ei_type = LAW_ERR_OOM, ei_action = ''bind'', ei_file = [], ei_function = [], ei_line = 2\<rparr>] t = Inr u \<and>
     es.pops 2 u = Inr ([\<lparr>ei_type = LAW_ERR_OOM, ei_action = ''bind'', ei_file = [], ei_function = [], ei_line = 2\<rparr>,
       \<lparr>ei_type = LAW_ERR_SYS, ei_action = ''pipe'', ei_file = [], ei_function = [], ei_line = 1\<rparr>], v)"
proof -
  have "err_inv demo_errs" by (simp add: err_inv_def demo_errs_def LAW_ERR_STACK_MAX_def)
  from err_stack_lifo [OF this, of
      "[\<lparr>ei_type = LAW_ERR_SYS, ei_action = ''pipe'', ei_file = [], ei_function = [], ei_line = 1\<rparr>,
        \<lparr>ei_type = LAW_ERR_OOM, ei_action = ''bind'', ei_file = [], ei_function = [], ei_line = 2\<rparr>]"]
  show ?thesis by (simp add: LAW_ERR_STACK_MAX_def numeral_2_eq_2 del: es.pushes.simps es.pops.simps) blast
qed

text \<open>
  C19: the task queue between the main thread and a worker is a queue: of any sequence of tasks
  pushed on an empty pipe, those whose push returned \<open>LAW_ERR_OK\<close> come out, in order, by as
  many pops, and then the pipe is empty; a push on a full pipe writes nothing at all, so no task
  pointer is ever torn.
\<close>

theorem task_queue_fifo:
  assumes "pipe_holds ptr_bytes [] q"
  shows "\<exists>ys r s. tq.push_all xs q = Inr (ys, r) \<and> tq.pop_all (length ys) r = Inr (ys, s) \<and>
     pp_data s = [] \<and> (8 * length xs \<le> pp_cap q \<longrightarrow> ys = xs)"
proof -
  have inv: "task_queue_inv q" by (rule task_queue_invI [OF assms])
  have empty: "queued q = []" by (rule task_items_holds [OF assms])
  have fits: "ys = xs"
    if "tq.push_all xs q = Inr (ys, r)" "length (pp_data q) + 8 * length xs \<le> pp_cap q"
      "pipe_holds ptr_bytes zs q" for ys r zs q
    using that
  proof (induction xs arbitrary: ys q zs)
    case Nil
    then show ?case by simp
  next
    case (Cons x xs)
    let ?q = "q\<lparr>pp_data := pp_data q @ ptr_bytes x\<rparr>"
    have push: "law_task_queue_push x q = Inr (LAW_ERR_OK, ?q)"
      using Cons.prems(2) law_pipe_write_holds [OF Cons.prems(3), of x]
      by (simp add: law_task_queue_push_def length_ptr_bytes)
    then obtain ys' where ys: "tq.push_all xs ?q = Inr (ys', r)" "ys = x # ys'"
      using Cons.prems(1) by (auto simp: bindE_def split: sum.splits prod.splits)
    have "ys' = xs"
      by (rule Cons.IH [OF ys(1) _ pipe_holds_append [OF Cons.prems(3)]])
        (use Cons.prems(2) in \<open>simp add: length_ptr_bytes\<close>)
    with ys(2) show ?case by simp
  qed
  from tq.push_all_items [OF inv, of xs] obtain ys r where
    p: "tq.push_all xs q = Inr (ys, r)" "task_queue_inv r" "queued r = ys" using empty by auto
  from tq.pop_all_items [OF p(2), of "length ys"] p(3) obtain s where
    s: "tq.pop_all (length ys) r = Inr (ys, s)" "task_queue_inv s" "queued s = []" by auto
  have "pp_data s = []" using s(2,3) by (simp add: task_queue_inv_def pipe_holds_def)
  moreover have "8 * length xs \<le> pp_cap q \<longrightarrow> ys = xs"
    using fits [OF p(1) _ assms] assms by (simp add: pipe_holds_def)
  ultimately show ?thesis using p(1) s(1) by blast
qed

theorem task_queue_fifo_witness:
  "\<exists>r s. tq.push_all [3, 5] (demo_pipe []) = Inr ([3, 5], r) \<and> tq.pop_all 2 r = Inr ([3, 5], s)"
proof -
  have "pipe_holds ptr_bytes [] (demo_pipe [])" by (simp add: pipe_holds_def demo_pipe_def)
  from task_queue_fifo [OF this, of "[3, 5]"] obtain ys r s where
    1: "tq.push_all [3, 5] (demo_pipe []) = Inr (ys, r)" "tq.pop_all (length ys) r = Inr (ys, s)"
      "8 * length [3, 5 :: ptr] \<le> pp_cap (demo_pipe []) \<longrightarrow> ys = [3, 5]" by blast
  then have "ys = [3, 5]" by (simp add: demo_pipe_def)
  with 1(1,2) show ?thesis by (intro exI [of _ r] exI [of _ s]) (simp add: numeral_2_eq_2)
qed

text \<open>
  C20: the task pool is a stack under its lock: tasks pushed on it come back, last first, the
  tasks below them stay as they are and the lock is free again after each operation.
\<close>

theorem task_pool_lifo:
  assumes "pmt_ll_spec L" and "pool_holds h pool xs" and "distinct (ps @ xs)" and "NULL \<notin> set ps"
  shows "\<exists>t u. tp.push_list L ps (pool, h) = Inr t \<and>
     tp.pop_list L (length ps) t = Inr (rev ps, u) \<and> pool_holds (snd u) (fst u) xs"
  using tp.push_pop_list [of L "(pool, h)" xs ps] assms by auto

theorem task_pool_lifo_witness:
  "\<exists>t u. tp.push_list ref_ll [4, 9] (s_pool demo_server, s_heap demo_server) = Inr t \<and>
     tp.pop_list ref_ll 2 t = Inr ([9, 4], u)"
proof -
  have "pool_holds (s_heap demo_server) (s_pool demo_server) []"
    by (simp add: pool_holds_def demo_server_def)
  from task_pool_lifo [OF ref_ll_spec this, of "[4, 9]"]
  obtain t u where tu: "tp.push_list ref_ll [4, 9] (s_pool demo_server, s_heap demo_server) = Inr t"
    "tp.pop_list ref_ll (length [4, 9 :: ptr]) t = Inr (rev [4, 9], u)" by auto
  show ?thesis
    by (intro exI [of _ t] exI [of _ u]) (use tu in \<open>simp add: numeral_2_eq_2 del: tp.push_list.simps tp.pop_list.simps\<close>)
qed

text \<open>
  C18: taking expirations out of the timer while they are due, as a worker does at each round,
  yields exactly the pending expirations up to now, each as often as it was inserted and in
  increasing order of their times, and leaves exactly the later ones.
\<close>

theorem timer_drains_due:
  assumes "timer_inv B elems ok t" and "law_timer_size t \<le> n" and "tm.drain B n now t = (xs, r)"
  shows "mset xs = filter_mset (\<lambda>x. fst x \<le> now) (timer_pending elems t) \<and>
     timer_pending elems r = filter_mset (\<lambda>x. \<not> fst x \<le> now) (timer_pending elems t) \<and>
     sorted (map fst xs)"
proof -
  have "size (timer_pending elems t) \<le> n" using tm.count_ok [OF assms(1)] assms(2) by simp
  from tm.drain_ok [OF assms(1) this assms(3)] show ?thesis by blast
qed

definition demo_timer :: "law_timer_elem list law_timer" where
  "demo_timer = \<lparr>tm_size = 3, tm_capacity = 4, tm_buffer =
     [\<lparr>te_expiration = 40, te_identifier = 1, te_version = 0\<rparr>,
      \<lparr>te_expiration = 20, te_identifier = 2, te_version = 0\<rparr>,
      \<lparr>te_expiration = 10, te_identifier = 3, te_version = 0\<rparr>]\<rparr>"

theorem timer_drains_due_witness:
  "mset (fst (tm.drain ref_bh 3 25 demo_timer)) = {#(20, 2, 0), (10, 3, 0)#} \<and>
     sorted (map fst (fst (tm.drain ref_bh 3 25 demo_timer)))"
proof -
  have inv: "timer_inv ref_bh ref_bh_elems ref_bh_ok demo_timer"
    by (simp add: timer_inv_def ref_bh_spec ref_bh_ok_def demo_timer_def)
  have "law_timer_size demo_timer \<le> 3" by (simp add: law_timer_size_def demo_timer_def)
  from timer_drains_due [OF inv this, of 25] show ?thesis
    by (cases "tm.drain ref_bh 3 25 demo_timer")
       (simp add: timer_pending_def ref_bh_elems_def demo_timer_def elem_triple_def)
qed

end
