(* ===== verification/Startup.thy ===== *)
theory Startup
  imports Pipe Event World
begin

text \<open>
  Opening and closing the server's descriptors: \<^verbatim>\<open>law_worker_open\<close>, \<^verbatim>\<open>law_worker_close\<close>,
  \<^verbatim>\<open>law_create_socket\<close>, \<^verbatim>\<open>law_bind_socket\<close>, \<^verbatim>\<open>law_listen\<close>, \<^verbatim>\<open>law_open\<close> and
  \<^verbatim>\<open>law_close\<close> of \<^verbatim>\<open>server.c\<close>, on the operating system of the theory \<open>Sys\<close>, with
  every failure of every system call and the clean-up that follows it. The locale
  \<open>descriptor_resource\<close> states what an open and its close owe each other: a failed open
  leaves the descriptors as they were, and a close gives back exactly what the open took.
\<close>

section \<open>State\<close>

record worker_io =
  io_incoming :: "fd \<times> fd"
  io_messages :: "fd \<times> fd"
  io_evo :: law_evo

record server_io =
  so_protocol :: law_network_protocol
  so_port :: int
  so_socket :: fd
  so_evo :: law_evo
  so_workers :: "worker_io list"

section \<open>The event object\<close>

definition evo_open :: "law_evo \<Rightarrow> kern \<Rightarrow> int \<times> law_evo \<times> kern" where
  "evo_open e k =
     (case sys_new_fd k of
        (d, k1) \<Rightarrow> (case law_evo_open (case d of None \<Rightarrow> - 1 | Some d \<Rightarrow> int d) e of
                     (r, e1) \<Rightarrow> (r, e1, k1)))"

definition law_evo_close :: "law_evo \<Rightarrow> kern \<Rightarrow> kern" where
  "law_evo_close e k = (if evo_fd e < 0 then k\<lparr>k_bad := True\<rparr> else sys_close (nat (evo_fd e)) k)"

definition evo_add :: "fd \<Rightarrow> law_evo \<Rightarrow> kern \<Rightarrow> int \<times> law_evo \<times> kern" where
  "evo_add d e k =
     (case sys_call k of
        (ok, k1) \<Rightarrow>
          (case law_evo_ctl ok d LAW_EV_ADD 0 \<lparr>ev_events = LAW_EV_R, ev_data = 0\<rparr> e of
             (r, e1) \<Rightarrow> (r, e1, k1)))"

section \<open>A worker\<close>

definition law_worker_close :: "worker_io \<Rightarrow> kern \<Rightarrow> kern" where
  "law_worker_close w k =
     law_task_queue_close (io_incoming w) (law_msg_queue_close (io_messages w) (law_evo_close (io_evo w) k))"

text \<open>The two blocks that add the reading end of a queue to the worker's event object.\<close>

definition worker_watch :: "fd \<Rightarrow> int \<Rightarrow> worker_io \<Rightarrow> kern \<Rightarrow> (sel_err_t \<times> worker_io \<times> kern) run" where
  "worker_watch d line w k =
     (case evo_add d (io_evo w) k of
        (r, e, k) \<Rightarrow>
          (let w = w\<lparr>io_evo := e\<rparr> in
           if r = - 1 then
             bindE (LAW_ERR_PUSH LAW_ERR_SYS ''law_evo_ctl'' ''law_worker_open'' line k)
               (\<lambda>(_, k). Inr (LAW_ERR_SYS, w, law_worker_close w k))
           else Inr (LAW_ERR_OK, w, k)))"

definition worker_open_evo :: "worker_io \<Rightarrow> kern \<Rightarrow> (sel_err_t \<times> worker_io \<times> kern) run" where
  "worker_open_evo w k =
     (case evo_open (io_evo w) k of
        (r, e, k) \<Rightarrow>
          (let w = w\<lparr>io_evo := e\<rparr> in
           if r = - 1 then
             bindE (LAW_ERR_PUSH LAW_ERR_SYS ''law_evo_open'' ''law_worker_open'' 588 k)
               (\<lambda>(_, k). Inr (LAW_ERR_SYS, w,
                   law_task_queue_close (io_incoming w) (law_msg_queue_close (io_messages w) k)))
           else
             bindE (worker_watch (fst (io_incoming w)) 601 w k) (\<lambda>(e, w, k).
               if e \<noteq> LAW_ERR_OK then Inr (e, w, k)
               else worker_watch (fst (io_messages w)) 612 w k)))"

definition law_worker_open :: "worker_io \<Rightarrow> kern \<Rightarrow> (sel_err_t \<times> worker_io \<times> kern) run" where
  "law_worker_open w k =
     bindE (law_task_queue_open k) (\<lambda>(e, fds, k).
       let w = w\<lparr>io_incoming := fds\<rparr> in
       if e = LAW_ERR_SYS then
         bindE (LAW_ERR_PUSH LAW_ERR_SYS ''law_task_queue_open'' ''law_worker_open'' 580 k)
           (\<lambda>(e, k). Inr (e, w, k))
       else
         bindE (law_msg_queue_open k) (\<lambda>(e, fds, k).
           let w = w\<lparr>io_messages := fds\<rparr> in
           if e = LAW_ERR_SYS then
             bindE (LAW_ERR_PUSH LAW_ERR_SYS ''law_msg_queue_open'' ''law_worker_open'' 583 k)
               (\<lambda>(_, k). Inr (LAW_ERR_SYS, w, law_task_queue_close (io_incoming w) k))
           else worker_open_evo w k))"

section \<open>The server\<close>

text \<open>The arguments of \<^verbatim>\<open>socket\<close> and \<^verbatim>\<open>bind\<close> for each protocol; the port is in network order.\<close>

datatype address_family = AF_INET | AF_INET6

datatype socket_type = SOCK_STREAM | SOCK_DGRAM

definition socket_args :: "law_network_protocol \<Rightarrow> (address_family \<times> socket_type) option" where
  "socket_args p =
     (case p of
        LAW_PROTOCOL_TCP \<Rightarrow> Some (AF_INET, SOCK_STREAM)
      | LAW_PROTOCOL_TCP6 \<Rightarrow> Some (AF_INET6, SOCK_STREAM)
      | LAW_PROTOCOL_UDP \<Rightarrow> Some (AF_INET, SOCK_DGRAM)
      | LAW_PROTOCOL_UDP6 \<Rightarrow> Some (AF_INET6, SOCK_DGRAM)
      | LAW_PROTOCOL_NONE \<Rightarrow> None)"

definition htons :: "int \<Rightarrow> u8 list" where
  "htons port = rev (le_bytes 2 (nat (port mod 2 ^ 16)))"

definition bind_args :: "law_network_protocol \<Rightarrow> int \<Rightarrow> (address_family \<times> u8 list) option" where
  "bind_args p port =
     (case p of
        LAW_PROTOCOL_TCP \<Rightarrow> Some (AF_INET, htons port)
      | LAW_PROTOCOL_TCP6 \<Rightarrow> Some (AF_INET6, htons port)
      | LAW_PROTOCOL_UDP \<Rightarrow> Some (AF_INET, htons port)
      | LAW_PROTOCOL_UDP6 \<Rightarrow> Some (AF_INET6, htons port)
      | LAW_PROTOCOL_NONE \<Rightarrow> None)"

definition socket_flag ::
  "fd \<Rightarrow> int \<Rightarrow> server_io \<Rightarrow> kern \<Rightarrow> (sel_err_t \<times> server_io \<times> kern) run" where
  "socket_flag d line s k =
     bindE (LAW_ERR_PUSH LAW_ERR_SYS ''fcntl'' ''law_create_socket'' line k)
       (\<lambda>(_, k). Inr (LAW_ERR_SYS, s, sys_close d k))"

definition law_create_socket :: "server_io \<Rightarrow> kern \<Rightarrow> (sel_err_t \<times> server_io \<times> kern) run" where
  "law_create_socket s k =
     require SEL_HALT (socket_args (so_protocol s) \<noteq> None)
      (case sys_new_fd k of
         (None, k) \<Rightarrow>
           bindE (LAW_ERR_PUSH LAW_ERR_SYS ''socket'' ''law_create_socket'' 772 k)
             (\<lambda>(e, k). Inr (e, s, k))
       | (Some d, k) \<Rightarrow>
           (case sys_call k of
              (False, k) \<Rightarrow> socket_flag d 776 s k
            | (True, k) \<Rightarrow>
                (case sys_call k of
                   (False, k) \<Rightarrow> socket_flag d 780 s k
                 | (True, k) \<Rightarrow> Inr (LAW_ERR_OK, s\<lparr>so_socket := d\<rparr>, k))))"

definition law_bind_socket :: "server_io \<Rightarrow> kern \<Rightarrow> (sel_err_t \<times> kern) run" where
  "law_bind_socket s k =
     require SEL_HALT (bind_args (so_protocol s) (so_port s) \<noteq> None)
      (require SEL_ASSERT (so_socket s \<noteq> 0)
        (case sys_call k of
           (False, k) \<Rightarrow> LAW_ERR_PUSH LAW_ERR_SYS ''bind'' ''law_bind_socket'' 842 k
         | (True, k) \<Rightarrow> Inr (LAW_ERR_OK, k)))"

definition law_listen :: "server_io \<Rightarrow> kern \<Rightarrow> (sel_err_t \<times> kern) run" where
  "law_listen s k =
     require SEL_ASSERT (so_socket s \<noteq> 0)
      (case sys_call k of
         (False, k) \<Rightarrow> LAW_ERR_PUSH LAW_ERR_SYS ''listen'' ''law_listen'' 852 k
       | (True, k) \<Rightarrow> Inr (LAW_ERR_OK, k))"

text \<open>
  The loop over the workers: the first argument holds those that are open. A failure closes them.
\<close>

fun open_workers ::
  "worker_io list \<Rightarrow> worker_io list \<Rightarrow> kern \<Rightarrow> (sel_err_t \<times> worker_io list \<times> kern) run" where
  "open_workers ws [] k = Inr (LAW_ERR_OK, ws, k)"
| "open_workers ws (v # vs) k =
     bindE (law_worker_open v k) (\<lambda>(e, w, k).
       if e \<noteq> LAW_ERR_OK then Inr (e, ws @ w # vs, fold law_worker_close ws k)
       else open_workers (ws @ [w]) vs k)"

text \<open>\<open>law_open\<close> from the workers on, from the event object on, and whole.\<close>

definition open_fail ::
  "string \<Rightarrow> int \<Rightarrow> (kern \<Rightarrow> kern) \<Rightarrow> server_io \<Rightarrow> kern \<Rightarrow> (sel_err_t \<times> server_io \<times> kern) run" where
  "open_fail action line cleanup s k =
     bindE (LAW_ERR_PUSH LAW_ERR_SYS action ''law_open'' line k)
       (\<lambda>(_, k). Inr (LAW_ERR_SYS, s, cleanup k))"

definition close_evo_socket :: "server_io \<Rightarrow> kern \<Rightarrow> kern" where
  "close_evo_socket s k = sys_close (so_socket s) (law_evo_close (so_evo s) k)"

definition open_rest :: "server_io \<Rightarrow> kern \<Rightarrow> (sel_err_t \<times> server_io \<times> kern) run" where
  "open_rest s k =
     bindE (open_workers [] (so_workers s) k) (\<lambda>(e, ws, k).
       let s = s\<lparr>so_workers := ws\<rparr> in
       if e \<noteq> LAW_ERR_OK then Inr (e, s, close_evo_socket s k) else Inr (LAW_ERR_OK, s, k))"

definition open_evo :: "server_io \<Rightarrow> kern \<Rightarrow> (sel_err_t \<times> server_io \<times> kern) run" where
  "open_evo s k =
     (case evo_open (so_evo s) k of
        (r, e, k) \<Rightarrow>
          let s = s\<lparr>so_evo := e\<rparr> in
          if r = - 1 then open_fail ''law_evo_open'' 882 (sys_close (so_socket s)) s k
          else
            (case evo_add (so_socket s) (so_evo s) k of
               (r, e, k) \<Rightarrow>
                 let s = s\<lparr>so_evo := e\<rparr> in
                 if r = - 1 then open_fail ''law_evo_ctl'' 894 (close_evo_socket s) s k
                 else open_rest s k))"

definition law_open :: "server_io \<Rightarrow> kern \<Rightarrow> (sel_err_t \<times> server_io \<times> kern) run" where
  "law_open s k =
     require SEL_ASSERT (so_socket s \<noteq> 0)
      (bindE (law_err_clear (k_errs k)) (\<lambda>es.
       bindE (law_create_socket s (k\<lparr>k_errs := es\<rparr>)) (\<lambda>(e, s, k).
       if e = LAW_ERR_SYS then open_fail ''law_create_socket'' 869 id s k
       else
         bindE (law_bind_socket s k) (\<lambda>(e, k).
         if e = LAW_ERR_SYS then open_fail ''law_bind_socket'' 872 (sys_close (so_socket s)) s k
         else
           bindE (law_listen s k) (\<lambda>(e, k).
           if e = LAW_ERR_SYS then open_fail ''law_listen'' 877 (sys_close (so_socket s)) s k
           else open_evo s k)))))"

definition law_close :: "server_io \<Rightarrow> kern \<Rightarrow> kern" where
  "law_close s k =
     sys_close (so_socket s) (law_evo_close (so_evo s) (fold law_worker_close (so_workers s) k))"

section \<open>The contract\<close>

text \<open>
  An operation that opens descriptors and the one that closes them: the first either succeeds and
  has opened exactly the descriptors of its result, or fails with \<open>LAW_ERR_SYS\<close> and leaves
  the descriptors as they were; the second closes what the object owns, among whatever was opened
  since some earlier state, and nothing twice.
\<close>

locale descriptor_resource =
  fixes opn :: "'c \<Rightarrow> kern \<Rightarrow> (sel_err_t \<times> 'a \<times> kern) run"
    and cls :: "'a \<Rightarrow> kern \<Rightarrow> kern"
    and fds :: "'a \<Rightarrow> fd set"
    and ready :: "'c \<Rightarrow> kern \<Rightarrow> bool"
    and good :: "'a \<Rightarrow> bool"
  assumes open_cases: "kern_inv k \<Longrightarrow> ready c k \<Longrightarrow>
      (\<exists>a k'. opn c k = Inr (LAW_ERR_OK, a, k') \<and> good a \<and> adds_fds (fds a) k k') \<or>
      (\<exists>a k'. opn c k = Inr (LAW_ERR_SYS, a, k') \<and> same_fds k k')"
    and close_adds: "good a \<Longrightarrow> adds_fds D k0 k \<Longrightarrow> fds a \<subseteq> D \<Longrightarrow> adds_fds (D - fds a) k0 (cls a k)"
begin

text \<open>An open on top of descriptors that were opened before.\<close>

lemma open_more:
  assumes "adds_fds D k0 k" and "ready c k"
  shows "(\<exists>a k'. opn c k = Inr (LAW_ERR_OK, a, k') \<and> good a \<and> D \<inter> fds a = {} \<and>
            adds_fds (D \<union> fds a) k0 k') \<or>
         (\<exists>a k'. opn c k = Inr (LAW_ERR_SYS, a, k') \<and> adds_fds D k0 k')"
proof -
  have "D \<subseteq> k_open k" using assms(1) by (auto simp: adds_fds_def)
  from open_cases [OF adds_fds_inv [OF assms(1)] assms(2)] show ?thesis
  proof (elim disjE exE conjE)
    fix a k'
    assume a: "opn c k = Inr (LAW_ERR_OK, a, k')" "good a" "adds_fds (fds a) k k'"
    moreover have "D \<inter> fds a = {}" using a(3) \<open>D \<subseteq> k_open k\<close> by (auto simp: adds_fds_def)
    ultimately show ?thesis using adds_fds_trans [OF assms(1) a(3)] by blast
  next
    fix a k'
    assume "opn c k = Inr (LAW_ERR_SYS, a, k')" "same_fds k k'"
    with adds_same_trans [OF assms(1)] show ?thesis by blast
  qed
qed

text \<open>Opening and closing leaves no descriptor behind.\<close>

lemma open_close:
  assumes "kern_inv k" and "ready c k" and "opn c k = Inr (e, a, k')"
  shows "e = LAW_ERR_OK \<and> adds_fds (fds a) k k' \<and> same_fds k (cls a k') \<or>
         e = LAW_ERR_SYS \<and> same_fds k k'"
  using open_cases [OF assms(1,2)] assms(3)
proof (elim disjE exE conjE)
  fix b k2
  assume b: "opn c k = Inr (LAW_ERR_OK, b, k2)" "good b" "adds_fds (fds b) k k2"
  have "same_fds k (cls b k2)" using close_adds [OF b(2,3)] by (simp add: adds_fds_empty)
  with b assms(3) show ?thesis by simp
qed (use assms(3) in simp)

end

text \<open>Pipes are one.\<close>

interpretation pp: descriptor_resource "\<lambda>_. law_pipe_open" law_pipe_close "\<lambda>p. {fst p, snd p}"
  "\<lambda>_ _. True" "\<lambda>p. fst p \<noteq> snd p"
proof
  fix k :: kern
  assume "kern_inv k"
  then show "(\<exists>a k'. law_pipe_open k = Inr (LAW_ERR_OK, a, k') \<and> fst a \<noteq> snd a \<and>
        adds_fds {fst a, snd a} k k') \<or>
      (\<exists>a k'. law_pipe_open k = Inr (LAW_ERR_SYS, a, k') \<and> same_fds k k')"
    by (cases rule: law_pipe_open_cases) auto
next
  fix a :: "fd \<times> fd" and D k0 k
  assume "fst a \<noteq> snd a" "adds_fds D k0 k" "{fst a, snd a} \<subseteq> D"
  then show "adds_fds (D - {fst a, snd a}) k0 (law_pipe_close a k)"
    using law_pipe_close_adds [of D k0 k "fst a" "snd a"] by simp
qed

section \<open>Workers\<close>

definition worker_fds :: "worker_io \<Rightarrow> fd set" where
  "worker_fds w = {fst (io_incoming w), snd (io_incoming w)} \<union>
     ({fst (io_messages w), snd (io_messages w)} \<union> {nat (evo_fd (io_evo w))})"

text \<open>A worker that is open: its five descriptors are distinct.\<close>

definition worker_open :: "worker_io \<Rightarrow> bool" where
  "worker_open w \<longleftrightarrow> 0 \<le> evo_fd (io_evo w) \<and>
     fst (io_incoming w) \<noteq> snd (io_incoming w) \<and> fst (io_messages w) \<noteq> snd (io_messages w) \<and>
     {fst (io_incoming w), snd (io_incoming w)} \<inter> {fst (io_messages w), snd (io_messages w)} = {} \<and>
     nat (evo_fd (io_evo w)) \<notin>
       {fst (io_incoming w), snd (io_incoming w)} \<union> {fst (io_messages w), snd (io_messages w)}"

lemma law_evo_close_adds:
  assumes "adds_fds D k0 k" and "0 \<le> evo_fd e" and "nat (evo_fd e) \<in> D"
  shows "adds_fds (D - {nat (evo_fd e)}) k0 (law_evo_close e k)"
  using sys_close_adds [OF assms(1,3)] assms(2) by (simp add: law_evo_close_def)

lemma law_worker_close_adds:
  assumes "worker_open w" and "adds_fds D k0 k" and "worker_fds w \<subseteq> D"
  shows "adds_fds (D - worker_fds w) k0 (law_worker_close w k)"
proof -
  let ?e = "{nat (evo_fd (io_evo w))}" and ?m = "{fst (io_messages w), snd (io_messages w)}"
    and ?i = "{fst (io_incoming w), snd (io_incoming w)}"
  have 1: "adds_fds (D - ?e) k0 (law_evo_close (io_evo w) k)"
    using law_evo_close_adds [OF assms(2)] assms(1,3) by (simp add: worker_open_def worker_fds_def)
  have 2: "adds_fds (D - ?e - ?m) k0 (law_pipe_close (io_messages w) (law_evo_close (io_evo w) k))"
    by (rule pp.close_adds [OF _ 1]) (use assms(1,3) in \<open>auto simp: worker_open_def worker_fds_def\<close>)
  have 3: "adds_fds (D - ?e - ?m - ?i) k0 (law_worker_close w k)"
    unfolding law_worker_close_def queue_pipes
    by (rule pp.close_adds [OF _ 2]) (use assms(1,3) in \<open>auto simp: worker_open_def worker_fds_def\<close>)
  have "D - ?e - ?m - ?i = D - worker_fds w" unfolding worker_fds_def by blast
  with 3 show ?thesis by simp
qed

lemma evo_open_cases:
  assumes "adds_fds D k0 k"
  obtains e' k' where "evo_open e k = (- 1, e', k')" and "adds_fds D k0 k'"
    | d e' k' where "evo_open e k = (0, e', k')" and "evo_fd e' = int d" and "d \<notin> D"
        and "evo_interest e' = (\<lambda>_. None)" and "adds_fds (D \<union> {d}) k0 k'"
  using adds_fds_inv [OF assms]
proof (cases rule: sys_new_fd_cases)
  case (1 k')
  then show thesis using that(1) adds_same_trans [OF assms] by (simp add: evo_open_def law_evo_open_def)
next
  case (2 d k')
  have "d \<notin> k_open k" using 2(2) by (simp add: adds_fds_def)
  then have "d \<notin> D" using assms by (auto simp: adds_fds_def)
  with 2 that(2) adds_fds_trans [OF assms 2(2)] show thesis
    by (simp add: evo_open_def law_evo_open_def)
qed

lemma evo_add_cases:
  assumes "adds_fds D k0 k" and "evo_interest e d = None"
  obtains k' where "evo_add d e k = (- 1, e, k')" and "adds_fds D k0 k'"
    | k' where "evo_add d e k = (0, e\<lparr>evo_interest :=
        (evo_interest e)(d \<mapsto> \<lparr>ev_events = LAW_EV_R, ev_data = 0\<rparr>)\<rparr>, k')" and "adds_fds D k0 k'"
proof -
  obtain r k1 where c: "sys_call k = (r, k1)" by (cases "sys_call k")
  have a: "adds_fds D k0 k1"
    by (rule adds_same_trans [OF assms(1) sys_call_same [OF adds_fds_inv [OF assms(1)] c]])
  with c that assms(2) show thesis
    by (cases r) (simp_all add: evo_add_def law_evo_ctl_def epoll_ctl_def)
qed

lemma LAW_ERR_PUSH_adds:
  assumes "adds_fds D k0 k"
  obtains k' where "LAW_ERR_PUSH type action func line k = Inr (type, k')" and "adds_fds D k0 k'"
  using LAW_ERR_PUSH_same [OF adds_fds_inv [OF assms]] adds_same_trans [OF assms] by metis

lemma worker_watch_cases:
  assumes "worker_open w" and "adds_fds (worker_fds w) k0 k" and "evo_interest (io_evo w) d = None"
  obtains k' where "worker_watch d line w k = Inr (LAW_ERR_OK, w\<lparr>io_evo := (io_evo w)\<lparr>evo_interest :=
        (evo_interest (io_evo w))(d \<mapsto> \<lparr>ev_events = LAW_EV_R, ev_data = 0\<rparr>)\<rparr>\<rparr>, k')"
      and "adds_fds (worker_fds w) k0 k'"
    | k' where "worker_watch d line w k = Inr (LAW_ERR_SYS, w, k')" and "same_fds k0 k'"
  using assms(2,3)
proof (cases rule: evo_add_cases)
  case (1 k1)
  obtain k2 where p: "LAW_ERR_PUSH LAW_ERR_SYS ''law_evo_ctl'' ''law_worker_open'' line k1
      = Inr (LAW_ERR_SYS, k2)" "adds_fds (worker_fds w) k0 k2"
    using LAW_ERR_PUSH_adds [OF 1(2)] by blast
  have "same_fds k0 (law_worker_close w k2)"
    using law_worker_close_adds [OF assms(1) p(2)] by (simp add: adds_fds_empty)
  with 1(1) p(1) that(2) show thesis by (simp add: worker_watch_def)
next
  case (2 k1)
  with that(1) show thesis by (simp add: worker_watch_def)
qed

text \<open>The event object watches the reading ends of both queues.\<close>

definition worker_ready :: "worker_io \<Rightarrow> bool" where
  "worker_ready w \<longleftrightarrow> worker_open w \<and>
     dom (evo_interest (io_evo w)) = {fst (io_incoming w), fst (io_messages w)}"

lemma worker_open_evo_cases:
  assumes "fst (io_incoming w) \<noteq> snd (io_incoming w)" and "fst (io_messages w) \<noteq> snd (io_messages w)"
    and "{fst (io_incoming w), snd (io_incoming w)} \<inter> {fst (io_messages w), snd (io_messages w)} = {}"
    and "adds_fds ({fst (io_incoming w), snd (io_incoming w)} \<union>
           {fst (io_messages w), snd (io_messages w)}) k0 k"
  obtains v k' where "worker_open_evo w k = Inr (LAW_ERR_OK, v, k')" and "worker_ready v"
      and "adds_fds (worker_fds v) k0 k'"
    | v k' where "worker_open_evo w k = Inr (LAW_ERR_SYS, v, k')" and "same_fds k0 k'"
  using assms(4)
proof (cases rule: evo_open_cases [where e = "io_evo w"])
  case (1 e k1)
  let ?m = "{fst (io_messages w), snd (io_messages w)}" and ?i = "{fst (io_incoming w), snd (io_incoming w)}"
  obtain k2 where p: "LAW_ERR_PUSH LAW_ERR_SYS ''law_evo_open'' ''law_worker_open'' 588 k1
      = Inr (LAW_ERR_SYS, k2)" "adds_fds (?i \<union> ?m) k0 k2"
    using LAW_ERR_PUSH_adds [OF 1(2)] by blast
  have "adds_fds (?i \<union> ?m - ?m) k0 (law_pipe_close (io_messages w) k2)"
    by (rule pp.close_adds [OF assms(2) p(2)]) blast
  moreover have "?i \<union> ?m - ?m = ?i" using assms(3) by blast
  ultimately have "adds_fds ?i k0 (law_pipe_close (io_messages w) k2)" by simp
  then have "same_fds k0 (law_pipe_close (io_incoming w) (law_pipe_close (io_messages w) k2))"
    using pp.close_adds [OF assms(1)] by (fastforce simp: adds_fds_empty)
  with 1(1) p(1) that(2) show thesis by (simp add: worker_open_evo_def Let_def)
next
  case (2 d e k1)
  let ?w = "w\<lparr>io_evo := e\<rparr>"
  have fds: "worker_fds ?w = {fst (io_incoming w), snd (io_incoming w)} \<union>
      {fst (io_messages w), snd (io_messages w)} \<union> {d}"
    using 2(2) by (auto simp: worker_fds_def)
  have op: "worker_open ?w" using assms(1-3) 2(2,3) by (simp add: worker_open_def)
  have a: "adds_fds (worker_fds ?w) k0 k1" unfolding fds by (rule 2(5))
  have ne: "fst (io_incoming w) \<noteq> fst (io_messages w)" using assms(3) by blast
  have "evo_interest (io_evo ?w) (fst (io_incoming w)) = None" using 2(4) by simp
  with op a show thesis
  proof (cases rule: worker_watch_cases [where line = 601])
    case w1: (1 k2)
    let ?v = "?w\<lparr>io_evo := (io_evo ?w)\<lparr>evo_interest := (evo_interest (io_evo ?w))
        (fst (io_incoming w) \<mapsto> \<lparr>ev_events = LAW_EV_R, ev_data = 0\<rparr>)\<rparr>\<rparr>"
    have same: "worker_fds ?v = worker_fds ?w" "worker_open ?v = worker_open ?w"
      by (simp_all add: worker_fds_def worker_open_def)
    have "worker_open ?v" "adds_fds (worker_fds ?v) k0 k2"
      "evo_interest (io_evo ?v) (fst (io_messages w)) = None"
      using op w1(2) 2(4) ne unfolding same by simp_all
    then show thesis
    proof (cases rule: worker_watch_cases [where line = 612])
      case w2: (1 k3)
      let ?u = "?v\<lparr>io_evo := (io_evo ?v)\<lparr>evo_interest := (evo_interest (io_evo ?v))
          (fst (io_messages w) \<mapsto> \<lparr>ev_events = LAW_EV_R, ev_data = 0\<rparr>)\<rparr>\<rparr>"
      have "worker_open ?u" using op by (simp add: worker_open_def)
      moreover have "dom (evo_interest (io_evo ?u)) = {fst (io_incoming ?u), fst (io_messages ?u)}"
        using 2(4) by auto
      ultimately have "worker_ready ?u" unfolding worker_ready_def by blast
      moreover have "adds_fds (worker_fds ?u) k0 k3" using w2(2) by (simp add: worker_fds_def)
      moreover have "worker_open_evo w k = Inr (LAW_ERR_OK, ?u, k3)"
        using 2(1) w1(1) w2(1) by (simp add: worker_open_evo_def Let_def)
      ultimately show thesis by (rule that(1) [rotated])
    next
      case w2: (2 k3)
      with 2(1) w1(1) that(2) show thesis by (simp add: worker_open_evo_def Let_def)
    qed
  next
    case w1: (2 k2)
    with 2(1) that(2) show thesis by (simp add: worker_open_evo_def Let_def)
  qed
qed

lemma law_worker_open_cases:
  assumes "kern_inv k"
  obtains v k' where "law_worker_open w k = Inr (LAW_ERR_OK, v, k')" and "worker_ready v"
      and "adds_fds (worker_fds v) k k'"
    | v k' where "law_worker_open w k = Inr (LAW_ERR_SYS, v, k')" and "same_fds k k'"
  using assms
proof (cases rule: law_pipe_open_cases)
  case (2 fds k1)
  obtain k2 where "LAW_ERR_PUSH LAW_ERR_SYS ''law_task_queue_open'' ''law_worker_open'' 580 k1
      = Inr (LAW_ERR_SYS, k2)" "same_fds k1 k2"
    using LAW_ERR_PUSH_same [OF same_fds_inv [OF 2(2)]] by blast
  with 2 that(2) show thesis by (simp add: law_worker_open_def Let_def) (blast intro: same_fds_trans)
next
  case (1 a b k1)
  let ?w = "w\<lparr>io_incoming := (a, b)\<rparr>"
  have o: "law_worker_open w k = bindE (law_msg_queue_open k1) (\<lambda>(e, fds, k).
           let w = ?w\<lparr>io_messages := fds\<rparr> in
           if e = LAW_ERR_SYS then
             bindE (LAW_ERR_PUSH LAW_ERR_SYS ''law_msg_queue_open'' ''law_worker_open'' 583 k)
               (\<lambda>(_, k). Inr (LAW_ERR_SYS, w, law_task_queue_close (io_incoming w) k))
           else worker_open_evo w k)"
    using 1(1) by (simp add: law_worker_open_def Let_def)
  from pp.open_more [OF 1(3) TrueI] show thesis
  proof (elim disjE exE conjE)
    fix p k2
    assume p: "law_pipe_open k1 = Inr (LAW_ERR_OK, p, k2)" "fst p \<noteq> snd p" "{a, b} \<inter> {fst p, snd p} = {}"
      "adds_fds ({a, b} \<union> {fst p, snd p}) k k2"
    let ?v = "?w\<lparr>io_messages := p\<rparr>"
    have run: "law_worker_open w k = worker_open_evo ?v k2" using o p(1) by (simp add: Let_def)
    show thesis
      by (rule worker_open_evo_cases [of ?v k k2]) (use 1(2) p run that in auto)
  next
    fix p k2
    assume p: "law_pipe_open k1 = Inr (LAW_ERR_SYS, p, k2)" "adds_fds {a, b} k k2"
    obtain k3 where e: "LAW_ERR_PUSH LAW_ERR_SYS ''law_msg_queue_open'' ''law_worker_open'' 583 k2
        = Inr (LAW_ERR_SYS, k3)" "adds_fds {a, b} k k3"
      using LAW_ERR_PUSH_adds [OF p(2)] by blast
    have "same_fds k (law_pipe_close (a, b) k3)"
      using pp.close_adds [of "(a, b)" "{a, b}" k k3] 1(2) e(2) by (simp add: adds_fds_empty)
    with o p(1) e(1) that(2) show thesis by (simp add: Let_def)
  qed
qed

interpretation wk: descriptor_resource law_worker_open law_worker_close worker_fds "\<lambda>_ _. True" worker_ready
proof
  fix k :: kern and c :: worker_io
  assume "kern_inv k"
  then show "(\<exists>a k'. law_worker_open c k = Inr (LAW_ERR_OK, a, k') \<and> worker_ready a \<and>
        adds_fds (worker_fds a) k k') \<or>
      (\<exists>a k'. law_worker_open c k = Inr (LAW_ERR_SYS, a, k') \<and> same_fds k k')"
    by (cases rule: law_worker_open_cases [where w = c]) auto
next
  fix a :: worker_io and D k0 k
  assume "worker_ready a" "adds_fds D k0 k" "worker_fds a \<subseteq> D"
  then show "adds_fds (D - worker_fds a) k0 (law_worker_close a k)"
    using law_worker_close_adds by (simp add: worker_ready_def)
qed

section \<open>All workers\<close>

definition all_fds :: "worker_io list \<Rightarrow> fd set" where
  "all_fds ws = (\<Union>w \<in> set ws. worker_fds w)"

primrec workers_ok :: "worker_io list \<Rightarrow> bool" where
  "workers_ok [] = True"
| "workers_ok (w # ws) = (worker_ready w \<and> worker_fds w \<inter> all_fds ws = {} \<and> workers_ok ws)"

lemma all_fds_simps [simp]:
  "all_fds [] = {}" "all_fds (w # ws) = worker_fds w \<union> all_fds ws"
  "all_fds (ws @ vs) = all_fds ws \<union> all_fds vs"
  by (auto simp: all_fds_def)

lemma workers_ok_snoc:
  "workers_ok (ws @ [w]) \<longleftrightarrow> workers_ok ws \<and> worker_ready w \<and> all_fds ws \<inter> worker_fds w = {}"
  by (induction ws) auto

lemma close_workers_adds:
  "workers_ok ws \<Longrightarrow> adds_fds (E \<union> all_fds ws) k0 k \<Longrightarrow> E \<inter> all_fds ws = {} \<Longrightarrow>
     adds_fds E k0 (fold law_worker_close ws k)"
proof (induction ws arbitrary: k)
  case Nil
  then show ?case by simp
next
  case (Cons w ws)
  have "adds_fds (E \<union> all_fds (w # ws) - worker_fds w) k0 (law_worker_close w k)"
    by (rule wk.close_adds [OF _ Cons.prems(2)]) (use Cons.prems(1) in auto)
  moreover have "E \<union> all_fds (w # ws) - worker_fds w = E \<union> all_fds ws"
    using Cons.prems(1,3) by auto
  ultimately have "adds_fds (E \<union> all_fds ws) k0 (law_worker_close w k)" by simp
  with Cons.IH [of "law_worker_close w k"] Cons.prems(1,3) show ?case by auto
qed

lemma open_workers_ok:
  assumes "workers_ok ws" and "adds_fds (D \<union> all_fds ws) k0 k" and "D \<inter> all_fds ws = {}"
  shows "(\<exists>us k'. open_workers ws vs k = Inr (LAW_ERR_OK, us, k') \<and> workers_ok us \<and>
            length us = length ws + length vs \<and> D \<inter> all_fds us = {} \<and> adds_fds (D \<union> all_fds us) k0 k') \<or>
         (\<exists>us k'. open_workers ws vs k = Inr (LAW_ERR_SYS, us, k') \<and> adds_fds D k0 k')"
  using assms
proof (induction vs arbitrary: ws k)
  case Nil
  then show ?case by auto
next
  case (Cons v vs)
  from wk.open_more [OF Cons.prems(2) TrueI, of v] show ?case
  proof (elim disjE exE conjE)
    fix w k'
    assume w: "law_worker_open v k = Inr (LAW_ERR_OK, w, k')" "worker_ready w"
      "(D \<union> all_fds ws) \<inter> worker_fds w = {}" "adds_fds (D \<union> all_fds ws \<union> worker_fds w) k0 k'"
    have step: "open_workers ws (v # vs) k = open_workers (ws @ [w]) vs k'" using w(1) by simp
    have "workers_ok (ws @ [w])" using Cons.prems(1) w(2,3) by (auto simp: workers_ok_snoc)
    moreover have "adds_fds (D \<union> all_fds (ws @ [w])) k0 k'" using w(4) by (simp add: Un_assoc)
    moreover have "D \<inter> all_fds (ws @ [w]) = {}" using Cons.prems(3) w(3) by auto
    ultimately show ?case using Cons.IH [of "ws @ [w]" k'] unfolding step by simp
  next
    fix w k'
    assume w: "law_worker_open v k = Inr (LAW_ERR_SYS, w, k')" "adds_fds (D \<union> all_fds ws) k0 k'"
    from close_workers_adds [OF Cons.prems(1) w(2) Cons.prems(3)] w(1) show ?case by simp
  qed
qed

section \<open>The whole server\<close>

definition server_fds :: "server_io \<Rightarrow> fd set" where
  "server_fds s = {so_socket s} \<union> ({nat (evo_fd (so_evo s))} \<union> all_fds (so_workers s))"

text \<open>A server that is open: its descriptors are distinct and its event object watches the socket.\<close>

definition server_ready :: "server_io \<Rightarrow> bool" where
  "server_ready s \<longleftrightarrow> 0 \<le> evo_fd (so_evo s) \<and> so_socket s \<noteq> nat (evo_fd (so_evo s)) \<and>
     {so_socket s, nat (evo_fd (so_evo s))} \<inter> all_fds (so_workers s) = {} \<and>
     workers_ok (so_workers s) \<and> dom (evo_interest (so_evo s)) = {so_socket s}"

lemma sys_new_fd_next: "sys_new_fd k = (Some d, k') \<Longrightarrow> d = k_next k"
  by (auto simp: sys_new_fd_def sys_call_def split: prod.splits bool.splits list.splits)

lemma close_evo_socket_adds:
  assumes "adds_fds ({so_socket s} \<union> {nat (evo_fd (so_evo s))}) k0 k" and "0 \<le> evo_fd (so_evo s)"
    and "so_socket s \<noteq> nat (evo_fd (so_evo s))"
  shows "same_fds k0 (close_evo_socket s k)"
proof -
  have "adds_fds ({so_socket s} \<union> {nat (evo_fd (so_evo s))} - {nat (evo_fd (so_evo s))}) k0
      (law_evo_close (so_evo s) k)"
    by (rule law_evo_close_adds [OF assms(1,2)]) simp
  moreover have "{so_socket s} \<union> {nat (evo_fd (so_evo s))} - {nat (evo_fd (so_evo s))} = {so_socket s}"
    using assms(3) by auto
  ultimately have "adds_fds {so_socket s} k0 (law_evo_close (so_evo s) k)" by simp
  from sys_close_adds [OF this] show ?thesis by (simp add: close_evo_socket_def adds_fds_empty)
qed

lemma law_close_adds:
  assumes "server_ready s" and "adds_fds D k0 k" and "server_fds s \<subseteq> D"
  shows "adds_fds (D - server_fds s) k0 (law_close s k)"
proof -
  let ?e = "nat (evo_fd (so_evo s))" and ?E = "D - all_fds (so_workers s)"
  note r = assms(1) [unfolded server_ready_def]
  have D: "?E \<union> all_fds (so_workers s) = D" using assms(3) by (auto simp: server_fds_def)
  have 1: "adds_fds ?E k0 (fold law_worker_close (so_workers s) k)"
    by (rule close_workers_adds) (use r D assms(2) in auto)
  have 2: "adds_fds (?E - {?e}) k0 (law_evo_close (so_evo s) (fold law_worker_close (so_workers s) k))"
    by (rule law_evo_close_adds [OF 1]) (use r assms(3) in \<open>auto simp: server_fds_def\<close>)
  have 3: "adds_fds (?E - {?e} - {so_socket s}) k0 (law_close s k)"
    unfolding law_close_def
    by (rule sys_close_adds [OF 2]) (use r assms(3) in \<open>auto simp: server_fds_def\<close>)
  have "?E - {?e} - {so_socket s} = D - server_fds s" unfolding server_fds_def by blast
  with 3 show ?thesis by simp
qed

lemma law_create_socket_cases:
  assumes "kern_inv k" and "socket_args (so_protocol s) \<noteq> None" and "0 < k_next k"
  obtains d k' where "law_create_socket s k = Inr (LAW_ERR_OK, s\<lparr>so_socket := d\<rparr>, k')" and "d \<noteq> 0"
      and "adds_fds {d} k k'"
    | k' where "law_create_socket s k = Inr (LAW_ERR_SYS, s, k')" and "same_fds k k'"
  using assms(1)
proof (cases rule: sys_new_fd_cases)
  case (1 k1)
  obtain k2 where "LAW_ERR_PUSH LAW_ERR_SYS ''socket'' ''law_create_socket'' 772 k1
      = Inr (LAW_ERR_SYS, k2)" "same_fds k1 k2"
    using LAW_ERR_PUSH_same [OF same_fds_inv [OF 1(2)]] by blast
  with 1 assms(2) that(2) show thesis
    by (simp add: law_create_socket_def) (blast intro: same_fds_trans)
next
  case (2 d k1)
  have d: "d \<noteq> 0" using sys_new_fd_next [OF 2(1)] assms(3) by simp
  have fail: "\<exists>k'. socket_flag d line s k2 = Inr (LAW_ERR_SYS, s, k') \<and> same_fds k k'"
    if "adds_fds {d} k k2" for k2 line
  proof -
    obtain k3 where "LAW_ERR_PUSH LAW_ERR_SYS ''fcntl'' ''law_create_socket'' line k2
        = Inr (LAW_ERR_SYS, k3)" "adds_fds {d} k k3"
      using LAW_ERR_PUSH_adds [OF \<open>adds_fds {d} k k2\<close>] by blast
    with sys_close_adds [of "{d}" k k3 d] show ?thesis by (simp add: socket_flag_def adds_fds_empty)
  qed
  obtain b k2 where c: "sys_call k1 = (b, k2)" by (cases "sys_call k1")
  have a2: "adds_fds {d} k k2" by (rule adds_same_trans [OF 2(2) sys_call_same [OF adds_fds_inv [OF 2(2)] c]])
  obtain b' k3 where c': "sys_call k2 = (b', k3)" by (cases "sys_call k2")
  have a3: "adds_fds {d} k k3" by (rule adds_same_trans [OF a2 sys_call_same [OF adds_fds_inv [OF a2] c']])
  obtain f2 where f2: "socket_flag d 776 s k2 = Inr (LAW_ERR_SYS, s, f2)" "same_fds k f2"
    using fail [OF a2] by blast
  obtain f3 where f3: "socket_flag d 780 s k3 = Inr (LAW_ERR_SYS, s, f3)" "same_fds k f3"
    using fail [OF a3] by blast
  note run = law_create_socket_def 2(1) c c'
  show thesis
  proof (cases "b \<and> b'")
    case True
    with assms(2) have "law_create_socket s k = Inr (LAW_ERR_OK, s\<lparr>so_socket := d\<rparr>, k3)"
      by (simp add: run)
    then show thesis using d a3 by (rule that(1))
  next
    case False
    then have "law_create_socket s k = Inr (LAW_ERR_SYS, s, if b then f3 else f2)"
      using assms(2) f2(1) f3(1) by (cases b) (simp_all add: run)
    moreover have "same_fds k (if b then f3 else f2)" using f2(2) f3(2) by simp
    ultimately show thesis by (rule that(2))
  qed
qed

lemma open_fail_eq:
  assumes "adds_fds D k0 k" and "\<And>k'. adds_fds D k0 k' \<Longrightarrow> same_fds k0 (cleanup k')"
  obtains k' where "open_fail action line cleanup s k = Inr (LAW_ERR_SYS, s, k')" and "same_fds k0 k'"
proof -
  obtain k2 where "LAW_ERR_PUSH LAW_ERR_SYS action ''law_open'' line k = Inr (LAW_ERR_SYS, k2)"
    "adds_fds D k0 k2" using LAW_ERR_PUSH_adds [OF assms(1)] by blast
  with assms(2) that show thesis by (simp add: open_fail_def)
qed

lemma close_socket: "adds_fds {d} k0 k \<Longrightarrow> same_fds k0 (sys_close d k)"
  using sys_close_adds [of "{d}" k0 k d] by (simp add: adds_fds_empty)

lemma open_evo_cases:
  assumes "adds_fds {so_socket s} k0 k"
  obtains t k' where "open_evo s k = Inr (LAW_ERR_OK, t, k')" and "server_ready t"
      and "adds_fds (server_fds t) k0 k'" and "so_socket t = so_socket s"
      and "length (so_workers t) = length (so_workers s)"
    | t k' where "open_evo s k = Inr (LAW_ERR_SYS, t, k')" and "same_fds k0 k'"
  using assms
proof (cases rule: evo_open_cases [where e = "so_evo s"])
  case (1 e k1)
  obtain k2 where "open_fail ''law_evo_open'' 882 (sys_close (so_socket s)) (s\<lparr>so_evo := e\<rparr>) k1
      = Inr (LAW_ERR_SYS, s\<lparr>so_evo := e\<rparr>, k2)" "same_fds k0 k2"
    by (rule open_fail_eq [OF 1(2), where cleanup = "sys_close (so_socket s)"])
      (blast intro: close_socket)+
  with 1(1) that(2) show thesis by (simp add: open_evo_def Let_def)
next
  case (2 d e k1)
  let ?s = "s\<lparr>so_evo := e\<rparr>"
  have a: "adds_fds ({so_socket s} \<union> {d}) k0 k1" by (rule 2(5))
  have ne: "so_socket s \<noteq> d" using 2(3) by simp
  have "evo_interest e (so_socket s) = None" using 2(4) by simp
  with a show thesis
  proof (cases rule: evo_add_cases)
    case e1: (1 k2)
    have cl: "same_fds k0 (close_evo_socket ?s k')" if "adds_fds ({so_socket s} \<union> {d}) k0 k'" for k'
      by (rule close_evo_socket_adds) (use that 2(2) ne in simp_all)
    obtain k3 where "open_fail ''law_evo_ctl'' 894 (close_evo_socket ?s) ?s k2 = Inr (LAW_ERR_SYS, ?s, k3)"
      "same_fds k0 k3"
      by (rule open_fail_eq [OF e1(2), where cleanup = "close_evo_socket ?s"]) (blast intro: cl)+
    with 2(1) e1(1) that(2) show thesis by (simp add: open_evo_def Let_def)
  next
    case e1: (2 k2)
    let ?e = "e\<lparr>evo_interest := (evo_interest e)(so_socket s \<mapsto> \<lparr>ev_events = LAW_EV_R, ev_data = 0\<rparr>)\<rparr>"
    let ?t = "s\<lparr>so_evo := ?e\<rparr>"
    have run: "open_evo s k = open_rest ?t k2" using 2(1) e1(1) by (simp add: open_evo_def Let_def)
    have "adds_fds ({so_socket s} \<union> {d} \<union> all_fds []) k0 k2" using e1(2) by simp
    from open_workers_ok [OF workers_ok.simps(1) [THEN iffD2, OF TrueI] this, of "so_workers s"]
    have "(\<exists>us k'. open_workers [] (so_workers s) k2 = Inr (LAW_ERR_OK, us, k') \<and> workers_ok us \<and>
            length us = length (so_workers s) \<and> ({so_socket s} \<union> {d}) \<inter> all_fds us = {} \<and>
            adds_fds ({so_socket s} \<union> {d} \<union> all_fds us) k0 k') \<or>
         (\<exists>us k'. open_workers [] (so_workers s) k2 = Inr (LAW_ERR_SYS, us, k') \<and>
            adds_fds ({so_socket s} \<union> {d}) k0 k')" by simp
    then show thesis
    proof (elim disjE exE conjE)
      fix us k3
      assume us: "open_workers [] (so_workers s) k2 = Inr (LAW_ERR_OK, us, k3)" "workers_ok us"
        "length us = length (so_workers s)" "({so_socket s} \<union> {d}) \<inter> all_fds us = {}"
        "adds_fds ({so_socket s} \<union> {d} \<union> all_fds us) k0 k3"
      let ?u = "?t\<lparr>so_workers := us\<rparr>"
      have "server_ready ?u"
        using us(2,4) 2(2,4) ne by (auto simp: server_ready_def)
      moreover have "adds_fds (server_fds ?u) k0 k3"
        using us(5) 2(2) by (simp add: server_fds_def Un_assoc)
      moreover have "open_evo s k = Inr (LAW_ERR_OK, ?u, k3)"
        using run us(1) by (simp add: open_rest_def Let_def)
      ultimately show thesis using that(1) us(3) by simp
    next
      fix us k3
      assume us: "open_workers [] (so_workers s) k2 = Inr (LAW_ERR_SYS, us, k3)"
        "adds_fds ({so_socket s} \<union> {d}) k0 k3"
      have "same_fds k0 (close_evo_socket (?t\<lparr>so_workers := us\<rparr>) k3)"
        by (rule close_evo_socket_adds) (use us(2) 2(2) ne in simp_all)
      with run us(1) that(2) show thesis by (simp add: open_rest_def Let_def)
    qed
  qed
qed

lemma sys_call_adds: "adds_fds D k0 k \<Longrightarrow> sys_call k = (b, k') \<Longrightarrow> adds_fds D k0 k'"
  using adds_same_trans sys_call_same adds_fds_inv by blast

definition open_ready :: "server_io \<Rightarrow> kern \<Rightarrow> bool" where
  "open_ready s k \<longleftrightarrow> so_socket s \<noteq> 0 \<and> so_protocol s \<noteq> LAW_PROTOCOL_NONE \<and> 0 < k_next k"

lemma protocol_args:
  "p \<noteq> LAW_PROTOCOL_NONE \<Longrightarrow> socket_args p \<noteq> None \<and> bind_args p port \<noteq> None"
  by (cases p) (simp_all add: socket_args_def bind_args_def)

lemma law_open_cases:
  assumes "kern_inv k" and "open_ready s k"
  obtains t k' where "law_open s k = Inr (LAW_ERR_OK, t, k')" and "server_ready t"
      and "adds_fds (server_fds t) k k'" and "length (so_workers t) = length (so_workers s)"
    | t k' where "law_open s k = Inr (LAW_ERR_SYS, t, k')" and "same_fds k k'"
proof -
  have ready: "so_socket s \<noteq> 0" "socket_args (so_protocol s) \<noteq> None"
    "bind_args (so_protocol s) (so_port s) \<noteq> None" "0 < k_next k"
    using assms(2) protocol_args by (auto simp: open_ready_def)
  obtain es where es: "law_err_clear (k_errs k) = Inr es" "err_inv es"
    using assms(1) by (auto simp: kern_inv_def law_err_clear_def err_inv_def)
  let ?k = "k\<lparr>k_errs := es\<rparr>"
  have k: "kern_inv ?k" "0 < k_next ?k" and same: "same_fds k ?k"
    using assms(1) es(2) ready(4) by (simp_all add: kern_inv_def same_fds_def)
  show thesis
    using k(1) ready(2) k(2)
  proof (cases rule: law_create_socket_cases)
    case (2 k1)
    have "adds_fds {} k k1" using same_fds_trans [OF same 2(2)] by (simp add: adds_fds_empty)
    then obtain k2 where "open_fail ''law_create_socket'' 869 id s k1 = Inr (LAW_ERR_SYS, s, k2)"
      "same_fds k k2"
      by (rule open_fail_eq [of "{}" k k1 id]) (simp add: adds_fds_empty, blast)
    with ready(1) es(1) 2(1) that(2) show thesis by (simp add: law_open_def)
  next
    case (1 d k1)
    let ?s = "s\<lparr>so_socket := d\<rparr>"
    have a1: "adds_fds {d} k k1" by (rule same_adds_trans [OF same 1(3)])
    have fail: "\<exists>k'. open_fail action line (sys_close d) ?s k2 = Inr (LAW_ERR_SYS, ?s, k') \<and> same_fds k k'"
      if "adds_fds {d} k k2" for k2 action line
      by (rule open_fail_eq [OF that, where cleanup = "sys_close d"]) (blast intro: close_socket)+
    obtain b k2 where c2: "sys_call k1 = (b, k2)" by (cases "sys_call k1")
    have a2: "adds_fds {d} k k2" by (rule sys_call_adds [OF a1 c2])
    obtain c k3 where c3: "sys_call k2 = (c, k3)" by (cases "sys_call k2")
    have a3: "adds_fds {d} k k3" by (rule sys_call_adds [OF a2 c3])
    obtain ba where ba: "bind_args (so_protocol s) (so_port s) = Some ba" using ready(3) by auto
    have "0 < d" using 1(2) by simp
    note run = law_open_def law_bind_socket_def law_listen_def ready(1) ba es(1) 1(1,2) this c2 c3
    show thesis
    proof (cases b)
      case False
      obtain k4 where p: "LAW_ERR_PUSH LAW_ERR_SYS ''bind'' ''law_bind_socket'' 842 k2 = Inr (LAW_ERR_SYS, k4)"
        "adds_fds {d} k k4" using LAW_ERR_PUSH_adds [OF a2] by blast
      obtain k5 where "open_fail ''law_bind_socket'' 872 (sys_close d) ?s k4 = Inr (LAW_ERR_SYS, ?s, k5)"
        "same_fds k k5" using fail [OF p(2)] by blast
      with False p(1) that(2) show thesis by (simp add: run)
    next
      case b: True
      show thesis
      proof (cases c)
        case False
        obtain k4 where p: "LAW_ERR_PUSH LAW_ERR_SYS ''listen'' ''law_listen'' 852 k3 = Inr (LAW_ERR_SYS, k4)"
          "adds_fds {d} k k4" using LAW_ERR_PUSH_adds [OF a3] by blast
        obtain k5 where "open_fail ''law_listen'' 877 (sys_close d) ?s k4 = Inr (LAW_ERR_SYS, ?s, k5)"
          "same_fds k k5" using fail [OF p(2)] by blast
        with b False p(1) that(2) show thesis by (simp add: run)
      next
        case True
        have o: "law_open s k = open_evo ?s k3" using b True by (simp add: run)
        have "adds_fds {so_socket ?s} k k3" using a3 by simp
        then show thesis
          by (cases rule: open_evo_cases) (use o that in auto)
      qed
    qed
  qed
qed

interpretation sv: descriptor_resource law_open law_close server_fds open_ready server_ready
proof
  fix k :: kern and c :: server_io
  assume "kern_inv k" "open_ready c k"
  then show "(\<exists>a k'. law_open c k = Inr (LAW_ERR_OK, a, k') \<and> server_ready a \<and>
        adds_fds (server_fds a) k k') \<or>
      (\<exists>a k'. law_open c k = Inr (LAW_ERR_SYS, a, k') \<and> same_fds k k')"
    by (cases rule: law_open_cases) auto
qed (rule law_close_adds)

section \<open>Properties\<close>

text \<open>
  C14: \<^verbatim>\<open>law_open\<close> leaks no descriptor, whichever system call fails: when it fails it
  returns \<open>LAW_ERR_SYS\<close> and exactly the descriptors that were open before are open again, none
  closed twice; when it succeeds it has opened exactly the listening socket, the event object and
  five descriptors for each worker, all different, and \<^verbatim>\<open>law_close\<close> closes exactly these.
\<close>

theorem law_open_leaks_nothing:
  assumes "kern_inv k" and "so_socket s \<noteq> 0" and "so_protocol s \<noteq> LAW_PROTOCOL_NONE" and "0 < k_next k"
  shows "\<exists>e t k'. law_open s k = Inr (e, t, k') \<and>
     (e = LAW_ERR_OK \<and> server_ready t \<and> length (so_workers t) = length (so_workers s) \<and>
        adds_fds (server_fds t) k k' \<and> same_fds k (law_close t k') \<or>
      e = LAW_ERR_SYS \<and> same_fds k k')"
proof -
  have "open_ready s k" using assms by (simp add: open_ready_def)
  with assms(1) show ?thesis
  proof (cases rule: law_open_cases)
    case (1 t k')
    from sv.open_close [OF assms(1) \<open>open_ready s k\<close> 1(1)] 1 show ?thesis by simp
  next
    case (2 t k')
    then show ?thesis by simp
  qed
qed

text \<open>
  \<^verbatim>\<open>law_open\<close> opens a listening socket of its own: the socket the server had, which it
  asserts to be there, stays open, and \<^verbatim>\<open>law_close\<close> does not close it.
\<close>

theorem law_open_second_socket:
  assumes "kern_inv k" and "so_socket s \<in> k_open k" and "so_socket s \<noteq> 0"
    and "so_protocol s \<noteq> LAW_PROTOCOL_NONE" and "law_open s k = Inr (LAW_ERR_OK, t, k')"
  shows "so_socket t \<noteq> so_socket s \<and> so_socket s \<in> k_open k' \<and> so_socket s \<in> k_open (law_close t k')"
proof -
  have "so_socket s < k_next k" using assms(1,2) by (simp add: kern_inv_def)
  then have r: "open_ready s k" using assms(3,4) by (simp add: open_ready_def)
  from sv.open_close [OF assms(1) r assms(5)]
  have a: "adds_fds (server_fds t) k k'" and c: "same_fds k (law_close t k')" by simp_all
  have "so_socket t \<in> server_fds t" by (simp add: server_fds_def)
  then have "so_socket t \<notin> k_open k" using a by (auto simp: adds_fds_def)
  then show ?thesis using assms(2) a c by (auto simp: adds_fds_def same_fds_def)
qed

text \<open>
  A server as \<^verbatim>\<open>law_server_create\<close> leaves it, with socket 0, cannot be opened:
  \<^verbatim>\<open>law_open\<close> fails its first assertion before it creates the socket.
\<close>

theorem law_open_fresh_fails: "so_socket s = 0 \<Longrightarrow> law_open s k = Inl SEL_ASSERT"
  by (simp add: law_open_def)

definition demo_io :: server_io where
  "demo_io = (let e = the (projr (law_evo_create True True 32)) in
     \<lparr>so_protocol = LAW_PROTOCOL_TCP, so_port = 80, so_socket = 3, so_evo = e,
      so_workers = [\<lparr>io_incoming = (0, 0), io_messages = (0, 0), io_evo = e\<rparr>]\<rparr>)"

lemma demo_io_simps: "so_socket demo_io = 3" "so_protocol demo_io = LAW_PROTOCOL_TCP"
  by (simp_all add: demo_io_def Let_def)

theorem law_open_leaks_nothing_witness:
  "\<exists>t k'. law_open demo_io (demo_kern [True, True, True, False]) = Inr (LAW_ERR_SYS, t, k') \<and>
     k_open k' = {0, 1, 2, 3}"
proof -
  let ?k = "demo_kern [True, True, True, False]"
  from law_open_leaks_nothing [OF demo_kern_inv, of demo_io "[True, True, True, False]"]
  obtain e t k' where o: "law_open demo_io ?k = Inr (e, t, k')"
    and c: "e = LAW_ERR_OK \<or> e = LAW_ERR_SYS \<and> same_fds ?k k'"
    by (auto simp: demo_io_simps demo_kern_def)
  have "e = LAW_ERR_SYS"
    using o by (auto simp: law_open_def demo_io_simps law_create_socket_def law_bind_socket_def
        law_err_clear_def sys_new_fd_def sys_call_def socket_args_def bind_args_def demo_kern_def
        LAW_ERR_PUSH_def law_err_push_def open_fail_def LAW_ERR_STACK_MAX_def Let_def bindE_def
        split: sum.splits)
  with o c show ?thesis by (simp add: same_fds_def demo_kern_def)
qed

lemma demo_opens: "\<exists>t k'. law_open demo_io (demo_kern []) = Inr (LAW_ERR_OK, t, k')"
  by (simp add: law_open_def demo_io_def law_create_socket_def law_bind_socket_def law_listen_def
      law_err_clear_def sys_new_fd_def sys_call_def socket_args_def bind_args_def demo_kern_def
      LAW_ERR_STACK_MAX_def Let_def open_evo_def evo_open_def evo_add_def law_evo_open_def
      law_evo_ctl_def epoll_ctl_def open_rest_def law_worker_open_def law_pipe_open_def
      pipe_fcntl_def sys_pipe_def worker_open_evo_def worker_watch_def law_evo_create_def)

theorem law_open_second_socket_witness:
  "\<exists>t k'. law_open demo_io (demo_kern []) = Inr (LAW_ERR_OK, t, k') \<and> 3 \<in> k_open (law_close t k')"
proof -
  obtain t k' where o: "law_open demo_io (demo_kern []) = Inr (LAW_ERR_OK, t, k')" using demo_opens by blast
  have "so_socket demo_io \<in> k_open (demo_kern [])" by (simp add: demo_io_simps demo_kern_def)
  from law_open_second_socket [OF demo_kern_inv this _ _ o] o show ?thesis
    by (auto simp: demo_io_simps)
qed

theorem law_open_fresh_fails_witness:
  "law_open (demo_io\<lparr>so_socket := 0\<rparr>) (demo_kern []) = Inl SEL_ASSERT"
  by (rule law_open_fresh_fails) simp

end
