(* ===== verification/Lifecycle.thy ===== *)
theory Lifecycle
  imports Sys World
begin

text \<open>
  Creating and destroying the server's objects: \<^verbatim>\<open>law_smem_create\<close> (\<^verbatim>\<open>safemem.c\<close>),
  \<^verbatim>\<open>law_cor_create\<close> (\<^verbatim>\<open>cor_x86_64.c\<close>), \<^verbatim>\<open>law_timer_create\<close>, \<^verbatim>\<open>law_table_create\<close>,
  \<^verbatim>\<open>law_evo_create\<close>, the tasks, the task pool, the workers and the server of
  \<^verbatim>\<open>server.c\<close>, the buffers, stacks, pools and groups of \<^verbatim>\<open>http_server.c\<close>, and their
  destructors. Blocks of memory, mappings and descriptors are handles of the theory \<open>Sys\<close>:
  an allocation fails when the script says so, and freeing a handle that is not live is
  remembered in \<open>k_bad\<close>. The locale \<open>owned_object\<close> states what a constructor and its
  destructor owe each other; two locales derive it for an object built after another and for a
  list of objects, the two shapes of clean-up the sources use.
\<close>

section \<open>Allocation\<close>

definition calloc :: "kern \<Rightarrow> (fd option \<times> kern) run" where
  "calloc k = Inr (sys_new_fd k)"

text \<open>An allocation whose result is used without a check.\<close>

definition calloc_blind :: "kern \<Rightarrow> (fd option \<times> kern) run" where
  "calloc_blind k =
     (case sys_new_fd k of (None, k) \<Rightarrow> Inl NULL_DEREF | (Some b, k) \<Rightarrow> Inr (Some b, k))"

abbreviation free :: "fd \<Rightarrow> kern \<Rightarrow> kern" where
  "free \<equiv> sys_close"

text \<open>
  A second step of a constructor: if it fails, the label it jumps to undoes the first. The
  destructor undoes the second step first.
\<close>

definition seq_create ::
  "(kern \<Rightarrow> ('a option \<times> kern) run) \<Rightarrow> ('a \<Rightarrow> kern \<Rightarrow> kern) \<Rightarrow> (kern \<Rightarrow> ('b option \<times> kern) run) \<Rightarrow>
   kern \<Rightarrow> (('a \<times> 'b) option \<times> kern) run" where
  "seq_create f undo g k =
     bindE (f k) (\<lambda>(a, k).
       case a of
         None \<Rightarrow> Inr (None, k)
       | Some a \<Rightarrow>
           bindE (g k) (\<lambda>(b, k).
             case b of None \<Rightarrow> Inr (None, undo a k) | Some b \<Rightarrow> Inr (Some (a, b), k)))"

definition seq_destroy ::
  "('a \<Rightarrow> kern \<Rightarrow> kern) \<Rightarrow> ('b \<Rightarrow> kern \<Rightarrow> kern) \<Rightarrow> 'a \<times> 'b \<Rightarrow> kern \<Rightarrow> kern" where
  "seq_destroy f g p k = f (fst p) (g (snd p) k)"

text \<open>
  A loop that makes \<open>n\<close> objects, each put into a list; if one fails, those made are destroyed
  in the order of the list.
\<close>

fun create_n ::
  "('a \<Rightarrow> 'a list \<Rightarrow> 'a list) \<Rightarrow> nat \<Rightarrow> (kern \<Rightarrow> ('a option \<times> kern) run) \<Rightarrow> ('a \<Rightarrow> kern \<Rightarrow> kern) \<Rightarrow>
   'a list \<Rightarrow> kern \<Rightarrow> ('a list option \<times> kern) run" where
  "create_n put 0 f d xs k = Inr (Some xs, k)"
| "create_n put (Suc n) f d xs k =
     bindE (f k) (\<lambda>(a, k).
       case a of
         None \<Rightarrow> Inr (None, fold d xs k)
       | Some a \<Rightarrow> create_n put n f d (put a xs) k)"

definition push_back :: "'a \<Rightarrow> 'a list \<Rightarrow> 'a list" where
  "push_back x xs = xs @ [x]"

text \<open>What a pair and a list of objects own, and when no two of their parts share a handle.\<close>

definition pair_handles :: "('a \<Rightarrow> fd set) \<Rightarrow> ('b \<Rightarrow> fd set) \<Rightarrow> 'a \<times> 'b \<Rightarrow> fd set" where
  "pair_handles hf hg p = hf (fst p) \<union> hg (snd p)"

definition pair_good ::
  "('a \<Rightarrow> fd set) \<Rightarrow> ('b \<Rightarrow> fd set) \<Rightarrow> ('a \<Rightarrow> bool) \<Rightarrow> ('b \<Rightarrow> bool) \<Rightarrow> 'a \<times> 'b \<Rightarrow> bool" where
  "pair_good hf hg gf gg p \<longleftrightarrow> gf (fst p) \<and> gg (snd p) \<and> hf (fst p) \<inter> hg (snd p) = {}"

definition list_handles :: "('a \<Rightarrow> fd set) \<Rightarrow> 'a list \<Rightarrow> fd set" where
  "list_handles h xs = (\<Union>x \<in> set xs. h x)"

primrec list_good :: "('a \<Rightarrow> fd set) \<Rightarrow> ('a \<Rightarrow> bool) \<Rightarrow> 'a list \<Rightarrow> bool" where
  "list_good h g [] = True"
| "list_good h g (x # xs) = (g x \<and> h x \<inter> list_handles h xs = {} \<and> list_good h g xs)"

lemma list_handles_simps [simp]:
  "list_handles h [] = {}" "list_handles h (x # xs) = h x \<union> list_handles h xs"
  "list_handles h (xs @ ys) = list_handles h xs \<union> list_handles h ys"
  by (auto simp: list_handles_def)

lemma list_good_back:
  "list_good h g (xs @ [x]) \<longleftrightarrow> list_good h g xs \<and> g x \<and> list_handles h xs \<inter> h x = {}"
  by (induction xs) auto

section \<open>The contract\<close>

text \<open>
  \<open>blind\<close> says whether the constructor uses the result of an allocation without a check.
\<close>

locale owned_object =
  fixes create :: "kern \<Rightarrow> ('a option \<times> kern) run"
    and destroy :: "'a \<Rightarrow> kern \<Rightarrow> kern"
    and handles :: "'a \<Rightarrow> fd set"
    and good :: "'a \<Rightarrow> bool"
    and blind :: bool
  assumes create_cases: "kern_inv k \<Longrightarrow>
      (\<exists>a k'. create k = Inr (Some a, k') \<and> good a \<and> adds_fds (handles a) k k') \<or>
      (\<exists>k'. create k = Inr (None, k') \<and> same_fds k k') \<or>
      blind \<and> create k = Inl NULL_DEREF"
    and destroy_adds: "good a \<Longrightarrow> adds_fds D k0 k \<Longrightarrow> handles a \<subseteq> D \<Longrightarrow>
      adds_fds (D - handles a) k0 (destroy a k)"
begin

lemma create_more:
  assumes "adds_fds D k0 k"
  shows "(\<exists>a k'. create k = Inr (Some a, k') \<and> good a \<and> D \<inter> handles a = {} \<and>
            adds_fds (D \<union> handles a) k0 k') \<or>
         (\<exists>k'. create k = Inr (None, k') \<and> adds_fds D k0 k') \<or>
         blind \<and> create k = Inl NULL_DEREF"
proof -
  have "D \<subseteq> k_open k" using assms by (auto simp: adds_fds_def)
  from create_cases [OF adds_fds_inv [OF assms]] show ?thesis
  proof (elim disjE exE conjE)
    fix a k'
    assume a: "create k = Inr (Some a, k')" "good a" "adds_fds (handles a) k k'"
    moreover have "D \<inter> handles a = {}" using a(3) \<open>D \<subseteq> k_open k\<close> by (auto simp: adds_fds_def)
    ultimately show ?thesis using adds_fds_trans [OF assms a(3)] by blast
  next
    fix k'
    assume "create k = Inr (None, k')" "same_fds k k'"
    with adds_same_trans [OF assms] show ?thesis by blast
  qed simp
qed

text \<open>Creating and destroying an object leaves everything as it was.\<close>

lemma create_destroy:
  assumes "kern_inv k"
  shows "(\<exists>a k'. create k = Inr (Some a, k') \<and> adds_fds (handles a) k k' \<and> same_fds k (destroy a k')) \<or>
         (\<exists>k'. create k = Inr (None, k') \<and> same_fds k k') \<or> blind \<and> create k = Inl NULL_DEREF"
  using create_cases [OF assms]
proof (elim disjE exE conjE)
  fix a k'
  assume a: "create k = Inr (Some a, k')" "good a" "adds_fds (handles a) k k'"
  have "same_fds k (destroy a k')" using destroy_adds [OF a(2,3)] by (simp add: adds_fds_empty)
  with a show ?thesis by blast
qed auto

end

text \<open>One object after another.\<close>

locale object_pair =
  a: owned_object f df hf gf uf + b: owned_object g dg hg gg ug
  for f :: "kern \<Rightarrow> ('a option \<times> kern) run" and df hf gf uf
    and g :: "kern \<Rightarrow> ('b option \<times> kern) run" and dg hg gg ug
begin

lemma pair_create:
  assumes "kern_inv k"
  shows "(\<exists>p k'. seq_create f df g k = Inr (Some p, k') \<and>
            (gf (fst p) \<and> gg (snd p) \<and> hf (fst p) \<inter> hg (snd p) = {}) \<and>
            adds_fds (hf (fst p) \<union> hg (snd p)) k k') \<or>
         (\<exists>k'. seq_create f df g k = Inr (None, k') \<and> same_fds k k') \<or>
         (uf \<or> ug) \<and> seq_create f df g k = Inl NULL_DEREF"
  using a.create_cases [OF assms]
proof (elim disjE exE conjE)
  fix x k1
  assume x: "f k = Inr (Some x, k1)" "gf x" "adds_fds (hf x) k k1"
  from b.create_more [OF x(3)] show ?thesis
  proof (elim disjE exE conjE)
    fix y k2
    assume "g k1 = Inr (Some y, k2)" "gg y" "hf x \<inter> hg y = {}" "adds_fds (hf x \<union> hg y) k k2"
    with x show ?thesis by (simp add: seq_create_def)
  next
    fix k2
    assume y: "g k1 = Inr (None, k2)" "adds_fds (hf x) k k2"
    have "same_fds k (df x k2)" using a.destroy_adds [OF x(2) y(2)] by (simp add: adds_fds_empty)
    with x y show ?thesis by (simp add: seq_create_def)
  next
    assume "ug" "g k1 = Inl NULL_DEREF"
    with x show ?thesis by (simp add: seq_create_def)
  qed
next
  fix k1
  assume "f k = Inr (None, k1)" "same_fds k k1"
  then show ?thesis by (simp add: seq_create_def)
next
  assume "uf" "f k = Inl NULL_DEREF"
  then show ?thesis by (simp add: seq_create_def)
qed

lemma pair_destroy:
  assumes "gf x \<and> gg y \<and> hf x \<inter> hg y = {}" and "adds_fds D k0 k" and "hf x \<union> hg y \<subseteq> D"
  shows "adds_fds (D - (hf x \<union> hg y)) k0 (df x (dg y k))"
proof -
  have "adds_fds (D - hg y) k0 (dg y k)" by (rule b.destroy_adds) (use assms in auto)
  then have "adds_fds (D - hg y - hf x) k0 (df x (dg y k))"
    by (rule a.destroy_adds [rotated]) (use assms in auto)
  moreover have "D - hg y - hf x = D - (hf x \<union> hg y)" by blast
  ultimately show ?thesis by simp
qed

sublocale pair: owned_object "seq_create f df g" "seq_destroy df dg"
  "pair_handles hf hg" "pair_good hf hg gf gg" "uf \<or> ug"
  by unfold_locales
    (unfold pair_handles_def pair_good_def seq_destroy_def, rule pair_create, assumption, rule pair_destroy)

lemma pair_owned:
  "owned_object (seq_create f df g) (seq_destroy df dg) (pair_handles hf hg) (pair_good hf hg gf gg) (uf \<or> ug)"
  by (rule pair.owned_object_axioms)

end

text \<open>A list of objects made by a loop.\<close>

locale object_list = owned_object create destroy handles good blind
  for create :: "kern \<Rightarrow> ('a option \<times> kern) run" and destroy handles good blind +
  fixes put :: "'a \<Rightarrow> 'a list \<Rightarrow> 'a list"
  assumes put: "put = (#) \<or> put = push_back"
begin

lemma list_handles_put [simp]: "list_handles handles (put x xs) = list_handles handles xs \<union> handles x"
  using put by (auto simp: push_back_def)

lemma list_good_put:
  "list_good handles good (put x xs) \<longleftrightarrow>
     list_good handles good xs \<and> good x \<and> list_handles handles xs \<inter> handles x = {}"
  using put by (auto simp: push_back_def list_good_back)

lemma length_put: "length (put x xs) = Suc (length xs)"
  using put by (auto simp: push_back_def)

lemma fold_destroy_adds:
  "list_good handles good xs \<Longrightarrow> adds_fds D k0 k \<Longrightarrow> list_handles handles xs \<subseteq> D \<Longrightarrow>
     adds_fds (D - list_handles handles xs) k0 (fold destroy xs k)"
proof (induction xs arbitrary: D k)
  case Nil
  then show ?case by simp
next
  case (Cons x xs)
  have "adds_fds (D - handles x) k0 (destroy x k)"
    by (rule destroy_adds) (use Cons.prems in auto)
  then have "adds_fds (D - handles x - list_handles handles xs) k0 (fold destroy xs (destroy x k))"
    by (rule Cons.IH [rotated]) (use Cons.prems in auto)
  moreover have "D - handles x - list_handles handles xs = D - list_handles handles (x # xs)" by auto
  ultimately show ?case by simp
qed

lemma create_n_cases:
  assumes "list_good handles good xs" and "adds_fds (list_handles handles xs) k0 k"
  shows "(\<exists>ys k'. create_n put n create destroy xs k = Inr (Some ys, k') \<and> list_good handles good ys \<and>
            length ys = length xs + n \<and> adds_fds (list_handles handles ys) k0 k') \<or>
         (\<exists>k'. create_n put n create destroy xs k = Inr (None, k') \<and> same_fds k0 k') \<or>
         blind \<and> create_n put n create destroy xs k = Inl NULL_DEREF"
  using assms
proof (induction n arbitrary: xs k)
  case 0
  then show ?case by simp
next
  case (Suc n)
  from create_more [OF Suc.prems(2)] show ?case
  proof (elim disjE exE conjE)
    fix a k'
    assume a: "create k = Inr (Some a, k')" "good a" "list_handles handles xs \<inter> handles a = {}"
      "adds_fds (list_handles handles xs \<union> handles a) k0 k'"
    have "list_good handles good (put a xs)" using a Suc.prems(1) by (simp add: list_good_put)
    moreover have "adds_fds (list_handles handles (put a xs)) k0 k'" using a(4) by simp
    ultimately show ?case using Suc.IH [of "put a xs" k'] a(1) by (simp add: length_put)
  next
    fix k'
    assume "create k = Inr (None, k')" "adds_fds (list_handles handles xs) k0 k'"
    with fold_destroy_adds [OF Suc.prems(1), of "list_handles handles xs" k0 k'] show ?case
      by (simp add: adds_fds_empty)
  next
    assume "blind" "create k = Inl NULL_DEREF"
    then show ?case by simp
  qed
qed

sublocale elems: owned_object "create_n put n create destroy []" "fold destroy" "list_handles handles"
  "\<lambda>xs. list_good handles good xs \<and> length xs = n" blind for n
proof
  fix k :: kern
  assume "kern_inv k"
  then have "adds_fds (list_handles handles []) k k" by (simp add: adds_fds_empty same_fds_refl)
  from create_n_cases [OF _ this, of n]
  show "(\<exists>a k'. create_n put n create destroy [] k = Inr (Some a, k') \<and>
          (list_good handles good a \<and> length a = n) \<and> adds_fds (list_handles handles a) k k') \<or>
      (\<exists>k'. create_n put n create destroy [] k = Inr (None, k') \<and> same_fds k k') \<or>
      blind \<and> create_n put n create destroy [] k = Inl NULL_DEREF"
    by simp
qed (simp add: fold_destroy_adds)

lemma list_owned:
  "owned_object (create_n put n create destroy []) (fold destroy) (list_handles handles)
     (\<lambda>xs. list_good handles good xs \<and> length xs = n) blind"
  by (rule elems.owned_object_axioms)

end

section \<open>Blocks\<close>

lemma calloc_cases:
  assumes "kern_inv k"
  shows "(\<exists>b k'. calloc k = Inr (Some b, k') \<and> adds_fds {b} k k') \<or>
         (\<exists>k'. calloc k = Inr (None, k') \<and> same_fds k k')"
  using assms by (cases rule: sys_new_fd_cases) (auto simp: calloc_def)

interpretation blk: owned_object calloc free "\<lambda>b. {b}" "\<lambda>_. True" False
proof
  fix k :: kern
  assume "kern_inv k"
  from calloc_cases [OF this]
  show "(\<exists>a k'. calloc k = Inr (Some a, k') \<and> True \<and> adds_fds {a} k k') \<or>
      (\<exists>k'. calloc k = Inr (None, k') \<and> same_fds k k') \<or> False \<and> calloc k = Inl NULL_DEREF"
    by simp
qed (simp add: sys_close_adds)

interpretation bld: owned_object calloc_blind free "\<lambda>b. {b}" "\<lambda>_. True" True
proof
  fix k :: kern
  assume "kern_inv k"
  then show "(\<exists>a k'. calloc_blind k = Inr (Some a, k') \<and> True \<and> adds_fds {a} k k') \<or>
      (\<exists>k'. calloc_blind k = Inr (None, k') \<and> same_fds k k') \<or> True \<and> calloc_blind k = Inl NULL_DEREF"
    by (cases rule: sys_new_fd_cases) (auto simp: calloc_blind_def)
qed (simp add: sys_close_adds)

section \<open>Guarded memory\<close>

text \<open>
  The mapping of a stack or buffer between two guards: a block for the description, the device
  \<^verbatim>\<open>/dev/zero\<close>, the mapping, and the call that makes its middle accessible, whose
  outcome is the parameter \<open>prot\<close> (it depends on the two lengths only). When that call fails
  the block is freed, but not the mapping.
\<close>

record law_smem =
  sm_block :: fd
  sm_guard :: nat
  sm_length :: nat
  sm_address :: fd

definition law_smem_create ::
  "(nat \<Rightarrow> nat \<Rightarrow> bool) \<Rightarrow> nat \<Rightarrow> nat \<Rightarrow> kern \<Rightarrow> (law_smem option \<times> kern) run" where
  "law_smem_create prot len guard k =
     bindE (calloc k) (\<lambda>(mem, k).
       case mem of
         None \<Rightarrow> Inr (None, k)
       | Some mem \<Rightarrow>
           (case sys_new_fd k of
              (None, k) \<Rightarrow> Inr (None, free mem k)
            | (Some devz, k) \<Rightarrow>
                (case sys_new_fd k of
                   (address, k) \<Rightarrow>
                     let k = sys_close devz k in
                     case address of
                       None \<Rightarrow> Inr (None, free mem k)
                     | Some address \<Rightarrow>
                         if \<not> prot len guard then Inr (None, free mem k)
                         else Inr (Some \<lparr>sm_block = mem, sm_guard = guard, sm_length = len,
                                        sm_address = address\<rparr>, k))))"

definition law_smem_destroy :: "law_smem \<Rightarrow> kern \<Rightarrow> kern" where
  "law_smem_destroy mem k = free (sm_block mem) (sys_close (sm_address mem) k)"

definition smem_handles :: "law_smem \<Rightarrow> fd set" where
  "smem_handles mem = {sm_block mem, sm_address mem}"

lemma law_smem_create_cases:
  assumes "kern_inv k"
  obtains mem k' where "law_smem_create prot l g k = Inr (Some mem, k')" and "prot l g"
      and "sm_block mem \<noteq> sm_address mem" and "sm_length mem = l" and "sm_guard mem = g"
      and "adds_fds (smem_handles mem) k k'"
    | k' where "law_smem_create prot l g k = Inr (None, k')" and "same_fds k k'"
    | d k' where "law_smem_create prot l g k = Inr (None, k')" and "\<not> prot l g" and "adds_fds {d} k k'"
  using calloc_cases [OF assms]
proof (elim disjE exE conjE)
  fix k1
  assume "calloc k = Inr (None, k1)" "same_fds k k1"
  then show thesis using that(2) by (simp add: law_smem_create_def)
next
  fix b k1
  assume b: "calloc k = Inr (Some b, k1)" "adds_fds {b} k k1"
  have close: "same_fds k (free b k')" if "adds_fds {b} k k'" for k'
    using sys_close_adds [OF that, of b] by (simp add: adds_fds_empty)
  show thesis
    using adds_fds_inv [OF b(2)]
  proof (cases rule: sys_new_fd_cases)
    case (1 k2)
    have "adds_fds {b} k k2" by (rule adds_same_trans [OF b(2) 1(2)])
    with b(1) 1(1) close that(2) show thesis by (simp add: law_smem_create_def)
  next
    case (2 d k2)
    have d: "d \<noteq> b" using b(2) 2(2) by (auto simp: adds_fds_def)
    have a2: "adds_fds {b, d} k k2" using adds_fds_trans [OF b(2) 2(2)] by (simp add: insert_commute)
    show thesis
      using adds_fds_inv [OF 2(2)]
    proof (cases rule: sys_new_fd_cases)
      case m: (1 k3)
      have "adds_fds {b, d} k k3" by (rule adds_same_trans [OF a2 m(2)])
      from sys_close_adds [OF this, of d] d have "adds_fds {b} k (sys_close d k3)"
        by (simp add: insert_Diff_if)
      with b(1) 2(1) m(1) close that(2) show thesis by (simp add: law_smem_create_def Let_def)
    next
      case m: (2 a k3)
      have ne: "a \<noteq> b" "a \<noteq> d" using a2 m(2) by (auto simp: adds_fds_def)
      have "adds_fds ({b, d} \<union> {a}) k k3" by (rule adds_fds_trans [OF a2 m(2)])
      from sys_close_adds [OF this, of d] d ne
      have a3: "adds_fds {b, a} k (sys_close d k3)" by (simp add: insert_Diff_if insert_commute)
      show thesis
      proof (cases "prot l g")
        case True
        with b(1) 2(1) m(1) a3 ne that(1) [of "\<lparr>sm_block = b, sm_guard = g, sm_length = l, sm_address = a\<rparr>"]
        show thesis by (simp add: law_smem_create_def Let_def smem_handles_def)
      next
        case False
        from sys_close_adds [OF a3, of b] ne have "adds_fds {a} k (free b (sys_close d k3))"
          by (simp add: insert_Diff_if)
        with False b(1) 2(1) m(1) that(3) show thesis by (simp add: law_smem_create_def Let_def)
      qed
    qed
  qed
qed

text \<open>Where the access is granted, as for page-sized guards, it is an owned object.\<close>

interpretation sm: owned_object "law_smem_create (\<lambda>_ _. True) l g" law_smem_destroy smem_handles
  "\<lambda>mem. sm_block mem \<noteq> sm_address mem" False for l g
proof
  fix k :: kern
  assume "kern_inv k"
  then show "(\<exists>a k'. law_smem_create (\<lambda>_ _. True) l g k = Inr (Some a, k') \<and>
        sm_block a \<noteq> sm_address a \<and> adds_fds (smem_handles a) k k') \<or>
      (\<exists>k'. law_smem_create (\<lambda>_ _. True) l g k = Inr (None, k') \<and> same_fds k k') \<or>
      False \<and> law_smem_create (\<lambda>_ _. True) l g k = Inl NULL_DEREF"
    by (cases rule: law_smem_create_cases [where prot = "\<lambda>_ _. True" and l = l and g = g]) auto
next
  fix a :: law_smem and D k0 k
  assume a: "sm_block a \<noteq> sm_address a" "adds_fds D k0 k" "smem_handles a \<subseteq> D"
  then have "adds_fds (D - {sm_address a}) k0 (sys_close (sm_address a) k)"
    by (intro sys_close_adds) (auto simp: smem_handles_def)
  from sys_close_adds [OF this, of "sm_block a"] a
  have "adds_fds (D - {sm_address a} - {sm_block a}) k0 (law_smem_destroy a k)"
    by (simp add: law_smem_destroy_def smem_handles_def)
  moreover have "D - {sm_address a} - {sm_block a} = D - smem_handles a"
    by (auto simp: smem_handles_def)
  ultimately show "adds_fds (D - smem_handles a) k0 (law_smem_destroy a k)" by simp
qed

section \<open>The objects of a server\<close>

abbreviation one :: "fd \<Rightarrow> fd set" where
  "one \<equiv> \<lambda>b. {b}"

abbreviation any :: "fd \<Rightarrow> bool" where
  "any \<equiv> \<lambda>_. True"

definition law_cor_create :: "kern \<Rightarrow> (fd option \<times> kern) run" where
  "law_cor_create = calloc"

definition law_cor_destroy :: "fd \<Rightarrow> kern \<Rightarrow> kern" where
  "law_cor_destroy = free"

text \<open>
  The event object, the timer and the table are a block and an array each; the libraries pubmt
  allocate the arrays of the timer and the table. The assertion is in \<^verbatim>\<open>law_evo_create\<close>.
\<close>

definition evo_create :: "int \<Rightarrow> kern \<Rightarrow> ((fd \<times> fd) option \<times> kern) run" where
  "evo_create max_events k = require SEL_ASSERT (max_events > 0) (seq_create calloc free calloc k)"

definition law_evo_destroy :: "fd \<times> fd \<Rightarrow> kern \<Rightarrow> kern" where
  "law_evo_destroy = seq_destroy free free"

definition timer_create :: "kern \<Rightarrow> ((fd \<times> fd) option \<times> kern) run" where
  "timer_create = seq_create calloc free calloc"

definition law_timer_destroy :: "fd \<times> fd \<Rightarrow> kern \<Rightarrow> kern" where
  "law_timer_destroy = seq_destroy free free"

definition table_create :: "kern \<Rightarrow> ((fd \<times> fd) option \<times> kern) run" where
  "table_create = seq_create calloc free calloc"

text \<open>The table as it is when no task is left: the loop over its nodes finds none.\<close>

definition table_destroy :: "fd \<times> fd \<Rightarrow> kern \<Rightarrow> kern" where
  "table_destroy = seq_destroy free free"

type_synonym task_obj = "(fd \<times> fd) \<times> law_smem"

definition law_task_create ::
  "(nat \<Rightarrow> nat \<Rightarrow> bool) \<Rightarrow> nat \<Rightarrow> nat \<Rightarrow> kern \<Rightarrow> (task_obj option \<times> kern) run" where
  "law_task_create prot stack_length stack_guard =
     seq_create (seq_create calloc free law_cor_create) (seq_destroy free law_cor_destroy)
       (law_smem_create prot stack_length stack_guard)"

definition law_task_destroy :: "task_obj \<Rightarrow> kern \<Rightarrow> kern" where
  "law_task_destroy = seq_destroy (seq_destroy free law_cor_destroy) law_smem_destroy"

type_synonym pool_obj = "fd \<times> task_obj list"

text \<open>The tasks of the pool are a linked list with the last one made in front.\<close>

definition pool_parts ::
  "(nat \<Rightarrow> nat \<Rightarrow> bool) \<Rightarrow> nat \<Rightarrow> nat \<Rightarrow> nat \<Rightarrow> kern \<Rightarrow> (pool_obj option \<times> kern) run" where
  "pool_parts prot stack guards n =
     seq_create calloc free
       (create_n (#) n (law_task_create prot stack guards) law_task_destroy [])"

definition law_task_pool_create ::
  "(nat \<Rightarrow> nat \<Rightarrow> bool) \<Rightarrow> 'cb law_server_cfg \<Rightarrow> kern \<Rightarrow> (pool_obj option \<times> kern) run" where
  "law_task_pool_create prot cfg k =
     (let capacity = cf_worker_tasks cfg * cf_workers cfg in
      bindE (pool_parts prot (cf_stack cfg) (cf_guards cfg) (nat capacity) k) (\<lambda>(p, k).
        case p of
          None \<Rightarrow> Inr (None, k)
        | Some p \<Rightarrow>
            require SEL_ASSERT (capacity mod 2 ^ 64 = int (length (snd p))) (Inr (Some p, k))))"

definition law_task_pool_destroy :: "pool_obj \<Rightarrow> kern \<Rightarrow> kern" where
  "law_task_pool_destroy = seq_destroy free (fold law_task_destroy)"

type_synonym worker_obj = "(((fd \<times> fd) \<times> fd \<times> fd) \<times> fd \<times> fd) \<times> fd \<times> fd"

definition law_worker_create :: "'cb law_server_cfg \<Rightarrow> kern \<Rightarrow> (worker_obj option \<times> kern) run" where
  "law_worker_create cfg =
     seq_create
      (seq_create
        (seq_create (seq_create calloc free law_cor_create) (seq_destroy free law_cor_destroy)
          timer_create)
        (seq_destroy (seq_destroy free law_cor_destroy) law_timer_destroy)
        (evo_create (cf_worker_events cfg)))
      (seq_destroy (seq_destroy (seq_destroy free law_cor_destroy) law_timer_destroy) law_evo_destroy)
      table_create"

definition law_worker_destroy :: "worker_obj \<Rightarrow> kern \<Rightarrow> kern" where
  "law_worker_destroy =
     seq_destroy
      (seq_destroy (seq_destroy (seq_destroy free law_cor_destroy) law_timer_destroy) law_evo_destroy)
      table_destroy"

type_synonym server_obj = "((((fd \<times> fd) \<times> fd) \<times> fd \<times> fd) \<times> pool_obj) \<times> worker_obj list"

text \<open>The block of the server, its arrays of threads and of workers, its event object and its pool.\<close>

definition server_arrays :: "kern \<Rightarrow> (((fd \<times> fd) \<times> fd) option \<times> kern) run" where
  "server_arrays = seq_create (seq_create calloc free calloc) (seq_destroy free free) calloc"

definition law_server_create ::
  "(nat \<Rightarrow> nat \<Rightarrow> bool) \<Rightarrow> 'cb law_server_cfg \<Rightarrow> kern \<Rightarrow> (server_obj option \<times> kern) run" where
  "law_server_create prot cfg k =
     require SEL_ASSERT (0 < cf_workers cfg \<and> cf_workers cfg < 0x1000)
      (require SEL_ASSERT (0 < cf_server_events cfg \<and> cf_server_events cfg < 0x1000)
        (seq_create
          (seq_create
            (seq_create server_arrays (seq_destroy (seq_destroy free free) free)
              (evo_create (cf_server_events cfg)))
            (seq_destroy (seq_destroy (seq_destroy free free) free) law_evo_destroy)
            (law_task_pool_create prot cfg))
          (seq_destroy (seq_destroy (seq_destroy (seq_destroy free free) free) law_evo_destroy)
            law_task_pool_destroy)
          (create_n push_back (nat (cf_workers cfg)) (law_worker_create cfg) law_worker_destroy [])
          k))"

definition law_server_destroy :: "server_obj \<Rightarrow> kern \<Rightarrow> kern" where
  "law_server_destroy =
     seq_destroy
       (seq_destroy (seq_destroy (seq_destroy (seq_destroy free free) free) law_evo_destroy)
         law_task_pool_destroy)
       (fold law_worker_destroy)"


section \<open>What the objects own\<close>

definition two_fds :: "fd \<times> fd \<Rightarrow> fd set" where
  "two_fds = pair_handles one one"

definition two_good :: "fd \<times> fd \<Rightarrow> bool" where
  "two_good = pair_good one one any any"

definition smem_good :: "law_smem \<Rightarrow> bool" where
  "smem_good mem \<longleftrightarrow> sm_block mem \<noteq> sm_address mem"

definition task_handles :: "task_obj \<Rightarrow> fd set" where
  "task_handles = pair_handles two_fds smem_handles"

definition task_good :: "task_obj \<Rightarrow> bool" where
  "task_good = pair_good two_fds smem_handles two_good smem_good"

definition pool_handles :: "pool_obj \<Rightarrow> fd set" where
  "pool_handles = pair_handles one (list_handles task_handles)"

definition pool_good :: "nat \<Rightarrow> pool_obj \<Rightarrow> bool" where
  "pool_good n = pair_good one (list_handles task_handles) any
     (\<lambda>ts. list_good task_handles task_good ts \<and> length ts = n)"

definition worker_handles :: "worker_obj \<Rightarrow> fd set" where
  "worker_handles = pair_handles (pair_handles (pair_handles two_fds two_fds) two_fds) two_fds"

definition worker_good :: "worker_obj \<Rightarrow> bool" where
  "worker_good =
     pair_good (pair_handles (pair_handles two_fds two_fds) two_fds) two_fds
       (pair_good (pair_handles two_fds two_fds) two_fds
         (pair_good two_fds two_fds two_good two_good) two_good) two_good"

definition arrays_handles :: "(fd \<times> fd) \<times> fd \<Rightarrow> fd set" where
  "arrays_handles = pair_handles two_fds one"

definition arrays_good :: "(fd \<times> fd) \<times> fd \<Rightarrow> bool" where
  "arrays_good = pair_good two_fds one two_good any"

definition server_handles :: "server_obj \<Rightarrow> fd set" where
  "server_handles =
     pair_handles (pair_handles (pair_handles arrays_handles two_fds) pool_handles)
       (list_handles worker_handles)"

definition server_good :: "nat \<Rightarrow> nat \<Rightarrow> server_obj \<Rightarrow> bool" where
  "server_good tasks workers =
     pair_good (pair_handles (pair_handles arrays_handles two_fds) pool_handles) (list_handles worker_handles)
       (pair_good (pair_handles arrays_handles two_fds) pool_handles
         (pair_good arrays_handles two_fds arrays_good two_good) (pool_good tasks))
       (\<lambda>ws. list_good worker_handles worker_good ws \<and> length ws = workers)"

abbreviation granted :: "nat \<Rightarrow> nat \<Rightarrow> bool" where
  "granted \<equiv> \<lambda>_ _. True"

text \<open>
  The contract, for one object after another. Each interpretation joins the constructor of
  the parts made so far with that of the next part.
\<close>

interpretation bb: object_pair calloc free one any False calloc free one any False
  by (intro object_pair.intro blk.owned_object_axioms)

lemma two_owned: "owned_object (seq_create calloc free calloc) (seq_destroy free free) two_fds two_good False"
  using bb.pair_owned by (simp add: two_fds_def two_good_def)

lemma timer_owned: "owned_object timer_create law_timer_destroy two_fds two_good False"
  using two_owned by (simp add: timer_create_def law_timer_destroy_def)

lemma table_owned: "owned_object table_create table_destroy two_fds two_good False"
  using two_owned by (simp add: table_create_def table_destroy_def)

lemma evo_owned: "0 < n \<Longrightarrow> owned_object (evo_create n) law_evo_destroy two_fds two_good False"
  using two_owned by (simp add: evo_create_def [abs_def] law_evo_destroy_def)

lemma block_cor_owned:
  "owned_object (seq_create calloc free law_cor_create) (seq_destroy free law_cor_destroy) two_fds two_good False"
  using two_owned by (simp add: law_cor_create_def law_cor_destroy_def)

lemma smem_owned: "owned_object (law_smem_create granted l g) law_smem_destroy smem_handles smem_good False"
  using sm.owned_object_axioms by (simp add: smem_good_def [abs_def])

interpretation tk: object_pair "seq_create calloc free law_cor_create" "seq_destroy free law_cor_destroy"
  two_fds two_good False "law_smem_create granted l g" law_smem_destroy smem_handles smem_good False for l g
  by (intro object_pair.intro block_cor_owned smem_owned)

lemma task_owned: "owned_object (law_task_create granted l g) law_task_destroy task_handles task_good False"
  using tk.pair_owned
  by (simp add: law_task_create_def law_task_destroy_def task_handles_def task_good_def)

interpretation tks: object_list "law_task_create granted l g" law_task_destroy task_handles task_good False
  "(#)" for l g
  by (intro object_list.intro object_list_axioms.intro task_owned) simp

interpretation pl: object_pair calloc free one any False
  "create_n (#) n (law_task_create granted l g) law_task_destroy []" "fold law_task_destroy"
  "list_handles task_handles" "\<lambda>ts. list_good task_handles task_good ts \<and> length ts = n" False for n l g
  by (intro object_pair.intro blk.owned_object_axioms tks.list_owned)

lemma pool_parts_owned:
  "owned_object (pool_parts granted l g n) law_task_pool_destroy pool_handles (pool_good n) False"
  using pl.pair_owned
  by (simp add: pool_parts_def law_task_pool_destroy_def pool_handles_def pool_good_def)

lemma pool_owned:
  assumes "0 \<le> cf_worker_tasks cfg * cf_workers cfg" and "cf_worker_tasks cfg * cf_workers cfg < 2 ^ 64"
  shows "owned_object (law_task_pool_create granted cfg) law_task_pool_destroy pool_handles
           (pool_good (nat (cf_worker_tasks cfg * cf_workers cfg))) False"
proof
  let ?n = "nat (cf_worker_tasks cfg * cf_workers cfg)"
  fix k :: kern
  assume "kern_inv k"
  from owned_object.create_cases [OF pool_parts_owned this, of "cf_stack cfg" "cf_guards cfg" ?n]
  show "(\<exists>a k'. law_task_pool_create granted cfg k = Inr (Some a, k') \<and> pool_good ?n a \<and>
        adds_fds (pool_handles a) k k') \<or>
      (\<exists>k'. law_task_pool_create granted cfg k = Inr (None, k') \<and> same_fds k k') \<or>
      False \<and> law_task_pool_create granted cfg k = Inl NULL_DEREF"
  proof (elim disjE exE conjE)
    fix p k'
    assume p: "pool_parts granted (cf_stack cfg) (cf_guards cfg) ?n k = Inr (Some p, k')"
      "pool_good ?n p" "adds_fds (pool_handles p) k k'"
    have "length (snd p) = ?n" using p(2) by (simp add: pool_good_def pair_good_def)
    with p assms show ?thesis by (simp add: law_task_pool_create_def Let_def)
  qed (simp_all add: law_task_pool_create_def Let_def)
qed (rule owned_object.destroy_adds [OF pool_parts_owned])

interpretation wk1: object_pair "seq_create calloc free law_cor_create" "seq_destroy free law_cor_destroy"
  two_fds two_good False timer_create law_timer_destroy two_fds two_good False
  by (intro object_pair.intro block_cor_owned timer_owned)

lemma worker_owned:
  assumes "0 < cf_worker_events cfg"
  shows "owned_object (law_worker_create cfg) law_worker_destroy worker_handles worker_good False"
proof -
  note evo = evo_owned [OF assms]
  note p = wk1.pair_owned
  note q = object_pair.pair_owned [OF object_pair.intro [OF p evo]]
  from object_pair.pair_owned [OF object_pair.intro [OF q table_owned]]
  show ?thesis by (simp add: law_worker_create_def law_worker_destroy_def worker_handles_def worker_good_def)
qed

interpretation ar: object_pair "seq_create calloc free calloc" "seq_destroy free free" two_fds two_good False
  calloc free one any False
  by (intro object_pair.intro two_owned blk.owned_object_axioms)

lemma arrays_owned:
  "owned_object server_arrays (seq_destroy (seq_destroy free free) free) arrays_handles arrays_good False"
  using ar.pair_owned by (simp add: server_arrays_def arrays_handles_def arrays_good_def)

lemma workers_owned:
  assumes "0 < cf_worker_events cfg"
  shows "owned_object (create_n push_back n (law_worker_create cfg) law_worker_destroy [])
           (fold law_worker_destroy) (list_handles worker_handles)
           (\<lambda>ws. list_good worker_handles worker_good ws \<and> length ws = n) False"
  by (rule object_list.list_owned)
    (intro object_list.intro object_list_axioms.intro worker_owned assms, simp)

text \<open>What the configuration must satisfy: the bounds that the constructors assert.\<close>

definition cfg_bounds :: "'cb law_server_cfg \<Rightarrow> bool" where
  "cfg_bounds cfg \<longleftrightarrow>
     0 < cf_workers cfg \<and> cf_workers cfg < 0x1000 \<and>
     0 < cf_server_events cfg \<and> cf_server_events cfg < 0x1000 \<and> 0 < cf_worker_events cfg \<and>
     0 \<le> cf_worker_tasks cfg \<and> cf_worker_tasks cfg * cf_workers cfg < 2 ^ 31"

lemma server_owned:
  assumes "cfg_bounds cfg"
  shows "owned_object (law_server_create granted cfg) law_server_destroy server_handles
           (server_good (nat (cf_worker_tasks cfg * cf_workers cfg)) (nat (cf_workers cfg))) False"
proof -
  have "0 \<le> cf_worker_tasks cfg * cf_workers cfg" using assms by (simp add: cfg_bounds_def)
  moreover have "cf_worker_tasks cfg * cf_workers cfg < 2 ^ 64" using assms by (simp add: cfg_bounds_def)
  ultimately have pool: "owned_object (law_task_pool_create granted cfg) law_task_pool_destroy
      pool_handles (pool_good (nat (cf_worker_tasks cfg * cf_workers cfg))) False"
    by (rule pool_owned)
  have "0 < cf_server_events cfg" "0 < cf_worker_events cfg" using assms by (simp_all add: cfg_bounds_def)
  note evo = evo_owned [OF this(1)] and ws = workers_owned [OF this(2), of "nat (cf_workers cfg)"]
  note p = object_pair.pair_owned [OF object_pair.intro [OF arrays_owned evo]]
  note q = object_pair.pair_owned [OF object_pair.intro [OF p pool]]
  note r = object_pair.pair_owned [OF object_pair.intro [OF q ws]]
  have "law_server_create granted cfg =
      seq_create
        (seq_create
          (seq_create server_arrays (seq_destroy (seq_destroy free free) free) (evo_create (cf_server_events cfg)))
          (seq_destroy (seq_destroy (seq_destroy free free) free) law_evo_destroy)
          (law_task_pool_create granted cfg))
        (seq_destroy (seq_destroy (seq_destroy (seq_destroy free free) free) law_evo_destroy) law_task_pool_destroy)
        (create_n push_back (nat (cf_workers cfg)) (law_worker_create cfg) law_worker_destroy [])"
    using assms by (intro ext) (simp add: law_server_create_def cfg_bounds_def)
  with r show ?thesis by (simp add: law_server_destroy_def server_handles_def server_good_def)
qed

section \<open>Nothing leaks\<close>



text \<open>
  The guarded memory is not cleaned up when the protection cannot be changed: if
  \<^verbatim>\<open>mprotect\<close> fails, \<^verbatim>\<open>law_smem_create\<close> returns NULL, as it does when an
  earlier call fails, but where the mapping had been made one more handle, the mapping, is left, which no
  function can release any more.
\<close>

theorem law_smem_create_leaks:
  assumes "kern_inv k" and "\<not> prot len guard"
  shows "\<exists>k'. law_smem_create prot len guard k = Inr (None, k') \<and>
           (same_fds k k' \<or> (\<exists>d. adds_fds {d} k k')) \<and>
           (k_outs k = [] \<longrightarrow> \<not> same_fds k k')"
  using assms
proof (cases rule: law_smem_create_cases [where prot = prot and l = len and g = guard])
  case (2 k')
  have "k_outs k \<noteq> []" if "law_smem_create prot len guard k = Inr (None, k')" "same_fds k k'"
  proof
    assume o: "k_outs k = []"
    have "k_next k + 2 \<in> k_open k'"
      using that(1) o assms(2) by (auto simp: law_smem_create_def calloc_def sys_new_fd_def sys_call_def
          sys_close_def Let_def split: if_splits)
    moreover have "k_next k + 2 \<notin> k_open k" using assms(1) by (auto simp: kern_inv_def)
    ultimately show False using that(2) by (simp add: same_fds_def)
  qed
  with 2 show ?thesis by blast
next
  case (3 d k')
  then have "\<not> same_fds k k'" by (auto simp: same_fds_def adds_fds_def)
  with 3 show ?thesis by blast
qed (use assms in auto)

theorem law_smem_create_leaks_witness:
  "\<exists>k'. law_smem_create (\<lambda>len guard. guard mod 4096 = 0) 8192 100 (demo_kern []) = Inr (None, k') \<and>
     \<not> same_fds (demo_kern []) k'"
proof -
  let ?prot = "\<lambda>len guard :: nat. guard mod 4096 = 0"
  have "\<not> ?prot 8192 100" by simp
  then obtain k' where "law_smem_create ?prot 8192 100 (demo_kern []) = Inr (None, k')"
    and "k_outs (demo_kern []) = [] \<longrightarrow> \<not> same_fds (demo_kern []) k'"
    using law_smem_create_leaks [OF demo_kern_inv, of ?prot 8192 100 "[]"] by blast
  then show ?thesis by (auto simp: demo_kern_def)
qed

end
