(* ===== verification/HttpPools.thy ===== *)
theory HttpPools
  imports Lifecycle
begin

text \<open>
  The memory of the HTTP server, \<^verbatim>\<open>http_server.c\<close>: buffers and parser stacks, each
  a block with a guarded mapping; the four pools of them that every worker has; and the server that
  holds a group of pools for each worker. This theory builds and destroys
  them over the handles of the theory \<open>Sys\<close>; the pools at run time are the theory
  \<open>HttpGroup\<close>. The counts are those of a configuration whose \<^verbatim>\<open>worker_tasks\<close>
  is not negative.
\<close>

section \<open>Configuration\<close>

text \<open>Any other integer stands in the last constructor.\<close>

datatype htc_security = LAW_HTC_UNSECURED | LAW_HTC_SSL | SECURITY_OTHER int

text \<open>A callback is a pointer that may be null; the timeouts are in milliseconds.\<close>

record 'cb law_htserver_cfg =
  hc_in :: nat
  hc_out :: nat
  hc_stack :: nat
  hc_heap :: nat
  hc_on_accept :: "'cb option"
  hc_on_error :: "'cb option"
  hc_data :: u64
  hc_security :: htc_security
  hc_cert :: "string option"
  hc_pkey :: "string option"
  hc_ssl_shutdown_timeout :: int
  hc_reqline_timeout :: int
  hc_headers_timeout :: int

definition law_htserver_sanity :: "'cb law_htserver_cfg" where
  "law_htserver_sanity =
     \<lparr>hc_in = 0x2000, hc_out = 0x2000, hc_stack = 0x1000, hc_heap = 0xF000,
      hc_on_accept = None, hc_on_error = None, hc_data = 0, hc_security = LAW_HTC_UNSECURED,
      hc_cert = None, hc_pkey = None,
      hc_ssl_shutdown_timeout = 0, hc_reqline_timeout = 0, hc_headers_timeout = 0\<rparr>"

section \<open>Buffers and stacks\<close>

type_synonym mapped_obj = "fd \<times> law_smem"

definition law_hts_buf_create ::
  "(nat \<Rightarrow> nat \<Rightarrow> bool) \<Rightarrow> nat \<Rightarrow> kern \<Rightarrow> (mapped_obj option \<times> kern) run" where
  "law_hts_buf_create prot len = seq_create calloc free (law_smem_create prot len 4096)"

definition law_hts_buf_destroy :: "mapped_obj \<Rightarrow> kern \<Rightarrow> kern" where
  "law_hts_buf_destroy = seq_destroy free law_smem_destroy"

definition law_hts_stk_create ::
  "(nat \<Rightarrow> nat \<Rightarrow> bool) \<Rightarrow> nat \<Rightarrow> kern \<Rightarrow> (mapped_obj option \<times> kern) run" where
  "law_hts_stk_create prot len = seq_create calloc free (law_smem_create prot len 4096)"

definition law_hts_stk_destroy :: "mapped_obj \<Rightarrow> kern \<Rightarrow> kern" where
  "law_hts_stk_destroy = seq_destroy free law_smem_destroy"

text \<open>A pool is the list of its nodes, the last one made in front; freeing it empties it from the front.\<close>

definition law_hts_buf_pool_free :: "mapped_obj list \<Rightarrow> kern \<Rightarrow> kern" where
  "law_hts_buf_pool_free = fold law_hts_buf_destroy"

definition law_hts_buf_pool_init ::
  "(nat \<Rightarrow> nat \<Rightarrow> bool) \<Rightarrow> nat \<Rightarrow> nat \<Rightarrow> kern \<Rightarrow> (mapped_obj list option \<times> kern) run" where
  "law_hts_buf_pool_init prot pool_size buf_length =
     create_n (#) pool_size (law_hts_buf_create prot buf_length) law_hts_buf_destroy []"

definition law_hts_stk_pool_free :: "mapped_obj list \<Rightarrow> kern \<Rightarrow> kern" where
  "law_hts_stk_pool_free = fold law_hts_stk_destroy"

definition law_hts_stk_pool_init ::
  "(nat \<Rightarrow> nat \<Rightarrow> bool) \<Rightarrow> nat \<Rightarrow> nat \<Rightarrow> kern \<Rightarrow> (mapped_obj list option \<times> kern) run" where
  "law_hts_stk_pool_init prot pool_size stk_length =
     create_n (#) pool_size (law_hts_stk_create prot stk_length) law_hts_stk_destroy []"

section \<open>Groups and the server\<close>

text \<open>
  The block of a group is written to without a check for the null pointer, which is why it is
  made by \<open>calloc_blind\<close>. The pools are made in the order heap, stack, in, out and freed in
  the reverse order.
\<close>

type_synonym group_obj =
  "(((fd \<times> mapped_obj list) \<times> mapped_obj list) \<times> mapped_obj list) \<times> mapped_obj list"

definition law_hts_pool_group_create ::
  "(nat \<Rightarrow> nat \<Rightarrow> bool) \<Rightarrow> 'c law_server_cfg \<Rightarrow> 'cb law_htserver_cfg \<Rightarrow> kern \<Rightarrow>
   (group_obj option \<times> kern) run" where
  "law_hts_pool_group_create prot server_cfg htserver_cfg =
     (let n = nat (cf_worker_tasks server_cfg) in
      seq_create
       (seq_create
        (seq_create
         (seq_create calloc_blind free
           (law_hts_stk_pool_init prot n (hc_heap htserver_cfg)))
         (seq_destroy free law_hts_stk_pool_free)
         (law_hts_stk_pool_init prot n (hc_stack htserver_cfg)))
        (seq_destroy (seq_destroy free law_hts_stk_pool_free) law_hts_stk_pool_free)
        (law_hts_buf_pool_init prot n (hc_in htserver_cfg)))
       (seq_destroy (seq_destroy (seq_destroy free law_hts_stk_pool_free) law_hts_stk_pool_free)
         law_hts_buf_pool_free)
       (law_hts_buf_pool_init prot n (hc_out htserver_cfg)))"

definition law_hts_pool_group_destroy :: "group_obj \<Rightarrow> kern \<Rightarrow> kern" where
  "law_hts_pool_group_destroy =
     seq_destroy
      (seq_destroy (seq_destroy (seq_destroy free law_hts_stk_pool_free) law_hts_stk_pool_free)
        law_hts_buf_pool_free)
      law_hts_buf_pool_free"

type_synonym groups_obj = "fd \<times> group_obj list"

definition law_hts_pool_groups_create ::
  "(nat \<Rightarrow> nat \<Rightarrow> bool) \<Rightarrow> 'c law_server_cfg \<Rightarrow> 'cb law_htserver_cfg \<Rightarrow> kern \<Rightarrow>
   (groups_obj option \<times> kern) run" where
  "law_hts_pool_groups_create prot srv_cfg hts_cfg =
     seq_create calloc free
       (create_n push_back (nat (cf_workers srv_cfg)) (law_hts_pool_group_create prot srv_cfg hts_cfg)
         law_hts_pool_group_destroy [])"

definition law_hts_pool_groups_destroy :: "groups_obj \<Rightarrow> kern \<Rightarrow> kern" where
  "law_hts_pool_groups_destroy = seq_destroy free (fold law_hts_pool_group_destroy)"

definition law_htserver_create ::
  "(nat \<Rightarrow> nat \<Rightarrow> bool) \<Rightarrow> 'c law_server_cfg \<Rightarrow> 'cb law_htserver_cfg \<Rightarrow> kern \<Rightarrow>
   ((fd \<times> groups_obj) option \<times> kern) run" where
  "law_htserver_create prot srv_cfg hts_cfg =
     seq_create calloc free (law_hts_pool_groups_create prot srv_cfg hts_cfg)"

definition law_htserver_destroy :: "fd \<times> groups_obj \<Rightarrow> kern \<Rightarrow> kern" where
  "law_htserver_destroy = seq_destroy free law_hts_pool_groups_destroy"

section \<open>What they own\<close>

definition mapped_handles :: "mapped_obj \<Rightarrow> fd set" where
  "mapped_handles = pair_handles one smem_handles"

definition mapped_good :: "mapped_obj \<Rightarrow> bool" where
  "mapped_good = pair_good one smem_handles any smem_good"

definition mapped_pool_good :: "nat \<Rightarrow> mapped_obj list \<Rightarrow> bool" where
  "mapped_pool_good n xs \<longleftrightarrow> list_good mapped_handles mapped_good xs \<and> length xs = n"

abbreviation mapped_pool_handles :: "mapped_obj list \<Rightarrow> fd set" where
  "mapped_pool_handles \<equiv> list_handles mapped_handles"

definition group_handles :: "group_obj \<Rightarrow> fd set" where
  "group_handles =
     pair_handles
      (pair_handles (pair_handles (pair_handles one mapped_pool_handles) mapped_pool_handles)
        mapped_pool_handles) mapped_pool_handles"

definition group_good :: "nat \<Rightarrow> group_obj \<Rightarrow> bool" where
  "group_good n =
     pair_good
      (pair_handles (pair_handles (pair_handles one mapped_pool_handles) mapped_pool_handles)
        mapped_pool_handles) mapped_pool_handles
      (pair_good
        (pair_handles (pair_handles one mapped_pool_handles) mapped_pool_handles) mapped_pool_handles
        (pair_good (pair_handles one mapped_pool_handles) mapped_pool_handles
          (pair_good one mapped_pool_handles any (mapped_pool_good n)) (mapped_pool_good n))
        (mapped_pool_good n))
      (mapped_pool_good n)"

definition groups_handles :: "groups_obj \<Rightarrow> fd set" where
  "groups_handles = pair_handles one (list_handles group_handles)"

definition groups_good :: "nat \<Rightarrow> nat \<Rightarrow> groups_obj \<Rightarrow> bool" where
  "groups_good n w =
     pair_good one (list_handles group_handles) any
       (\<lambda>gs. list_good group_handles (group_good n) gs \<and> length gs = w)"

definition htserver_handles :: "fd \<times> groups_obj \<Rightarrow> fd set" where
  "htserver_handles = pair_handles one groups_handles"

definition htserver_good :: "nat \<Rightarrow> nat \<Rightarrow> fd \<times> groups_obj \<Rightarrow> bool" where
  "htserver_good n w = pair_good one groups_handles any (groups_good n w)"

interpretation mp: object_pair calloc free one any False
  "law_smem_create granted len 4096" law_smem_destroy smem_handles smem_good False for len
  by (intro object_pair.intro blk.owned_object_axioms smem_owned)

lemma buf_owned:
  "owned_object (law_hts_buf_create granted len) law_hts_buf_destroy mapped_handles mapped_good False"
  using mp.pair_owned
  by (simp add: law_hts_buf_create_def law_hts_buf_destroy_def mapped_handles_def mapped_good_def)

lemma stk_owned:
  "owned_object (law_hts_stk_create granted len) law_hts_stk_destroy mapped_handles mapped_good False"
  using mp.pair_owned
  by (simp add: law_hts_stk_create_def law_hts_stk_destroy_def mapped_handles_def mapped_good_def)

interpretation bufs: object_list "law_hts_buf_create granted len" law_hts_buf_destroy mapped_handles
  mapped_good False "(#)" for len
  by (intro object_list.intro object_list_axioms.intro buf_owned) simp

interpretation stks: object_list "law_hts_stk_create granted len" law_hts_stk_destroy mapped_handles
  mapped_good False "(#)" for len
  by (intro object_list.intro object_list_axioms.intro stk_owned) simp

lemma buf_pool_owned:
  "owned_object (law_hts_buf_pool_init granted n len) law_hts_buf_pool_free mapped_pool_handles
     (mapped_pool_good n) False"
  using bufs.list_owned
  by (simp add: law_hts_buf_pool_init_def law_hts_buf_pool_free_def mapped_pool_good_def [abs_def])

lemma stk_pool_owned:
  "owned_object (law_hts_stk_pool_init granted n len) law_hts_stk_pool_free mapped_pool_handles
     (mapped_pool_good n) False"
  using stks.list_owned
  by (simp add: law_hts_stk_pool_init_def law_hts_stk_pool_free_def mapped_pool_good_def [abs_def])

interpretation gp: object_pair calloc_blind free one any True
  "law_hts_stk_pool_init granted n len" law_hts_stk_pool_free mapped_pool_handles "mapped_pool_good n" False
  for n len
  by (intro object_pair.intro bld.owned_object_axioms stk_pool_owned)

lemma group_owned:
  "owned_object (law_hts_pool_group_create granted cfg hcfg) law_hts_pool_group_destroy group_handles
     (group_good (nat (cf_worker_tasks cfg))) True"
proof -
  let ?n = "nat (cf_worker_tasks cfg)"
  note p = gp.pair_owned [of ?n "hc_heap hcfg"]
  note q = object_pair.pair_owned [OF object_pair.intro [OF p stk_pool_owned [of ?n "hc_stack hcfg"]]]
  note r = object_pair.pair_owned [OF object_pair.intro [OF q buf_pool_owned [of ?n "hc_in hcfg"]]]
  from object_pair.pair_owned [OF object_pair.intro [OF r buf_pool_owned [of ?n "hc_out hcfg"]]]
  show ?thesis
    by (simp add: law_hts_pool_group_create_def law_hts_pool_group_destroy_def group_handles_def
        group_good_def Let_def)
qed

interpretation gs: object_list "law_hts_pool_group_create granted cfg hcfg" law_hts_pool_group_destroy
  group_handles "group_good (nat (cf_worker_tasks cfg))" True push_back for cfg hcfg
  by (intro object_list.intro object_list_axioms.intro group_owned) simp

interpretation gsp: object_pair calloc free one any False
  "create_n push_back w (law_hts_pool_group_create granted cfg hcfg) law_hts_pool_group_destroy []"
  "fold law_hts_pool_group_destroy" "list_handles group_handles"
  "\<lambda>gs. list_good group_handles (group_good (nat (cf_worker_tasks cfg))) gs \<and> length gs = w" True
  for w cfg hcfg
  by (intro object_pair.intro blk.owned_object_axioms gs.list_owned)

lemma groups_owned:
  "owned_object (law_hts_pool_groups_create granted cfg hcfg) law_hts_pool_groups_destroy groups_handles
     (groups_good (nat (cf_worker_tasks cfg)) (nat (cf_workers cfg))) True"
  using gsp.pair_owned
  by (simp add: law_hts_pool_groups_create_def law_hts_pool_groups_destroy_def groups_handles_def
      groups_good_def)

interpretation hts: object_pair calloc free one any False
  "law_hts_pool_groups_create granted cfg hcfg" law_hts_pool_groups_destroy groups_handles
  "groups_good (nat (cf_worker_tasks cfg)) (nat (cf_workers cfg))" True for cfg hcfg
  by (intro object_pair.intro blk.owned_object_axioms groups_owned)

lemma htserver_owned:
  "owned_object (law_htserver_create granted cfg hcfg) law_htserver_destroy htserver_handles
     (htserver_good (nat (cf_worker_tasks cfg)) (nat (cf_workers cfg))) True"
  using hts.pair_owned
  by (simp add: law_htserver_create_def law_htserver_destroy_def htserver_handles_def htserver_good_def)

text \<open>
  The HTTP server's memory leaks nothing, whichever allocation fails:
  \<^verbatim>\<open>law_htserver_create\<close> makes a server that owns exactly the handles it
  obtained, which \<^verbatim>\<open>law_htserver_destroy\<close> releases, each once; or it fails and has
  released what it had obtained, each handle once; or the allocation of a group failed, and then
  it writes through the null pointer, because that result is not checked.
\<close>

theorem law_htserver_create_destroy:
  assumes "kern_inv k"
  shows "(\<exists>s k'. law_htserver_create granted cfg hcfg k = Inr (Some s, k') \<and>
            adds_fds (htserver_handles s) k k' \<and>
            length (snd (snd s)) = nat (cf_workers cfg) \<and>
            same_fds k (law_htserver_destroy s k')) \<or>
         (\<exists>k'. law_htserver_create granted cfg hcfg k = Inr (None, k') \<and> same_fds k k') \<or>
         law_htserver_create granted cfg hcfg k = Inl NULL_DEREF"
  using owned_object.create_cases [OF htserver_owned assms, of cfg hcfg]
proof (elim disjE exE conjE)
  fix s k'
  assume s: "law_htserver_create granted cfg hcfg k = Inr (Some s, k')"
    "htserver_good (nat (cf_worker_tasks cfg)) (nat (cf_workers cfg)) s" "adds_fds (htserver_handles s) k k'"
  have "same_fds k (law_htserver_destroy s k')"
    using owned_object.destroy_adds [OF htserver_owned s(2,3)] by (simp add: adds_fds_empty)
  moreover have "length (snd (snd s)) = nat (cf_workers cfg)"
    using s(2) by (simp add: htserver_good_def groups_good_def pair_good_def)
  ultimately show ?thesis using s by blast
qed auto

theorem law_htserver_create_destroy_witness:
  "law_htserver_create granted (law_server_sanity :: unit law_server_cfg)
     (law_htserver_sanity :: unit law_htserver_cfg) (demo_kern [True, True, False]) = Inl NULL_DEREF"
proof -
  let ?c = "law_htserver_create granted (law_server_sanity :: unit law_server_cfg)
    (law_htserver_sanity :: unit law_htserver_cfg) (demo_kern [True, True, False])"
  have "\<nexists>r. ?c = Inr r"
    by (simp add: law_htserver_create_def law_hts_pool_groups_create_def law_hts_pool_group_create_def
        seq_create_def calloc_def calloc_blind_def sys_new_fd_def sys_call_def demo_kern_def
        law_server_sanity_def Let_def)
  with law_htserver_create_destroy [OF demo_kern_inv, of "law_server_sanity :: unit law_server_cfg"
      "law_htserver_sanity :: unit law_htserver_cfg" "[True, True, False]"]
  show ?thesis by (metis (no_types))
qed

end
