(* ===== verification/HttpGroup.thy ===== *)
theory HttpGroup
  imports HttpPools NodeList "HOL-Library.Multiset"
begin

text \<open>
  The pools of \<^verbatim>\<open>http_server.c\<close> at run time. Every worker has a group of four linked
  lists of free nodes, of input and output buffers, parser stacks and parser heaps.
  \<^verbatim>\<open>law_hts_entry\<close> takes a node of each (\<open>entry_take\<close>), serves the connection,
  during which the worker's other tasks run, and gives the nodes back (\<open>entry_give\<close>). The
  relation \<open>group_step\<close> interleaves the requests of one worker.
\<close>

section \<open>State\<close>

text \<open>The mapping of a node never changes and is left out; the contents are pgenc's.\<close>

record 'b law_hts_buf =
  hb_buffer :: 'b
  hb_next :: ptr

record 'k law_hts_stk =
  hk_stack :: 'k
  hk_next :: ptr

type_synonym 'b buf_heap = "ptr \<Rightarrow> 'b law_hts_buf"

type_synonym 'k stk_heap = "ptr \<Rightarrow> 'k law_hts_stk"

record law_hts_pool_group =
  in_pool :: ptr
  out_pool :: ptr
  stack_pool :: ptr
  heap_pool :: ptr

section \<open>The callbacks and the operations of a pool\<close>

definition law_hts_buf_get_next :: "'b buf_heap \<Rightarrow> ptr \<Rightarrow> ptr" where
  "law_hts_buf_get_next h node = hb_next (h node)"

definition law_hts_buf_set_next :: "'b buf_heap \<Rightarrow> ptr \<Rightarrow> ptr \<Rightarrow> 'b buf_heap" where
  "law_hts_buf_set_next h node nxt = h(node := (h node)\<lparr>hb_next := nxt\<rparr>)"

definition law_hts_stk_get_next :: "'k stk_heap \<Rightarrow> ptr \<Rightarrow> ptr" where
  "law_hts_stk_get_next h node = hk_next (h node)"

definition law_hts_stk_set_next :: "'k stk_heap \<Rightarrow> ptr \<Rightarrow> ptr \<Rightarrow> 'k stk_heap" where
  "law_hts_stk_set_next h node nxt = h(node := (h node)\<lparr>hk_next := nxt\<rparr>)"

definition law_hts_buf_iface :: "'b buf_heap ll_iface" where
  "law_hts_buf_iface = \<lparr>ll_get_next = law_hts_buf_get_next, ll_set_next = law_hts_buf_set_next\<rparr>"

definition law_hts_stk_iface :: "'k stk_heap ll_iface" where
  "law_hts_stk_iface = \<lparr>ll_get_next = law_hts_stk_get_next, ll_set_next = law_hts_stk_set_next\<rparr>"

text \<open>The pool is its list pointer; popping returns the node, null if there is none, and the rest.\<close>

definition law_hts_buf_pool_pop ::
  "'b buf_heap pmt_ll \<Rightarrow> ptr \<Rightarrow> 'b buf_heap \<Rightarrow> ptr \<times> ptr \<times> 'b buf_heap" where
  "law_hts_buf_pool_pop L pool h =
     (case ll_remove_first L law_hts_buf_iface h pool of (h, rest, node) \<Rightarrow> (node, rest, h))"

definition law_hts_buf_pool_push ::
  "'b buf_heap pmt_ll \<Rightarrow> ptr \<Rightarrow> ptr \<Rightarrow> 'b buf_heap \<Rightarrow> ptr \<times> 'b buf_heap" where
  "law_hts_buf_pool_push L pool buf h =
     (case ll_push_front L law_hts_buf_iface h pool buf of (h, pool) \<Rightarrow> (pool, h))"

definition law_hts_stk_pool_pop ::
  "'k stk_heap pmt_ll \<Rightarrow> ptr \<Rightarrow> 'k stk_heap \<Rightarrow> ptr \<times> ptr \<times> 'k stk_heap" where
  "law_hts_stk_pool_pop L pool h =
     (case ll_remove_first L law_hts_stk_iface h pool of (h, rest, node) \<Rightarrow> (node, rest, h))"

definition law_hts_stk_pool_push ::
  "'k stk_heap pmt_ll \<Rightarrow> ptr \<Rightarrow> ptr \<Rightarrow> 'k stk_heap \<Rightarrow> ptr \<times> 'k stk_heap" where
  "law_hts_stk_pool_push L pool stk h =
     (case ll_push_front L law_hts_stk_iface h pool stk of (h, pool) \<Rightarrow> (pool, h))"

interpretation hbl: node_links law_hts_buf_get_next law_hts_buf_set_next
  by unfold_locales (auto simp: law_hts_buf_get_next_def law_hts_buf_set_next_def)

interpretation hkl: node_links law_hts_stk_get_next law_hts_stk_set_next
  by unfold_locales (auto simp: law_hts_stk_get_next_def law_hts_stk_set_next_def)

section \<open>A request's four nodes\<close>

record ('b, 'k) hts_mem =
  m_bufs :: "'b buf_heap"
  m_stks :: "'k stk_heap"
  m_group :: law_hts_pool_group

record hts_nodes =
  n_in :: ptr
  n_out :: ptr
  n_heap :: ptr
  n_stack :: ptr

definition on_buf :: "('b \<Rightarrow> 'b) \<Rightarrow> ptr \<Rightarrow> 'b buf_heap \<Rightarrow> 'b buf_heap" where
  "on_buf f n h = h(n := (h n)\<lparr>hb_buffer := f (hb_buffer (h n))\<rparr>)"

definition on_stk :: "('k \<Rightarrow> 'k) \<Rightarrow> ptr \<Rightarrow> 'k stk_heap \<Rightarrow> 'k stk_heap" where
  "on_stk f n h = h(n := (h n)\<lparr>hk_stack := f (hk_stack (h n))\<rparr>)"

text \<open>
  The first half of \<^verbatim>\<open>law_hts_entry\<close>: four pops, the assertion, and the four objects
  emptied by pgenc's \<^verbatim>\<open>pgc_buf_zero\<close> and \<^verbatim>\<open>pgc_stk_zero\<close>.
\<close>

definition entry_take ::
  "'b buf_heap pmt_ll \<Rightarrow> 'k stk_heap pmt_ll \<Rightarrow> ('b \<Rightarrow> 'b) \<Rightarrow> ('k \<Rightarrow> 'k) \<Rightarrow> ('b, 'k) hts_mem \<Rightarrow>
   (hts_nodes \<times> ('b, 'k) hts_mem) run" where
  "entry_take LB LK buf_zero stk_zero m =
     (let grp = m_group m in
      case law_hts_buf_pool_pop LB (in_pool grp) (m_bufs m) of
        (inb, in_list, hb) \<Rightarrow>
      (case law_hts_buf_pool_pop LB (out_pool grp) hb of
        (outb, out_list, hb) \<Rightarrow>
      (case law_hts_stk_pool_pop LK (heap_pool grp) (m_stks m) of
        (heap, heap_list, hk) \<Rightarrow>
      (case law_hts_stk_pool_pop LK (stack_pool grp) hk of
        (stack, stack_list, hk) \<Rightarrow>
          require SEL_ASSERT (inb \<noteq> NULL \<and> outb \<noteq> NULL \<and> heap \<noteq> NULL \<and> stack \<noteq> NULL)
           (let hb = on_buf buf_zero outb (on_buf buf_zero inb hb);
                hk = on_stk stk_zero stack (on_stk stk_zero heap hk)
            in Inr (\<lparr>n_in = inb, n_out = outb, n_heap = heap, n_stack = stack\<rparr>,
                    \<lparr>m_bufs = hb, m_stks = hk,
                     m_group = \<lparr>in_pool = in_list, out_pool = out_list,
                                stack_pool = stack_list, heap_pool = heap_list\<rparr>\<rparr>))))))"

text \<open>The last lines of \<^verbatim>\<open>law_hts_entry\<close>: four pushes.\<close>

definition entry_give ::
  "'b buf_heap pmt_ll \<Rightarrow> 'k stk_heap pmt_ll \<Rightarrow> hts_nodes \<Rightarrow> ('b, 'k) hts_mem \<Rightarrow> ('b, 'k) hts_mem" where
  "entry_give LB LK x m =
     (let grp = m_group m in
      case law_hts_buf_pool_push LB (in_pool grp) (n_in x) (m_bufs m) of
        (in_list, hb) \<Rightarrow>
      (case law_hts_buf_pool_push LB (out_pool grp) (n_out x) hb of
        (out_list, hb) \<Rightarrow>
      (case law_hts_stk_pool_push LK (heap_pool grp) (n_heap x) (m_stks m) of
        (heap_list, hk) \<Rightarrow>
      (case law_hts_stk_pool_push LK (stack_pool grp) (n_stack x) hk of
        (stack_list, hk) \<Rightarrow>
          \<lparr>m_bufs = hb, m_stks = hk,
           m_group = \<lparr>in_pool = in_list, out_pool = out_list,
                      stack_pool = stack_list, heap_pool = heap_list\<rparr>\<rparr>))))"

section \<open>What a group holds\<close>

lemmas buf_links = law_hts_buf_get_next_def law_hts_buf_set_next_def law_hts_buf_iface_def
lemmas stk_links = law_hts_stk_get_next_def law_hts_stk_set_next_def law_hts_stk_iface_def

definition group_lists ::
  "('b, 'k) hts_mem \<Rightarrow> ptr list \<Rightarrow> ptr list \<Rightarrow> ptr list \<Rightarrow> ptr list \<Rightarrow> bool" where
  "group_lists m ns os hs ks \<longleftrightarrow>
     chain (law_hts_buf_get_next (m_bufs m)) (in_pool (m_group m)) ns \<and>
     chain (law_hts_buf_get_next (m_bufs m)) (out_pool (m_group m)) os \<and>
     chain (law_hts_stk_get_next (m_stks m)) (heap_pool (m_group m)) hs \<and>
     chain (law_hts_stk_get_next (m_stks m)) (stack_pool (m_group m)) ks"

lemma buf_pop_chain:
  assumes "pmt_ll_spec L" and "chain (law_hts_buf_get_next h) l (x # xs)"
  obtains h' l' where "law_hts_buf_pool_pop L l h = (x, l', h')" and "x \<noteq> NULL"
    and "chain (law_hts_buf_get_next h') l' xs"
    and "\<And>q ys. x \<notin> set ys \<Longrightarrow> chain (law_hts_buf_get_next h') q ys = chain (law_hts_buf_get_next h) q ys"
proof (rule hbl.remove_chain [OF assms])
  fix h' l'
  assume r: "ll_remove_first L \<lparr>ll_get_next = law_hts_buf_get_next, ll_set_next = law_hts_buf_set_next\<rparr> h l = (h', l', x)"
  assume *: "x \<noteq> NULL" "chain (law_hts_buf_get_next h') l' xs"
    "\<And>q ys. x \<notin> set ys \<Longrightarrow> chain (law_hts_buf_get_next h') q ys = chain (law_hts_buf_get_next h) q ys"
  have "law_hts_buf_pool_pop L l h = (x, l', h')"
    using r by (simp add: law_hts_buf_pool_pop_def law_hts_buf_iface_def)
  then show thesis using * by (rule that)
qed

lemma buf_push_chain:
  assumes "pmt_ll_spec L" and "chain (law_hts_buf_get_next h) l xs" and "n \<noteq> NULL" and "n \<notin> set xs"
  obtains h' l' where "law_hts_buf_pool_push L l n h = (l', h')"
    and "chain (law_hts_buf_get_next h') l' (n # xs)"
    and "\<And>q ys. n \<notin> set ys \<Longrightarrow> chain (law_hts_buf_get_next h') q ys = chain (law_hts_buf_get_next h) q ys"
proof (rule hbl.push_chain [OF assms])
  fix h' l'
  assume r: "ll_push_front L \<lparr>ll_get_next = law_hts_buf_get_next, ll_set_next = law_hts_buf_set_next\<rparr> h l n = (h', l')"
  assume *: "chain (law_hts_buf_get_next h') l' (n # xs)"
    "\<And>q ys. n \<notin> set ys \<Longrightarrow> chain (law_hts_buf_get_next h') q ys = chain (law_hts_buf_get_next h) q ys"
  have "law_hts_buf_pool_push L l n h = (l', h')"
    using r by (simp add: law_hts_buf_pool_push_def law_hts_buf_iface_def)
  then show thesis using * by (rule that)
qed

lemma buf_pop_empty: "pmt_ll_spec L \<Longrightarrow> law_hts_buf_pool_pop L NULL h = (NULL, NULL, h)"
  by (simp add: law_hts_buf_pool_pop_def pmt_ll_remove)

lemma stk_pop_chain:
  assumes "pmt_ll_spec L" and "chain (law_hts_stk_get_next h) l (x # xs)"
  obtains h' l' where "law_hts_stk_pool_pop L l h = (x, l', h')" and "x \<noteq> NULL"
    and "chain (law_hts_stk_get_next h') l' xs"
    and "\<And>q ys. x \<notin> set ys \<Longrightarrow> chain (law_hts_stk_get_next h') q ys = chain (law_hts_stk_get_next h) q ys"
proof (rule hkl.remove_chain [OF assms])
  fix h' l'
  assume r: "ll_remove_first L \<lparr>ll_get_next = law_hts_stk_get_next, ll_set_next = law_hts_stk_set_next\<rparr> h l = (h', l', x)"
  assume *: "x \<noteq> NULL" "chain (law_hts_stk_get_next h') l' xs"
    "\<And>q ys. x \<notin> set ys \<Longrightarrow> chain (law_hts_stk_get_next h') q ys = chain (law_hts_stk_get_next h) q ys"
  have "law_hts_stk_pool_pop L l h = (x, l', h')"
    using r by (simp add: law_hts_stk_pool_pop_def law_hts_stk_iface_def)
  then show thesis using * by (rule that)
qed

lemma stk_push_chain:
  assumes "pmt_ll_spec L" and "chain (law_hts_stk_get_next h) l xs" and "n \<noteq> NULL" and "n \<notin> set xs"
  obtains h' l' where "law_hts_stk_pool_push L l n h = (l', h')"
    and "chain (law_hts_stk_get_next h') l' (n # xs)"
    and "\<And>q ys. n \<notin> set ys \<Longrightarrow> chain (law_hts_stk_get_next h') q ys = chain (law_hts_stk_get_next h) q ys"
proof (rule hkl.push_chain [OF assms])
  fix h' l'
  assume r: "ll_push_front L \<lparr>ll_get_next = law_hts_stk_get_next, ll_set_next = law_hts_stk_set_next\<rparr> h l n = (h', l')"
  assume *: "chain (law_hts_stk_get_next h') l' (n # xs)"
    "\<And>q ys. n \<notin> set ys \<Longrightarrow> chain (law_hts_stk_get_next h') q ys = chain (law_hts_stk_get_next h) q ys"
  have "law_hts_stk_pool_push L l n h = (l', h')"
    using r by (simp add: law_hts_stk_pool_push_def law_hts_stk_iface_def)
  then show thesis using * by (rule that)
qed

lemma stk_pop_empty: "pmt_ll_spec L \<Longrightarrow> law_hts_stk_pool_pop L NULL h = (NULL, NULL, h)"
  by (simp add: law_hts_stk_pool_pop_def pmt_ll_remove)

text \<open>Writing a node's contents changes no link.\<close>

lemma buf_link_update [simp]:
  "law_hts_buf_get_next (on_buf f n h) = law_hts_buf_get_next h"
  by (auto simp: law_hts_buf_get_next_def on_buf_def)

lemma stk_link_update [simp]:
  "law_hts_stk_get_next (on_stk f n h) = law_hts_stk_get_next h"
  by (auto simp: law_hts_stk_get_next_def on_stk_def)

lemma entry_take_ok:
  assumes L: "pmt_ll_spec LB" "pmt_ll_spec LK"
    and g: "group_lists m (i # ns) (a # os) (b # hs) (c # ks)"
    and d: "set (i # ns) \<inter> set (a # os) = {}" "set (b # hs) \<inter> set (c # ks) = {}"
  obtains m' where "entry_take LB LK bz kz m = Inr (\<lparr>n_in = i, n_out = a, n_heap = b, n_stack = c\<rparr>, m')"
    and "group_lists m' ns os hs ks"
proof -
  let ?g = "m_group m"
  have c: "chain (law_hts_buf_get_next (m_bufs m)) (in_pool ?g) (i # ns)"
    "chain (law_hts_buf_get_next (m_bufs m)) (out_pool ?g) (a # os)"
    "chain (law_hts_stk_get_next (m_stks m)) (heap_pool ?g) (b # hs)"
    "chain (law_hts_stk_get_next (m_stks m)) (stack_pool ?g) (c # ks)"
    using g by (simp_all add: group_lists_def)
  obtain h1 l1 where 1: "law_hts_buf_pool_pop LB (in_pool ?g) (m_bufs m) = (i, l1, h1)" "i \<noteq> NULL"
      "chain (law_hts_buf_get_next h1) l1 ns"
      "\<And>q ys. i \<notin> set ys \<Longrightarrow> chain (law_hts_buf_get_next h1) q ys = chain (law_hts_buf_get_next (m_bufs m)) q ys"
    by (rule buf_pop_chain [OF L(1) c(1)]) blast
  have "chain (law_hts_buf_get_next h1) (out_pool ?g) (a # os)" by (subst 1(4)) (use c(2) d(1) in auto)
  then obtain h2 l2 where 2: "law_hts_buf_pool_pop LB (out_pool ?g) h1 = (a, l2, h2)" "a \<noteq> NULL"
      "chain (law_hts_buf_get_next h2) l2 os"
      "\<And>q ys. a \<notin> set ys \<Longrightarrow> chain (law_hts_buf_get_next h2) q ys = chain (law_hts_buf_get_next h1) q ys"
    by (rule buf_pop_chain [OF L(1)]) blast
  obtain h3 l3 where 3: "law_hts_stk_pool_pop LK (heap_pool ?g) (m_stks m) = (b, l3, h3)" "b \<noteq> NULL"
      "chain (law_hts_stk_get_next h3) l3 hs"
      "\<And>q ys. b \<notin> set ys \<Longrightarrow> chain (law_hts_stk_get_next h3) q ys = chain (law_hts_stk_get_next (m_stks m)) q ys"
    by (rule stk_pop_chain [OF L(2) c(3)]) blast
  have "chain (law_hts_stk_get_next h3) (stack_pool ?g) (c # ks)" by (subst 3(4)) (use c(4) d(2) in auto)
  then obtain h4 l4 where 4: "law_hts_stk_pool_pop LK (stack_pool ?g) h3 = (c, l4, h4)" "c \<noteq> NULL"
      "chain (law_hts_stk_get_next h4) l4 ks"
      "\<And>q ys. c \<notin> set ys \<Longrightarrow> chain (law_hts_stk_get_next h4) q ys = chain (law_hts_stk_get_next h3) q ys"
    by (rule stk_pop_chain [OF L(2)]) blast
  have "chain (law_hts_buf_get_next h2) l1 ns" by (subst 2(4)) (use 1(3) d(1) in auto)
  moreover have "chain (law_hts_stk_get_next h4) l3 hs" by (subst 4(4)) (use 3(3) d(2) in auto)
  ultimately show thesis
    using 1(1,2) 2(1-3) 3(1,2) 4(1-3) that
    by (simp add: entry_take_def Let_def group_lists_def)
qed

lemma entry_take_empty:
  assumes "pmt_ll_spec LB" and "group_lists m [] os hs ks"
  shows "entry_take LB LK bz kz m = Inl SEL_ASSERT"
  using assms by (simp add: entry_take_def Let_def group_lists_def buf_pop_empty split: prod.split)

lemma entry_give_ok:
  assumes L: "pmt_ll_spec LB" "pmt_ll_spec LK" and g: "group_lists m ns os hs ks"
    and n: "n_in x \<noteq> NULL" "n_out x \<noteq> NULL" "n_heap x \<noteq> NULL" "n_stack x \<noteq> NULL"
    and f: "n_in x \<notin> set ns" "n_in x \<notin> set os" "n_out x \<notin> set (n_in x # ns)" "n_out x \<notin> set os"
      "n_heap x \<notin> set hs" "n_heap x \<notin> set ks" "n_stack x \<notin> set (n_heap x # hs)" "n_stack x \<notin> set ks"
  shows "group_lists (entry_give LB LK x m) (n_in x # ns) (n_out x # os) (n_heap x # hs) (n_stack x # ks)"
proof -
  let ?g = "m_group m"
  have c: "chain (law_hts_buf_get_next (m_bufs m)) (in_pool ?g) ns"
    "chain (law_hts_buf_get_next (m_bufs m)) (out_pool ?g) os"
    "chain (law_hts_stk_get_next (m_stks m)) (heap_pool ?g) hs"
    "chain (law_hts_stk_get_next (m_stks m)) (stack_pool ?g) ks"
    using g by (simp_all add: group_lists_def)
  obtain h1 l1 where 1: "law_hts_buf_pool_push LB (in_pool ?g) (n_in x) (m_bufs m) = (l1, h1)"
      "chain (law_hts_buf_get_next h1) l1 (n_in x # ns)"
      "\<And>q ys. n_in x \<notin> set ys \<Longrightarrow> chain (law_hts_buf_get_next h1) q ys = chain (law_hts_buf_get_next (m_bufs m)) q ys"
    by (rule buf_push_chain [OF L(1) c(1) n(1) f(1)]) blast
  have "chain (law_hts_buf_get_next h1) (out_pool ?g) os" by (subst 1(3)) (use c(2) f in auto)
  note c2 = this
  obtain h2 l2 where 2: "law_hts_buf_pool_push LB (out_pool ?g) (n_out x) h1 = (l2, h2)"
      "chain (law_hts_buf_get_next h2) l2 (n_out x # os)"
      "\<And>q ys. n_out x \<notin> set ys \<Longrightarrow> chain (law_hts_buf_get_next h2) q ys = chain (law_hts_buf_get_next h1) q ys"
    by (rule buf_push_chain [OF L(1) c2 n(2) f(4)]) blast
  obtain h3 l3 where 3: "law_hts_stk_pool_push LK (heap_pool ?g) (n_heap x) (m_stks m) = (l3, h3)"
      "chain (law_hts_stk_get_next h3) l3 (n_heap x # hs)"
      "\<And>q ys. n_heap x \<notin> set ys \<Longrightarrow> chain (law_hts_stk_get_next h3) q ys = chain (law_hts_stk_get_next (m_stks m)) q ys"
    by (rule stk_push_chain [OF L(2) c(3) n(3) f(5)]) blast
  have "chain (law_hts_stk_get_next h3) (stack_pool ?g) ks" by (subst 3(3)) (use c(4) f in auto)
  note c4 = this
  obtain h4 l4 where 4: "law_hts_stk_pool_push LK (stack_pool ?g) (n_stack x) h3 = (l4, h4)"
      "chain (law_hts_stk_get_next h4) l4 (n_stack x # ks)"
      "\<And>q ys. n_stack x \<notin> set ys \<Longrightarrow> chain (law_hts_stk_get_next h4) q ys = chain (law_hts_stk_get_next h3) q ys"
    by (rule stk_push_chain [OF L(2) c4 n(4) f(8)]) blast
  have "chain (law_hts_buf_get_next h2) l1 (n_in x # ns)" by (subst 2(3)) (use 1(2) f in auto)
  moreover have "chain (law_hts_stk_get_next h4) l3 (n_heap x # hs)" by (subst 4(3)) (use 3(2) f in auto)
  ultimately show ?thesis
    using 1(1) 2(1,2) 3(1) 4(1,2) by (simp add: entry_give_def Let_def group_lists_def)
qed

section \<open>Requests of one worker, interleaved\<close>

text \<open>
  A worker runs one task at a time, so the two halves of \<^verbatim>\<open>law_hts_entry\<close> are steps;
  between them the requests of other tasks start and end in any order. \<open>serve\<close> is what a
  request does to the contents of its own nodes.
\<close>

inductive group_step ::
  "'b buf_heap pmt_ll \<Rightarrow> 'k stk_heap pmt_ll \<Rightarrow> ('b \<Rightarrow> 'b) \<Rightarrow> ('k \<Rightarrow> 'k) \<Rightarrow>
   ('b, 'k) hts_mem \<times> hts_nodes list \<Rightarrow> ('b, 'k) hts_mem \<times> hts_nodes list \<Rightarrow> bool"
  for LB LK bz kz where
  take_nodes: "entry_take LB LK bz kz m = Inr (x, m') \<Longrightarrow>
    group_step LB LK bz kz (m, held) (m', x # held)"
| serve: "x \<in> set held \<Longrightarrow>
    group_step LB LK bz kz (m, held)
      (m\<lparr>m_bufs := on_buf f (n_in x) (on_buf g (n_out x) (m_bufs m)),
        m_stks := on_stk h (n_heap x) (on_stk k (n_stack x) (m_stks m))\<rparr>, held)"
| give_nodes: "group_step LB LK bz kz (m, xs @ x # ys) (entry_give LB LK x m, xs @ ys)"

text \<open>
  \<open>n\<close> nodes in each pool or with a request, each in one place; \<open>IO\<close> and
  \<open>HK\<close> are the buffers and the stacks there are.
\<close>

definition one_place :: "ptr set \<Rightarrow> ptr list \<Rightarrow> bool" where
  "one_place A xs \<longleftrightarrow> distinct xs \<and> set xs = A \<and> NULL \<notin> A"

lemma one_place_perm: "one_place A xs \<Longrightarrow> mset xs = mset ys \<Longrightarrow> one_place A ys"
  unfolding one_place_def by (metis mset_eq_imp_distinct_iff mset_eq_setD)

lemma one_place_mem: "one_place A (xs @ x # ys) \<Longrightarrow> x \<noteq> NULL \<and> x \<notin> set xs \<and> x \<notin> set ys"
  by (auto simp: one_place_def)

definition group_inv :: "nat \<Rightarrow> ptr set \<Rightarrow> ptr set \<Rightarrow> ('b, 'k) hts_mem \<times> hts_nodes list \<Rightarrow> bool" where
  "group_inv n IO HK y \<longleftrightarrow>
     (\<exists>ns os hs ks. group_lists (fst y) ns os hs ks \<and>
        (\<forall>xs \<in> {ns, os, hs, ks}. length xs + length (snd y) = n) \<and>
        one_place IO (ns @ os @ map n_in (snd y) @ map n_out (snd y)) \<and>
        one_place HK (hs @ ks @ map n_heap (snd y) @ map n_stack (snd y)))"

lemma group_invI:
  assumes "group_lists m ns os hs ks"
    and "\<forall>xs \<in> {ns, os, hs, ks}. length xs + length held = n"
    and "one_place IO (ns @ os @ map n_in held @ map n_out held)"
    and "one_place HK (hs @ ks @ map n_heap held @ map n_stack held)"
  shows "group_inv n IO HK (m, held)"
  unfolding group_inv_def fst_conv snd_conv using assms by blast

lemma group_invE:
  assumes "group_inv n IO HK (m, held)"
  obtains ns os hs ks where "group_lists m ns os hs ks"
    and "\<forall>xs \<in> {ns, os, hs, ks}. length xs + length held = n"
    and "one_place IO (ns @ os @ map n_in held @ map n_out held)"
    and "one_place HK (hs @ ks @ map n_heap held @ map n_stack held)"
  using assms unfolding group_inv_def fst_conv snd_conv by (elim exE conjE) (rule that)

lemma group_take:
  assumes L: "pmt_ll_spec LB" "pmt_ll_spec LK" and I: "group_inv n IO HK (m, held)"
  shows "if length held < n
         then \<exists>x m'. entry_take LB LK bz kz m = Inr (x, m') \<and> group_inv n IO HK (m', x # held)
         else entry_take LB LK bz kz m = Inl SEL_ASSERT"
proof (rule group_invE [OF I])
  fix ns os hs ks
  assume g: "group_lists m ns os hs ks" and len: "\<forall>xs \<in> {ns, os, hs, ks}. length xs + length held = n"
    and io: "one_place IO (ns @ os @ map n_in held @ map n_out held)"
    and hk: "one_place HK (hs @ ks @ map n_heap held @ map n_stack held)"
  show ?thesis
  proof (cases "length held < n")
    case False
    with len have "ns = []" by auto
    with g have "group_lists m [] os hs ks" by simp
    from entry_take_empty [OF L(1) this] False show ?thesis by simp
  next
    case True
    with len obtain i ns' a os' b hs' c ks'
      where e: "ns = i # ns'" "os = a # os'" "hs = b # hs'" "ks = c # ks'"
      by (cases ns; cases os; cases hs; cases ks) auto
    let ?x = "\<lparr>n_in = i, n_out = a, n_heap = b, n_stack = c\<rparr>"
    have dj: "set (i # ns') \<inter> set (a # os') = {}" "set (b # hs') \<inter> set (c # ks') = {}"
      using io hk e by (auto simp: one_place_def)
    obtain m' where m': "entry_take LB LK bz kz m = Inr (?x, m')" "group_lists m' ns' os' hs' ks'"
      by (rule entry_take_ok [OF L g [unfolded e] dj])
    have "group_inv n IO HK (m', ?x # held)"
    proof (rule group_invI [OF m'(2)])
      show "\<forall>xs \<in> {ns', os', hs', ks'}. length xs + length (?x # held) = n" using len e by simp
    qed (rule one_place_perm [OF io], simp add: e, rule one_place_perm [OF hk], simp add: e)
    with m'(1) True show ?thesis by auto
  qed
qed

lemma group_give:
  assumes L: "pmt_ll_spec LB" "pmt_ll_spec LK" and I: "group_inv n IO HK (m, xs @ x # ys)"
  shows "group_inv n IO HK (entry_give LB LK x m, xs @ ys)"
proof (rule group_invE [OF I])
  let ?held = "xs @ x # ys"
  fix ns os hs ks
  assume g: "group_lists m ns os hs ks" and len: "\<forall>zs \<in> {ns, os, hs, ks}. length zs + length ?held = n"
    and io: "one_place IO (ns @ os @ map n_in ?held @ map n_out ?held)"
    and hk: "one_place HK (hs @ ks @ map n_heap ?held @ map n_stack ?held)"
  have io': "one_place IO (n_in x # n_out x # ns @ os @ map n_in (xs @ ys) @ map n_out (xs @ ys))"
    by (rule one_place_perm [OF io]) simp
  have hk': "one_place HK (n_heap x # n_stack x # hs @ ks @ map n_heap (xs @ ys) @ map n_stack (xs @ ys))"
    by (rule one_place_perm [OF hk]) simp
  have "group_lists (entry_give LB LK x m) (n_in x # ns) (n_out x # os) (n_heap x # hs) (n_stack x # ks)"
    by (rule entry_give_ok [OF L g]) (use io' hk' in \<open>auto simp: one_place_def\<close>)
  then show ?thesis
  proof (rule group_invI)
    show "\<forall>zs \<in> {n_in x # ns, n_out x # os, n_heap x # hs, n_stack x # ks}. length zs + length (xs @ ys) = n"
      using len by simp
  qed (rule one_place_perm [OF io'], simp, rule one_place_perm [OF hk'], simp)
qed

lemma group_serve:
  assumes "group_inv n IO HK (m, held)"
  shows "group_inv n IO HK (m\<lparr>m_bufs := on_buf f i (on_buf g j (m_bufs m)),
           m_stks := on_stk h k (on_stk h' l (m_stks m))\<rparr>, held)"
  using assms by (simp add: group_inv_def group_lists_def)

lemma group_step_inv:
  assumes "group_step LB LK bz kz y y'" and "pmt_ll_spec LB" "pmt_ll_spec LK" and "group_inv n IO HK y"
  shows "group_inv n IO HK y'"
  using assms(1)
proof (cases rule: group_step.cases)
  case (take_nodes m x m' held)
  with group_take [OF assms(2,3), of n IO HK m held bz kz] assms(4) show ?thesis by (auto split: if_splits)
next
  case (serve x held m f g h k)
  with group_serve assms(4) show ?thesis by simp
next
  case (give_nodes m xs x ys)
  with group_give [OF assms(2,3)] assms(4) show ?thesis by simp
qed

text \<open>
  C13: the requests of a worker never share memory. Starting with \<open>n\<close> nodes in each of
  the four pools, whatever the order in which requests begin, run and end: at most \<open>n\<close>
  requests hold nodes at once and no node is held by two requests or for two purposes; a further
  request gets its four nodes as long as fewer than \<open>n\<close> are running, and otherwise
  \<^verbatim>\<open>law_hts_entry\<close> stops the process at its assertion; when no request is left, all
  nodes are back in pools of \<open>n\<close>. A group has \<^verbatim>\<open>worker_tasks\<close> nodes of each
  kind, so a worker must not run more tasks than that.
\<close>

theorem entry_memory_exclusive:
  assumes "pmt_ll_spec LB" and "pmt_ll_spec LK" and "group_inv n IO HK (m0, [])"
    and "(group_step LB LK bz kz)\<^sup>*\<^sup>* (m0, []) (m, held)"
  shows "length held \<le> n \<and>
         distinct (map n_in held @ map n_out held) \<and> distinct (map n_heap held @ map n_stack held) \<and>
         (if length held < n then \<exists>x m'. entry_take LB LK bz kz m = Inr (x, m')
          else entry_take LB LK bz kz m = Inl SEL_ASSERT) \<and>
         (held = [] \<longrightarrow> (\<exists>ns os hs ks. group_lists m ns os hs ks \<and>
            length ns = n \<and> length os = n \<and> length hs = n \<and> length ks = n \<and>
            set ns \<union> set os = IO \<and> set hs \<union> set ks = HK))"
proof (rule group_invE)
  from assms(4,3) show I: "group_inv n IO HK (m, held)"
    by (induction rule: rtranclp_induct) (auto intro: group_step_inv [OF _ assms(1,2)])
  fix ns os hs ks
  assume g: "group_lists m ns os hs ks" "\<forall>xs \<in> {ns, os, hs, ks}. length xs + length held = n"
    "one_place IO (ns @ os @ map n_in held @ map n_out held)"
    "one_place HK (hs @ ks @ map n_heap held @ map n_stack held)"
  have "length held \<le> n" using g(2) by auto
  moreover have "if length held < n then \<exists>x m'. entry_take LB LK bz kz m = Inr (x, m')
         else entry_take LB LK bz kz m = Inl SEL_ASSERT"
    using group_take [OF assms(1,2) I, of bz kz] by (auto split: if_splits)
  moreover have "\<exists>ns os hs ks. group_lists m ns os hs ks \<and>
           length ns = n \<and> length os = n \<and> length hs = n \<and> length ks = n \<and>
           set ns \<union> set os = IO \<and> set hs \<union> set ks = HK" if "held = []"
    using g that
    by (intro exI [of _ ns] exI [of _ os] exI [of _ hs] exI [of _ ks]) (auto simp: one_place_def)
  ultimately show ?thesis using g(3,4) by (simp add: one_place_def)
qed

text \<open>A group with one node of each kind, and the state after one request took them.\<close>

definition demo_mem :: "(nat, nat) hts_mem" where
  "demo_mem = \<lparr>m_bufs = (\<lambda>p. \<lparr>hb_buffer = 7, hb_next = NULL\<rparr>), m_stks = (\<lambda>p. \<lparr>hk_stack = 7, hk_next = NULL\<rparr>),
     m_group = \<lparr>in_pool = 1, out_pool = 2, stack_pool = 4, heap_pool = 3\<rparr>\<rparr>"

lemma demo_mem_inv: "group_inv 1 {1, 2} {3, 4} (demo_mem, [])"
  by (rule group_invI [of _ "[1]" "[2]" "[3]" "[4]"])
    (auto simp: group_lists_def demo_mem_def law_hts_buf_get_next_def law_hts_stk_get_next_def one_place_def)

theorem entry_memory_exclusive_witness:
  "\<exists>x m. entry_take ref_ll ref_ll (\<lambda>_. 0) (\<lambda>_. 0) demo_mem = Inr (x, m) \<and> n_in x \<noteq> n_out x \<and>
     entry_take ref_ll ref_ll (\<lambda>_. 0) (\<lambda>_. 0) m = Inl SEL_ASSERT"
proof -
  note T = entry_memory_exclusive [OF ref_ll_spec ref_ll_spec demo_mem_inv,
      of "\<lambda>_. 0" "\<lambda>_. 0"]
  have "\<exists>x m'. entry_take ref_ll ref_ll (\<lambda>_. 0) (\<lambda>_. 0) demo_mem = Inr (x, m')"
    using T [OF rtranclp.rtrancl_refl] by simp
  then obtain x m where t: "entry_take ref_ll ref_ll (\<lambda>_. 0) (\<lambda>_. 0) demo_mem = Inr (x, m)" by blast
  then have s: "(group_step ref_ll ref_ll (\<lambda>_. 0) (\<lambda>_. 0))\<^sup>*\<^sup>* (demo_mem, []) (m, [x])"
    by (intro r_into_rtranclp group_step.take_nodes)
  from T [OF s] t show ?thesis by auto
qed

end
