(* ===== verification/Buffer.thy ===== *)
theory Buffer
  imports Pipe
begin

text \<open>
  Reading a socket or an SSL session into a buffer and writing a buffer out:
  \<^verbatim>\<open>buffer.c\<close>. The buffers are pgenc's \<^verbatim>\<open>struct pgc_buf\<close>, whose code is not in
  the repository: its functions are the fields of the record \<open>pgc\<close>, a parameter, and
  \<open>pgc_spec\<close> states what lawd relies on, in terms of the stream of all bytes ever put into
  the buffer, of which at most \<^verbatim>\<open>max\<close> lie between the offset and the end. The system
  calls and the SSL library are the record \<open>net\<close>; \<open>net_spec\<close> says that they carry a
  stream of bytes each way.
\<close>

section \<open>The outside\<close>

datatype ssl_error =
    SSL_ERROR_SYSCALL | SSL_ERROR_WANT_READ | SSL_ERROR_WANT_WRITE | SSL_ERROR_ZERO_RETURN
  | SSL_ERROR_OTHER

text \<open>
  \<^verbatim>\<open>read\<close> and \<^verbatim>\<open>SSL_read\<close> give bytes or an error; \<^verbatim>\<open>write\<close> and
  \<^verbatim>\<open>SSL_write\<close> give a count. \<open>'w\<close> is the state of the connection outside the
  process.
\<close>

record 'w net =
  n_read :: "nat \<Rightarrow> 'w \<Rightarrow> (errno + u8 list) \<times> 'w"
  n_write :: "u8 list \<Rightarrow> 'w \<Rightarrow> (errno + nat) \<times> 'w"
  n_SSL_read :: "nat \<Rightarrow> 'w \<Rightarrow> (ssl_error + u8 list) \<times> 'w"
  n_SSL_write :: "u8 list \<Rightarrow> 'w \<Rightarrow> (ssl_error + nat) \<times> 'w"

text \<open>A callback's \<^verbatim>\<open>intptr_t\<close>: an error code, or what was read or how much was written.\<close>

type_synonym 'w reader = "nat \<Rightarrow> 'w \<Rightarrow> (sel_err_t + u8 list) \<times> 'w"

type_synonym 'w writer = "u8 list \<Rightarrow> 'w \<Rightarrow> (sel_err_t + nat) \<times> 'w"

record ('b, 'w) pgc =
  b_tell :: "'b \<Rightarrow> nat"
  b_end :: "'b \<Rightarrow> nat"
  b_max :: "'b \<Rightarrow> nat"
  b_seek :: "nat \<Rightarrow> 'b \<Rightarrow> sel_err_t \<times> 'b"
  b_get :: "nat \<Rightarrow> 'b \<Rightarrow> sel_err_t \<times> u8 list \<times> 'b"
  b_put :: "u8 list \<Rightarrow> 'b \<Rightarrow> sel_err_t \<times> 'b"
  b_scan :: "u8 list \<Rightarrow> 'b \<Rightarrow> sel_err_t \<times> 'b"
  b_cbread :: "nat \<Rightarrow> 'w reader \<Rightarrow> 'b \<Rightarrow> 'w \<Rightarrow> (sel_err_t + nat) \<times> 'b \<times> 'w"
  b_cbwrite :: "nat \<Rightarrow> 'w writer \<Rightarrow> 'b \<Rightarrow> 'w \<Rightarrow> (sel_err_t + nat) \<times> 'b \<times> 'w"
  b_zero :: "'b \<Rightarrow> 'b"

section \<open>\<open>buffer.c\<close>\<close>

definition law_buf_read_cb :: "'w net \<Rightarrow> 'w reader" where
  "law_buf_read_cb N len w =
     (case n_read N len w of
        (Inr xs, w) \<Rightarrow> (if xs \<noteq> [] then Inr xs else Inl LAW_ERR_EOF, w)
      | (Inl errno, w) \<Rightarrow> (Inl (if errno = EAGAIN then LAW_ERR_WANTR else LAW_ERR_SYS), w))"

definition law_buf_read ::
  "('b, 'w) pgc \<Rightarrow> 'w net \<Rightarrow> nat \<Rightarrow> 'b \<Rightarrow> 'w \<Rightarrow> (sel_err_t + nat) \<times> 'b \<times> 'w" where
  "law_buf_read P N len = b_cbread P len (law_buf_read_cb N)"

definition law_buf_write_cb :: "'w net \<Rightarrow> 'w writer" where
  "law_buf_write_cb N bs w =
     (case n_write N bs w of
        (Inr k, w) \<Rightarrow> (Inr k, w)
      | (Inl errno, w) \<Rightarrow> (Inl (if errno = EAGAIN then LAW_ERR_WANTW else LAW_ERR_SYS), w))"

definition law_buf_write ::
  "('b, 'w) pgc \<Rightarrow> 'w net \<Rightarrow> nat \<Rightarrow> 'b \<Rightarrow> 'w \<Rightarrow> (sel_err_t + nat) \<times> 'b \<times> 'w" where
  "law_buf_write P N len = b_cbwrite P len (law_buf_write_cb N)"

definition law_buf_SSL_read_cb :: "'w net \<Rightarrow> 'w reader" where
  "law_buf_SSL_read_cb N len w =
     (case n_SSL_read N len w of
        (Inr xs, w) \<Rightarrow> (if xs \<noteq> [] then Inr xs else Inl LAW_ERR_SSL, w)
      | (Inl e, w) \<Rightarrow>
          (Inl (case e of
             SSL_ERROR_SYSCALL \<Rightarrow> LAW_ERR_SYS
           | SSL_ERROR_WANT_READ \<Rightarrow> LAW_ERR_WANTR
           | SSL_ERROR_WANT_WRITE \<Rightarrow> LAW_ERR_WANTW
           | SSL_ERROR_ZERO_RETURN \<Rightarrow> LAW_ERR_EOF
           | SSL_ERROR_OTHER \<Rightarrow> LAW_ERR_SSL), w))"

definition law_buf_read_SSL ::
  "('b, 'w) pgc \<Rightarrow> 'w net \<Rightarrow> nat \<Rightarrow> 'b \<Rightarrow> 'w \<Rightarrow> (sel_err_t + nat) \<times> 'b \<times> 'w" where
  "law_buf_read_SSL P N len = b_cbread P len (law_buf_SSL_read_cb N)"

definition law_buf_SSL_write_cb :: "'w net \<Rightarrow> 'w writer" where
  "law_buf_SSL_write_cb N bs w =
     (case n_SSL_write N bs w of
        (Inr k, w) \<Rightarrow> (if k > 0 then Inr k else Inl LAW_ERR_SSL, w)
      | (Inl e, w) \<Rightarrow>
          (Inl (case e of
             SSL_ERROR_SYSCALL \<Rightarrow> LAW_ERR_SYS
           | SSL_ERROR_WANT_READ \<Rightarrow> LAW_ERR_WANTR
           | SSL_ERROR_WANT_WRITE \<Rightarrow> LAW_ERR_WANTW
           | _ \<Rightarrow> LAW_ERR_SSL), w))"

definition law_buf_write_SSL ::
  "('b, 'w) pgc \<Rightarrow> 'w net \<Rightarrow> nat \<Rightarrow> 'b \<Rightarrow> 'w \<Rightarrow> (sel_err_t + nat) \<times> 'b \<times> 'w" where
  "law_buf_write_SSL P N len = b_cbwrite P len (law_buf_SSL_write_cb N)"

section \<open>Streams\<close>

text \<open>
  \<open>rx w\<close> is what the peer has still to deliver, \<open>tx w\<close> what was delivered to it. A
  reader takes from the front of the first, a writer appends to the second, an error does neither.
\<close>

definition reader_ok :: "('w \<Rightarrow> u8 list) \<Rightarrow> ('w \<Rightarrow> u8 list) \<Rightarrow> 'w reader \<Rightarrow> bool" where
  "reader_ok rx tx cb \<longleftrightarrow>
     (\<forall>m w w' xs. cb m w = (Inr xs, w') \<longrightarrow> xs \<noteq> [] \<and> length xs \<le> m \<and> rx w = xs @ rx w' \<and> tx w' = tx w) \<and>
     (\<forall>m w w' e. cb m w = (Inl e, w') \<longrightarrow> e \<noteq> LAW_ERR_OK \<and> rx w' = rx w \<and> tx w' = tx w)"

definition writer_ok :: "('w \<Rightarrow> u8 list) \<Rightarrow> ('w \<Rightarrow> u8 list) \<Rightarrow> 'w writer \<Rightarrow> bool" where
  "writer_ok rx tx cb \<longleftrightarrow>
     (\<forall>bs w w' k. cb bs w = (Inr k, w') \<longrightarrow> k \<le> length bs \<and> tx w' = tx w @ take k bs \<and> rx w' = rx w) \<and>
     (\<forall>bs w w' e. cb bs w = (Inl e, w') \<longrightarrow> e \<noteq> LAW_ERR_OK \<and> tx w' = tx w \<and> rx w' = rx w)"

text \<open>The documented behaviour of the four calls.\<close>

definition net_spec :: "('w \<Rightarrow> u8 list) \<Rightarrow> ('w \<Rightarrow> u8 list) \<Rightarrow> 'w net \<Rightarrow> bool" where
  "net_spec rx tx N \<longleftrightarrow>
     (\<forall>m w w' r. n_read N m w = (r, w') \<longrightarrow> tx w' = tx w \<and>
        (case r of Inl e \<Rightarrow> rx w' = rx w | Inr xs \<Rightarrow> length xs \<le> m \<and> rx w = xs @ rx w')) \<and>
     (\<forall>m w w' r. n_SSL_read N m w = (r, w') \<longrightarrow> tx w' = tx w \<and>
        (case r of Inl e \<Rightarrow> rx w' = rx w | Inr xs \<Rightarrow> length xs \<le> m \<and> rx w = xs @ rx w')) \<and>
     (\<forall>bs w w' r. n_write N bs w = (r, w') \<longrightarrow> rx w' = rx w \<and>
        (case r of Inl e \<Rightarrow> tx w' = tx w | Inr k \<Rightarrow> k \<le> length bs \<and> tx w' = tx w @ take k bs)) \<and>
     (\<forall>bs w w' r. n_SSL_write N bs w = (r, w') \<longrightarrow> rx w' = rx w \<and>
        (case r of Inl e \<Rightarrow> tx w' = tx w | Inr k \<Rightarrow> k \<le> length bs \<and> tx w' = tx w @ take k bs))"

lemma net_specD:
  assumes "net_spec rx tx N"
  shows "n_read N m w = (Inr xs, w') \<Longrightarrow> length xs \<le> m \<and> rx w = xs @ rx w' \<and> tx w' = tx w"
    and "n_read N m w = (Inl e, w') \<Longrightarrow> rx w' = rx w \<and> tx w' = tx w"
    and "n_SSL_read N m w = (Inr xs, w') \<Longrightarrow> length xs \<le> m \<and> rx w = xs @ rx w' \<and> tx w' = tx w"
    and "n_SSL_read N m w = (Inl s, w') \<Longrightarrow> rx w' = rx w \<and> tx w' = tx w"
    and "n_write N bs w = (Inr k, w') \<Longrightarrow> k \<le> length bs \<and> tx w' = tx w @ take k bs \<and> rx w' = rx w"
    and "n_write N bs w = (Inl e, w') \<Longrightarrow> rx w' = rx w \<and> tx w' = tx w"
    and "n_SSL_write N bs w = (Inr k, w') \<Longrightarrow> k \<le> length bs \<and> tx w' = tx w @ take k bs \<and> rx w' = rx w"
    and "n_SSL_write N bs w = (Inl s, w') \<Longrightarrow> rx w' = rx w \<and> tx w' = tx w"
  using assms unfolding net_spec_def by fastforce+

text \<open>The callbacks of \<^verbatim>\<open>buffer.c\<close> are readers and writers of the streams.\<close>

lemma law_buf_read_cb_ok: "net_spec rx tx N \<Longrightarrow> reader_ok rx tx (law_buf_read_cb N)"
  unfolding reader_ok_def law_buf_read_cb_def
  by (auto split: prod.splits sum.splits if_splits dest: net_specD(1,2))

lemma law_buf_SSL_read_cb_ok: "net_spec rx tx N \<Longrightarrow> reader_ok rx tx (law_buf_SSL_read_cb N)"
  unfolding reader_ok_def law_buf_SSL_read_cb_def
  by (auto split: prod.splits sum.splits if_splits ssl_error.splits dest: net_specD(3,4))

lemma law_buf_write_cb_ok: "net_spec rx tx N \<Longrightarrow> writer_ok rx tx (law_buf_write_cb N)"
  unfolding writer_ok_def law_buf_write_cb_def
  by (auto split: prod.splits sum.splits if_splits dest: net_specD(5,6))

lemma law_buf_SSL_write_cb_ok: "net_spec rx tx N \<Longrightarrow> writer_ok rx tx (law_buf_SSL_write_cb N)"
  unfolding writer_ok_def law_buf_SSL_write_cb_def
  by (auto split: prod.splits sum.splits if_splits ssl_error.splits dest: net_specD(7,8))

section \<open>The contract of pgenc's buffer\<close>

text \<open>
  A call of \<^verbatim>\<open>pgc_buf_cbread\<close> or \<^verbatim>\<open>pgc_buf_cbwrite\<close> calls back
  any number of times, for the pieces in which the bytes lie in memory.
\<close>

inductive cb_reads :: "'w reader \<Rightarrow> nat \<Rightarrow> 'w \<Rightarrow> u8 list \<Rightarrow> 'w \<Rightarrow> bool" for cb where
  none: "cb_reads cb n w [] w"
| more: "cb m w = (Inr xs, w1) \<Longrightarrow> m \<le> n \<Longrightarrow> cb_reads cb (n - length xs) w1 ys w2 \<Longrightarrow>
    cb_reads cb n w (xs @ ys) w2"

inductive cb_writes :: "'w writer \<Rightarrow> u8 list \<Rightarrow> 'w \<Rightarrow> nat \<Rightarrow> 'w \<Rightarrow> bool" for cb where
  none: "cb_writes cb bs w 0 w"
| more: "cb (take m bs) w = (Inr j, w1) \<Longrightarrow> cb_writes cb (drop j bs) w1 k w2 \<Longrightarrow>
    cb_writes cb bs w (j + k) w2"

lemma cb_reads_stream:
  assumes "cb_reads cb n w xs w'" and "reader_ok rx tx cb"
  shows "rx w = xs @ rx w' \<and> tx w' = tx w \<and> length xs \<le> n"
  using assms
proof (induction rule: cb_reads.induct)
  case (more m w xs w1 n ys w2)
  then have "xs \<noteq> [] \<and> length xs \<le> m \<and> rx w = xs @ rx w1 \<and> tx w1 = tx w"
    unfolding reader_ok_def by blast
  with more show ?case by auto
qed simp

lemma cb_writes_stream:
  assumes "cb_writes cb bs w k w'" and "writer_ok rx tx cb"
  shows "tx w' = tx w @ take k bs \<and> rx w' = rx w \<and> k \<le> length bs"
  using assms
proof (induction rule: cb_writes.induct)
  case (more m bs w j w1 k w2)
  then have j: "j \<le> length (take m bs)" "tx w1 = tx w @ take j (take m bs)" "rx w1 = rx w"
    unfolding writer_ok_def by blast+
  have "take j (take m bs) = take j bs" using j(1) by (cases "length bs \<le> m") auto
  with j more show ?case by (auto simp: take_add)
qed simp

definition bounded_reader :: "'w reader \<Rightarrow> bool" where
  "bounded_reader cb \<longleftrightarrow> (\<forall>m w xs w'. cb m w = (Inr xs, w') \<longrightarrow> xs \<noteq> [] \<and> length xs \<le> m)"

definition bounded_writer :: "'w writer \<Rightarrow> bool" where
  "bounded_writer cb \<longleftrightarrow> (\<forall>bs w k w'. cb bs w = (Inr k, w') \<longrightarrow> k \<le> length bs)"

lemma reader_bounded: "reader_ok rx tx cb \<Longrightarrow> bounded_reader cb"
  unfolding reader_ok_def bounded_reader_def by blast

lemma writer_bounded: "writer_ok rx tx cb \<Longrightarrow> bounded_writer cb"
  unfolding writer_ok_def bounded_writer_def by blast

definition occurs_at :: "'a list \<Rightarrow> 'a list \<Rightarrow> nat \<Rightarrow> bool" where
  "occurs_at d xs p \<longleftrightarrow> p + length d \<le> length xs \<and> take (length d) (drop p xs) = d"

text \<open>
  \<open>str b\<close> is the stream of \<open>b\<close>, \<open>ok b\<close> says that \<open>b\<close> is well
  formed. \<open>moved\<close> leaves the stream alone and sets the offset; \<open>appended\<close> adds
  bytes at the end.
\<close>

definition moved ::
  "('b, 'w) pgc \<Rightarrow> ('b \<Rightarrow> u8 list) \<Rightarrow> ('b \<Rightarrow> bool) \<Rightarrow> 'b \<Rightarrow> nat \<Rightarrow> 'b \<Rightarrow> bool" where
  "moved P str ok b p b' \<longleftrightarrow> ok b' \<and> str b' = str b \<and> b_tell P b' = p \<and> b_max P b' = b_max P b"

definition appended ::
  "('b, 'w) pgc \<Rightarrow> ('b \<Rightarrow> u8 list) \<Rightarrow> ('b \<Rightarrow> bool) \<Rightarrow> 'b \<Rightarrow> u8 list \<Rightarrow> 'b \<Rightarrow> bool" where
  "appended P str ok b xs b' \<longleftrightarrow>
     ok b' \<and> str b' = str b @ xs \<and> b_tell P b' = b_tell P b \<and> b_max P b' = b_max P b"

definition pgc_read_spec :: "('b, 'w) pgc \<Rightarrow> ('b \<Rightarrow> u8 list) \<Rightarrow> ('b \<Rightarrow> bool) \<Rightarrow> bool" where
  "pgc_read_spec P str ok \<longleftrightarrow>
     (\<forall>b n cb w r b' w'. ok b \<longrightarrow> 0 < n \<longrightarrow> b_end P b - b_tell P b + n \<le> b_max P b \<longrightarrow> bounded_reader cb \<longrightarrow>
        b_cbread P n cb b w = (r, b', w') \<longrightarrow>
        (\<exists>xs w1. cb_reads cb n w xs w1 \<and> appended P str ok b xs b' \<and>
           (case r of
              Inr k \<Rightarrow> 0 < k \<and> k = length xs \<and> (w' = w1 \<or> (\<exists>m e. cb m w1 = (Inl e, w')))
            | Inl e \<Rightarrow> xs = [] \<and> (\<exists>m > 0. cb m w1 = (Inl e, w')))))"

definition pgc_write_spec :: "('b, 'w) pgc \<Rightarrow> ('b \<Rightarrow> u8 list) \<Rightarrow> ('b \<Rightarrow> bool) \<Rightarrow> bool" where
  "pgc_write_spec P str ok \<longleftrightarrow>
     (\<forall>b n cb w r b' w'. ok b \<longrightarrow> 0 < n \<longrightarrow> n \<le> b_end P b - b_tell P b \<longrightarrow> bounded_writer cb \<longrightarrow>
        b_cbwrite P n cb b w = (r, b', w') \<longrightarrow>
        (\<exists>k w1. cb_writes cb (take n (drop (b_tell P b) (str b))) w k w1 \<and>
           moved P str ok b (b_tell P b + k) b' \<and>
           (case r of
              Inr j \<Rightarrow> j = k \<and> (w' = w1 \<or> (\<exists>bs e. cb bs w1 = (Inl e, w')))
            | Inl e \<Rightarrow> k = 0 \<and> (\<exists>bs. cb bs w1 = (Inl e, w')))))"

definition pgc_scan_spec :: "('b, 'w) pgc \<Rightarrow> ('b \<Rightarrow> u8 list) \<Rightarrow> ('b \<Rightarrow> bool) \<Rightarrow> bool" where
  "pgc_scan_spec P str ok \<longleftrightarrow>
     (\<forall>b d. ok b \<longrightarrow> d \<noteq> [] \<longrightarrow>
        (\<exists>e b'. b_scan P d b = (e, b') \<and>
          (if \<exists>p \<ge> b_tell P b. occurs_at d (str b) p
           then e = LAW_ERR_OK \<and>
             moved P str ok b ((LEAST p. b_tell P b \<le> p \<and> occurs_at d (str b) p) + length d) b'
           else e \<noteq> LAW_ERR_OK \<and>
             (\<exists>q. b_tell P b \<le> q \<and> q \<le> b_end P b \<and> moved P str ok b q b' \<and>
                (\<forall>p ys. b_tell P b \<le> p \<and> p < q \<longrightarrow> \<not> occurs_at d (str b @ ys) p)))))"

text \<open>What a failed scan skips cannot be the start of a delimiter that later bytes complete.\<close>

definition pgc_pos_spec :: "('b, 'w) pgc \<Rightarrow> ('b \<Rightarrow> u8 list) \<Rightarrow> ('b \<Rightarrow> bool) \<Rightarrow> bool" where
  "pgc_pos_spec P str ok \<longleftrightarrow>
     (\<forall>b. ok b \<longrightarrow> b_tell P b \<le> b_end P b \<and> b_end P b - b_tell P b \<le> b_max P b \<and> b_end P b = length (str b)) \<and>
     (\<forall>b p. ok b \<longrightarrow>
        (if p \<le> b_end P b \<and> b_end P b - p \<le> b_max P b
         then \<exists>b'. b_seek P p b = (LAW_ERR_OK, b') \<and> moved P str ok b p b'
         else \<exists>e. b_seek P p b = (e, b) \<and> e \<noteq> LAW_ERR_OK))"

definition pgc_copy_spec :: "('b, 'w) pgc \<Rightarrow> ('b \<Rightarrow> u8 list) \<Rightarrow> ('b \<Rightarrow> bool) \<Rightarrow> bool" where
  "pgc_copy_spec P str ok \<longleftrightarrow>
     (\<forall>b n. ok b \<longrightarrow>
        (if n \<le> b_end P b - b_tell P b
         then \<exists>b'. b_get P n b = (LAW_ERR_OK, take n (drop (b_tell P b) (str b)), b') \<and>
                moved P str ok b (b_tell P b + n) b'
         else \<exists>e. b_get P n b = (e, [], b) \<and> e \<noteq> LAW_ERR_OK)) \<and>
     (\<forall>b xs. ok b \<longrightarrow>
        (if b_end P b - b_tell P b + length xs \<le> b_max P b
         then \<exists>b'. b_put P xs b = (LAW_ERR_OK, b') \<and> appended P str ok b xs b'
         else b_put P xs b = (LAW_ERR_OOB, b))) \<and>
     (\<forall>b. ok b \<longrightarrow> ok (b_zero P b) \<and> str (b_zero P b) = [] \<and> b_tell P (b_zero P b) = 0 \<and>
        b_max P (b_zero P b) = b_max P b)"

definition pgc_spec :: "('b, 'w) pgc \<Rightarrow> ('b \<Rightarrow> u8 list) \<Rightarrow> ('b \<Rightarrow> bool) \<Rightarrow> bool" where
  "pgc_spec P str ok \<longleftrightarrow>
     pgc_pos_spec P str ok \<and> pgc_copy_spec P str ok \<and> pgc_scan_spec P str ok \<and>
     pgc_read_spec P str ok \<and> pgc_write_spec P str ok"

section \<open>An instance of the contract\<close>

text \<open>A buffer that keeps its whole stream, to show that the contract can be met and to run the examples.\<close>

record rbuf =
  rb_str :: "u8 list"
  rb_tell :: nat
  rb_max :: nat

definition rb_ok :: "rbuf \<Rightarrow> bool" where
  "rb_ok b \<longleftrightarrow> rb_tell b \<le> length (rb_str b) \<and> length (rb_str b) - rb_tell b \<le> rb_max b"

definition rb_seek :: "nat \<Rightarrow> rbuf \<Rightarrow> sel_err_t \<times> rbuf" where
  "rb_seek p b =
     (if p \<le> length (rb_str b) \<and> length (rb_str b) - p \<le> rb_max b
      then (LAW_ERR_OK, b\<lparr>rb_tell := p\<rparr>) else (LAW_ERR_OOB, b))"

definition rb_get :: "nat \<Rightarrow> rbuf \<Rightarrow> sel_err_t \<times> u8 list \<times> rbuf" where
  "rb_get n b =
     (if n \<le> length (rb_str b) - rb_tell b
      then (LAW_ERR_OK, take n (drop (rb_tell b) (rb_str b)), b\<lparr>rb_tell := rb_tell b + n\<rparr>)
      else (LAW_ERR_OOB, [], b))"

definition rb_put :: "u8 list \<Rightarrow> rbuf \<Rightarrow> sel_err_t \<times> rbuf" where
  "rb_put xs b =
     (if length (rb_str b) - rb_tell b + length xs \<le> rb_max b
      then (LAW_ERR_OK, b\<lparr>rb_str := rb_str b @ xs\<rparr>) else (LAW_ERR_OOB, b))"

fun first_at :: "u8 list \<Rightarrow> u8 list \<Rightarrow> nat \<Rightarrow> nat option" where
  "first_at d [] p = (if d = [] then Some p else None)"
| "first_at d (x # xs) p =
     (if take (length d) (x # xs) = d then Some p else first_at d xs (Suc p))"

definition rb_scan :: "u8 list \<Rightarrow> rbuf \<Rightarrow> sel_err_t \<times> rbuf" where
  "rb_scan d b =
     (case first_at d (drop (rb_tell b) (rb_str b)) (rb_tell b) of
        None \<Rightarrow> (LAW_ERR_OOB, b)
      | Some p \<Rightarrow> (LAW_ERR_OK, b\<lparr>rb_tell := p + length d\<rparr>))"

definition rb_cbread :: "nat \<Rightarrow> 'w reader \<Rightarrow> rbuf \<Rightarrow> 'w \<Rightarrow> (sel_err_t + nat) \<times> rbuf \<times> 'w" where
  "rb_cbread n cb b w =
     (case cb n w of
        (Inl e, w) \<Rightarrow> (Inl e, b, w)
      | (Inr xs, w) \<Rightarrow> (Inr (length xs), b\<lparr>rb_str := rb_str b @ xs\<rparr>, w))"

definition rb_cbwrite :: "nat \<Rightarrow> 'w writer \<Rightarrow> rbuf \<Rightarrow> 'w \<Rightarrow> (sel_err_t + nat) \<times> rbuf \<times> 'w" where
  "rb_cbwrite n cb b w =
     (case cb (take n (drop (rb_tell b) (rb_str b))) w of
        (Inl e, w) \<Rightarrow> (Inl e, b, w)
      | (Inr k, w) \<Rightarrow> (Inr k, b\<lparr>rb_tell := rb_tell b + k\<rparr>, w))"

definition ref_pgc :: "(rbuf, 'w) pgc" where
  "ref_pgc =
     \<lparr>b_tell = rb_tell, b_end = length \<circ> rb_str, b_max = rb_max, b_seek = rb_seek, b_get = rb_get,
      b_put = rb_put, b_scan = rb_scan, b_cbread = rb_cbread, b_cbwrite = rb_cbwrite,
      b_zero = (\<lambda>b. b\<lparr>rb_str := [], rb_tell := 0\<rparr>)\<rparr>"

lemma occurs_at_0: "occurs_at d xs 0 \<longleftrightarrow> take (length d) xs = d"
  by (auto simp: occurs_at_def dest: arg_cong [of _ _ length])

lemma occurs_at_Suc: "occurs_at d (x # xs) (Suc p) \<longleftrightarrow> occurs_at d xs p"
  by (simp add: occurs_at_def)

lemma occurs_at_drop: "occurs_at d (drop k xs) p \<longleftrightarrow> occurs_at d xs (k + p)" if "k \<le> length xs"
  using that by (auto simp: occurs_at_def add.commute)

lemma first_at_Some: "d \<noteq> [] \<Longrightarrow> first_at d xs k = Some p \<Longrightarrow>
    k \<le> p \<and> occurs_at d xs (p - k) \<and> (\<forall>q < p - k. \<not> occurs_at d xs q)"
proof (induction d xs k rule: first_at.induct)
  case (2 d x xs k)
  show ?case
  proof (cases "take (length d) (x # xs) = d")
    case True
    with 2 show ?thesis by (simp add: occurs_at_0)
  next
    case False
    with 2 have IH: "Suc k \<le> p" "occurs_at d xs (p - Suc k)" "\<forall>q < p - Suc k. \<not> occurs_at d xs q"
      by simp_all
    then have "p - k = Suc (p - Suc k)" by simp
    with IH False show ?thesis
      by (auto simp: occurs_at_Suc occurs_at_0 less_Suc_eq_0_disj)
  qed
qed simp

lemma first_at_None: "d \<noteq> [] \<Longrightarrow> first_at d xs k = None \<Longrightarrow> \<not> occurs_at d xs p"
proof (induction d xs k arbitrary: p rule: first_at.induct)
  case (1 d k)
  then show ?case by (simp add: occurs_at_def)
next
  case (2 d x xs k)
  then show ?case
    by (cases p) (auto simp: occurs_at_Suc occurs_at_0 simp del: take_Suc_Cons split: if_splits)
qed

lemma rb_scan_spec: "pgc_scan_spec ref_pgc rb_str rb_ok"
  unfolding pgc_scan_spec_def
proof (intro allI impI)
  fix b :: rbuf and d :: "u8 list"
  assume ok: "rb_ok b" and d: "d \<noteq> []"
  let ?t = "rb_tell b" and ?s = "rb_str b"
  have t: "?t \<le> length ?s" using ok by (simp add: rb_ok_def)
  show "\<exists>e b'. b_scan ref_pgc d b = (e, b') \<and>
      (if \<exists>p \<ge> b_tell ref_pgc b. occurs_at d ?s p
       then e = LAW_ERR_OK \<and> moved ref_pgc rb_str rb_ok b
              ((LEAST p. b_tell ref_pgc b \<le> p \<and> occurs_at d ?s p) + length d) b'
       else e \<noteq> LAW_ERR_OK \<and>
         (\<exists>q. b_tell ref_pgc b \<le> q \<and> q \<le> b_end ref_pgc b \<and> moved ref_pgc rb_str rb_ok b q b' \<and>
            (\<forall>p ys. b_tell ref_pgc b \<le> p \<and> p < q \<longrightarrow> \<not> occurs_at d (?s @ ys) p)))"
  proof (cases "first_at d (drop ?t ?s) ?t")
    case None
    have "\<not> occurs_at d ?s p" if "?t \<le> p" for p
      using first_at_None [OF d None, of "p - ?t"] that by (simp add: occurs_at_drop [OF t])
    with None ok t show ?thesis
      by (auto simp: ref_pgc_def rb_scan_def moved_def intro!: exI [of _ ?t])
  next
    case (Some p)
    note f = first_at_Some [OF d Some]
    have at: "occurs_at d ?s p" "?t \<le> p" using f by (auto simp: occurs_at_drop [OF t])
    have least: "(LEAST q. ?t \<le> q \<and> occurs_at d ?s q) = p"
    proof (rule Least_equality)
      fix q
      assume q: "?t \<le> q \<and> occurs_at d ?s q"
      then have "occurs_at d (drop ?t ?s) (q - ?t)" by (simp add: occurs_at_drop [OF t])
      with f have "\<not> q - ?t < p - ?t" by blast
      with q show "p \<le> q" by linarith
    qed (use at in simp)
    have "p + length d \<le> length ?s" using at(1) by (simp add: occurs_at_def)
    with ok at have "rb_ok (b\<lparr>rb_tell := p + length d\<rparr>)" by (simp add: rb_ok_def)
    with Some at least show ?thesis by (auto simp: ref_pgc_def rb_scan_def moved_def)
  qed
qed

lemma rb_read_spec: "pgc_read_spec ref_pgc rb_str rb_ok"
  unfolding pgc_read_spec_def
proof (intro allI impI)
  fix b :: rbuf and n and cb :: "'w reader" and w w' r b'
  assume ok: "rb_ok b" and n: "0 < n" and room: "b_end ref_pgc b - b_tell ref_pgc b + n \<le> b_max ref_pgc b"
    and cb: "bounded_reader cb" and r: "b_cbread ref_pgc n cb b w = (r, b', w')"
  show "\<exists>xs w1. cb_reads cb n w xs w1 \<and> appended ref_pgc rb_str rb_ok b xs b' \<and>
           (case r of
              Inr k \<Rightarrow> 0 < k \<and> k = length xs \<and> (w' = w1 \<or> (\<exists>m e. cb m w1 = (Inl e, w')))
            | Inl e \<Rightarrow> xs = [] \<and> (\<exists>m > 0. cb m w1 = (Inl e, w')))"
  proof (cases "cb n w")
    case (Pair q w2)
    show ?thesis
    proof (cases q)
      case (Inl e)
      with Pair r ok n show ?thesis
        by (auto simp: ref_pgc_def rb_cbread_def appended_def intro!: exI [of _ "[]"] exI [of _ w] cb_reads.none)
    next
      case (Inr xs)
      with Pair cb have x: "xs \<noteq> []" "length xs \<le> n" by (auto simp: bounded_reader_def)
      have "cb_reads cb n w (xs @ []) w2"
        using Pair Inr by (intro cb_reads.more [of cb n w xs w2] cb_reads.none) auto
      with Pair Inr r ok x room show ?thesis
        by (auto simp: ref_pgc_def rb_cbread_def appended_def rb_ok_def intro!: exI [of _ xs] exI [of _ w2])
    qed
  qed
qed

lemma rb_write_spec: "pgc_write_spec ref_pgc rb_str rb_ok"
  unfolding pgc_write_spec_def
proof (intro allI impI)
  fix b :: rbuf and n and cb :: "'w writer" and w w' r b'
  assume ok: "rb_ok b" and n: "0 < n" "n \<le> b_end ref_pgc b - b_tell ref_pgc b"
    and cb: "bounded_writer cb" and r: "b_cbwrite ref_pgc n cb b w = (r, b', w')"
  let ?bs = "take n (drop (rb_tell b) (rb_str b))"
  show "\<exists>k w1. cb_writes cb (take n (drop (b_tell ref_pgc b) (rb_str b))) w k w1 \<and>
           moved ref_pgc rb_str rb_ok b (b_tell ref_pgc b + k) b' \<and>
           (case r of
              Inr j \<Rightarrow> j = k \<and> (w' = w1 \<or> (\<exists>bs e. cb bs w1 = (Inl e, w')))
            | Inl e \<Rightarrow> k = 0 \<and> (\<exists>bs. cb bs w1 = (Inl e, w')))"
  proof (cases "cb ?bs w")
    case (Pair q w2)
    show ?thesis
    proof (cases q)
      case (Inl e)
      with Pair r ok show ?thesis
        by (auto simp: ref_pgc_def rb_cbwrite_def moved_def intro!: exI [of _ 0] exI [of _ w] cb_writes.none)
    next
      case (Inr k)
      with Pair cb have k: "k \<le> length ?bs" unfolding bounded_writer_def by blast
      have "cb_writes cb ?bs w (k + 0) w2"
        using Pair Inr by (intro cb_writes.more [of cb n _ w k w2] cb_writes.none) simp
      with Pair Inr r ok k n show ?thesis
        by (auto simp: ref_pgc_def rb_cbwrite_def moved_def rb_ok_def intro!: exI [of _ k] exI [of _ w2])
    qed
  qed
qed

lemma ref_pgc_spec: "pgc_spec ref_pgc rb_str rb_ok"
  unfolding pgc_spec_def
proof (intro conjI rb_scan_spec rb_read_spec rb_write_spec)
  show "pgc_pos_spec ref_pgc rb_str rb_ok"
    unfolding pgc_pos_spec_def by (auto simp: ref_pgc_def rb_seek_def rb_ok_def moved_def)
  show "pgc_copy_spec ref_pgc rb_str rb_ok"
    unfolding pgc_copy_spec_def by (auto simp: ref_pgc_def rb_get_def rb_put_def rb_ok_def moved_def appended_def)
qed

text \<open>
  A peer: what it still sends, what it got, and for each coming call how many bytes go through, none for a
  call that would block.
\<close>

record peer =
  pe_rx :: "u8 list"
  pe_tx :: "u8 list"
  pe_script :: "nat list"

definition peer_move :: "nat \<Rightarrow> peer \<Rightarrow> nat option \<times> peer" where
  "peer_move n p =
     (case pe_script p of
        [] \<Rightarrow> (Some n, p)
      | k # ks \<Rightarrow> (if k = 0 then None else Some (min k n), p\<lparr>pe_script := ks\<rparr>))"

definition peer_read :: "'e \<Rightarrow> nat \<Rightarrow> peer \<Rightarrow> ('e + u8 list) \<times> peer" where
  "peer_read e n p =
     (case peer_move n p of
        (None, p) \<Rightarrow> (Inl e, p)
      | (Some k, p) \<Rightarrow> (Inr (take k (pe_rx p)), p\<lparr>pe_rx := drop k (pe_rx p)\<rparr>))"

definition peer_write :: "'e \<Rightarrow> u8 list \<Rightarrow> peer \<Rightarrow> ('e + nat) \<times> peer" where
  "peer_write e bs p =
     (case peer_move (length bs) p of
        (None, p) \<Rightarrow> (Inl e, p)
      | (Some k, p) \<Rightarrow> (Inr k, p\<lparr>pe_tx := pe_tx p @ take k bs\<rparr>))"

definition ref_net :: "peer net" where
  "ref_net = \<lparr>n_read = peer_read EAGAIN, n_write = peer_write EAGAIN,
     n_SSL_read = peer_read SSL_ERROR_WANT_READ, n_SSL_write = peer_write SSL_ERROR_WANT_WRITE\<rparr>"

lemma peer_move_cases:
  "peer_move n p = (q, p') \<Longrightarrow> pe_rx p' = pe_rx p \<and> pe_tx p' = pe_tx p \<and> (\<forall>k. q = Some k \<longrightarrow> k \<le> n)"
  by (auto simp: peer_move_def split: list.splits if_splits)

lemma peer_read_cases:
  assumes "peer_read e n p = (r, p')"
  shows "pe_tx p' = pe_tx p \<and>
    (case r of Inl e \<Rightarrow> pe_rx p' = pe_rx p | Inr xs \<Rightarrow> length xs \<le> n \<and> pe_rx p = xs @ pe_rx p')"
proof (cases "peer_move n p")
  case (Pair q p1)
  with peer_move_cases [OF Pair] assms show ?thesis by (cases q) (auto simp: peer_read_def)
qed

lemma peer_write_cases:
  assumes "peer_write e bs p = (r, p')"
  shows "pe_rx p' = pe_rx p \<and>
    (case r of Inl e \<Rightarrow> pe_tx p' = pe_tx p | Inr k \<Rightarrow> k \<le> length bs \<and> pe_tx p' = pe_tx p @ take k bs)"
proof (cases "peer_move (length bs) p")
  case (Pair q p1)
  with peer_move_cases [OF Pair] assms show ?thesis by (cases q) (auto simp: peer_write_def)
qed

lemma ref_net_spec: "net_spec pe_rx pe_tx ref_net"
  unfolding net_spec_def ref_net_def net.simps
  by (intro conjI allI impI) (simp_all only: peer_read_cases peer_write_cases)

end
