(* ===== verification/HttpConn.thy ===== *)
theory HttpConn
  imports Buffer HttpPools
begin

text \<open>
  A connection and its two buffers: \<^verbatim>\<open>http_conn.c\<close>. The calls that may have to wait
  return \<^verbatim>\<open>LAW_ERR_WANTR\<close> or \<^verbatim>\<open>LAW_ERR_WANTW\<close> and are tried again; the
  theory \<open>Sync\<close> has the loop that does so. The main invariant, \<open>conn_inv\<close>, says that
  the input buffer's stream continues with what the peer has still to deliver and that what the peer got is
  the output buffer's stream up to its offset.
\<close>

section \<open>State\<close>

record 'b law_htconn =
  hc_socket :: nat
  hc_mode :: htc_security
  hc_ssl :: "nat option"
  hc_inbuf :: 'b
  hc_outbuf :: 'b

text \<open>The connection, the world outside and the thread's error stack. Requests extend it.\<close>

record ('b, 'w) conn_st =
  cs_conn :: "'b law_htconn"
  cs_net :: 'w
  cs_errs :: law_err_stack

definition set_in :: "'b \<Rightarrow> ('b, 'w, 'z) conn_st_scheme \<Rightarrow> ('b, 'w, 'z) conn_st_scheme" where
  "set_in b s = s\<lparr>cs_conn := (cs_conn s)\<lparr>hc_inbuf := b\<rparr>\<rparr>"

definition set_out :: "'b \<Rightarrow> ('b, 'w, 'z) conn_st_scheme \<Rightarrow> ('b, 'w, 'z) conn_st_scheme" where
  "set_out b s = s\<lparr>cs_conn := (cs_conn s)\<lparr>hc_outbuf := b\<rparr>\<rparr>"

abbreviation cs_in :: "('b, 'w, 'z) conn_st_scheme \<Rightarrow> 'b" where
  "cs_in s \<equiv> hc_inbuf (cs_conn s)"

abbreviation cs_out :: "('b, 'w, 'z) conn_st_scheme \<Rightarrow> 'b" where
  "cs_out s \<equiv> hc_outbuf (cs_conn s)"

text \<open>What a function is given: pgenc's buffers, the system, and the error code whose number is zero.\<close>

record ('b, 'w) conn_lib =
  cl_buf :: "('b, 'w) pgc"
  cl_net :: "'w net"
  cl_zero :: sel_err_t

text \<open>
  An \<^verbatim>\<open>intptr_t\<close> result is positive for a count only; any other is cast to an error code.
\<close>

definition positive :: "sel_err_t + nat \<Rightarrow> bool" where
  "positive r \<longleftrightarrow> (case r of Inl e \<Rightarrow> False | Inr k \<Rightarrow> 0 < k)"

definition as_err :: "('b, 'w) conn_lib \<Rightarrow> sel_err_t + nat \<Rightarrow> sel_err_t" where
  "as_err C r = (case r of Inl e \<Rightarrow> e | Inr k \<Rightarrow> cl_zero C)"

definition CONN_PUSH ::
  "sel_err_t \<Rightarrow> string \<Rightarrow> string \<Rightarrow> int \<Rightarrow> ('b, 'w, 'z) conn_st_scheme \<Rightarrow>
   (sel_err_t \<times> ('b, 'w, 'z) conn_st_scheme) run" where
  "CONN_PUSH type action func line s =
     bindE (law_err_push type action ''source/lawd/http_conn.c'' func line (cs_errs s))
       (\<lambda>(e, es). Inr (e, s\<lparr>cs_errs := es\<rparr>))"

section \<open>Input\<close>

text \<open>
  The differences of buffer positions are exact: pgenc keeps the offset at or before the end and
  the two within \<^verbatim>\<open>max\<close>. The sum in \<open>law_htc_ensure_input\<close> can wrap round, as
  \<^verbatim>\<open>nbytes\<close> is the caller's.
\<close>

definition law_htc_read_data ::
  "('b, 'w) conn_lib \<Rightarrow> ('b, 'w, 'z) conn_st_scheme \<Rightarrow>
   ((sel_err_t + nat) \<times> ('b, 'w, 'z) conn_st_scheme) run" where
  "law_htc_read_data C s =
     (let P = cl_buf C; inb = cs_in s;
          block = b_end P inb - b_tell P inb;
          avail = b_max P inb - block
      in if avail = 0 then Inr (Inl LAW_ERR_OOB, s)
         else
           (case hc_mode (cs_conn s) of
              LAW_HTC_UNSECURED \<Rightarrow>
                (case law_buf_read P (cl_net C) avail inb (cs_net s) of
                   (r, b, w) \<Rightarrow> Inr (r, (set_in b s)\<lparr>cs_net := w\<rparr>))
            | LAW_HTC_SSL \<Rightarrow>
                (case law_buf_read_SSL P (cl_net C) avail inb (cs_net s) of
                   (r, b, w) \<Rightarrow> Inr (r, (set_in b s)\<lparr>cs_net := w\<rparr>))
            | SECURITY_OTHER _ \<Rightarrow> Inl SEL_HALT))"

definition law_htc_ensure_input ::
  "('b, 'w) conn_lib \<Rightarrow> nat \<Rightarrow> ('b, 'w, 'z) conn_st_scheme \<Rightarrow>
   (sel_err_t \<times> ('b, 'w, 'z) conn_st_scheme) run" where
  "law_htc_ensure_input C nbytes s =
     (let P = cl_buf C; offset = b_tell P (cs_in s); end_in = b_end P (cs_in s)
      in if b_max P (cs_in s) < (end_in - offset + nbytes) mod 2 ^ 64 then Inr (LAW_ERR_OOB, s)
         else if nbytes \<le> end_in - offset then Inr (LAW_ERR_OK, s)
         else
           bindE (law_htc_read_data C s) (\<lambda>(result, s).
             if \<not> positive result then Inr (as_err C result, s)
             else Inr (if nbytes \<le> b_end P (cs_in s) - offset then LAW_ERR_OK else LAW_ERR_WANTR, s)))"

section \<open>Output\<close>

definition law_htc_write_data ::
  "('b, 'w) conn_lib \<Rightarrow> ('b, 'w, 'z) conn_st_scheme \<Rightarrow>
   ((sel_err_t + nat) \<times> ('b, 'w, 'z) conn_st_scheme) run" where
  "law_htc_write_data C s =
     (let P = cl_buf C; outb = cs_out s; block = b_end P outb - b_tell P outb
      in if block = 0 then Inr (Inl LAW_ERR_OK, s)
         else
           (case hc_mode (cs_conn s) of
              LAW_HTC_UNSECURED \<Rightarrow>
                (case law_buf_write P (cl_net C) block outb (cs_net s) of
                   (r, b, w) \<Rightarrow> Inr (r, (set_out b s)\<lparr>cs_net := w\<rparr>))
            | LAW_HTC_SSL \<Rightarrow>
                (case law_buf_write_SSL P (cl_net C) block outb (cs_net s) of
                   (r, b, w) \<Rightarrow> Inr (r, (set_out b s)\<lparr>cs_net := w\<rparr>))
            | SECURITY_OTHER _ \<Rightarrow> Inl SEL_HALT))"

definition law_htc_ensure_output ::
  "('b, 'w) conn_lib \<Rightarrow> nat \<Rightarrow> ('b, 'w, 'z) conn_st_scheme \<Rightarrow>
   (sel_err_t \<times> ('b, 'w, 'z) conn_st_scheme) run" where
  "law_htc_ensure_output C nbytes s =
     (let P = cl_buf C; end_out = b_end P (cs_out s); max_out = b_max P (cs_out s);
          unwritten = end_out - b_tell P (cs_out s)
      in require SEL_ASSERT (unwritten \<le> max_out)
          (if max_out < nbytes then Inr (LAW_ERR_OOB, s)
           else if nbytes \<le> max_out - unwritten then Inr (LAW_ERR_OK, s)
           else
             bindE (law_htc_write_data C s) (\<lambda>(result, s).
               if \<not> positive result then Inr (as_err C result, s)
               else
                 let unwritten = end_out - b_tell P (cs_out s)
                 in require SEL_ASSERT (unwritten \<le> max_out)
                     (Inr (if nbytes \<le> max_out - unwritten then LAW_ERR_OK else LAW_ERR_WANTW, s)))))"

definition law_htc_flush ::
  "('b, 'w) conn_lib \<Rightarrow> ('b, 'w, 'z) conn_st_scheme \<Rightarrow>
   (sel_err_t \<times> ('b, 'w, 'z) conn_st_scheme) run" where
  "law_htc_flush C s =
     (let P = cl_buf C; offset = b_tell P (cs_out s); end_out = b_end P (cs_out s)
      in if end_out - offset = 0 then Inr (LAW_ERR_OK, s)
         else
           bindE (law_htc_write_data C s) (\<lambda>(result, s).
             if \<not> positive result then Inr (as_err C result, s)
             else Inr (if end_out - b_tell P (cs_out s) = 0 then LAW_ERR_OK else LAW_ERR_WANTW, s)))"

section \<open>Reading up to a delimiter\<close>

text \<open>
  The bytes from \<open>base\<close> on are kept while more are read; then the scan goes on where the
  last one stopped. The second part of the function is \<open>scan_result\<close>.
\<close>

definition scan_result ::
  "('b, 'w) conn_lib \<Rightarrow> nat \<Rightarrow> u8 list \<Rightarrow> sel_err_t + nat \<Rightarrow> ('b, 'w, 'z) conn_st_scheme \<Rightarrow>
   sel_err_t \<times> ('b, 'w, 'z) conn_st_scheme" where
  "scan_result C base delim result s =
     (let P = cl_buf C in
      case b_scan P delim (cs_in s) of
        (e, b) \<Rightarrow>
          let s = set_in b s in
          if e = LAW_ERR_OK then (LAW_ERR_OK, s)
          else if b_max P b \<le> b_end P b - base then (LAW_ERR_OOB, s)
          else if positive result then (LAW_ERR_WANTR, s)
          else (as_err C result, s))"

definition law_htc_read_scan ::
  "('b, 'w) conn_lib \<Rightarrow> nat \<Rightarrow> u8 list \<Rightarrow> ('b, 'w, 'z) conn_st_scheme \<Rightarrow>
   (sel_err_t \<times> ('b, 'w, 'z) conn_st_scheme) run" where
  "law_htc_read_scan C base delim s =
     (let P = cl_buf C in
      require SEL_ASSERT (delim \<noteq> [])
       (if b_max P (cs_in s) < length delim
        then CONN_PUSH LAW_ERR_OOB ''delim_too_long'' ''law_htc_read_scan'' 227 s
        else
          let offset = b_tell P (cs_in s) in
          case b_seek P base (cs_in s) of
            (e, b) \<Rightarrow>
              let s = set_in b s in
              if e \<noteq> LAW_ERR_OK then CONN_PUSH LAW_ERR_OOB ''pgc_buf_seek'' ''law_htc_read_scan'' 232 s
              else
                bindE (law_htc_read_data C s) (\<lambda>(result, s).
                  case b_seek P offset (cs_in s) of
                    (e, b) \<Rightarrow>
                      require SEL_TEST (e = LAW_ERR_OK)
                       (let s = set_in b s in
                        if \<not> positive result \<and>
                           as_err C result \<notin> {LAW_ERR_WANTW, LAW_ERR_WANTR, LAW_ERR_EOF, LAW_ERR_OOB}
                        then CONN_PUSH (as_err C result) ''law_htc_read_data'' ''law_htc_read_scan'' 246 s
                        else Inr (scan_result C base delim result s)))))"

section \<open>What the calls do to the streams\<close>

lemma pgc_specD:
  assumes "pgc_spec P str ok"
  shows "pgc_pos_spec P str ok" and "pgc_copy_spec P str ok" and "pgc_scan_spec P str ok"
    and "pgc_read_spec P str ok" and "pgc_write_spec P str ok"
  using assms by (simp_all add: pgc_spec_def)

lemma pgc_pos:
  assumes "pgc_spec P str ok" and "ok b"
  shows "b_tell P b \<le> b_end P b" and "b_end P b - b_tell P b \<le> b_max P b" and "b_end P b = length (str b)"
  using pgc_specD(1) [OF assms(1)] assms(2) unfolding pgc_pos_spec_def by blast+

lemma pgc_seek:
  assumes "pgc_spec P str ok" and "ok b" and "p \<le> b_end P b" and "b_end P b - p \<le> b_max P b"
  obtains b' where "b_seek P p b = (LAW_ERR_OK, b')" and "moved P str ok b p b'"
  using pgc_specD(1) [OF assms(1)] assms(2-4) unfolding pgc_pos_spec_def by (metis (full_types))

lemma pgc_seek_fails:
  assumes "pgc_spec P str ok" and "ok b" and "\<not> (p \<le> b_end P b \<and> b_end P b - p \<le> b_max P b)"
  obtains e where "b_seek P p b = (e, b)" and "e \<noteq> LAW_ERR_OK"
  using pgc_specD(1) [OF assms(1)] assms(2,3) unfolding pgc_pos_spec_def by (metis (full_types))

lemma pgc_put:
  assumes "pgc_spec P str ok" and "ok b" and "length xs \<le> b_max P b - (b_end P b - b_tell P b)"
  obtains b' where "b_put P xs b = (LAW_ERR_OK, b')" and "appended P str ok b xs b'"
proof -
  have "b_end P b - b_tell P b + length xs \<le> b_max P b"
    using pgc_pos(2) [OF assms(1,2)] assms(3) by simp
  with pgc_specD(2) [OF assms(1)] assms(2) that show thesis
    unfolding pgc_copy_spec_def by (metis (full_types))
qed

lemma pgc_get:
  assumes "pgc_spec P str ok" and "ok b" and "n \<le> b_end P b - b_tell P b"
  obtains b' where "b_get P n b = (LAW_ERR_OK, take n (drop (b_tell P b) (str b)), b')"
    and "moved P str ok b (b_tell P b + n) b'"
  using pgc_specD(2) [OF assms(1)] assms(2,3) that unfolding pgc_copy_spec_def by (metis (full_types))

text \<open>A read with room and a write with something to write, for a reader and a writer of the streams.\<close>

lemma pgc_read:
  assumes "pgc_spec P str ok" and "ok b" and "0 < n" and "b_end P b - b_tell P b + n \<le> b_max P b"
    and "reader_ok rx tx cb"
  obtains r b' w' xs where "b_cbread P n cb b w = (r, b', w')" and "appended P str ok b xs b'"
    and "rx w = xs @ rx w'" and "tx w' = tx w" and "length xs \<le> n"
    and "r = Inr (length xs) \<and> xs \<noteq> [] \<or> (\<exists>e. r = Inl e \<and> e \<noteq> LAW_ERR_OK \<and> xs = [])"
proof -
  obtain r b' w' where r: "b_cbread P n cb b w = (r, b', w')" by (metis prod_cases3)
  from pgc_specD(4) [OF assms(1), unfolded pgc_read_spec_def, rule_format,
      OF assms(2-4) reader_bounded [OF assms(5)] r]
  obtain xs w1 where x: "cb_reads cb n w xs w1" "appended P str ok b xs b'"
    and c: "case r of Inr k \<Rightarrow> 0 < k \<and> k = length xs \<and> (w' = w1 \<or> (\<exists>m e. cb m w1 = (Inl e, w')))
            | Inl e \<Rightarrow> xs = [] \<and> (\<exists>m > 0. cb m w1 = (Inl e, w'))" by blast
  note s = cb_reads_stream [OF x(1) assms(5)]
  have err: "e \<noteq> LAW_ERR_OK \<and> rx w' = rx w1 \<and> tx w' = tx w1" if "cb m w1 = (Inl e, w')" for m e
    using assms(5) that unfolding reader_ok_def by blast
  have "rx w' = rx w1 \<and> tx w' = tx w1 \<and>
      (r = Inr (length xs) \<and> xs \<noteq> [] \<or> (\<exists>e. r = Inl e \<and> e \<noteq> LAW_ERR_OK \<and> xs = []))"
    using c err by (cases r) auto
  with that [OF r x(2)] s show thesis by auto
qed

lemma pgc_write:
  assumes "pgc_spec P str ok" and "ok b" and "0 < n" and "n \<le> b_end P b - b_tell P b"
    and "writer_ok rx tx cb"
  obtains r b' w' k where "b_cbwrite P n cb b w = (r, b', w')" and "moved P str ok b (b_tell P b + k) b'"
    and "tx w' = tx w @ take k (drop (b_tell P b) (str b))" and "rx w' = rx w" and "k \<le> n"
    and "r = Inr k \<or> (\<exists>e. r = Inl e \<and> e \<noteq> LAW_ERR_OK \<and> k = 0)"
proof -
  obtain r b' w' where r: "b_cbwrite P n cb b w = (r, b', w')" by (metis prod_cases3)
  let ?bs = "take n (drop (b_tell P b) (str b))"
  from pgc_specD(5) [OF assms(1), unfolded pgc_write_spec_def, rule_format,
      OF assms(2-4) writer_bounded [OF assms(5)] r]
  obtain k w1 where x: "cb_writes cb ?bs w k w1" "moved P str ok b (b_tell P b + k) b'"
    and c: "case r of Inr j \<Rightarrow> j = k \<and> (w' = w1 \<or> (\<exists>bs e. cb bs w1 = (Inl e, w')))
            | Inl e \<Rightarrow> k = 0 \<and> (\<exists>bs. cb bs w1 = (Inl e, w'))" by blast
  note s = cb_writes_stream [OF x(1) assms(5)]
  have err: "e \<noteq> LAW_ERR_OK \<and> rx w' = rx w1 \<and> tx w' = tx w1" if "cb bs w1 = (Inl e, w')" for bs e
    using assms(5) that unfolding writer_ok_def by blast
  have "rx w' = rx w1 \<and> tx w' = tx w1 \<and> (r = Inr k \<or> (\<exists>e. r = Inl e \<and> e \<noteq> LAW_ERR_OK \<and> k = 0))"
    using c err by (cases r) auto
  moreover have "k \<le> n" using s by simp
  moreover from this have "take k ?bs = take k (drop (b_tell P b) (str b))" by (simp add: min_def)
  ultimately show thesis using that [OF r x(2)] s by auto
qed

text \<open>
  \<open>took xs\<close>: the step put \<open>xs\<close> into the input buffer, from the front of what the
  peer sends. \<open>sent k\<close>: it passed the next \<open>k\<close> bytes of the output buffer to the peer.
  Neither changes anything else.
\<close>

definition took where
  "took C str ok rx tx xs s s' \<longleftrightarrow>
     (\<exists>b w. s' = (set_in b s)\<lparr>cs_net := w\<rparr> \<and> appended (cl_buf C) str ok (cs_in s) xs b \<and>
        rx (cs_net s) = xs @ rx w \<and> tx w = tx (cs_net s))"

definition sent where
  "sent C str ok rx tx k s s' \<longleftrightarrow>
     (\<exists>b w. s' = (set_out b s)\<lparr>cs_net := w\<rparr> \<and>
        moved (cl_buf C) str ok (cs_out s) (b_tell (cl_buf C) (cs_out s) + k) b \<and>
        tx w = tx (cs_net s) @ take k (drop (b_tell (cl_buf C) (cs_out s)) (str (cs_out s))) \<and>
        rx w = rx (cs_net s))"

definition mode_ok :: "('b, 'w, 'z) conn_st_scheme \<Rightarrow> bool" where
  "mode_ok s \<longleftrightarrow> hc_mode (cs_conn s) = LAW_HTC_UNSECURED \<or> hc_mode (cs_conn s) = LAW_HTC_SSL"

definition conn_lib_ok where
  "conn_lib_ok C str ok rx tx \<longleftrightarrow> pgc_spec (cl_buf C) str ok \<and> net_spec rx tx (cl_net C)"

lemma set_in_simps [simp]:
  "cs_in (set_in b s) = b" "cs_out (set_in b s) = cs_out s" "cs_net (set_in b s) = cs_net s"
  "cs_errs (set_in b s) = cs_errs s" "hc_mode (cs_conn (set_in b s)) = hc_mode (cs_conn s)"
  "hc_socket (cs_conn (set_in b s)) = hc_socket (cs_conn s)" "set_in b (set_in c s) = set_in b s"
  "hc_ssl (cs_conn (set_in b s)) = hc_ssl (cs_conn s)"
  by (simp_all add: set_in_def)

lemma set_in_net [simp]: "set_in b (s\<lparr>cs_net := w\<rparr>) = (set_in b s)\<lparr>cs_net := w\<rparr>"
  by (simp add: set_in_def)

lemma set_in_same [simp]: "set_in (cs_in s) s = s"
  by (simp add: set_in_def)

lemma set_out_same [simp]: "set_out (cs_out s) s = s"
  by (simp add: set_out_def)

lemma set_out_simps [simp]:
  "cs_out (set_out b s) = b" "cs_in (set_out b s) = cs_in s" "cs_net (set_out b s) = cs_net s"
  "cs_errs (set_out b s) = cs_errs s" "hc_mode (cs_conn (set_out b s)) = hc_mode (cs_conn s)"
  "hc_socket (cs_conn (set_out b s)) = hc_socket (cs_conn s)"
  "hc_ssl (cs_conn (set_out b s)) = hc_ssl (cs_conn s)"
  by (simp_all add: set_out_def)

lemma took_none:
  assumes "ok (cs_in s)"
  shows "took C str ok rx tx [] s s"
  unfolding took_def
  by (rule exI [of _ "cs_in s"], rule exI [of _ "cs_net s"]) (simp add: appended_def assms)

lemma sent_none:
  assumes "ok (cs_out s)"
  shows "sent C str ok rx tx 0 s s"
  unfolding sent_def
  by (rule exI [of _ "cs_out s"], rule exI [of _ "cs_net s"]) (simp add: moved_def assms)

lemma read_data_cases:
  assumes L: "conn_lib_ok C str ok rx tx" and i: "ok (cs_in s)" and m: "mode_ok s"
  obtains r s' xs where "law_htc_read_data C s = Inr (r, s')" and "took C str ok rx tx xs s s'"
    and "b_end (cl_buf C) (cs_in s) - b_tell (cl_buf C) (cs_in s) + length xs \<le> b_max (cl_buf C) (cs_in s)"
    and "r = Inr (length xs) \<and> xs \<noteq> [] \<or> (\<exists>e. r = Inl e \<and> e \<noteq> LAW_ERR_OK \<and> xs = [])"
proof -
  note result = that
  let ?P = "cl_buf C" and ?b = "cs_in s"
  let ?avail = "b_max ?P ?b - (b_end ?P ?b - b_tell ?P ?b)"
  have P: "pgc_spec ?P str ok" and N: "net_spec rx tx (cl_net C)" using L by (simp_all add: conn_lib_ok_def)
  note pos = pgc_pos [OF P i]
  show thesis
  proof (cases "?avail = 0")
    case True
    then have r: "law_htc_read_data C s = Inr (Inl LAW_ERR_OOB, s)"
      by (simp add: law_htc_read_data_def Let_def)
    show thesis
      by (rule that [OF r took_none [where ok = ok and s = s, OF i]]) (use pos in simp_all)
  next
    case False
    then have room: "b_end ?P ?b - b_tell ?P ?b + ?avail \<le> b_max ?P ?b" "0 < ?avail" using pos by simp_all
    have read: thesis if r: "law_htc_read_data C s =
        (case b_cbread ?P ?avail cb ?b (cs_net s) of (r, b, w) \<Rightarrow> Inr (r, (set_in b s)\<lparr>cs_net := w\<rparr>))"
      and cb: "reader_ok rx tx cb" for cb
    proof -
      obtain q b' w' xs where p: "b_cbread ?P ?avail cb ?b (cs_net s) = (q, b', w')"
        "appended ?P str ok ?b xs b'" "rx (cs_net s) = xs @ rx w'" "tx w' = tx (cs_net s)"
        "length xs \<le> ?avail"
        "q = Inr (length xs) \<and> xs \<noteq> [] \<or> (\<exists>e. q = Inl e \<and> e \<noteq> LAW_ERR_OK \<and> xs = [])"
        by (rule pgc_read [OF P i room(2,1) cb])
      have "took C str ok rx tx xs s ((set_in b' s)\<lparr>cs_net := w'\<rparr>)"
        using p(2-4) unfolding took_def by blast
      with p r room show thesis by (intro result [of q "(set_in b' s)\<lparr>cs_net := w'\<rparr>" xs]) auto
    qed
    show thesis
    proof (cases "hc_mode (cs_conn s) = LAW_HTC_SSL")
      case True
      with False show thesis
        by (intro read [of "law_buf_SSL_read_cb (cl_net C)"] law_buf_SSL_read_cb_ok [OF N])
          (simp add: law_htc_read_data_def law_buf_read_SSL_def Let_def)
    next
      case False
      with m \<open>?avail \<noteq> 0\<close> show thesis
        by (intro read [of "law_buf_read_cb (cl_net C)"] law_buf_read_cb_ok [OF N])
          (simp add: law_htc_read_data_def law_buf_read_def Let_def mode_ok_def)
    qed
  qed
qed

lemma write_data_cases:
  assumes L: "conn_lib_ok C str ok rx tx" and i: "ok (cs_out s)" and m: "mode_ok s"
  obtains r s' k where "law_htc_write_data C s = Inr (r, s')" and "sent C str ok rx tx k s s'"
    and "b_tell (cl_buf C) (cs_out s) + k \<le> b_end (cl_buf C) (cs_out s)"
    and "r = Inr k \<or> (\<exists>e. r = Inl e \<and> k = 0 \<and>
           (e = LAW_ERR_OK \<longleftrightarrow> b_end (cl_buf C) (cs_out s) = b_tell (cl_buf C) (cs_out s)))"
proof -
  note result = that
  let ?P = "cl_buf C" and ?b = "cs_out s"
  let ?block = "b_end ?P ?b - b_tell ?P ?b"
  have P: "pgc_spec ?P str ok" and N: "net_spec rx tx (cl_net C)" using L by (simp_all add: conn_lib_ok_def)
  note pos = pgc_pos [OF P i]
  show thesis
  proof (cases "?block = 0")
    case True
    then have r: "law_htc_write_data C s = Inr (Inl LAW_ERR_OK, s)"
      by (simp add: law_htc_write_data_def Let_def)
    show thesis
      by (rule that [OF r sent_none [where ok = ok and s = s, OF i]]) (use pos True in simp_all)
  next
    case False
    have wr: thesis if r: "law_htc_write_data C s =
        (case b_cbwrite ?P ?block cb ?b (cs_net s) of (r, b, w) \<Rightarrow> Inr (r, (set_out b s)\<lparr>cs_net := w\<rparr>))"
      and cb: "writer_ok rx tx cb" for cb
    proof -
      from False have "0 < ?block" by simp
      then obtain q b' w' k where p: "b_cbwrite ?P ?block cb ?b (cs_net s) = (q, b', w')"
        "moved ?P str ok ?b (b_tell ?P ?b + k) b'"
        "tx w' = tx (cs_net s) @ take k (drop (b_tell ?P ?b) (str ?b))" "rx w' = rx (cs_net s)"
        "k \<le> ?block" "q = Inr k \<or> (\<exists>e. q = Inl e \<and> e \<noteq> LAW_ERR_OK \<and> k = 0)"
        by (rule pgc_write [OF P i _ order_refl cb])
      have "sent C str ok rx tx k s ((set_out b' s)\<lparr>cs_net := w'\<rparr>)"
        using p(2-4) unfolding sent_def by blast
      with p r False show thesis
        by (intro result [of q "(set_out b' s)\<lparr>cs_net := w'\<rparr>" k]) auto
    qed
    show thesis
    proof (cases "hc_mode (cs_conn s) = LAW_HTC_SSL")
      case True
      with False show thesis
        by (intro wr [of "law_buf_SSL_write_cb (cl_net C)"] law_buf_SSL_write_cb_ok [OF N])
          (simp add: law_htc_write_data_def law_buf_write_SSL_def Let_def)
    next
      case False
      with m \<open>?block \<noteq> 0\<close> show thesis
        by (intro wr [of "law_buf_write_cb (cl_net C)"] law_buf_write_cb_ok [OF N])
          (simp add: law_htc_write_data_def law_buf_write_def Let_def mode_ok_def)
    qed
  qed
qed

section \<open>The connection's invariant\<close>

text \<open>
  \<open>S\<close> is all the peer will ever have sent, \<open>T\<close> what it had got before the
  connection began to write.
\<close>

definition conn_inv where
  "conn_inv C str ok rx tx S T s \<longleftrightarrow>
     ok (cs_in s) \<and> ok (cs_out s) \<and> mode_ok s \<and> err_inv (cs_errs s) \<and>
     str (cs_in s) @ rx (cs_net s) = S \<and>
     tx (cs_net s) = T @ take (b_tell (cl_buf C) (cs_out s)) (str (cs_out s))"

lemma conn_invD:
  assumes "conn_inv C str ok rx tx S T s"
  shows "ok (cs_in s)" and "ok (cs_out s)" and "mode_ok s" and "err_inv (cs_errs s)"
  using assms by (simp_all add: conn_inv_def)

lemma took_inv:
  assumes "conn_inv C str ok rx tx S T s" and "took C str ok rx tx xs s s'"
  shows "conn_inv C str ok rx tx S T s'"
  using assms unfolding took_def conn_inv_def by (auto simp: appended_def mode_ok_def)

lemma sent_inv:
  assumes "conn_inv C str ok rx tx S T s" and "sent C str ok rx tx k s s'"
  shows "conn_inv C str ok rx tx S T s'"
  using assms unfolding sent_def conn_inv_def by (auto simp: moved_def mode_ok_def take_add)

lemma seek_inv:
  assumes "conn_inv C str ok rx tx S T s" and "moved (cl_buf C) str ok (cs_in s) p b"
  shows "conn_inv C str ok rx tx S T (set_in b s)"
  using assms by (simp add: conn_inv_def moved_def mode_ok_def)

lemma tookD:
  assumes "took C str ok rx tx xs s s'"
  shows "ok (cs_in s')" and "str (cs_in s') = str (cs_in s) @ xs"
    and "b_tell (cl_buf C) (cs_in s') = b_tell (cl_buf C) (cs_in s)"
    and "b_max (cl_buf C) (cs_in s') = b_max (cl_buf C) (cs_in s)"
    and "cs_out s' = cs_out s" and "cs_errs s' = cs_errs s"
    and "rx (cs_net s) = xs @ rx (cs_net s')" and "tx (cs_net s') = tx (cs_net s)"
  using assms unfolding took_def appended_def by auto

lemma sentD:
  assumes "sent C str ok rx tx k s s'"
  shows "ok (cs_out s')" and "str (cs_out s') = str (cs_out s)"
    and "b_tell (cl_buf C) (cs_out s') = b_tell (cl_buf C) (cs_out s) + k"
    and "b_max (cl_buf C) (cs_out s') = b_max (cl_buf C) (cs_out s)"
    and "cs_in s' = cs_in s" and "cs_errs s' = cs_errs s"
    and "tx (cs_net s') = tx (cs_net s) @ take k (drop (b_tell (cl_buf C) (cs_out s)) (str (cs_out s)))"
  using assms unfolding sent_def moved_def by auto

section \<open>Correctness of the calls\<close>

lemma ensure_input_full:
  assumes "conn_lib_ok C str ok rx tx" and "conn_inv C str ok rx tx S T s"
    and "b_end (cl_buf C) (cs_in s) - b_tell (cl_buf C) (cs_in s) + nbytes < 2 ^ 64"
  shows "\<exists>e s' xs. law_htc_ensure_input C nbytes s = Inr (e, s') \<and>
           took C str ok rx tx xs s s' \<and> conn_inv C str ok rx tx S T s' \<and>
           (let have_now = b_end (cl_buf C) (cs_in s) - b_tell (cl_buf C) (cs_in s);
                have_then = b_end (cl_buf C) (cs_in s') - b_tell (cl_buf C) (cs_in s')
            in have_then = have_now + length xs \<and>
               (if b_max (cl_buf C) (cs_in s) < have_now + nbytes then e = LAW_ERR_OOB \<and> xs = []
                else if nbytes \<le> have_now then e = LAW_ERR_OK \<and> xs = []
                else if xs = [] then e \<noteq> LAW_ERR_OK
                else e = (if nbytes \<le> have_then then LAW_ERR_OK else LAW_ERR_WANTR)))"
proof -
  let ?P = "cl_buf C"
  have P: "pgc_spec ?P str ok" using assms(1) by (simp add: conn_lib_ok_def)
  note i = conn_invD(1,3) [OF assms(2)]
  note none = took_none [where ok = ok and s = s and C = C and str = str and rx = rx and tx = tx, OF i(1)]
  have m: "(b_end ?P (cs_in s) - b_tell ?P (cs_in s) + nbytes) mod 2 ^ 64
      = b_end ?P (cs_in s) - b_tell ?P (cs_in s) + nbytes"
    using assms(3) by simp
  show ?thesis
  proof (cases "b_max ?P (cs_in s) < b_end ?P (cs_in s) - b_tell ?P (cs_in s) + nbytes \<or>
      nbytes \<le> b_end ?P (cs_in s) - b_tell ?P (cs_in s)")
    case True
    then show ?thesis
      unfolding law_htc_ensure_input_def Let_def m
      by (intro exI [of _ "if b_max ?P (cs_in s) < b_end ?P (cs_in s) - b_tell ?P (cs_in s) + nbytes
            then LAW_ERR_OOB else LAW_ERR_OK"] exI [of _ s] exI [of _ "[]"]) (use none assms(2) in auto)
  next
    case False
    obtain r s' xs where r: "law_htc_read_data C s = Inr (r, s')" "took C str ok rx tx xs s s'"
      "r = Inr (length xs) \<and> xs \<noteq> [] \<or> (\<exists>e. r = Inl e \<and> e \<noteq> LAW_ERR_OK \<and> xs = [])"
      by (rule read_data_cases [OF assms(1) i])
    note t = tookD [OF r(2)]
    have e': "b_end ?P (cs_in s') = b_end ?P (cs_in s) + length xs"
      using pgc_pos(3) [OF P t(1)] pgc_pos(3) [OF P i(1)] t(2) by simp
    have len: "b_end ?P (cs_in s') - b_tell ?P (cs_in s') =
        b_end ?P (cs_in s) - b_tell ?P (cs_in s) + length xs"
      using e' t(3) pgc_pos(1) [OF P i(1)] by simp
    from False r(1,3) len t(3) have
      "law_htc_ensure_input C nbytes s = Inr (if xs = [] then as_err C r
         else if nbytes \<le> b_end ?P (cs_in s') - b_tell ?P (cs_in s') then LAW_ERR_OK else LAW_ERR_WANTR, s')"
      unfolding law_htc_ensure_input_def Let_def m by (auto simp: positive_def)
    moreover have "as_err C r \<noteq> LAW_ERR_OK" if "xs = []" using r(3) that by (auto simp: as_err_def)
    ultimately show ?thesis
      using r(2) took_inv [OF assms(2) r(2)] len False
      by (intro exI [of _ "if xs = [] then as_err C r else if nbytes \<le> b_end ?P (cs_in s') - b_tell ?P (cs_in s')
          then LAW_ERR_OK else LAW_ERR_WANTR"] exI [of _ s'] exI [of _ xs]) (simp add: Let_def)
  qed
qed

lemma ensure_input_ok:
  assumes "conn_lib_ok C str ok rx tx" and "conn_inv C str ok rx tx S T s"
    and "b_end (cl_buf C) (cs_in s) - b_tell (cl_buf C) (cs_in s) + nbytes < 2 ^ 64"
  shows "\<exists>e s' xs. law_htc_ensure_input C nbytes s = Inr (e, s') \<and>
           took C str ok rx tx xs s s' \<and> conn_inv C str ok rx tx S T s' \<and>
           (e = LAW_ERR_OK \<longrightarrow> nbytes \<le> b_end (cl_buf C) (cs_in s') - b_tell (cl_buf C) (cs_in s'))"
  using ensure_input_full [OF assms] by (elim exE conjE) (auto simp: Let_def split: if_splits)

text \<open>
  C30: \<^verbatim>\<open>law_htc_ensure_input\<close> never faults and only appends to the input buffer,
  what comes next in the peer's stream. It returns \<open>LAW_ERR_OK\<close> only if the bytes asked
  for are in the buffer, after its offset, which has not moved, and \<open>LAW_ERR_WANTR\<close> only
  when some bytes came but not enough. Where the bytes in the buffer and those asked for do not
  fit together, it returns \<open>LAW_ERR_OOB\<close> without reading, even if all that was asked for
  is there already.
\<close>

theorem ensure_input_delivers:
  assumes "conn_lib_ok C str ok rx tx" and "conn_inv C str ok rx tx S T s"
    and "b_end (cl_buf C) (cs_in s) - b_tell (cl_buf C) (cs_in s) + nbytes < 2 ^ 64"
  shows "\<exists>e s' xs. law_htc_ensure_input C nbytes s = Inr (e, s') \<and>
           took C str ok rx tx xs s s' \<and> conn_inv C str ok rx tx S T s' \<and>
           (let have_now = b_end (cl_buf C) (cs_in s) - b_tell (cl_buf C) (cs_in s);
                have_then = b_end (cl_buf C) (cs_in s') - b_tell (cl_buf C) (cs_in s')
            in have_then = have_now + length xs \<and>
               (if b_max (cl_buf C) (cs_in s) < have_now + nbytes then e = LAW_ERR_OOB \<and> xs = []
                else if nbytes \<le> have_now then e = LAW_ERR_OK \<and> xs = []
                else if xs = [] then e \<noteq> LAW_ERR_OK
                else e = (if nbytes \<le> have_then then LAW_ERR_OK else LAW_ERR_WANTR)))"
  by (rule ensure_input_full [OF assms])

lemma flush_full:
  fixes s :: "('b, 'w, 'z) conn_st_scheme"
  assumes "conn_lib_ok C str ok rx tx" and "conn_inv C str ok rx tx S T s"
  shows "\<exists>e s' k. law_htc_flush C s = Inr (e, s') \<and>
           sent C str ok rx tx k s s' \<and> conn_inv C str ok rx tx S T s' \<and>
           (let left = length (str (cs_out s')) - b_tell (cl_buf C) (cs_out s')
            in (e = LAW_ERR_OK \<longrightarrow> left = 0 \<or> k = 0 \<and> cl_zero C = LAW_ERR_OK) \<and>
               (left = 0 \<longrightarrow> e = LAW_ERR_OK) \<and>
               (left = 0 \<longrightarrow> tx (cs_net s') = T @ str (cs_out s')))"
proof -
  let ?P = "cl_buf C"
  have P: "pgc_spec ?P str ok" using assms(1) by (simp add: conn_lib_ok_def)
  note o = conn_invD(2,3) [OF assms(2)]
  note pos = pgc_pos [OF P o(1)]
  have all: "tx (cs_net s') = T @ str (cs_out s')"
    if "conn_inv C str ok rx tx S T s'" "length (str (cs_out s')) - b_tell ?P (cs_out s') = 0" for s' :: "('b, 'w, 'z) conn_st_scheme"
    using that by (simp add: conn_inv_def)
  show ?thesis
  proof (cases "b_end ?P (cs_out s) - b_tell ?P (cs_out s) = 0")
    case True
    then have "law_htc_flush C s = Inr (LAW_ERR_OK, s)" by (simp add: law_htc_flush_def Let_def)
    moreover have "length (str (cs_out s)) - b_tell ?P (cs_out s) = 0" using True pos by simp
    ultimately show ?thesis
      using sent_none [where ok = ok and s = s and C = C and str = str and rx = rx and tx = tx, OF o(1)]
        assms(2) all [OF assms(2)]
      by (intro exI [of _ LAW_ERR_OK] exI [of _ s] exI [of _ 0]) (simp add: Let_def)
  next
    case False
    obtain r s' k where r: "law_htc_write_data C s = Inr (r, s')" "sent C str ok rx tx k s s'"
      "b_tell ?P (cs_out s) + k \<le> b_end ?P (cs_out s)"
      "r = Inr k \<or> (\<exists>e. r = Inl e \<and> k = 0 \<and>
           (e = LAW_ERR_OK \<longleftrightarrow> b_end ?P (cs_out s) = b_tell ?P (cs_out s)))"
      by (rule write_data_cases [OF assms(1) o])
    note t = sentD [OF r(2)]
    let ?left = "length (str (cs_out s')) - b_tell ?P (cs_out s')"
    have left: "?left = b_end ?P (cs_out s) - b_tell ?P (cs_out s')" using t(2) pos(3) by simp
    let ?e = "if positive r then if ?left = 0 then LAW_ERR_OK else LAW_ERR_WANTW else as_err C r"
    have f: "law_htc_flush C s = Inr (?e, s')"
      using False r(1) left by (simp add: law_htc_flush_def Let_def)
    have nz: "?left = 0 \<Longrightarrow> positive r"
      using r(4) left t(3) False by (auto simp: positive_def)
    have er: "as_err C r = LAW_ERR_OK \<Longrightarrow> \<not> positive r \<Longrightarrow> k = 0 \<and> cl_zero C = LAW_ERR_OK"
      using r(4) False by (auto simp: positive_def as_err_def)
    show ?thesis
      using f r(2) sent_inv [OF assms(2) r(2)] nz er all [OF sent_inv [OF assms(2) r(2)]]
      by (intro exI [of _ ?e] exI [of _ s'] exI [of _ k]) (auto simp: Let_def)
  qed
qed

lemma flush_ok:
  assumes "conn_lib_ok C str ok rx tx" and "conn_inv C str ok rx tx S T s"
  shows "\<exists>e s' k. law_htc_flush C s = Inr (e, s') \<and> sent C str ok rx tx k s s' \<and> conn_inv C str ok rx tx S T s' \<and>
           (e = LAW_ERR_OK \<longrightarrow>
              length (str (cs_out s')) - b_tell (cl_buf C) (cs_out s') = 0 \<or> cl_zero C = LAW_ERR_OK)"
  using flush_full [OF assms] unfolding Let_def by blast


lemma ensure_output_full:
  assumes "conn_lib_ok C str ok rx tx" and "conn_inv C str ok rx tx S T s" and "cl_zero C \<noteq> LAW_ERR_OK"
  shows "\<exists>e s' k. law_htc_ensure_output C nbytes s = Inr (e, s') \<and>
           sent C str ok rx tx k s s' \<and> conn_inv C str ok rx tx S T s' \<and>
           (let room = (\<lambda>b. b_max (cl_buf C) b - (b_end (cl_buf C) b - b_tell (cl_buf C) b))
            in (e = LAW_ERR_OK \<longrightarrow> nbytes \<le> room (cs_out s')) \<and>
               (b_max (cl_buf C) (cs_out s) < nbytes \<longrightarrow> e = LAW_ERR_OOB \<and> k = 0) \<and>
               (nbytes \<le> room (cs_out s) \<longrightarrow> e = LAW_ERR_OK \<and> k = 0))"
proof -
  let ?P = "cl_buf C"
  have P: "pgc_spec ?P str ok" using assms(1) by (simp add: conn_lib_ok_def)
  note o = conn_invD(2,3) [OF assms(2)]
  note pos = pgc_pos [OF P o(1)]
  let ?un = "b_end ?P (cs_out s) - b_tell ?P (cs_out s)" and ?max = "b_max ?P (cs_out s)"
  note none = sent_none [where ok = ok and s = s and C = C and str = str and rx = rx and tx = tx, OF o(1)]
  show ?thesis
  proof (cases "?max < nbytes \<or> nbytes \<le> ?max - ?un")
    case True
    then have "law_htc_ensure_output C nbytes s = Inr (if ?max < nbytes then LAW_ERR_OOB else LAW_ERR_OK, s)"
      using pos by (auto simp: law_htc_ensure_output_def Let_def)
    with True none assms(2) show ?thesis
      by (intro exI [of _ "if ?max < nbytes then LAW_ERR_OOB else LAW_ERR_OK"] exI [of _ s] exI [of _ 0])
        (auto simp: Let_def)
  next
    case False
    obtain r s' k where r: "law_htc_write_data C s = Inr (r, s')" "sent C str ok rx tx k s s'"
      "b_tell ?P (cs_out s) + k \<le> b_end ?P (cs_out s)"
      "r = Inr k \<or> (\<exists>e. r = Inl e \<and> k = 0 \<and>
           (e = LAW_ERR_OK \<longleftrightarrow> b_end ?P (cs_out s) = b_tell ?P (cs_out s)))"
      by (rule write_data_cases [OF assms(1) o])
    note t = sentD [OF r(2)]
    have same: "b_end ?P (cs_out s') = b_end ?P (cs_out s)"
      using pgc_pos(3) [OF P t(1)] pos(3) t(2) by simp
    have fits: "b_end ?P (cs_out s') - b_tell ?P (cs_out s') \<le> ?max"
      using pgc_pos(2) [OF P t(1)] t(4) by simp
    let ?e = "if positive r then if nbytes \<le> ?max - (b_end ?P (cs_out s) - b_tell ?P (cs_out s'))
        then LAW_ERR_OK else LAW_ERR_WANTW else as_err C r"
    have f: "law_htc_ensure_output C nbytes s = Inr (?e, s')"
      using False r(1) pos fits same by (simp add: law_htc_ensure_output_def Let_def)
    have "as_err C r \<noteq> LAW_ERR_OK" if "\<not> positive r"
      using r(4) that False assms(3) pos by (auto simp: positive_def as_err_def)
    with f r(2) sent_inv [OF assms(2) r(2)] False same t(4) show ?thesis
      by (intro exI [of _ ?e] exI [of _ s'] exI [of _ k]) (auto simp: Let_def)
  qed
qed

lemma ensure_output_ok:
  assumes "conn_lib_ok C str ok rx tx" and "conn_inv C str ok rx tx S T s" and "cl_zero C \<noteq> LAW_ERR_OK"
  shows "\<exists>e s' k. law_htc_ensure_output C nbytes s = Inr (e, s') \<and>
           sent C str ok rx tx k s s' \<and> conn_inv C str ok rx tx S T s' \<and>
           (e = LAW_ERR_OK \<longrightarrow> nbytes \<le> b_max (cl_buf C) (cs_out s') -
              (b_end (cl_buf C) (cs_out s') - b_tell (cl_buf C) (cs_out s')))"
  using ensure_output_full [OF assms, of nbytes] unfolding Let_def by blast

text \<open>
  \<^verbatim>\<open>law_htc_ensure_output\<close> never faults; it too only passes a prefix of what is
  unwritten to the peer. It returns \<open>LAW_ERR_OK\<close> only if the bytes asked for fit into the
  output buffer, \<open>LAW_ERR_OOB\<close> exactly when they are more than the buffer can ever hold, and never
  writes when there is room already.
\<close>

theorem ensure_output_room:
  assumes "conn_lib_ok C str ok rx tx" and "conn_inv C str ok rx tx S T s" and "cl_zero C \<noteq> LAW_ERR_OK"
  shows "\<exists>e s' k. law_htc_ensure_output C nbytes s = Inr (e, s') \<and>
           sent C str ok rx tx k s s' \<and> conn_inv C str ok rx tx S T s' \<and>
           (let room = (\<lambda>b. b_max (cl_buf C) b - (b_end (cl_buf C) b - b_tell (cl_buf C) b))
            in (e = LAW_ERR_OK \<longrightarrow> nbytes \<le> room (cs_out s')) \<and>
               (b_max (cl_buf C) (cs_out s) < nbytes \<longrightarrow> e = LAW_ERR_OOB \<and> k = 0) \<and>
               (nbytes \<le> room (cs_out s) \<longrightarrow> e = LAW_ERR_OK \<and> k = 0))"
  by (rule ensure_output_full [OF assms])

text \<open>No delimiter begins between \<open>base\<close> and the offset, whatever bytes come later.\<close>

definition scanned where
  "scanned C str base delim s \<longleftrightarrow>
     (\<forall>p ys. base \<le> p \<and> p < b_tell (cl_buf C) (cs_in s) \<longrightarrow> \<not> occurs_at delim (str (cs_in s) @ ys) p)"

lemma scanned_none: "scanned C str (b_tell (cl_buf C) (cs_in s)) delim s"
  by (auto simp: scanned_def)

lemma CONN_PUSH_inv:
  assumes "conn_inv C str ok rx tx S T s"
  obtains s' where "CONN_PUSH e action func line s = Inr (e, s')" and "conn_inv C str ok rx tx S T s'"
    and "cs_in s' = cs_in s"
proof -
  obtain es where "law_err_push e action ''source/lawd/http_conn.c'' func line (cs_errs s) = Inr (e, es)"
    and "err_inv es"
    using law_err_push_ok [OF conn_invD(4) [OF assms]] by blast
  with assms that [of "s\<lparr>cs_errs := es\<rparr>"] show thesis
    by (simp add: CONN_PUSH_def conn_inv_def mode_ok_def)
qed

lemma scan_result_cases:
  assumes P: "pgc_spec (cl_buf C) str ok" and I: "conn_inv C str ok rx tx S T s" and d: "delim \<noteq> []"
    and base: "base \<le> b_tell (cl_buf C) (cs_in s)" and sc: "scanned C str base delim s"
    and r: "positive r \<or> as_err C r \<noteq> LAW_ERR_OK"
  shows "\<exists>e s'. scan_result C base delim r s = (e, s') \<and> conn_inv C str ok rx tx S T s' \<and>
           str (cs_in s') = str (cs_in s) \<and>
           b_max (cl_buf C) (cs_in s') = b_max (cl_buf C) (cs_in s) \<and>
           base \<le> b_tell (cl_buf C) (cs_in s') \<and>
           (if e = LAW_ERR_OK
            then (\<exists>p \<ge> base. occurs_at delim (str (cs_in s)) p) \<and>
              b_tell (cl_buf C) (cs_in s') =
                (LEAST p. base \<le> p \<and> occurs_at delim (str (cs_in s)) p) + length delim
            else scanned C str base delim s' \<and> (\<forall>p \<ge> base. \<not> occurs_at delim (str (cs_in s)) p))"
proof -
  let ?P = "cl_buf C" and ?b = "cs_in s"
  have ok: "ok ?b" by (rule conn_invD(1) [OF I])
  from pgc_specD(3) [OF P, unfolded pgc_scan_spec_def, rule_format, OF ok d]
  obtain e b where b: "b_scan ?P delim ?b = (e, b)" and spec: "if \<exists>p \<ge> b_tell ?P ?b. occurs_at delim (str ?b) p
       then e = LAW_ERR_OK \<and>
         moved ?P str ok ?b ((LEAST p. b_tell ?P ?b \<le> p \<and> occurs_at delim (str ?b) p) + length delim) b
       else e \<noteq> LAW_ERR_OK \<and>
         (\<exists>q. b_tell ?P ?b \<le> q \<and> q \<le> b_end ?P ?b \<and> moved ?P str ok ?b q b \<and>
            (\<forall>p ys. b_tell ?P ?b \<le> p \<and> p < q \<longrightarrow> \<not> occurs_at delim (str ?b @ ys) p))"
    by (elim exE conjE) (rule that)
  have early: "\<not> occurs_at delim (str ?b) p" if "base \<le> p" "p < b_tell ?P ?b" for p
    using sc that unfolding scanned_def by (metis append_Nil2)
  show ?thesis
  proof (cases "\<exists>p \<ge> b_tell ?P ?b. occurs_at delim (str ?b) p")
    case True
    let ?l = "LEAST p. b_tell ?P ?b \<le> p \<and> occurs_at delim (str ?b) p"
    have l: "b_tell ?P ?b \<le> ?l \<and> occurs_at delim (str ?b) ?l"
      using True by (intro LeastI_ex [of "\<lambda>p. b_tell ?P ?b \<le> p \<and> occurs_at delim (str ?b) p"]) blast
    have "b_tell ?P ?b \<le> p \<and> occurs_at delim (str ?b) p \<longleftrightarrow> base \<le> p \<and> occurs_at delim (str ?b) p" for p
      using early [of p] base by (cases "p < b_tell ?P ?b") auto
    then have eq: "(LEAST p. base \<le> p \<and> occurs_at delim (str ?b) p) = ?l" by simp
    from True spec have m: "e = LAW_ERR_OK" "moved ?P str ok ?b (?l + length delim) b" by auto
    have "scan_result C base delim r s = (LAW_ERR_OK, set_in b s)"
      using b m(1) by (simp add: scan_result_def)
    moreover have "\<exists>p \<ge> base. occurs_at delim (str ?b) p" using l base by (intro exI [of _ ?l]) simp
    ultimately show ?thesis
      using seek_inv [OF I m(2)] m(2) eq l base
      by (intro exI [of _ LAW_ERR_OK] exI [of _ "set_in b s"]) (simp add: moved_def)
  next
    case False
    with spec obtain q where q: "e \<noteq> LAW_ERR_OK" "b_tell ?P ?b \<le> q" "moved ?P str ok ?b q b"
      "\<forall>p ys. b_tell ?P ?b \<le> p \<and> p < q \<longrightarrow> \<not> occurs_at delim (str ?b @ ys) p" by auto
    let ?e = "if b_max ?P b \<le> b_end ?P b - base then LAW_ERR_OOB
        else if positive r then LAW_ERR_WANTR else as_err C r"
    have f: "scan_result C base delim r s = (?e, set_in b s)"
      using b q(1) by (simp add: scan_result_def Let_def)
    have ne: "?e \<noteq> LAW_ERR_OK" using r by auto
    have "scanned C str base delim (set_in b s)"
      using sc q(3,4) unfolding scanned_def moved_def by (auto simp: not_less) (meson not_le)
    moreover have "\<forall>p \<ge> base. \<not> occurs_at delim (str ?b) p" using False early by (meson not_le)
    ultimately show ?thesis
      using f ne seek_inv [OF I q(3)] q(2,3) base
      by (intro exI [of _ ?e] exI [of _ "set_in b s"]) (simp add: moved_def)
  qed
qed

lemma read_scan_full:
  fixes s :: "('b, 'w, 'z) conn_st_scheme"
  assumes "conn_lib_ok C str ok rx tx" and "conn_inv C str ok rx tx S T s" and "delim \<noteq> []"
    and "length delim \<le> b_max (cl_buf C) (cs_in s)" and "base \<le> b_tell (cl_buf C) (cs_in s)"
    and "b_end (cl_buf C) (cs_in s) - base \<le> b_max (cl_buf C) (cs_in s)" and "scanned C str base delim s"
  shows "\<exists>e s' xs. law_htc_read_scan C base delim s = Inr (e, s') \<and> conn_inv C str ok rx tx S T s' \<and>
           str (cs_in s') = str (cs_in s) @ xs \<and>
           b_max (cl_buf C) (cs_in s') = b_max (cl_buf C) (cs_in s) \<and>
           base \<le> b_tell (cl_buf C) (cs_in s') \<and>
           b_end (cl_buf C) (cs_in s') - base \<le> b_max (cl_buf C) (cs_in s') \<and>
           (if e = LAW_ERR_OK
            then (\<exists>p \<ge> base. occurs_at delim (str (cs_in s')) p) \<and>
              b_tell (cl_buf C) (cs_in s') =
                (LEAST p. base \<le> p \<and> occurs_at delim (str (cs_in s')) p) + length delim
            else scanned C str base delim s' \<and>
              (e \<in> {LAW_ERR_WANTR, LAW_ERR_WANTW, LAW_ERR_EOF, LAW_ERR_OOB} \<longrightarrow>
                 (\<forall>p \<ge> base. \<not> occurs_at delim (str (cs_in s')) p)))"
proof -
  let ?P = "cl_buf C" and ?t = "b_tell (cl_buf C) (cs_in s)"
  have P: "pgc_spec ?P str ok" using assms(1) by (simp add: conn_lib_ok_def)
  note i = conn_invD(1,3) [OF assms(2)]
  note pos = pgc_pos [OF P i(1)]
  obtain b1 where b1: "b_seek ?P base (cs_in s) = (LAW_ERR_OK, b1)" "moved ?P str ok (cs_in s) base b1"
    by (rule pgc_seek [OF P i(1), of base]) (use assms(5,6) pos in auto)
  let ?s1 = "set_in b1 s"
  have I1: "conn_inv C str ok rx tx S T ?s1" by (rule seek_inv [OF assms(2) b1(2)])
  note i1 = conn_invD(1,3) [OF I1]
  have e1: "b_end ?P b1 = b_end ?P (cs_in s)"
    using pgc_pos(3) [OF P, of b1] b1(2) pos(3) by (simp add: moved_def)
  obtain r s2 xs where r: "law_htc_read_data C ?s1 = Inr (r, s2)" "took C str ok rx tx xs ?s1 s2"
    "b_end ?P (cs_in ?s1) - b_tell ?P (cs_in ?s1) + length xs \<le> b_max ?P (cs_in ?s1)"
    "r = Inr (length xs) \<and> xs \<noteq> [] \<or> (\<exists>e. r = Inl e \<and> e \<noteq> LAW_ERR_OK \<and> xs = [])"
    by (rule read_data_cases [OF assms(1) i1])
  note t = tookD [OF r(2)]
  have I2: "conn_inv C str ok rx tx S T s2" by (rule took_inv [OF I1 r(2)])
  have str2: "str (cs_in s2) = str (cs_in s) @ xs" using t(2) b1(2) by (simp add: moved_def)
  have max2: "b_max ?P (cs_in s2) = b_max ?P (cs_in s)" using t(4) b1(2) by (simp add: moved_def)
  have end2: "b_end ?P (cs_in s2) = b_end ?P (cs_in s) + length xs"
    using pgc_pos(3) [OF P t(1)] str2 pos(3) by simp
  have win: "b_end ?P (cs_in s2) - base \<le> b_max ?P (cs_in s)"
    using r(3) b1(2) e1 end2 assms(5) pos(1) by (simp add: moved_def)
  obtain b2 where b2: "b_seek ?P ?t (cs_in s2) = (LAW_ERR_OK, b2)" "moved ?P str ok (cs_in s2) ?t b2"
    by (rule pgc_seek [OF P t(1), of ?t]) (use assms(5) pos(1) end2 win max2 in auto)
  let ?s3 = "set_in b2 s2"
  have I3: "conn_inv C str ok rx tx S T ?s3" by (rule seek_inv [OF I2 b2(2)])
  have s3: "str (cs_in ?s3) = str (cs_in s) @ xs" "b_tell ?P (cs_in ?s3) = ?t"
    "b_max ?P (cs_in ?s3) = b_max ?P (cs_in s)"
    using b2(2) str2 max2 by (simp_all add: moved_def)
  have sc: "scanned C str base delim ?s3" using assms(7) s3 by (simp add: scanned_def)
  have width: "b_end ?P (cs_in s') - base \<le> b_max ?P (cs_in s)"
    if "ok (cs_in s')" "str (cs_in s') = str (cs_in s) @ xs" for s' :: "('b, 'w, 'z) conn_st_scheme"
    using pgc_pos(3) [OF P that(1)] that(2) win end2 pos(3) by simp
  have ne: "positive r \<or> as_err C r \<noteq> LAW_ERR_OK" using r(4) by (auto simp: positive_def as_err_def)
  let ?bad = "\<not> positive r \<and> as_err C r \<notin> {LAW_ERR_WANTW, LAW_ERR_WANTR, LAW_ERR_EOF, LAW_ERR_OOB}"
  have f: "law_htc_read_scan C base delim s =
      (if ?bad then CONN_PUSH (as_err C r) ''law_htc_read_data'' ''law_htc_read_scan'' 246 ?s3
       else Inr (scan_result C base delim r ?s3))"
    using assms(3,4) b1(1) r(1) b2(1) by (simp add: law_htc_read_scan_def Let_def)
  show ?thesis
  proof (cases ?bad)
    case True
    obtain s4 where s4: "CONN_PUSH (as_err C r) ''law_htc_read_data'' ''law_htc_read_scan'' 246 ?s3
        = Inr (as_err C r, s4)" "conn_inv C str ok rx tx S T s4" "cs_in s4 = cs_in ?s3"
      by (rule CONN_PUSH_inv [OF I3])
    have "scanned C str base delim s4" using sc s4(3) by (simp add: scanned_def)
    with True f s4 s3 ne width [of ?s3] b2(2) assms(5) show ?thesis
      by (intro exI [of _ "as_err C r"] exI [of _ s4] exI [of _ xs]) (auto simp: moved_def)
  next
    case False
    from scan_result_cases [OF P I3 assms(3) _ sc ne] s3(2) assms(5)
    obtain e s' where e: "scan_result C base delim r ?s3 = (e, s')" "conn_inv C str ok rx tx S T s'"
      "str (cs_in s') = str (cs_in ?s3)" "b_max ?P (cs_in s') = b_max ?P (cs_in ?s3)"
      "base \<le> b_tell ?P (cs_in s')"
      "if e = LAW_ERR_OK
            then (\<exists>p \<ge> base. occurs_at delim (str (cs_in ?s3)) p) \<and>
              b_tell ?P (cs_in s') =
                (LEAST p. base \<le> p \<and> occurs_at delim (str (cs_in ?s3)) p) + length delim
            else scanned C str base delim s' \<and> (\<forall>p \<ge> base. \<not> occurs_at delim (str (cs_in ?s3)) p)"
      by auto
    have "b_end ?P (cs_in s') - base \<le> b_max ?P (cs_in s)"
      by (rule width) (use conn_invD(1) [OF e(2)] e(3) s3(1) in simp_all)
    with False f e s3 show ?thesis
      by (intro exI [of _ e] exI [of _ s'] exI [of _ xs]) (auto split: if_splits)
  qed
qed

text \<open>
  C32: \<^verbatim>\<open>law_htc_read_scan\<close> finds the first delimiter at or after \<open>base\<close>, however the
  bytes arrive. Called again and again with the same base, it never faults; it returns
  \<open>LAW_ERR_OK\<close> with the offset just behind the first occurrence in the peer's stream; as long
  as it returns something else the delimiter cannot begin before the offset, whatever comes next, and
  unless the connection failed there is none in the buffer.
\<close>

theorem read_scan_first:
  fixes s :: "('b, 'w, 'z) conn_st_scheme"
  assumes "conn_lib_ok C str ok rx tx" and "conn_inv C str ok rx tx S T s" and "delim \<noteq> []"
    and "length delim \<le> b_max (cl_buf C) (cs_in s)" and "base \<le> b_tell (cl_buf C) (cs_in s)"
    and "b_end (cl_buf C) (cs_in s) - base \<le> b_max (cl_buf C) (cs_in s)" and "scanned C str base delim s"
  shows "\<exists>e s' xs. law_htc_read_scan C base delim s = Inr (e, s') \<and> conn_inv C str ok rx tx S T s' \<and>
           str (cs_in s') = str (cs_in s) @ xs \<and>
           b_max (cl_buf C) (cs_in s') = b_max (cl_buf C) (cs_in s) \<and>
           base \<le> b_tell (cl_buf C) (cs_in s') \<and>
           b_end (cl_buf C) (cs_in s') - base \<le> b_max (cl_buf C) (cs_in s') \<and>
           (if e = LAW_ERR_OK
            then (\<exists>p \<ge> base. occurs_at delim (str (cs_in s')) p) \<and>
              b_tell (cl_buf C) (cs_in s') =
                (LEAST p. base \<le> p \<and> occurs_at delim (str (cs_in s')) p) + length delim
            else scanned C str base delim s' \<and>
              (e \<in> {LAW_ERR_WANTR, LAW_ERR_WANTW, LAW_ERR_EOF, LAW_ERR_OOB} \<longrightarrow>
                 (\<forall>p \<ge> base. \<not> occurs_at delim (str (cs_in s')) p)))"
  by (rule read_scan_full [OF assms])

section \<open>Sessions\<close>

text \<open>
  The SSL sessions of the process are handles of the theory \<open>Sys\<close>: \<^verbatim>\<open>SSL_new\<close>
  makes one, \<^verbatim>\<open>SSL_free\<close> releases it. \<open>res\<close> is what the handshake answers.
\<close>

datatype ssl_outcome = SSL_POSITIVE | SSL_ZERO | SSL_NEGATIVE ssl_error

definition KERN_PUSH :: "sel_err_t \<Rightarrow> string \<Rightarrow> string \<Rightarrow> int \<Rightarrow> kern \<Rightarrow> (sel_err_t \<times> kern) run" where
  "KERN_PUSH type action func line k =
     bindE (law_err_push type action ''source/lawd/http_conn.c'' func line (k_errs k))
       (\<lambda>(e, es). Inr (e, k\<lparr>k_errs := es\<rparr>))"

definition law_htc_close :: "'b law_htconn \<Rightarrow> kern \<Rightarrow> sel_err_t \<times> kern" where
  "law_htc_close conn k = (LAW_ERR_OK, sys_close (hc_socket conn) k)"

definition law_htc_ssl_accept ::
  "ssl_outcome \<Rightarrow> 'b law_htconn \<Rightarrow> kern \<Rightarrow> (sel_err_t \<times> 'b law_htconn \<times> kern) run" where
  "law_htc_ssl_accept res conn k =
     bindE (law_err_clear (k_errs k)) (\<lambda>es.
       case sys_new_fd (k\<lparr>k_errs := es\<rparr>) of
         (None, k) \<Rightarrow>
           bindE (KERN_PUSH LAW_ERR_SSL ''SSL_new'' ''law_htc_ssl_accept'' 271 k) (\<lambda>(e, k). Inr (e, conn, k))
       | (Some ssl, k) \<Rightarrow>
           (case sys_call k of
              (False, k) \<Rightarrow>
                bindE (KERN_PUSH LAW_ERR_SSL ''SSL_set_fd'' ''law_htc_ssl_accept'' 277 (free ssl k))
                  (\<lambda>(e, k). Inr (e, conn, k))
            | (True, k) \<Rightarrow>
                let conn = conn\<lparr>hc_mode := LAW_HTC_SSL, hc_ssl := Some ssl\<rparr> in
                (case res of
                   SSL_ZERO \<Rightarrow> Inr (LAW_ERR_EOF, conn, free ssl k)
                 | SSL_NEGATIVE e \<Rightarrow>
                     (case e of
                        SSL_ERROR_WANT_READ \<Rightarrow> Inr (LAW_ERR_WANTR, conn, k)
                      | SSL_ERROR_WANT_WRITE \<Rightarrow> Inr (LAW_ERR_WANTW, conn, k)
                      | SSL_ERROR_SYSCALL \<Rightarrow>
                          bindE (KERN_PUSH LAW_ERR_SYS ''SSL_accept'' ''law_htc_ssl_accept'' 299 (free ssl k))
                            (\<lambda>(e, k). Inr (e, conn, k))
                      | _ \<Rightarrow>
                          bindE (KERN_PUSH LAW_ERR_SSL ''SSL_accept'' ''law_htc_ssl_accept'' 304 (free ssl k))
                            (\<lambda>(e, k). Inr (e, conn, k)))
                 | SSL_POSITIVE \<Rightarrow> Inr (LAW_ERR_OK, conn, k))))"

definition law_htc_ssl_shutdown ::
  "ssl_outcome \<Rightarrow> 'b law_htconn \<Rightarrow> kern \<Rightarrow> (sel_err_t \<times> kern) run" where
  "law_htc_ssl_shutdown res conn k =
     bindE (law_err_clear (k_errs k)) (\<lambda>es.
       require SEL_ASSERT (hc_ssl conn \<noteq> None)
        (let k = k\<lparr>k_errs := es\<rparr> in
         case res of
           SSL_ZERO \<Rightarrow> Inr (LAW_ERR_WANTR, k)
         | SSL_NEGATIVE e \<Rightarrow>
             (case e of
                SSL_ERROR_WANT_READ \<Rightarrow> Inr (LAW_ERR_WANTR, k)
              | SSL_ERROR_WANT_WRITE \<Rightarrow> Inr (LAW_ERR_WANTW, k)
              | SSL_ERROR_SYSCALL \<Rightarrow> KERN_PUSH LAW_ERR_SYS ''SSL_shutdown'' ''law_htc_ssl_shutdown'' 333 k
              | _ \<Rightarrow> KERN_PUSH LAW_ERR_SSL ''SSL_shutdown'' ''law_htc_ssl_shutdown'' 337 k)
         | SSL_POSITIVE \<Rightarrow> Inr (LAW_ERR_OK, k)))"

definition law_htc_ssl_free :: "'b law_htconn \<Rightarrow> kern \<Rightarrow> kern" where
  "law_htc_ssl_free conn k = (case hc_ssl conn of None \<Rightarrow> k | Some ssl \<Rightarrow> free ssl k)"

lemma KERN_PUSH_same:
  assumes "kern_inv k"
  obtains k' where "KERN_PUSH type action func line k = Inr (type, k')" and "same_fds k k'"
    and "k_outs k' = k_outs k"
proof -
  from assms law_err_push_ok [of "k_errs k" type action "''source/lawd/http_conn.c''" func line]
  obtain t where "law_err_push type action ''source/lawd/http_conn.c'' func line (k_errs k)
      = Inr (type, t)" "err_inv t"
    by (auto simp: kern_inv_def)
  with assms that [of "k\<lparr>k_errs := t\<rparr>"] show thesis
    by (simp add: KERN_PUSH_def same_fds_def kern_inv_def)
qed

lemma ssl_accept_full:
  assumes "kern_inv k"
  shows "\<exists>e conn' k'. law_htc_ssl_accept res conn k = Inr (e, conn', k') \<and>
           (if e \<in> {LAW_ERR_OK, LAW_ERR_WANTR, LAW_ERR_WANTW}
            then \<exists>ssl. hc_ssl conn' = Some ssl \<and> hc_mode conn' = LAW_HTC_SSL \<and> adds_fds {ssl} k k' \<and>
              same_fds k (law_htc_ssl_free conn' k')
            else same_fds k k' \<and>
              (conn' = conn \<or> (\<exists>ssl. hc_ssl conn' = Some ssl \<and> k_bad (law_htc_ssl_free conn' k'))))"
proof -
  let ?k = "k\<lparr>k_errs := (k_errs k)\<lparr>es_offset := 0\<rparr>\<rparr>"
  have c: "law_err_clear (k_errs k) = Inr ((k_errs k)\<lparr>es_offset := 0\<rparr>)"
    using assms by (simp add: law_err_clear_def kern_inv_def err_inv_def)
  have k0: "same_fds k ?k" using assms by (simp add: same_fds_def kern_inv_def err_inv_def)
  show ?thesis
    using same_fds_inv [OF k0]
  proof (cases rule: sys_new_fd_cases)
    case (1 k1)
    obtain k2 where k2: "KERN_PUSH LAW_ERR_SSL ''SSL_new'' ''law_htc_ssl_accept'' 271 k1 = Inr (LAW_ERR_SSL, k2)"
      "same_fds k1 k2" by (rule KERN_PUSH_same [OF same_fds_inv [OF 1(2)]])
    have "same_fds k k2" by (intro same_fds_trans [OF k0] same_fds_trans [OF 1(2)] k2(2))
    with c 1(1) k2(1) show ?thesis by (simp add: law_htc_ssl_accept_def)
  next
    case (2 ssl k1)
    have a1: "adds_fds {ssl} k k1" by (rule same_adds_trans [OF k0 2(2)])
    obtain b k2 where s: "sys_call k1 = (b, k2)" by (cases "sys_call k1")
    have a2: "adds_fds {ssl} k k2"
      by (rule adds_same_trans [OF a1 sys_call_same [OF adds_fds_inv [OF a1] s]])
    have f: "same_fds k (free ssl k2)" using sys_close_adds [OF a2, of ssl] by (simp add: adds_fds_empty)
    have push: "\<exists>k3. KERN_PUSH e act fn line (free ssl k2) = Inr (e, k3) \<and> same_fds k k3 \<and> ssl \<notin> k_open k3"
      for e act fn line
    proof -
      obtain k3 where "KERN_PUSH e act fn line (free ssl k2) = Inr (e, k3)" "same_fds (free ssl k2) k3"
        by (rule KERN_PUSH_same [OF same_fds_inv [OF f]])
      moreover from this have "same_fds k k3" using same_fds_trans [OF f] by blast
      moreover from this a1 have "ssl \<notin> k_open k3" by (auto simp: same_fds_def adds_fds_def)
      ultimately show ?thesis by blast
    qed
    have gone: "ssl \<notin> k_open (free ssl k2)" using f a1 by (auto simp: same_fds_def adds_fds_def)
    have dbl: "k_bad (free ssl k')" if "ssl \<notin> k_open k'" for k' using that by (simp add: sys_close_def)
    show ?thesis
    proof (cases b)
      case False
      with c 2(1) s push [of LAW_ERR_SSL "''SSL_set_fd''" "''law_htc_ssl_accept''" 277] show ?thesis
        by (auto simp: law_htc_ssl_accept_def)
    next
      case True
      with c 2(1) s a2 f gone dbl push [of LAW_ERR_SYS "''SSL_accept''" "''law_htc_ssl_accept''" 299]
        push [of LAW_ERR_SSL "''SSL_accept''" "''law_htc_ssl_accept''" 304] show ?thesis
        by (cases res) (auto simp: law_htc_ssl_accept_def law_htc_ssl_free_def Let_def split: ssl_error.splits)
    qed
  qed
qed

text \<open>
  C33: \<^verbatim>\<open>law_htc_ssl_accept\<close> leaks no session. If it returns \<open>LAW_ERR_OK\<close>,
  \<open>LAW_ERR_WANTR\<close> or \<open>LAW_ERR_WANTW\<close> the connection holds exactly one new session,
  and \<^verbatim>\<open>law_htc_ssl_free\<close> releases it. Otherwise it has released what it made; but the connection
  may be left pointing to the released session, and then \<^verbatim>\<open>law_htc_ssl_free\<close>, which is to
  \<^verbatim>\<open>free any resources acquired by ssl_accept\<close>, releases it a second time.
\<close>

theorem ssl_accept_leaks_nothing:
  assumes "kern_inv k"
  shows "\<exists>e conn' k'. law_htc_ssl_accept res conn k = Inr (e, conn', k') \<and>
           (if e \<in> {LAW_ERR_OK, LAW_ERR_WANTR, LAW_ERR_WANTW}
            then \<exists>ssl. hc_ssl conn' = Some ssl \<and> hc_mode conn' = LAW_HTC_SSL \<and> adds_fds {ssl} k k' \<and>
              same_fds k (law_htc_ssl_free conn' k')
            else same_fds k k' \<and>
              (conn' = conn \<or> (\<exists>ssl. hc_ssl conn' = Some ssl \<and> k_bad (law_htc_ssl_free conn' k'))))"
  by (rule ssl_accept_full [OF assms])

section \<open>Examples\<close>

definition demo_clib :: "(rbuf, peer) conn_lib" where
  "demo_clib = \<lparr>cl_buf = ref_pgc, cl_net = ref_net, cl_zero = LAW_ERR_OK\<rparr>"

lemma demo_clib_ok: "conn_lib_ok demo_clib rb_str rb_ok pe_rx pe_tx"
  by (simp add: conn_lib_ok_def demo_clib_def ref_pgc_spec ref_net_spec)

text \<open>A peer that sends \<open>rx\<close>, and a connection with eight bytes of buffer each way.\<close>

definition demo_conn :: "u8 list \<Rightarrow> u8 list \<Rightarrow> nat list \<Rightarrow> (rbuf, peer) conn_st" where
  "demo_conn rx out script =
     \<lparr>cs_conn = \<lparr>hc_socket = 5, hc_mode = LAW_HTC_UNSECURED, hc_ssl = None,
        hc_inbuf = \<lparr>rb_str = [], rb_tell = 0, rb_max = 8\<rparr>,
        hc_outbuf = \<lparr>rb_str = take 8 out, rb_tell = 0, rb_max = 8\<rparr>\<rparr>,
      cs_net = \<lparr>pe_rx = rx, pe_tx = [], pe_script = script\<rparr>, cs_errs = k_errs (demo_kern [])\<rparr>"

lemma demo_conn_inv: "conn_inv demo_clib rb_str rb_ok pe_rx pe_tx rx [] (demo_conn rx out script)"
  by (simp add: conn_inv_def demo_conn_def demo_clib_def rb_ok_def mode_ok_def ref_pgc_def demo_kern_def
      err_inv_def LAW_ERR_STACK_MAX_def)

lemma demo_conn_simps:
  "b_end (cl_buf demo_clib) b = length (rb_str b)" "b_tell (cl_buf demo_clib) b = rb_tell b"
  "b_max (cl_buf demo_clib) b = rb_max b" "cl_zero demo_clib = LAW_ERR_OK"
  "cs_in (demo_conn rx out script) = \<lparr>rb_str = [], rb_tell = 0, rb_max = 8\<rparr>"
  "cs_out (demo_conn rx out script) = \<lparr>rb_str = take 8 out, rb_tell = 0, rb_max = 8\<rparr>"
  by (simp_all add: demo_clib_def ref_pgc_def demo_conn_def)

theorem ensure_input_delivers_witness:
  "\<exists>e s'. law_htc_ensure_input demo_clib 2 (demo_conn [1, 2, 3] [] [3]) = Inr (e, s') \<and>
     (e = LAW_ERR_OK \<longrightarrow> 2 \<le> length (rb_str (cs_in s')))"
proof -
  from ensure_input_delivers [OF demo_clib_ok demo_conn_inv [of "[1, 2, 3]" "[]" "[3]"], of 2]
  show ?thesis by (auto simp: demo_conn_simps Let_def split: if_splits)
qed


theorem ensure_output_room_witness:
  "\<exists>e s'. law_htc_ensure_output (demo_clib\<lparr>cl_zero := ERR_OTHER 0\<rparr>) 9 (demo_conn [] [7, 8, 9] []) = Inr (e, s') \<and>
     e = LAW_ERR_OOB"
proof -
  let ?C = "demo_clib\<lparr>cl_zero := ERR_OTHER 0\<rparr>"
  have "conn_lib_ok ?C rb_str rb_ok pe_rx pe_tx" using demo_clib_ok by (simp add: conn_lib_ok_def)
  moreover have "conn_inv ?C rb_str rb_ok pe_rx pe_tx [] [] (demo_conn [] [7, 8, 9] [])"
    using demo_conn_inv [of "[]" "[7, 8, 9]" "[]"] by (simp add: conn_inv_def)
  ultimately show ?thesis
    using ensure_output_room [of ?C rb_str rb_ok pe_rx pe_tx "[]" "[]" "demo_conn [] [7, 8, 9] []" 9]
    by (auto simp: demo_conn_simps Let_def)
qed

lemma demo_scan: "map_sum id fst (law_htc_read_scan demo_clib 0 [13, 10] (demo_conn [65, 13, 10, 66] [] [])) =
    Inr LAW_ERR_OK"
  by code_simp

theorem read_scan_first_witness:
  "\<exists>s'. law_htc_read_scan demo_clib 0 [13, 10] (demo_conn [65, 13, 10, 66] [] []) = Inr (LAW_ERR_OK, s') \<and>
     (\<exists>p. occurs_at [13, 10] (rb_str (cs_in s')) p)"
proof -
  have "scanned demo_clib rb_str 0 [13, 10] (demo_conn [65, 13, 10, 66] [] [])"
    by (simp add: scanned_def demo_conn_simps)
  from read_scan_first [OF demo_clib_ok demo_conn_inv [of "[65, 13, 10, 66]" "[]" "[]"] _ _ _ _ this]
  obtain e s' where "law_htc_read_scan demo_clib 0 [13, 10] (demo_conn [65, 13, 10, 66] [] []) = Inr (e, s')"
    and "e = LAW_ERR_OK \<longrightarrow> (\<exists>p. occurs_at [13, 10] (rb_str (cs_in s')) p)"
    by (auto simp: demo_conn_simps split: if_splits)
  with demo_scan show ?thesis by auto
qed

theorem ssl_accept_leaks_nothing_witness:
  "\<exists>conn' k'. law_htc_ssl_accept SSL_ZERO (cs_conn (demo_conn [] [] [])) (demo_kern []) = Inr (LAW_ERR_EOF, conn', k') \<and>
     k_open k' = {0, 1, 2, 3} \<and> k_bad (law_htc_ssl_free conn' k')"
proof -
  obtain e conn' k' where r: "law_htc_ssl_accept SSL_ZERO (cs_conn (demo_conn [] [] [])) (demo_kern []) = Inr (e, conn', k')"
    "if e \<in> {LAW_ERR_OK, LAW_ERR_WANTR, LAW_ERR_WANTW}
     then \<exists>ssl. hc_ssl conn' = Some ssl \<and> hc_mode conn' = LAW_HTC_SSL \<and> adds_fds {ssl} (demo_kern []) k' \<and>
              same_fds (demo_kern []) (law_htc_ssl_free conn' k')
     else same_fds (demo_kern []) k' \<and> (conn' = cs_conn (demo_conn [] [] []) \<or>
              (\<exists>ssl. hc_ssl conn' = Some ssl \<and> k_bad (law_htc_ssl_free conn' k')))"
    using ssl_accept_leaks_nothing [OF demo_kern_inv, of SSL_ZERO "cs_conn (demo_conn [] [] [])" "[]"] by auto
  moreover from r(1) have "e = LAW_ERR_EOF" "hc_ssl conn' \<noteq> None"
    by (auto simp: law_htc_ssl_accept_def law_err_clear_def sys_new_fd_def sys_call_def demo_kern_def
        LAW_ERR_STACK_MAX_def Let_def)
  ultimately show ?thesis by (auto simp: same_fds_def demo_kern_def demo_conn_def)
qed

end
