(* ===== verification/Sync.thy ===== *)
theory Sync
  imports HttpConn Demo
begin

text \<open>
  Waiting inside a task: \<^verbatim>\<open>law_sync_wait\<close> and \<^verbatim>\<open>law_sync\<close> of
  \<^verbatim>\<open>server.c\<close>, the loop that calls a callback again until it is done, its time is over or it
  fails, and the calls of \<^verbatim>\<open>http_conn.c\<close> that are built on it. What the loop calls is the
  record \<open>sync_env\<close>; the locale \<open>sync_callback\<close> states what the loop relies on, and
  what it then gives; \<open>task_env\<close> is the environment of a task: the clock, the thread's error
  stack and a script of the coming waits.
\<close>

section \<open>\<open>law_sync\<close>\<close>

text \<open>
  \<open>v_clear\<close> and \<open>v_push\<close> are the calls on the thread's error stack. A wait gives an
  error code or a number of events.
\<close>

record 's sync_env =
  v_clear :: "'s \<Rightarrow> 's run"
  v_push :: "sel_err_t \<Rightarrow> string \<Rightarrow> string \<Rightarrow> int \<Rightarrow> 's \<Rightarrow> 's run"
  v_millis :: "'s \<Rightarrow> law_time_t \<times> 's"
  v_ectl :: "nat \<Rightarrow> law_ev_op \<Rightarrow> u32 \<Rightarrow> u32 \<Rightarrow> u8 \<Rightarrow> 's \<Rightarrow> (sel_err_t \<times> 's) run"
  v_ewait :: "law_time_t \<Rightarrow> law_event list option \<Rightarrow> int \<Rightarrow> 's \<Rightarrow> ((sel_err_t + int) \<times> 's) run"

definition law_sync_wait ::
  "'s sync_env \<Rightarrow> law_time_t \<Rightarrow> nat \<Rightarrow> u32 \<Rightarrow> 's \<Rightarrow> (sel_err_t \<times> 's) run" where
  "law_sync_wait V timeout d evs s =
     bindE (v_ectl V d LAW_EV_MOD 0 evs 0 s) (\<lambda>(err, s).
       if err \<noteq> LAW_ERR_OK then
         bindE (v_push V err ''law_ectl'' ''law_sync_wait'' 1087 s) (\<lambda>s. Inr (err, s))
       else
         bindE (v_ewait V timeout None 0 s) (\<lambda>(r, s).
           if r = Inl LAW_ERR_TIME then
             bindE (v_push V LAW_ERR_TIME ''law_ewait'' ''law_sync_wait'' 1091 s) (\<lambda>s. Inr (LAW_ERR_TIME, s))
           else Inr (LAW_ERR_OK, s)))"

text \<open>One turn of the loop: whether to go on, and the value to return if not.\<close>

definition sync_body ::
  "'s sync_env \<Rightarrow> ('s \<Rightarrow> (sel_err_t \<times> 's) run) \<Rightarrow> nat \<Rightarrow> law_time_t \<Rightarrow> sel_err_t \<times> 's \<Rightarrow>
   (bool \<times> sel_err_t \<times> 's) run" where
  "sync_body V callback d expiry = (\<lambda>(_, s).
     bindE (callback s) (\<lambda>(err, s).
       if err = LAW_ERR_OK then Inr (False, LAW_ERR_OK, s)
       else
         case v_millis V s of (now, s) \<Rightarrow>
           if expiry \<le> now then Inr (False, LAW_ERR_TIME, s)
           else if err \<noteq> LAW_ERR_WANTW \<and> err \<noteq> LAW_ERR_WANTR then Inr (False, err, s)
           else
             bindE (law_sync_wait V (expiry - now) d (if err = LAW_ERR_WANTW then LAW_EV_W else LAW_EV_R) s)
               (\<lambda>(err, s). Inr (err = LAW_ERR_OK, err, s))))"

text \<open>
  \<open>fuel\<close> bounds the turns; \<open>sync_result\<close> below shows when \<open>timeout + 2\<close> is enough.
\<close>

definition law_sync ::
  "'s sync_env \<Rightarrow> nat \<Rightarrow> law_time_t \<Rightarrow> ('s \<Rightarrow> (sel_err_t \<times> 's) run) \<Rightarrow> nat \<Rightarrow> 's \<Rightarrow>
   (sel_err_t \<times> 's) run" where
  "law_sync V fuel timeout callback d s =
     bindE (v_clear V s) (\<lambda>s.
       case v_millis V s of (now, s) \<Rightarrow>
         loop fuel (sync_body V callback d (now + timeout)) (LAW_ERR_OK, s))"

section \<open>What the loop relies on\<close>

text \<open>
  \<open>inv\<close> is kept by the calls, and by the callback until it is done, none of which faults, except that, where \<open>halts\<close>,
  a wait stops the process because nothing can wake it; \<open>now\<close> is the time, which every
  wait moves on; \<open>post\<close> is what the callback promises when it returns \<open>LAW_ERR_OK\<close>.
\<close>

locale sync_callback =
  fixes V :: "'s sync_env"
    and callback :: "'s \<Rightarrow> (sel_err_t \<times> 's) run"
    and inv :: "'s \<Rightarrow> bool"
    and post :: "'s \<Rightarrow> bool"
    and now :: "'s \<Rightarrow> law_time_t"
    and halts :: bool
  assumes clear_ok: "inv s \<Longrightarrow> \<exists>t. v_clear V s = Inr t \<and> inv t \<and> now t = now s"
    and push_ok: "inv s \<Longrightarrow> \<exists>t. v_push V e action func line s = Inr t \<and> inv t"
    and millis_ok: "inv s \<Longrightarrow> \<exists>t. v_millis V s = (now s, t) \<and> inv t \<and> now t = now s"
    and ectl_ok: "inv s \<Longrightarrow> \<exists>e t. v_ectl V d op flags evs b s = Inr (e, t) \<and> inv t \<and> now s \<le> now t"
    and ewait_ok: "inv s \<Longrightarrow> 0 < millis \<Longrightarrow>
      halts \<and> v_ewait V millis None 0 s = Inl SEL_ASSERT \<or>
      (\<exists>r t. v_ewait V millis None 0 s = Inr (r, t) \<and> inv t \<and> now s < now t)"
    and callback_ok: "inv s \<Longrightarrow>
      \<exists>e t. callback s = Inr (e, t) \<and> (if e = LAW_ERR_OK then post t else inv t \<and> now s \<le> now t)"
begin

lemma sync_wait_result:
  assumes "inv s" and "0 < timeout"
  shows "halts \<and> law_sync_wait V timeout d evs s = Inl SEL_ASSERT \<or>
    (\<exists>e t. law_sync_wait V timeout d evs s = Inr (e, t) \<and> inv t \<and> (e = LAW_ERR_OK \<longrightarrow> now s < now t))"
proof -
  obtain e s1 where c: "v_ectl V d LAW_EV_MOD 0 evs 0 s = Inr (e, s1)" "inv s1" "now s \<le> now s1"
    using ectl_ok [OF assms(1)] by blast
  show ?thesis
  proof (cases "e = LAW_ERR_OK")
    case False
    obtain s2 where "v_push V e ''law_ectl'' ''law_sync_wait'' 1087 s1 = Inr s2" "inv s2"
      using push_ok [OF c(2)] by blast
    with c(1) False show ?thesis by (simp add: law_sync_wait_def)
  next
    case True
    from ewait_ok [OF c(2) assms(2)] show ?thesis
    proof (elim disjE exE conjE)
      assume halts "v_ewait V timeout None 0 s1 = Inl SEL_ASSERT"
      with c(1) True show ?thesis by (simp add: law_sync_wait_def)
    next
      fix r s2
      assume w: "v_ewait V timeout None 0 s1 = Inr (r, s2)" "inv s2" "now s1 < now s2"
      obtain s3 where "v_push V LAW_ERR_TIME ''law_ewait'' ''law_sync_wait'' 1091 s2 = Inr s3" "inv s3"
        using push_ok [OF w(2)] by blast
      with c(1,3) w True show ?thesis by (auto simp: law_sync_wait_def)
    qed
  qed
qed

lemma sync_body_result:
  assumes "inv s"
  shows "halts \<and> sync_body V callback d expiry (e0, s) = Inl SEL_ASSERT \<or>
    (\<exists>go e t. sync_body V callback d expiry (e0, s) = Inr (go, e, t) \<and>
       (if go then inv t \<and> now s < expiry \<and> now s < now t
        else if e = LAW_ERR_OK then post t else inv t))"
proof -
  obtain e s1 where c0: "callback s = Inr (e, s1)" "if e = LAW_ERR_OK then post s1 else inv s1 \<and> now s \<le> now s1"
    using callback_ok [OF assms] by blast
  show ?thesis
  proof (cases "e = LAW_ERR_OK")
    case True
    with c0 show ?thesis by (auto simp: sync_body_def intro: exI [of _ False])
  next
    case ne: False
    from c0 ne have c: "callback s = Inr (e, s1)" "inv s1" "now s \<le> now s1" by simp_all
    obtain s2 where m: "v_millis V s1 = (now s1, s2)" "inv s2" "now s2 = now s1"
      using millis_ok [OF c(2)] by blast
    show ?thesis
    proof (cases "expiry \<le> now s1 \<or> e \<noteq> LAW_ERR_WANTW \<and> e \<noteq> LAW_ERR_WANTR")
      case True
      with c m ne show ?thesis by (auto simp: sync_body_def)
    next
      case False
      let ?evs = "if e = LAW_ERR_WANTW then LAW_EV_W else LAW_EV_R"
      from False have pos: "0 < expiry - now s1" by simp
      have b: "sync_body V callback d expiry (e0, s) =
          bindE (law_sync_wait V (expiry - now s1) d ?evs s2) (\<lambda>(err, s). Inr (err = LAW_ERR_OK, err, s))"
        using c(1) m(1) False ne by (auto simp: sync_body_def)
      from sync_wait_result [OF m(2) pos, of d ?evs] show ?thesis
      proof (elim disjE exE conjE)
        assume halts "law_sync_wait V (expiry - now s1) d ?evs s2 = Inl SEL_ASSERT"
        with b show ?thesis by simp
      next
        fix e' t
        assume "law_sync_wait V (expiry - now s1) d ?evs s2 = Inr (e', t)" "inv t"
          "e' = LAW_ERR_OK \<longrightarrow> now s2 < now t"
        with b c(3) m(3) pos show ?thesis by auto
      qed
    qed
  qed
qed

lemma sync_loop_result:
  assumes "inv s" and "nat (expiry - now s) < n"
  shows "halts \<and> loop n (sync_body V callback d expiry) (e0, s) = Inl SEL_ASSERT \<or>
    (\<exists>e t. loop n (sync_body V callback d expiry) (e0, s) = Inr (e, t) \<and> (if e = LAW_ERR_OK then post t else inv t))"
  using assms
proof (induction n arbitrary: e0 s)
  case 0
  then show ?case by simp
next
  case (Suc n)
  from sync_body_result [OF Suc.prems(1), of d expiry e0] show ?case
  proof (elim disjE exE conjE)
    assume halts "sync_body V callback d expiry (e0, s) = Inl SEL_ASSERT"
    then show ?thesis by (simp add: loop.simps)
  next
    fix go e t
    assume b: "sync_body V callback d expiry (e0, s) = Inr (go, e, t)"
      "if go then inv t \<and> now s < expiry \<and> now s < now t else if e = LAW_ERR_OK then post t else inv t"
    show ?thesis
    proof (cases go)
      case True
      with b(2) Suc.prems(2) have i: "inv t" "nat (expiry - now t) < n" by auto
      from Suc.IH [OF i, of e] b(1) True show ?thesis by (simp add: loop.simps)
    next
      case False
      with b show ?thesis by (auto simp: loop.simps)
    qed
  qed
qed

text \<open>The loop ends within its time and returns \<open>LAW_ERR_OK\<close> only if the callback did.\<close>

lemma sync_result:
  assumes "inv s" and "nat timeout < fuel"
  shows "halts \<and> law_sync V fuel timeout callback d s = Inl SEL_ASSERT \<or>
    (\<exists>e t. law_sync V fuel timeout callback d s = Inr (e, t) \<and> (if e = LAW_ERR_OK then post t else inv t))"
proof -
  obtain s1 where c: "v_clear V s = Inr s1" "inv s1" "now s1 = now s" using clear_ok [OF assms(1)] by blast
  obtain s2 where m: "v_millis V s1 = (now s1, s2)" "inv s2" "now s2 = now s1" using millis_ok [OF c(2)] by blast
  have "nat (now s1 + timeout - now s2) < fuel" using m(3) assms(2) by simp
  from sync_loop_result [OF m(2) this] c(1) m(1) show ?thesis by (simp add: law_sync_def)
qed

end

section \<open>A task without an event array\<close>

text \<open>
  C22: \<^verbatim>\<open>law_sync_wait\<close> cannot be woken. It calls \<^verbatim>\<open>law_ewait\<close> without an
  event array, and until the task goes on its record has none; whatever the worker wants to wake
  it for, an event, a message or the time it asked for, \<^verbatim>\<open>law_task_push_event\<close> stops the
  process at its assertion.
\<close>

theorem ewait_null_events_halts:
  assumes "law_ewait A millis None k (w, s) = Inr (Inr (), w', s')"
    and "s_heap r (w_active w) = s_heap s' (w_active w)"
  shows "tick_wake A ev (w_active w) (v, r) = Inl SEL_ASSERT \<and>
         (\<forall>t i now. err_inv (w_errs v) \<and> law_timer_peek (lib_bh A) (w_timer v) = Some (t, i, t_version (s_heap r (w_active w))) \<and>
            t \<le> now \<and> law_timer_pop (lib_bh A) (w_timer v) \<noteq> None \<and>
            law_table_lookup (lib_hm A) i (w_table v) = w_active w \<longrightarrow>
            expire_body A now (v, r) = Inl SEL_ASSERT)"
proof -
  from assms(1) have act: "w_active w \<noteq> NULL" and none: "t_events (s_heap s' (w_active w)) = None"
    by (auto simp: law_ewait_def law_time_millis_def Let_def require_Inr_iff split: prod.splits if_splits)
  have wake: "tick_wake A ev (w_active w) (v, r) = Inl SEL_ASSERT" for ev v
    using none assms(2) by (simp add: tick_wake_def law_task_push_event_def)
  moreover have "expire_body A now (v, r) = Inl SEL_ASSERT"
    if e: "err_inv (w_errs v)" and p: "law_timer_peek (lib_bh A) (w_timer v) = Some (t, i, t_version (s_heap r (w_active w)))"
      and d: "t \<le> now" and q: "law_timer_pop (lib_bh A) (w_timer v) \<noteq> None"
      and l: "law_table_lookup (lib_hm A) i (w_table v) = w_active w" for t i now
  proof -
    obtain x tmr where "law_timer_pop (lib_bh A) (w_timer v) = Some (x, tmr)" using q by auto
    moreover have "law_err_clear (w_errs v) = Inr ((w_errs v)\<lparr>es_offset := 0\<rparr>)"
      using e by (simp add: law_err_clear_def err_inv_def)
    ultimately show ?thesis using p d l act wake by (simp add: expire_body_def Let_def)
  qed
  ultimately show ?thesis by blast
qed

section \<open>The environment of a task\<close>

text \<open>
  The connection of the task with the time and the waits to come: each ends after the time asked for
  or, by an event, after some milliseconds less, but one at least. \<open>tk_ctl\<close> has the outcomes of
  the coming calls of \<^verbatim>\<open>law_ectl\<close>. \<open>asserts\<close> says whether the macro
  \<^verbatim>\<open>SEL_ASSERT\<close> is compiled in; then a wait without an event array does not end.
\<close>

record ('b, 'w) task_st = "('b, 'w) conn_st" +
  tk_now :: law_time_t
  tk_waits :: "nat list"
  tk_ctl :: "bool list"

definition task_env :: "bool \<Rightarrow> ('b, 'w, 'z) task_st_scheme sync_env" where
  "task_env asserts =
     \<lparr>v_clear = (\<lambda>s. bindE (law_err_clear (cs_errs s)) (\<lambda>es. Inr (s\<lparr>cs_errs := es\<rparr>))),
      v_push = (\<lambda>e action func line s.
        bindE (law_err_push e action ''source/lawd/server.c'' func line (cs_errs s))
          (\<lambda>(_, es). Inr (s\<lparr>cs_errs := es\<rparr>))),
      v_millis = (\<lambda>s. (tk_now s, s)),
      v_ectl = (\<lambda>d op flags evs b s.
        Inr (case tk_ctl s of
               [] \<Rightarrow> (LAW_ERR_OK, s)
             | c # cs \<Rightarrow> (if c then LAW_ERR_OK else LAW_ERR_SYS, s\<lparr>tk_ctl := cs\<rparr>))),
      v_ewait = (\<lambda>millis events k s.
        if asserts \<and> events = None then Inl SEL_ASSERT
        else
          (case tk_waits s of
             [] \<Rightarrow> Inr (Inr 0, s\<lparr>tk_now := tk_now s + millis\<rparr>)
           | d # ds \<Rightarrow>
               Inr (Inr 0, s\<lparr>tk_now := tk_now s + max 1 (min millis (int d)), tk_waits := ds\<rparr>)))\<rparr>"

text \<open>An invariant that only the connection determines is kept by the environment.\<close>

definition conn_only :: "(('b, 'w, 'z) task_st_scheme \<Rightarrow> bool) \<Rightarrow> bool" where
  "conn_only J \<longleftrightarrow>
     (\<forall>s. J s \<longrightarrow> err_inv (cs_errs s)) \<and>
     (\<forall>s es. J s \<and> err_inv es \<longrightarrow> J (s\<lparr>cs_errs := es\<rparr>)) \<and>
     (\<forall>s c ds n. J s \<longrightarrow> J (s\<lparr>tk_ctl := c\<rparr>) \<and> J (s\<lparr>tk_now := n\<rparr>) \<and> J (s\<lparr>tk_waits := ds\<rparr>))"

lemma task_callback:
  assumes "conn_only J"
    and "\<And>s. J s \<Longrightarrow> \<exists>e t. callback s = Inr (e, t) \<and> (if e = LAW_ERR_OK then post t else J t \<and> tk_now t = tk_now s)"
  shows "sync_callback (task_env asserts) callback J post tk_now asserts"
proof
  fix s :: "('a, 'b, 'c) task_st_scheme"
  assume s: "J s"
  have e: "err_inv (cs_errs s)" using s assms(1) by (simp add: conn_only_def)
  have err: "J (s\<lparr>cs_errs := es\<rparr>)" if "err_inv es" for es using s assms(1) that by (simp add: conn_only_def)
  have upd: "J (s\<lparr>tk_ctl := c\<rparr>)" "J (s\<lparr>tk_now := n\<rparr>)" "J (s\<lparr>tk_now := n, tk_waits := ds\<rparr>)" for c n ds
    using s assms(1) by (simp_all add: conn_only_def)
  show "\<exists>t. v_clear (task_env asserts) s = Inr t \<and> J t \<and> tk_now t = tk_now s"
    using e err [of "(cs_errs s)\<lparr>es_offset := 0\<rparr>"] by (auto simp: task_env_def law_err_clear_def err_inv_def)
  show "\<exists>t. v_push (task_env asserts) ec action func line s = Inr t \<and> J t" for ec action func line
    using law_err_push_ok [OF e, of ec action "''source/lawd/server.c''" func line] err
    by (auto simp: task_env_def)
  show "\<exists>t. v_millis (task_env asserts) s = (tk_now s, t) \<and> J t \<and> tk_now t = tk_now s"
    using s by (simp add: task_env_def)
  show "\<exists>e t. v_ectl (task_env asserts) d op flags evs b s = Inr (e, t) \<and> J t \<and> tk_now s \<le> tk_now t"
    for d op flags evs b
    using s upd by (auto simp: task_env_def split: list.splits)
  show "asserts \<and> v_ewait (task_env asserts) millis None 0 s = Inl SEL_ASSERT \<or>
      (\<exists>r t. v_ewait (task_env asserts) millis None 0 s = Inr (r, t) \<and> J t \<and> tk_now s < tk_now t)"
    if "0 < millis" for millis
    using that upd by (auto simp: task_env_def split: list.splits)
  show "\<exists>e t. callback s = Inr (e, t) \<and> (if e = LAW_ERR_OK then post t else J t \<and> tk_now s \<le> tk_now t)"
    using assms(2) [OF s] by (metis order_refl)
qed

section \<open>The waiting calls of a connection\<close>

text \<open>\<open>timeout + 2\<close> turns are enough, since every wait takes a millisecond at least.\<close>

definition sync_fuel :: "law_time_t \<Rightarrow> nat" where
  "sync_fuel timeout = nat timeout + 2"

definition law_htc_ensure_input_cb ::
  "('b, 'w) conn_lib \<Rightarrow> nat \<Rightarrow> ('b, 'w, 'z) task_st_scheme \<Rightarrow> (sel_err_t \<times> ('b, 'w, 'z) task_st_scheme) run" where
  "law_htc_ensure_input_cb = law_htc_ensure_input"

definition law_htc_ensure_input_sync ::
  "('b, 'w) conn_lib \<Rightarrow> ('b, 'w, 'z) task_st_scheme sync_env \<Rightarrow> law_time_t \<Rightarrow> nat \<Rightarrow>
   ('b, 'w, 'z) task_st_scheme \<Rightarrow> (sel_err_t \<times> ('b, 'w, 'z) task_st_scheme) run" where
  "law_htc_ensure_input_sync C V timeout nbytes s =
     law_sync V (sync_fuel timeout) timeout (law_htc_ensure_input_cb C nbytes) (hc_socket (cs_conn s)) s"

definition law_htc_ensure_output_cb ::
  "('b, 'w) conn_lib \<Rightarrow> nat \<Rightarrow> ('b, 'w, 'z) task_st_scheme \<Rightarrow> (sel_err_t \<times> ('b, 'w, 'z) task_st_scheme) run" where
  "law_htc_ensure_output_cb = law_htc_ensure_output"

definition law_htc_ensure_output_sync ::
  "('b, 'w) conn_lib \<Rightarrow> ('b, 'w, 'z) task_st_scheme sync_env \<Rightarrow> law_time_t \<Rightarrow> nat \<Rightarrow>
   ('b, 'w, 'z) task_st_scheme \<Rightarrow> (sel_err_t \<times> ('b, 'w, 'z) task_st_scheme) run" where
  "law_htc_ensure_output_sync C V timeout nbytes s =
     law_sync V (sync_fuel timeout) timeout (law_htc_ensure_output_cb C nbytes) (hc_socket (cs_conn s)) s"

definition law_htc_flush_cb ::
  "('b, 'w) conn_lib \<Rightarrow> ('b, 'w, 'z) task_st_scheme \<Rightarrow> (sel_err_t \<times> ('b, 'w, 'z) task_st_scheme) run" where
  "law_htc_flush_cb = law_htc_flush"

definition law_htc_flush_sync ::
  "('b, 'w) conn_lib \<Rightarrow> ('b, 'w, 'z) task_st_scheme sync_env \<Rightarrow> law_time_t \<Rightarrow>
   ('b, 'w, 'z) task_st_scheme \<Rightarrow> (sel_err_t \<times> ('b, 'w, 'z) task_st_scheme) run" where
  "law_htc_flush_sync C V timeout s =
     law_sync V (sync_fuel timeout) timeout (law_htc_flush_cb C) (hc_socket (cs_conn s)) s"

text \<open>Their invariants, and what they promise.\<close>

definition input_inv where
  "input_inv C str ok rx tx S T nbytes s \<longleftrightarrow>
     conn_lib_ok C str ok rx tx \<and> conn_inv C str ok rx tx S T s \<and> b_max (cl_buf C) (cs_in s) + nbytes < 2 ^ 64"

definition output_inv where
  "output_inv C str ok rx tx S T s \<longleftrightarrow>
     conn_lib_ok C str ok rx tx \<and> conn_inv C str ok rx tx S T s \<and> cl_zero C \<noteq> LAW_ERR_OK"

definition input_there where
  "input_there C str ok rx tx S T nbytes s \<longleftrightarrow> input_inv C str ok rx tx S T nbytes s \<and> nbytes \<le> b_end (cl_buf C) (cs_in s) - b_tell (cl_buf C) (cs_in s)"

definition output_room where
  "output_room C str ok rx tx S T nbytes s \<longleftrightarrow> output_inv C str ok rx tx S T s \<and>
     nbytes \<le> b_max (cl_buf C) (cs_out s) - (b_end (cl_buf C) (cs_out s) - b_tell (cl_buf C) (cs_out s))"

definition output_empty where
  "output_empty C str ok rx tx S T s \<longleftrightarrow> output_inv C str ok rx tx S T s \<and>
     length (str (cs_out s)) - b_tell (cl_buf C) (cs_out s) = 0"

lemma took_now: "took C str ok rx tx xs s s' \<Longrightarrow> tk_now s' = tk_now s"
  by (auto simp: took_def set_in_def)

lemma sent_now: "sent C str ok rx tx k s s' \<Longrightarrow> tk_now s' = tk_now s"
  by (auto simp: sent_def set_out_def)

lemma conn_only_input: "conn_only (input_inv C str ok rx tx S T n)"
  by (simp add: conn_only_def input_inv_def conn_inv_def mode_ok_def)

lemma conn_only_output: "conn_only (output_inv C str ok rx tx S T)"
  by (simp add: conn_only_def output_inv_def conn_inv_def mode_ok_def)

lemma ensure_input_callback:
  "sync_callback (task_env asserts) (law_htc_ensure_input_cb C nbytes) (input_inv C str ok rx tx S T nbytes)
     (input_there C str ok rx tx S T nbytes) tk_now asserts"
proof (rule task_callback [OF conn_only_input])
  fix s :: "('a, 'b, 'c) task_st_scheme"
  assume i: "input_inv C str ok rx tx S T nbytes s"
  then have P: "pgc_spec (cl_buf C) str ok" and c: "conn_inv C str ok rx tx S T s"
    and L: "conn_lib_ok C str ok rx tx" and m: "b_max (cl_buf C) (cs_in s) + nbytes < 2 ^ 64"
    by (simp_all add: input_inv_def conn_lib_ok_def)
  have "b_end (cl_buf C) (cs_in s) - b_tell (cl_buf C) (cs_in s) + nbytes < 2 ^ 64"
    using pgc_pos(2) [OF P conn_invD(1) [OF c]] m by linarith
  from ensure_input_ok [OF L c this]
  obtain e s' xs where r: "law_htc_ensure_input C nbytes s = Inr (e, s')" "took C str ok rx tx xs s s'"
    "conn_inv C str ok rx tx S T s'" "e = LAW_ERR_OK \<longrightarrow> nbytes \<le> b_end (cl_buf C) (cs_in s') - b_tell (cl_buf C) (cs_in s')"
    by blast
  have "b_max (cl_buf C) (cs_in s') = b_max (cl_buf C) (cs_in s)" by (rule tookD(4) [OF r(2)])
  with r L m took_now [OF r(2)] show "\<exists>e t. law_htc_ensure_input_cb C nbytes s = Inr (e, t) \<and>
      (if e = LAW_ERR_OK then input_there C str ok rx tx S T nbytes t
       else input_inv C str ok rx tx S T nbytes t \<and> tk_now t = tk_now s)"
    by (auto simp: law_htc_ensure_input_cb_def input_inv_def input_there_def)
qed

lemma ensure_output_callback:
  "sync_callback (task_env asserts) (law_htc_ensure_output_cb C nbytes) (output_inv C str ok rx tx S T)
     (output_room C str ok rx tx S T nbytes) tk_now asserts"
proof (rule task_callback [OF conn_only_output])
  fix s :: "('a, 'b, 'c) task_st_scheme"
  assume "output_inv C str ok rx tx S T s"
  then have c: "conn_inv C str ok rx tx S T s" and L: "conn_lib_ok C str ok rx tx" and z: "cl_zero C \<noteq> LAW_ERR_OK"
    by (simp_all add: output_inv_def)
  from ensure_output_ok [OF L c z]
  obtain e s' k where r: "law_htc_ensure_output C nbytes s = Inr (e, s')" "sent C str ok rx tx k s s'"
    "conn_inv C str ok rx tx S T s'" "e = LAW_ERR_OK \<longrightarrow> nbytes \<le> b_max (cl_buf C) (cs_out s') -
       (b_end (cl_buf C) (cs_out s') - b_tell (cl_buf C) (cs_out s'))"
    by blast
  with L z sent_now [OF r(2)] show "\<exists>e t. law_htc_ensure_output_cb C nbytes s = Inr (e, t) \<and>
      (if e = LAW_ERR_OK then output_room C str ok rx tx S T nbytes t
       else output_inv C str ok rx tx S T t \<and> tk_now t = tk_now s)"
    by (auto simp: law_htc_ensure_output_cb_def output_inv_def output_room_def)
qed

lemma flush_callback:
  "sync_callback (task_env asserts) (law_htc_flush_cb C) (output_inv C str ok rx tx S T)
     (output_empty C str ok rx tx S T) tk_now asserts"
proof (rule task_callback [OF conn_only_output])
  fix s :: "('a, 'b, 'c) task_st_scheme"
  assume "output_inv C str ok rx tx S T s"
  then have c: "conn_inv C str ok rx tx S T s" and L: "conn_lib_ok C str ok rx tx" and z: "cl_zero C \<noteq> LAW_ERR_OK"
    by (simp_all add: output_inv_def)
  from flush_ok [OF L c]
  obtain e s' k where r: "law_htc_flush C s = Inr (e, s')" "sent C str ok rx tx k s s'"
    "conn_inv C str ok rx tx S T s'" "e = LAW_ERR_OK \<longrightarrow> length (str (cs_out s')) - b_tell (cl_buf C) (cs_out s') = 0"
    using z by blast
  with L z sent_now [OF r(2)] show "\<exists>e t. law_htc_flush_cb C s = Inr (e, t) \<and>
      (if e = LAW_ERR_OK then output_empty C str ok rx tx S T t
       else output_inv C str ok rx tx S T t \<and> tk_now t = tk_now s)"
    by (auto simp: law_htc_flush_cb_def output_inv_def output_empty_def)
qed

interpretation esi: sync_callback "task_env asserts" "law_htc_ensure_input_cb C nbytes"
  "input_inv C str ok rx tx S T nbytes" "input_there C str ok rx tx S T nbytes" tk_now asserts
  for asserts C nbytes str ok rx tx S T
  by (rule ensure_input_callback)

interpretation eso: sync_callback "task_env asserts" "law_htc_ensure_output_cb C nbytes"
  "output_inv C str ok rx tx S T" "output_room C str ok rx tx S T nbytes" tk_now asserts
  for asserts C nbytes str ok rx tx S T
  by (rule ensure_output_callback)

interpretation fls: sync_callback "task_env asserts" "law_htc_flush_cb C"
  "output_inv C str ok rx tx S T" "output_empty C str ok rx tx S T" tk_now asserts
  for asserts C str ok rx tx S T
  by (rule flush_callback)


text \<open>
  \<^verbatim>\<open>law_htc_flush_sync\<close> returns within its time, with the same exception, and
  returns \<open>LAW_ERR_OK\<close> only if the peer got everything that was put into the output buffer, in order,
  once, provided that \<open>LAW_ERR_OK\<close> is not the number zero that a
  \<^verbatim>\<open>write\<close> of nothing returns.
\<close>

theorem flush_sync_sends:
  fixes s :: "('b, 'w, 'z) task_st_scheme"
  assumes "conn_lib_ok C str ok rx tx" and "conn_inv C str ok rx tx S T s" and "cl_zero C \<noteq> LAW_ERR_OK"
  shows "asserts \<and> law_htc_flush_sync C (task_env asserts) timeout s = Inl SEL_ASSERT \<or>
    (\<exists>e t. law_htc_flush_sync C (task_env asserts) timeout s = Inr (e, t) \<and>
       tx (cs_net t) = T @ take (b_tell (cl_buf C) (cs_out t)) (str (cs_out t)) \<and>
       (e = LAW_ERR_OK \<longrightarrow> tx (cs_net t) = T @ str (cs_out t)))"
proof -
  have "output_inv C str ok rx tx S T s" using assms by (simp add: output_inv_def)
  from fls.sync_result [OF this, of timeout "sync_fuel timeout" asserts "hc_socket (cs_conn s)"]
  show ?thesis
    by (auto simp: law_htc_flush_sync_def sync_fuel_def output_inv_def conn_inv_def output_empty_def split: if_splits)
qed

definition demo_conn_task :: "u8 list \<Rightarrow> u8 list \<Rightarrow> nat list \<Rightarrow> (rbuf, peer) task_st" where
  "demo_conn_task rx out script =
     conn_st.extend (demo_conn rx out script) \<lparr>tk_now = 0, tk_waits = [], tk_ctl = []\<rparr>"

lemma demo_conn_task_inv: "conn_inv demo_clib rb_str rb_ok pe_rx pe_tx rx [] (demo_conn_task rx out script)"
  using demo_conn_inv [of rx out script]
  by (simp add: demo_conn_task_def conn_inv_def mode_ok_def conn_st.defs)

lemma demo_conn_task_in: "b_max (cl_buf demo_clib) (cs_in (demo_conn_task rx out script)) = 8"
  by (simp add: demo_conn_task_def conn_st.defs demo_conn_def demo_clib_def ref_pgc_def)


theorem flush_sync_sends_witness:
  "\<exists>e t. law_htc_flush_sync (demo_clib\<lparr>cl_zero := ERR_OTHER 0\<rparr>) (task_env False) 50 (demo_conn_task [] [7, 8, 9] [2, 0]) = Inr (e, t) \<and>
     (e = LAW_ERR_OK \<longrightarrow> pe_tx (cs_net t) = rb_str (cs_out t))"
proof -
  let ?C = "demo_clib\<lparr>cl_zero := ERR_OTHER 0\<rparr>" and ?s = "demo_conn_task [] [7, 8, 9] [2, 0]"
  have "conn_lib_ok ?C rb_str rb_ok pe_rx pe_tx" using demo_clib_ok by (simp add: conn_lib_ok_def)
  moreover have "conn_inv ?C rb_str rb_ok pe_rx pe_tx [] [] ?s"
    using demo_conn_task_inv [of "[]" "[7, 8, 9]" "[2, 0]"] by (simp add: conn_inv_def)
  ultimately show ?thesis
    using flush_sync_sends [of ?C rb_str rb_ok pe_rx pe_tx "[]" "[]" ?s False 50] by auto
qed

theorem ewait_null_events_halts_witness:
  "\<exists>w s. law_ewait demo_lib 10 None 0 (demo_worker\<lparr>w_active := 1\<rparr>, demo_server) = Inr (Inr (), w, s) \<and>
     tick_wake demo_lib \<lparr>ev_events = LAW_EV_R, ev_data = 0\<rparr> 1 (w, s) = Inl SEL_ASSERT"
proof -
  obtain w s where
    "law_ewait demo_lib 10 None 0 (demo_worker\<lparr>w_active := 1\<rparr>, demo_server) = Inr (Inr (), w, s)"
    by (simp add: worker_eval demo_eval)
  with ewait_null_events_halts [OF this refl, of "\<lparr>ev_events = LAW_EV_R, ev_data = 0\<rparr>" w] show ?thesis
    by auto
qed

end
