(* ===== verification/Ast.thy ===== *)
theory Ast
  imports Buffer
begin

text \<open>
  What the parsers leave behind: \<^verbatim>\<open>http_headers.c\<close> and the parts of
  \<^verbatim>\<open>uri.c\<close> that read and print it. The syntax trees are pgenc's. A
  \<^verbatim>\<open>struct pgc_ast_lst\<close> is a list, whose fields \<^verbatim>\<open>val\<close> and \<^verbatim>\<open>nxt\<close>
  the sources follow themselves; the nodes, of type \<open>'a\<close>, are read by pgenc's functions, the
  fields of the record \<open>ast_ops\<close>.
\<close>

record 'a ast_ops =
  a_tostr :: "'a \<Rightarrow> string"
  a_tolst :: "'a \<Rightarrow> 'a list"
  a_typeof :: "'a \<Rightarrow> nat"
  a_at :: "'a list \<Rightarrow> nat \<Rightarrow> 'a option"
  a_len :: "'a list \<Rightarrow> nat"

text \<open>The two that walk a list: past the end there is no element.\<close>

definition ast_spec :: "'a ast_ops \<Rightarrow> bool" where
  "ast_spec A \<longleftrightarrow>
     (\<forall>xs n. a_at A xs n = (if n < length xs then Some (xs ! n) else None)) \<and> (\<forall>xs. a_len A xs = length xs)"

text \<open>Nodes to run the examples on.\<close>

datatype tree = Leaf nat string | Node nat "tree list"

definition ref_ast :: "tree ast_ops" where
  "ref_ast = \<lparr>a_tostr = (\<lambda>t. case t of Leaf _ s \<Rightarrow> s | Node _ _ \<Rightarrow> []),
     a_tolst = (\<lambda>t. case t of Leaf _ _ \<Rightarrow> [] | Node _ ts \<Rightarrow> ts),
     a_typeof = (\<lambda>t. case t of Leaf n _ \<Rightarrow> n | Node n _ \<Rightarrow> n),
     a_at = (\<lambda>xs n. if n < length xs then Some (xs ! n) else None), a_len = length\<rparr>"

lemma ref_ast_spec: "ast_spec ref_ast"
  by (simp add: ast_spec_def ref_ast_def)

section \<open>Headers\<close>

text \<open>
  A header is a list of its name and, if it has one, its value. The first element of an empty
  list is read through a null pointer.
\<close>

fun law_hth_get :: "'a ast_ops \<Rightarrow> 'a list \<Rightarrow> string \<Rightarrow> string option run" where
  "law_hth_get A [] field_name = Inr None"
| "law_hth_get A (l # ls) field_name =
     (case a_tolst A l of
        [] \<Rightarrow> Inl NULL_DEREF
      | k # rest \<Rightarrow>
          if a_tostr A k = field_name
          then Inr (Some (case rest of [] \<Rightarrow> [] | v # _ \<Rightarrow> a_tostr A v))
          else law_hth_get A ls field_name)"

text \<open>An iterator is the rest of the list; \<open>alloc\<close> says whether the caller's allocator has memory.\<close>

definition law_hth_elems :: "bool \<Rightarrow> 'a list \<Rightarrow> 'a list option" where
  "law_hth_elems alloc hdrs = (if alloc then Some hdrs else None)"

definition law_hth_next :: "'a ast_ops \<Rightarrow> 'a list \<Rightarrow> ((string \<times> string) option \<times> 'a list) run" where
  "law_hth_next A iter =
     (case iter of
        [] \<Rightarrow> Inr (None, [])
      | e # es \<Rightarrow>
          (case a_tolst A e of
             [] \<Rightarrow> Inl NULL_DEREF
           | k # rest \<Rightarrow>
               Inr (Some (a_tostr A k, case rest of [] \<Rightarrow> [] | v # _ \<Rightarrow> a_tostr A v), es)))"

section \<open>The query of a URI\<close>

fun law_uri_query_get :: "'a ast_ops \<Rightarrow> 'a list \<Rightarrow> string \<Rightarrow> string option run" where
  "law_uri_query_get A [] name = Inr None"
| "law_uri_query_get A (l # ls) name =
     (case a_tolst A l of
        [] \<Rightarrow> Inl NULL_DEREF
      | k # rest \<Rightarrow>
          if a_tostr A k = name
          then Inr (Some (case rest of [] \<Rightarrow> [] | v # _ \<Rightarrow> a_tostr A v))
          else law_uri_query_get A ls name)"

definition law_uri_query_count :: "'a ast_ops \<Rightarrow> 'a list \<Rightarrow> nat" where
  "law_uri_query_count A query = a_len A query"

definition law_uri_query_elems :: "bool \<Rightarrow> 'a list \<Rightarrow> 'a list option" where
  "law_uri_query_elems alloc query = (if alloc then Some query else None)"

definition law_uri_query_next :: "'a ast_ops \<Rightarrow> 'a list \<Rightarrow> ((string \<times> string) option \<times> 'a list) run" where
  "law_uri_query_next A query =
     (case query of
        [] \<Rightarrow> Inr (None, [])
      | e # es \<Rightarrow>
          (case a_tolst A e of
             [] \<Rightarrow> Inl NULL_DEREF
           | k # rest \<Rightarrow>
               Inr (Some (a_tostr A k, case rest of [] \<Rightarrow> [] | v # _ \<Rightarrow> a_tostr A v), es)))"

section \<open>The path of a URI\<close>

record 'a law_uri_path =
  up_list :: "'a list"
  up_count :: nat

definition law_uri_path_count :: "'a law_uri_path \<Rightarrow> nat" where
  "law_uri_path_count path = up_count path"

text \<open>The index is computed on \<^verbatim>\<open>intptr_t\<close> and cast to \<^verbatim>\<open>size_t\<close>.\<close>

definition law_uri_path_at :: "'a ast_ops \<Rightarrow> 'a law_uri_path \<Rightarrow> int \<Rightarrow> string run" where
  "law_uri_path_at A path index =
     (let i = nat ((if index < 0 then int (up_count path) + index else index) mod 2 ^ 64) in
      case a_at A (up_list path) i of None \<Rightarrow> Inl NULL_DEREF | Some x \<Rightarrow> Inr (a_tostr A x))"

definition law_uri_path_segs :: "bool \<Rightarrow> 'a law_uri_path \<Rightarrow> 'a list option" where
  "law_uri_path_segs alloc path = (if alloc then Some (up_list path) else None)"

definition law_uri_path_next :: "'a ast_ops \<Rightarrow> 'a list \<Rightarrow> string option \<times> 'a list" where
  "law_uri_path_next A iter =
     (case iter of [] \<Rightarrow> (None, []) | x # xs \<Rightarrow> (Some (a_tostr A x), xs))"

section \<open>Parsing\<close>

text \<open>
  \<open>parse\<close> is pgenc's parser run on the text, \<open>push\<close> whether its heap has room for the
  result; that one is not checked before it is written to.
\<close>

definition law_uri_parse_query ::
  "(string \<Rightarrow> sel_err_t \<times> 'a list) \<Rightarrow> bool \<Rightarrow> string \<Rightarrow> (sel_err_t \<times> 'a list option) run" where
  "law_uri_parse_query parse push text =
     (case parse text of
        (err, result) \<Rightarrow>
          if err \<noteq> LAW_ERR_OK then Inr (err, None)
          else require NULL_DEREF push (Inr (LAW_ERR_OK, Some result)))"

definition law_uri_parse_path ::
  "'a ast_ops \<Rightarrow> (string \<Rightarrow> sel_err_t \<times> 'a list) \<Rightarrow> bool \<Rightarrow> string \<Rightarrow>
   (sel_err_t \<times> 'a law_uri_path option) run" where
  "law_uri_parse_path A parse push text =
     (case parse text of
        (err, result) \<Rightarrow>
          if err \<noteq> LAW_ERR_OK then Inr (err, None)
          else require NULL_DEREF push
            (Inr (LAW_ERR_OK, Some \<lparr>up_list = result, up_count = a_len A result\<rparr>)))"

section \<open>The URI\<close>

record law_uri =
  u_scheme :: "string option"
  u_host :: "string option"
  u_port :: "string option"
  u_path :: "string option"
  u_query :: "string option"

text \<open>The numbers of the enumeration \<^verbatim>\<open>law_uri_part\<close>.\<close>

definition LAW_URI_SCHEME :: nat where "LAW_URI_SCHEME = 0"
definition LAW_URI_HOST :: nat where "LAW_URI_HOST = 1"
definition LAW_URI_PORT :: nat where "LAW_URI_PORT = 2"
definition LAW_URI_PATH :: nat where "LAW_URI_PATH = 3"
definition LAW_URI_QUERY :: nat where "LAW_URI_QUERY = 4"

definition uri_part :: "'a ast_ops \<Rightarrow> 'a \<Rightarrow> law_uri \<Rightarrow> law_uri run" where
  "uri_part A x uri =
     (let t = a_typeof A x; s = Some (a_tostr A x) in
      if t = LAW_URI_HOST then Inr (uri\<lparr>u_host := s\<rparr>)
      else if t = LAW_URI_PATH then Inr (uri\<lparr>u_path := s\<rparr>)
      else if t = LAW_URI_PORT then Inr (uri\<lparr>u_port := s\<rparr>)
      else if t = LAW_URI_SCHEME then Inr (uri\<lparr>u_scheme := s\<rparr>)
      else if t = LAW_URI_QUERY then Inr (uri\<lparr>u_query := s\<rparr>)
      else Inl SEL_HALT)"

primrec uri_parts :: "'a ast_ops \<Rightarrow> 'a list \<Rightarrow> law_uri \<Rightarrow> law_uri run" where
  "uri_parts A [] uri = Inr uri"
| "uri_parts A (x # xs) uri = bindE (uri_part A x uri) (uri_parts A xs)"

definition law_uri_from_ast :: "'a ast_ops \<Rightarrow> 'a list \<Rightarrow> law_uri run" where
  "law_uri_from_ast A xs =
     uri_parts A xs \<lparr>u_scheme = None, u_host = None, u_port = None, u_path = None, u_query = None\<rparr>"

definition law_uri_parse ::
  "'a ast_ops \<Rightarrow> ('b \<Rightarrow> sel_err_t \<times> 'a list \<times> 'b) \<Rightarrow> 'b \<Rightarrow> (sel_err_t \<times> law_uri option \<times> 'b) run" where
  "law_uri_parse A parse buf =
     (case parse buf of
        (err, result, buf) \<Rightarrow>
          if err \<noteq> LAW_ERR_OK then Inr (err, None, buf)
          else bindE (law_uri_from_ast A result) (\<lambda>uri. Inr (LAW_ERR_OK, Some uri, buf)))"

text \<open>
  Printing. \<^verbatim>\<open>pgc_buf_printf\<close> puts the formatted text into the buffer;
  \<^verbatim>\<open>SEL_TRY_QUIETLY\<close> returns an error at once.
\<close>

definition text_bytes :: "string \<Rightarrow> u8 list" where
  "text_bytes s = map (\<lambda>c. word_of_nat (of_char c)) s"

definition pgc_buf_printf :: "('b, 'w) pgc \<Rightarrow> string \<Rightarrow> 'b \<Rightarrow> sel_err_t \<times> 'b" where
  "pgc_buf_printf P txt b = b_put P (text_bytes txt) b"

definition try_next :: "sel_err_t \<times> 's \<Rightarrow> ('s \<Rightarrow> sel_err_t \<times> 's) \<Rightarrow> sel_err_t \<times> 's" where
  "try_next r f = (case r of (e, s) \<Rightarrow> if e \<noteq> LAW_ERR_OK then (e, s) else f s)"

definition print_part :: "(string \<Rightarrow> 's \<Rightarrow> sel_err_t \<times> 's) \<Rightarrow> string \<Rightarrow> string option \<Rightarrow> string \<Rightarrow> 's \<Rightarrow> sel_err_t \<times> 's" where
  "print_part out before x after s =
     (case x of None \<Rightarrow> (LAW_ERR_OK, s) | Some t \<Rightarrow> out (before @ t @ after) s)"

definition law_uri_bprint :: "('b, 'w) pgc \<Rightarrow> law_uri \<Rightarrow> 'b \<Rightarrow> sel_err_t \<times> 'b" where
  "law_uri_bprint P uri b =
     (let out = pgc_buf_printf P in
      try_next (print_part out [] (u_scheme uri) ''://'' b) (\<lambda>b.
      try_next (print_part out [] (u_host uri) [] b) (\<lambda>b.
      try_next (print_part out [] (u_path uri) [] b) (\<lambda>b.
      print_part out ''?'' (u_query uri) [] b))))"

definition stream_printf :: "string \<Rightarrow> stream \<Rightarrow> sel_err_t \<times> stream" where
  "stream_printf txt f = (case fprintf txt f of (ok, f) \<Rightarrow> (if ok then LAW_ERR_OK else LAW_ERR_SYS, f))"

definition law_uri_fprint :: "law_uri \<Rightarrow> stream \<Rightarrow> sel_err_t \<times> stream" where
  "law_uri_fprint uri f =
     try_next (print_part stream_printf [] (u_scheme uri) ''://'' f) (\<lambda>f.
     try_next (print_part stream_printf [] (u_host uri) [] f) (\<lambda>f.
     try_next (print_part stream_printf [] (u_path uri) [] f) (\<lambda>f.
     print_part stream_printf ''?'' (u_query uri) [] f)))"

section \<open>Looking up and walking\<close>

text \<open>
  What a lookup and an iterator over a list of pairs owe each other; the headers and the query are
  two such lists.
\<close>

locale pair_list =
  fixes get :: "'a list \<Rightarrow> string \<Rightarrow> string option run"
    and advance :: "'a list \<Rightarrow> ((string \<times> string) option \<times> 'a list) run"
  assumes get_Nil: "get [] n = Inr None"
    and advance_Nil: "advance [] = Inr (None, [])"
    and both: "advance (x # xs) = Inl NULL_DEREF \<or>
      (\<exists>k v. advance (x # xs) = Inr (Some (k, v), xs) \<and>
         (\<forall>n. get (x # xs) n = (if k = n then Inr (Some v) else get xs n)))"
begin

primrec drain :: "nat \<Rightarrow> 'a list \<Rightarrow> (string \<times> string) list run" where
  "drain 0 iter = Inr []"
| "drain (Suc n) iter =
     bindE (advance iter) (\<lambda>(r, iter).
       case r of None \<Rightarrow> Inr [] | Some p \<Rightarrow> bindE (drain n iter) (\<lambda>ps. Inr (p # ps)))"

lemma get_drain: "drain (Suc (length xs)) xs = Inr ps \<Longrightarrow> length ps = length xs \<and> get xs n = Inr (map_of ps n)"
proof (induction xs arbitrary: ps)
  case Nil
  then show ?case by (simp add: get_Nil advance_Nil)
next
  case (Cons x xs)
  have d: "drain (Suc (length (x # xs))) (x # xs) =
      bindE (advance (x # xs)) (\<lambda>(r, iter).
        case r of None \<Rightarrow> Inr [] | Some p \<Rightarrow> bindE (drain (Suc (length xs)) iter) (\<lambda>ps. Inr (p # ps)))"
    by (simp del: drain.simps(2) add: drain.simps(2) [of "Suc (length xs)"])
  from both [of x xs] show ?case
  proof (elim disjE exE conjE)
    assume "advance (x # xs) = Inl NULL_DEREF"
    with Cons.prems d show ?thesis by simp
  next
    fix k v
    assume k: "advance (x # xs) = Inr (Some (k, v), xs)"
      "\<forall>n. get (x # xs) n = (if k = n then Inr (Some v) else get xs n)"
    have "bindE (drain (Suc (length xs)) xs) (\<lambda>ps. Inr ((k, v) # ps)) = Inr ps"
      using Cons.prems unfolding d k(1) by (simp only: bindE_simps prod.case option.case)
    then obtain qs where "drain (Suc (length xs)) xs = Inr qs" "ps = (k, v) # qs"
      unfolding bindE_Inr_iff by blast
    with Cons.IH [of qs] k(2) show ?thesis by simp
  qed
qed

end

interpretation hdr: pair_list "law_hth_get A" "law_hth_next A" for A
  by unfold_locales (auto simp: law_hth_next_def split: list.splits)

interpretation qry: pair_list "law_uri_query_get A" "law_uri_query_next A" for A
  by unfold_locales (auto simp: law_uri_query_next_def split: list.splits)

text \<open>
  The lookup of a header agrees with the iterator: if the iterator runs through all headers,
  \<^verbatim>\<open>law_hth_get\<close> returns the value of the first pair with exactly that name, the empty string for a header
  without a value, and null if there is none. The comparison distinguishes upper and lower case.
\<close>

theorem headers_get_first:
  assumes "hdr.drain A (Suc (length hdrs)) hdrs = Inr ps"
  shows "length ps = length hdrs \<and> law_hth_get A hdrs name = Inr (map_of ps name)"
  by (rule hdr.get_drain [OF assms])

theorem headers_get_first_witness:
  "law_hth_get ref_ast [Node 0 [Leaf 0 ''Host'', Leaf 0 ''a''], Node 0 [Leaf 0 ''X'']] ''X'' = Inr (Some []) \<and>
   law_hth_get ref_ast [Node 0 [Leaf 0 ''Host'', Leaf 0 ''a''], Node 0 [Leaf 0 ''X'']] ''host'' = Inr None"
proof -
  have "hdr.drain ref_ast (Suc (length [Node 0 [Leaf 0 ''Host'', Leaf 0 ''a''], Node 0 [Leaf 0 ''X'']]))
      [Node 0 [Leaf 0 ''Host'', Leaf 0 ''a''], Node 0 [Leaf 0 ''X'']] = Inr [(''Host'', ''a''), (''X'', [])]"
    by (simp add: law_hth_next_def ref_ast_def)
  from headers_get_first [OF this] show ?thesis by simp
qed

text \<open>
  The lookup in a URI's query agrees with its iterator in the same way, and
  \<^verbatim>\<open>law_uri_query_count\<close> is the number of pairs the iterator gives.
\<close>

theorem query_get_first:
  assumes "ast_spec A" and "qry.drain A (Suc (length query)) query = Inr ps"
  shows "law_uri_query_count A query = length ps \<and> law_uri_query_get A query name = Inr (map_of ps name)"
  using qry.get_drain [OF assms(2), of name] assms(1) by (simp add: law_uri_query_count_def ast_spec_def)

theorem query_get_first_witness:
  "law_uri_query_get ref_ast [Node 0 [Leaf 0 ''q'', Leaf 0 ''1''], Node 0 [Leaf 0 ''q'', Leaf 0 ''2'']] ''q''
     = Inr (Some ''1'')"
proof -
  have "qry.drain ref_ast (Suc (length [Node 0 [Leaf 0 ''q'', Leaf 0 ''1''], Node 0 [Leaf 0 ''q'', Leaf 0 ''2'']]))
      [Node 0 [Leaf 0 ''q'', Leaf 0 ''1''], Node 0 [Leaf 0 ''q'', Leaf 0 ''2'']] = Inr [(''q'', ''1''), (''q'', ''2'')]"
    by (simp add: law_uri_query_next_def ref_ast_def)
  from query_get_first [OF ref_ast_spec this] show ?thesis by simp
qed

text \<open>
  \<^verbatim>\<open>law_uri_path_at\<close> counts from the left for an index that is not negative and from
  the right for a negative one, as documented, and any other index reads through a null pointer.
\<close>

theorem uri_path_at_index:
  assumes "ast_spec A" and "up_count path = length (up_list path)" and "length (up_list path) < 2 ^ 63"
    and "- (2 ^ 63) \<le> index" and "index < 2 ^ 63"
  shows "law_uri_path_at A path index =
    (let n = int (length (up_list path)); i = (if index < 0 then n + index else index)
     in if 0 \<le> i \<and> i < n then Inr (a_tostr A (up_list path ! nat i)) else Inl NULL_DEREF)"
proof -
  let ?n = "int (length (up_list path))"
  let ?i = "if index < 0 then ?n + index else index"
  have n: "?n < 2 ^ 63" using assms(3) by simp
  have at: "law_uri_path_at A path index =
      (if nat (?i mod 2 ^ 64) < length (up_list path)
       then Inr (a_tostr A (up_list path ! nat (?i mod 2 ^ 64))) else Inl NULL_DEREF)"
    using assms(1,2) by (simp add: law_uri_path_at_def ast_spec_def Let_def)
  show ?thesis
  proof (cases "0 \<le> ?i")
    case True
    then have "?i mod 2 ^ 64 = ?i"
      using n assms(5) by (intro mod_pos_pos_trivial) (cases "index < 0"; simp)+
    with at True show ?thesis by (simp only: Let_def nat_less_iff simp_thms if_True)
  next
    case False
    have "?i mod 2 ^ 64 = (?i + 2 ^ 64) mod 2 ^ 64" by simp
    also have "\<dots> = ?i + 2 ^ 64" using False n assms(4) by (intro mod_pos_pos_trivial) (cases "index < 0"; simp)+
    finally have m: "?i mod 2 ^ 64 = ?i + 2 ^ 64" .
    have "\<not> nat (?i + 2 ^ 64) < length (up_list path)" using False n assms(4) by (cases "index < 0") simp_all
    with at m False show ?thesis by (simp only: Let_def simp_thms if_False)
  qed
qed

theorem uri_path_at_index_witness:
  "law_uri_path_at ref_ast \<lparr>up_list = [Leaf 7 ''a'', Leaf 7 ''b''], up_count = 2\<rparr> (- 1) = Inr ''b'' \<and>
   law_uri_path_at ref_ast \<lparr>up_list = [Leaf 7 ''a'', Leaf 7 ''b''], up_count = 2\<rparr> 2 = Inl NULL_DEREF"
  using uri_path_at_index [OF ref_ast_spec, of "\<lparr>up_list = [Leaf 7 ''a'', Leaf 7 ''b''], up_count = 2\<rparr>" "- 1"]
    uri_path_at_index [OF ref_ast_spec, of "\<lparr>up_list = [Leaf 7 ''a'', Leaf 7 ''b''], up_count = 2\<rparr>" 2]
  by (simp add: ref_ast_def)

section \<open>Printing a URI\<close>

text \<open>The text of a URI as the two functions print it; the port is not in it.\<close>

definition uri_text :: "law_uri \<Rightarrow> string" where
  "uri_text uri =
     (case u_scheme uri of None \<Rightarrow> [] | Some t \<Rightarrow> t @ ''://'') @ (case u_host uri of None \<Rightarrow> [] | Some t \<Rightarrow> t) @
     (case u_path uri of None \<Rightarrow> [] | Some t \<Rightarrow> t) @ (case u_query uri of None \<Rightarrow> [] | Some t \<Rightarrow> ''?'' @ t)"

text \<open>Of a text that is to be printed, a front part was, all of it if there was no error.\<close>

definition printed ::
  "('s \<Rightarrow> bool) \<Rightarrow> ('s \<Rightarrow> string \<Rightarrow> 's \<Rightarrow> bool) \<Rightarrow> string \<Rightarrow> 's \<Rightarrow> sel_err_t \<times> 's \<Rightarrow> bool" where
  "printed good got txt s r \<longleftrightarrow>
     (\<exists>t u. txt = t @ u \<and> good (snd r) \<and> got s t (snd r) \<and> (fst r = LAW_ERR_OK \<longrightarrow> u = []))"

text \<open>
  Something to print to: \<open>got s t s'\<close> says that from \<open>s\<close> to \<open>s'\<close> the text
  \<open>t\<close> was added. A printing call adds its text, or fails and adds nothing.
\<close>

locale text_sink =
  fixes out :: "string \<Rightarrow> 's \<Rightarrow> sel_err_t \<times> 's"
    and good :: "'s \<Rightarrow> bool"
    and got :: "'s \<Rightarrow> string \<Rightarrow> 's \<Rightarrow> bool"
  assumes out_cases: "good s \<Longrightarrow> \<exists>e s'. out t s = (e, s') \<and> good s' \<and> got s (if e = LAW_ERR_OK then t else []) s'"
    and got_none: "got s [] s"
    and got_trans: "got a t b \<Longrightarrow> got b u c \<Longrightarrow> got a (t @ u) c"
begin

lemma printed_part:
  assumes "good s"
  shows "printed good got (case x of None \<Rightarrow> [] | Some t \<Rightarrow> before @ t @ after) s (print_part out before x after s)"
proof (cases x)
  case None
  with assms got_none show ?thesis by (simp add: printed_def print_part_def)
next
  case (Some t)
  from out_cases [OF assms, of "before @ t @ after"] obtain e s' where
    "out (before @ t @ after) s = (e, s')" "good s'"
    "got s (if e = LAW_ERR_OK then before @ t @ after else []) s'" by blast
  with Some show ?thesis by (cases "e = LAW_ERR_OK") (auto simp: printed_def print_part_def)
qed

lemma printed_next:
  assumes "printed good got txt s r" and "\<And>s'. good s' \<Longrightarrow> printed good got txt' s' (f s')"
  shows "printed good got (txt @ txt') s (try_next r f)"
proof (cases r)
  case (Pair e s')
  with assms(1) obtain t u where t: "txt = t @ u" "good s'" "got s t s'" "e = LAW_ERR_OK \<longrightarrow> u = []"
    by (auto simp: printed_def)
  show ?thesis
  proof (cases "e = LAW_ERR_OK")
    case False
    with t Pair show ?thesis by (auto simp: printed_def try_next_def)
  next
    case True
    from assms(2) [OF t(2)] obtain t' u' where "txt' = t' @ u'" "good (snd (f s'))" "got s' t' (snd (f s'))"
      "fst (f s') = LAW_ERR_OK \<longrightarrow> u' = []" by (auto simp: printed_def)
    with True t Pair got_trans [OF t(3)] show ?thesis
      unfolding printed_def try_next_def by (intro exI [of _ "t @ t'"] exI [of _ u']) simp
  qed
qed

lemma printed_uri:
  assumes "good s"
  shows "printed good got (uri_text uri) s
    (try_next (print_part out [] (u_scheme uri) ''://'' s) (\<lambda>s.
     try_next (print_part out [] (u_host uri) [] s) (\<lambda>s.
     try_next (print_part out [] (u_path uri) [] s) (\<lambda>s.
     print_part out ''?'' (u_query uri) [] s))))"
proof -
  have p: "printed good got (case x of None \<Rightarrow> [] | Some t \<Rightarrow> t) s (print_part out [] x [] s)" if "good s" for x s
    using printed_part [OF that, where x = x and before = "[]" and after = "[]"] by (simp only: append_Nil append_Nil2)
  have q: "printed good got (case x of None \<Rightarrow> [] | Some t \<Rightarrow> t @ u) s (print_part out [] x u s)" if "good s" for x s u
    using printed_part [OF that, where x = x and before = "[]" and after = u] by (simp only: append_Nil append_Nil2)
  have r: "printed good got (case x of None \<Rightarrow> [] | Some t \<Rightarrow> b @ t) s (print_part out b x [] s)" if "good s" for x s b
    using printed_part [OF that, where x = x and before = b and after = "[]"] by (simp only: append_Nil append_Nil2)
  show ?thesis unfolding uri_text_def by (intro printed_next p q r assms)
qed

end

interpretation bsk: text_sink "pgc_buf_printf P" "\<lambda>b. pgc_spec P str ok \<and> ok b"
  "\<lambda>b t b'. str b' = str b @ text_bytes t" for P str ok
proof
  fix b t
  assume b: "pgc_spec P str ok \<and> ok b"
  then have "pgc_copy_spec P str ok" by (simp add: pgc_spec_def)
  with b have "if b_end P b - b_tell P b + length (text_bytes t) \<le> b_max P b
         then \<exists>b'. b_put P (text_bytes t) b = (LAW_ERR_OK, b') \<and> appended P str ok b (text_bytes t) b'
         else b_put P (text_bytes t) b = (LAW_ERR_OOB, b)"
    unfolding pgc_copy_spec_def by blast
  with b show "\<exists>e b'. pgc_buf_printf P t b = (e, b') \<and> (pgc_spec P str ok \<and> ok b') \<and>
      str b' = str b @ text_bytes (if e = LAW_ERR_OK then t else [])"
    by (auto simp: pgc_buf_printf_def appended_def text_bytes_def split: if_splits)
qed (simp_all add: text_bytes_def)

interpretation fsk: text_sink stream_printf "\<lambda>_. True" "\<lambda>f t f'. st_out f' = st_out f @ t"
  by unfold_locales (auto simp: stream_printf_def fprintf_def split: list.splits bool.splits)

text \<open>
  C39: \<^verbatim>\<open>law_uri_bprint\<close> and \<^verbatim>\<open>law_uri_fprint\<close> print the same text, the
  scheme, the host, the path and the query with their separators: all of it when they return
  \<open>LAW_ERR_OK\<close>, otherwise a front part of it. Two URIs that differ in the port only are printed alike.
\<close>

theorem uri_print_text:
  assumes "pgc_spec P str ok" and "ok b"
  shows "\<exists>t u t' u'. str (snd (law_uri_bprint P uri b)) = str b @ text_bytes t \<and> uri_text uri = t @ u \<and>
           (fst (law_uri_bprint P uri b) = LAW_ERR_OK \<longrightarrow> u = []) \<and>
           st_out (snd (law_uri_fprint uri f)) = st_out f @ t' \<and> uri_text uri = t' @ u' \<and>
           (fst (law_uri_fprint uri f) = LAW_ERR_OK \<longrightarrow> u' = []) \<and>
           law_uri_bprint P (uri\<lparr>u_port := port\<rparr>) b = law_uri_bprint P uri b"
proof -
  have "printed (\<lambda>b. pgc_spec P str ok \<and> ok b) (\<lambda>b t b'. str b' = str b @ text_bytes t) (uri_text uri) b (law_uri_bprint P uri b)"
    using bsk.printed_uri [of P str ok b uri] assms by (simp add: law_uri_bprint_def Let_def)
  moreover have "printed (\<lambda>_. True) (\<lambda>f t f'. st_out f' = st_out f @ t) (uri_text uri) f (law_uri_fprint uri f)"
    using fsk.printed_uri [of uri f] by (simp add: law_uri_fprint_def)
  moreover have "law_uri_bprint P (uri\<lparr>u_port := port\<rparr>) b = law_uri_bprint P uri b"
    by (simp add: law_uri_bprint_def)
  ultimately show ?thesis by (auto simp: printed_def)
qed

definition demo_uri :: law_uri where
  "demo_uri = \<lparr>u_scheme = Some ''http'', u_host = Some ''h'', u_port = Some ''80'', u_path = Some ''/'', u_query = None\<rparr>"

theorem uri_print_text_witness:
  "\<exists>t u. rb_str (snd (law_uri_bprint ref_pgc demo_uri \<lparr>rb_str = [], rb_tell = 0, rb_max = 64\<rparr>)) = text_bytes t \<and>
     ''http://h/'' = t @ u"
proof -
  have "rb_ok \<lparr>rb_str = [], rb_tell = 0, rb_max = 64\<rparr>" by (simp add: rb_ok_def)
  from uri_print_text [OF ref_pgc_spec this, of demo_uri "\<lparr>st_out = [], st_fail = []\<rparr>" None]
  show ?thesis by (auto simp: uri_text_def demo_uri_def)
qed

text \<open>The text of the last node of a kind.\<close>

definition last_part :: "'a ast_ops \<Rightarrow> nat \<Rightarrow> 'a list \<Rightarrow> string option" where
  "last_part A t xs =
     (case filter (\<lambda>x. a_typeof A x = t) xs of [] \<Rightarrow> None | ys \<Rightarrow> Some (a_tostr A (last ys)))"

definition or_else :: "'a option \<Rightarrow> 'a option \<Rightarrow> 'a option" where
  "or_else x y = (case x of None \<Rightarrow> y | Some _ \<Rightarrow> x)"

lemma last_part_Nil: "last_part A t [] = None"
  by (simp add: last_part_def)

lemma last_part_Cons: "last_part A t (x # xs) =
    or_else (last_part A t xs) (if a_typeof A x = t then Some (a_tostr A x) else None)"
  by (auto simp: last_part_def or_else_def split: list.splits)

lemma or_else_None [simp]: "or_else x None = x" "or_else None y = y"
  by (auto simp: or_else_def split: option.splits)

lemma or_else_assoc: "or_else (or_else x y) z = or_else x (or_else y z)"
  by (auto simp: or_else_def split: option.splits)

lemma or_else_Some [simp]: "or_else (Some v) y = Some v"
  by (simp add: or_else_def)

lemmas uri_tags = LAW_URI_SCHEME_def LAW_URI_HOST_def LAW_URI_PORT_def LAW_URI_PATH_def LAW_URI_QUERY_def

lemma uri_parts_last:
  assumes "\<forall>x \<in> set xs. a_typeof A x < 5"
  shows "uri_parts A xs uri = Inr
    \<lparr>u_scheme = or_else (last_part A 0 xs) (u_scheme uri), u_host = or_else (last_part A 1 xs) (u_host uri),
     u_port = or_else (last_part A 2 xs) (u_port uri), u_path = or_else (last_part A 3 xs) (u_path uri),
     u_query = or_else (last_part A 4 xs) (u_query uri)\<rparr>"
  using assms
proof (induction xs arbitrary: uri)
  case Nil
  then show ?case by (simp add: last_part_Nil)
next
  case (Cons x xs)
  from Cons.prems have "a_typeof A x \<in> {0, 1, 2, 3, 4}" by auto
  then have "uri_part A x uri = Inr
    \<lparr>u_scheme = or_else (if a_typeof A x = 0 then Some (a_tostr A x) else None) (u_scheme uri),
     u_host = or_else (if a_typeof A x = 1 then Some (a_tostr A x) else None) (u_host uri),
     u_port = or_else (if a_typeof A x = 2 then Some (a_tostr A x) else None) (u_port uri),
     u_path = or_else (if a_typeof A x = 3 then Some (a_tostr A x) else None) (u_path uri),
     u_query = or_else (if a_typeof A x = 4 then Some (a_tostr A x) else None) (u_query uri)\<rparr>"
    by (auto simp: uri_part_def uri_tags Let_def)
  with Cons show ?case by (simp add: last_part_Cons or_else_assoc)
qed

lemma uri_parts_halt:
  assumes "\<exists>x \<in> set xs. \<not> a_typeof A x < 5"
  shows "uri_parts A xs uri = Inl SEL_HALT"
  using assms
proof (induction xs arbitrary: uri)
  case (Cons x xs)
  show ?case
  proof (cases "a_typeof A x < 5")
    case True
    then have "a_typeof A x \<in> {0, 1, 2, 3, 4}" by auto
    then have "\<exists>v. uri_part A x uri = Inr v" by (auto simp: uri_part_def uri_tags Let_def)
    with True Cons show ?thesis by auto
  next
    case False
    then have "uri_part A x uri = Inl SEL_HALT" by (auto simp: uri_part_def uri_tags Let_def)
    then show ?thesis by simp
  qed
qed simp

text \<open>
  \<^verbatim>\<open>law_uri_from_ast\<close> takes each part from the last node of its kind, leaves a part
  without a node null, and stops the process at a node of any other kind.
\<close>

theorem uri_from_ast_parts:
  "law_uri_from_ast A xs =
     (if \<forall>x \<in> set xs. a_typeof A x < 5
      then Inr \<lparr>u_scheme = last_part A LAW_URI_SCHEME xs, u_host = last_part A LAW_URI_HOST xs,
        u_port = last_part A LAW_URI_PORT xs, u_path = last_part A LAW_URI_PATH xs,
        u_query = last_part A LAW_URI_QUERY xs\<rparr>
      else Inl SEL_HALT)"
  using uri_parts_last [of xs A] uri_parts_halt [of xs A] by (auto simp: law_uri_from_ast_def uri_tags)

theorem uri_from_ast_parts_witness:
  "law_uri_from_ast ref_ast [Leaf 1 ''h'', Leaf 3 ''/a'', Leaf 3 ''/b''] = Inr
     \<lparr>u_scheme = None, u_host = Some ''h'', u_port = None, u_path = Some ''/b'', u_query = None\<rparr> \<and>
   law_uri_from_ast ref_ast [Leaf 5 ''t''] = Inl SEL_HALT"
  using uri_from_ast_parts [of ref_ast "[Leaf 1 ''h'', Leaf 3 ''/a'', Leaf 3 ''/b'']"]
    uri_from_ast_parts [of ref_ast "[Leaf 5 ''t'']"]
  by (simp add: ref_ast_def last_part_def uri_tags)

end
