(* ===== verification/HttpRequest.thy ===== *)
theory HttpRequest
  imports Sync Ast
begin

text \<open>
  Reading a request and answering it: the first half of \<^verbatim>\<open>http_server.c\<close>. The grammars of
  the request line and the headers are pgenc parsers, built by pgenc's combinators: running one is a
  parameter of the model, which gets the bytes and the request's stack and heap, and gives an error
  code, a list of nodes and the number of bytes it has read.
\<close>

section \<open>Requests\<close>

record law_hts_reqline =
  rl_method :: "string option"
  rl_target :: law_uri
  rl_version :: "string option"

definition no_uri :: law_uri where
  "no_uri = \<lparr>u_scheme = None, u_host = None, u_port = None, u_path = None, u_query = None\<rparr>"

definition no_reqline :: law_hts_reqline where
  "no_reqline = \<lparr>rl_method = None, rl_target = no_uri, rl_version = None\<rparr>"

type_synonym ('a, 'k) lang = "u8 list \<Rightarrow> 'k \<Rightarrow> (sel_err_t \<times> 'a list \<times> nat) \<times> 'k"

text \<open>The parsers \<^verbatim>\<open>law_htp_request_line\<close> and \<^verbatim>\<open>law_htp_headers\<close>.\<close>

record ('a, 'k) htp =
  hp_ast :: "'a ast_ops"
  hp_reqline :: "('a, 'k) lang"
  hp_headers :: "('a, 'k) lang"

text \<open>
  A request: its connection, in a task; the parsers' stack and heap; and what the handler's variables
  \<^verbatim>\<open>reqline\<close> and \<^verbatim>\<open>headers\<close> hold.
\<close>

record ('b, 'w, 'a, 'k) req_st = "('b, 'w) task_st" +
  rq_mem :: 'k
  rq_line :: law_hts_reqline
  rq_headers :: "'a list"

definition HTS_PUSH ::
  "sel_err_t \<Rightarrow> string \<Rightarrow> string \<Rightarrow> int \<Rightarrow> ('b, 'w, 'z) conn_st_scheme \<Rightarrow>
   (sel_err_t \<times> ('b, 'w, 'z) conn_st_scheme) run" where
  "HTS_PUSH type action func line s =
     bindE (law_err_push type action ''source/lawd/http_server.c'' func line (cs_errs s))
       (\<lambda>(e, es). Inr (e, s\<lparr>cs_errs := es\<rparr>))"

text \<open>\<^verbatim>\<open>pgc_buf_lens\<close>: the bytes of the view are those a read would give.\<close>

definition pgc_buf_lens :: "('b, 'w) pgc \<Rightarrow> nat \<Rightarrow> 'b \<Rightarrow> u8 list" where
  "pgc_buf_lens P n b = (case b_get P n b of (_, bs, _) \<Rightarrow> bs)"

section \<open>Reading\<close>

text \<open>The part after the delimiter was found, with the offset behind it.\<close>

definition parse_found ::
  "('b, 'w) conn_lib \<Rightarrow> ('a, 'k) lang \<Rightarrow> nat \<Rightarrow> ('b, 'w, 'a, 'k, 'z) req_st_scheme \<Rightarrow>
   (sel_err_t \<times> 'a list \<times> ('b, 'w, 'a, 'k, 'z) req_st_scheme) run" where
  "parse_found C parser base s =
     (let P = cl_buf C; end_at = b_tell P (cs_in s);
          push = \<lambda>type action line s.
            bindE (HTS_PUSH type action ''law_hts_read_scan_parse'' line s) (\<lambda>(e, s). Inr (e, [], s))
      in case b_seek P base (cs_in s) of
        (e, b) \<Rightarrow>
          require SEL_TEST (e = LAW_ERR_OK)
           (let s = set_in b s; lens = pgc_buf_lens P (end_at - base) (cs_in s) in
            case parser lens (rq_mem s) of
              ((e, list, used), m) \<Rightarrow>
                let s = s\<lparr>rq_mem := m\<rparr> in
                if e = LAW_ERR_OOM then push LAW_ERR_OOM ''pgc_lang_parse_ex'' 92 s
                else if e \<noteq> LAW_ERR_OK then push LAW_ERR_SYN ''pgc_lang_parse_ex'' 94 s
                else if used \<noteq> length lens then
                  bindE (HTS_PUSH LAW_ERR_SYN ''parse_incomplete'' ''law_hts_read_scan_parse'' 98 s)
                    (\<lambda>(e, s). Inr (e, list, s))
                else
                  case b_seek P end_at (cs_in s) of
                    (e, b) \<Rightarrow> require SEL_TEST (e = LAW_ERR_OK) (Inr (LAW_ERR_OK, list, set_in b s))))"

definition law_hts_read_scan_parse ::
  "('b, 'w) conn_lib \<Rightarrow> ('a, 'k) lang \<Rightarrow> nat \<Rightarrow> u8 list \<Rightarrow> ('b, 'w, 'a, 'k, 'z) req_st_scheme \<Rightarrow>
   (sel_err_t \<times> 'a list \<times> ('b, 'w, 'a, 'k, 'z) req_st_scheme) run" where
  "law_hts_read_scan_parse C parser base delim s =
     (let P = cl_buf C; maximum = b_max P (cs_in s);
          push = \<lambda>type action line s.
            bindE (HTS_PUSH type action ''law_hts_read_scan_parse'' line s) (\<lambda>(e, s). Inr (e, [], s))
      in require SEL_ASSERT (base \<le> b_end P (cs_in s))
          (bindE (law_err_clear (cs_errs s)) (\<lambda>es.
             let s = s\<lparr>cs_errs := es\<rparr> in
             if maximum < b_end P (cs_in s) - base then push LAW_ERR_OOB ''early_out_check'' 61 s
             else
               bindE (law_htc_read_scan C base delim s) (\<lambda>(err, s).
                 if err = LAW_ERR_OK then parse_found C parser base s
                 else if err = LAW_ERR_WANTR \<or> err = LAW_ERR_WANTW then Inr (err, [], s)
                 else push err ''law_htc_read_scan'' 72 s))))"

text \<open>Each element of the list is read through a pointer that is null where there is none.\<close>

definition node_at :: "'a ast_ops \<Rightarrow> 'a list \<Rightarrow> nat \<Rightarrow> 'a run" where
  "node_at A list n = (case a_at A list n of None \<Rightarrow> Inl NULL_DEREF | Some x \<Rightarrow> Inr x)"

definition reqline_of :: "'a ast_ops \<Rightarrow> 'a list \<Rightarrow> law_hts_reqline run" where
  "reqline_of A list =
     bindE (node_at A list 0) (\<lambda>m.
     bindE (node_at A list 1) (\<lambda>t.
     bindE (law_uri_from_ast A (a_tolst A t)) (\<lambda>uri.
     bindE (node_at A list 2) (\<lambda>v.
       Inr \<lparr>rl_method = Some (a_tostr A m), rl_target = uri, rl_version = Some (a_tostr A v)\<rparr>))))"

definition law_hts_read_reqline ::
  "('b, 'w) conn_lib \<Rightarrow> ('a, 'k) htp \<Rightarrow> nat \<Rightarrow> ('b, 'w, 'a, 'k, 'z) req_st_scheme \<Rightarrow>
   (sel_err_t \<times> ('b, 'w, 'a, 'k, 'z) req_st_scheme) run" where
  "law_hts_read_reqline C H base s =
     bindE (law_hts_read_scan_parse C (hp_reqline H) base [13, 10] s) (\<lambda>(err, list, s).
       if err \<noteq> LAW_ERR_OK then Inr (err, s)
       else bindE (reqline_of (hp_ast H) list) (\<lambda>line. Inr (LAW_ERR_OK, s\<lparr>rq_line := line\<rparr>)))"

definition law_hts_read_reqline_cb ::
  "('b, 'w) conn_lib \<Rightarrow> ('a, 'k) htp \<Rightarrow> nat \<Rightarrow> ('b, 'w, 'a, 'k, 'z) req_st_scheme \<Rightarrow>
   (sel_err_t \<times> ('b, 'w, 'a, 'k, 'z) req_st_scheme) run" where
  "law_hts_read_reqline_cb = law_hts_read_reqline"

definition law_hts_read_reqline_sync ::
  "('b, 'w) conn_lib \<Rightarrow> ('a, 'k) htp \<Rightarrow> ('b, 'w, 'a, 'k, 'z) req_st_scheme sync_env \<Rightarrow> law_time_t \<Rightarrow> nat \<Rightarrow>
   ('b, 'w, 'a, 'k, 'z) req_st_scheme \<Rightarrow> (sel_err_t \<times> ('b, 'w, 'a, 'k, 'z) req_st_scheme) run" where
  "law_hts_read_reqline_sync C H V timeout base s =
     law_sync V (sync_fuel timeout) timeout (law_hts_read_reqline_cb C H base) (hc_socket (cs_conn s)) s"

text \<open>The headers are null before the parser runs, and stay so where it fails.\<close>

definition law_hts_read_headers ::
  "('b, 'w) conn_lib \<Rightarrow> ('a, 'k) htp \<Rightarrow> nat \<Rightarrow> ('b, 'w, 'a, 'k, 'z) req_st_scheme \<Rightarrow>
   (sel_err_t \<times> ('b, 'w, 'a, 'k, 'z) req_st_scheme) run" where
  "law_hts_read_headers C H base s =
     bindE (law_hts_read_scan_parse C (hp_headers H) base [13, 10, 13, 10] s) (\<lambda>(err, list, s).
       Inr (err, s\<lparr>rq_headers := list\<rparr>))"

definition law_hts_read_headers_cb ::
  "('b, 'w) conn_lib \<Rightarrow> ('a, 'k) htp \<Rightarrow> nat \<Rightarrow> ('b, 'w, 'a, 'k, 'z) req_st_scheme \<Rightarrow>
   (sel_err_t \<times> ('b, 'w, 'a, 'k, 'z) req_st_scheme) run" where
  "law_hts_read_headers_cb = law_hts_read_headers"

definition law_hts_read_headers_sync ::
  "('b, 'w) conn_lib \<Rightarrow> ('a, 'k) htp \<Rightarrow> ('b, 'w, 'a, 'k, 'z) req_st_scheme sync_env \<Rightarrow> law_time_t \<Rightarrow> nat \<Rightarrow>
   ('b, 'w, 'a, 'k, 'z) req_st_scheme \<Rightarrow> (sel_err_t \<times> ('b, 'w, 'a, 'k, 'z) req_st_scheme) run" where
  "law_hts_read_headers_sync C H V timeout base s =
     law_sync V (sync_fuel timeout) timeout (law_hts_read_headers_cb C H base) (hc_socket (cs_conn s)) s"

section \<open>Answering\<close>

definition law_hts_set_status ::
  "('b, 'w) conn_lib \<Rightarrow> string \<Rightarrow> int \<Rightarrow> string \<Rightarrow> ('b, 'w, 'z) conn_st_scheme \<Rightarrow>
   sel_err_t \<times> ('b, 'w, 'z) conn_st_scheme" where
  "law_hts_set_status C version status reason s =
     (case pgc_buf_printf (cl_buf C) (version @ '' '' @ show_int status @ '' '' @ reason @ CRLF) (cs_out s) of
        (e, b) \<Rightarrow> (e, set_out b s))"

definition law_hts_add_header ::
  "('b, 'w) conn_lib \<Rightarrow> string \<Rightarrow> string \<Rightarrow> ('b, 'w, 'z) conn_st_scheme \<Rightarrow>
   sel_err_t \<times> ('b, 'w, 'z) conn_st_scheme" where
  "law_hts_add_header C name value s =
     (case pgc_buf_printf (cl_buf C) (name @ '': '' @ value @ CRLF) (cs_out s) of (e, b) \<Rightarrow> (e, set_out b s))"

definition law_hts_begin_body ::
  "('b, 'w) conn_lib \<Rightarrow> ('b, 'w, 'z) conn_st_scheme \<Rightarrow> sel_err_t \<times> ('b, 'w, 'z) conn_st_scheme" where
  "law_hts_begin_body C s = (case b_put (cl_buf C) [13, 10] (cs_out s) of (e, b) \<Rightarrow> (e, set_out b s))"

section \<open>What the reading calls give\<close>

text \<open>
  \<open>scan_inv\<close> holds between the calls that look for the same delimiter from the same base;
  \<open>parsed\<close> holds after the last one: the offset is behind the first delimiter, and the parser
  took all the bytes from the base up to there and gave the list.
\<close>

definition scan_inv where
  "scan_inv C str ok rx tx S T base delim s \<longleftrightarrow>
     conn_lib_ok C str ok rx tx \<and> conn_inv C str ok rx tx S T s \<and> base \<le> b_tell (cl_buf C) (cs_in s) \<and>
     b_end (cl_buf C) (cs_in s) - base \<le> b_max (cl_buf C) (cs_in s) \<and>
     length delim \<le> b_max (cl_buf C) (cs_in s) \<and> scanned C str base delim s"

definition parsed where
  "parsed C str parser base delim list s \<longleftrightarrow>
     (\<exists>p \<ge> base. occurs_at delim (str (cs_in s)) p) \<and>
     b_tell (cl_buf C) (cs_in s) = (LEAST p. base \<le> p \<and> occurs_at delim (str (cs_in s)) p) + length delim \<and>
     (\<exists>m m'. parser (take (b_tell (cl_buf C) (cs_in s) - base) (drop base (str (cs_in s)))) m =
        ((LAW_ERR_OK, list, b_tell (cl_buf C) (cs_in s) - base), m'))"

lemma parsed_upd [simp]:
  "parsed C str parser base delim list (s\<lparr>rq_line := l\<rparr>) \<longleftrightarrow> parsed C str parser base delim list s"
  "parsed C str parser base delim list (s\<lparr>rq_headers := hs\<rparr>) \<longleftrightarrow> parsed C str parser base delim list s"
  by (simp_all add: parsed_def)

lemma HTS_PUSH_inv:
  assumes "conn_inv C str ok rx tx S T s"
  obtains es where "HTS_PUSH e action func line s = Inr (e, s\<lparr>cs_errs := es\<rparr>)"
    and "conn_inv C str ok rx tx S T (s\<lparr>cs_errs := es\<rparr>)"
proof -
  obtain es where "law_err_push e action ''source/lawd/http_server.c'' func line (cs_errs s) = Inr (e, es)"
    and "err_inv es"
    using law_err_push_ok [OF conn_invD(4) [OF assms]] by blast
  with assms that [of es] show thesis
    by (simp add: HTS_PUSH_def conn_inv_def mode_ok_def)
qed

lemma conn_inv_mem [simp]:
  "conn_inv C str ok rx tx S T (s\<lparr>rq_mem := m\<rparr>) \<longleftrightarrow> conn_inv C str ok rx tx S T s"
  "conn_inv C str ok rx tx S T (s\<lparr>rq_line := l\<rparr>) \<longleftrightarrow> conn_inv C str ok rx tx S T s"
  "conn_inv C str ok rx tx S T (s\<lparr>rq_headers := hs\<rparr>) \<longleftrightarrow> conn_inv C str ok rx tx S T s"
  by (simp_all add: conn_inv_def mode_ok_def)

text \<open>
  A function that does not see the input buffer, the outside and the error stack has the same value
  after a read as before: the clock, for instance, or the descriptors.
\<close>

definition in_blind :: "(('b, 'w, 'z) conn_st_scheme \<Rightarrow> 'v) \<Rightarrow> bool" where
  "in_blind g \<longleftrightarrow>
     (\<forall>s b. g (set_in b s) = g s) \<and> (\<forall>s w. g (s\<lparr>cs_net := w\<rparr>) = g s) \<and> (\<forall>s es. g (s\<lparr>cs_errs := es\<rparr>) = g s)"

lemma in_blindD:
  assumes "in_blind g"
  shows "g (set_in b s) = g s" and "g (s\<lparr>cs_net := w\<rparr>) = g s" and "g (s\<lparr>cs_errs := es\<rparr>) = g s"
    and "g ((set_in b s)\<lparr>cs_net := w\<rparr>) = g s"
  using assms by (simp_all add: in_blind_def)

lemma read_data_blind: "in_blind g \<Longrightarrow> law_htc_read_data C s = Inr (r, s') \<Longrightarrow> g s' = g s"
  by (auto simp: law_htc_read_data_def Let_def in_blindD(4) simp del: set_in_net
      split: if_splits htc_security.splits prod.splits)

lemma CONN_PUSH_blind: "in_blind g \<Longrightarrow> CONN_PUSH e action func line s = Inr (r, s') \<Longrightarrow> g s' = g s"
  by (auto simp: CONN_PUSH_def bindE_Inr_iff in_blindD)

lemma scan_result_blind: "in_blind g \<Longrightarrow> scan_result C base delim r s = (e, s') \<Longrightarrow> g s' = g s"
  by (auto simp: scan_result_def Let_def in_blindD split: if_splits prod.splits)

lemma read_scan_blind:
  assumes g: "in_blind g"
  shows "law_htc_read_scan C base delim s = Inr (e, s') \<Longrightarrow> g s' = g s"
  by (auto simp: law_htc_read_scan_def Let_def case_prod_unfold require_Inr_iff bindE_Inr_iff in_blindD [OF g]
      dest!: CONN_PUSH_blind [OF g] read_data_blind [OF g] scan_result_blind [OF g] split: if_split_asm)

lemma set_in_now [simp]: "tk_now (set_in b s) = tk_now s"
  by (simp add: set_in_def)

lemma now_blind: "in_blind tk_now"
  by (simp add: in_blind_def)

lemma lens_bytes:
  assumes "pgc_spec P str ok" and "ok b" and "n \<le> b_end P b - b_tell P b"
  shows "pgc_buf_lens P n b = take n (drop (b_tell P b) (str b))"
  by (rule pgc_get [OF assms]) (simp add: pgc_buf_lens_def)

text \<open>What does not see the parsers' memory either.\<close>

definition mem_blind :: "(('b, 'w, 'a, 'k, 'z) req_st_scheme \<Rightarrow> 'v) \<Rightarrow> bool" where
  "mem_blind g \<longleftrightarrow> in_blind g \<and> (\<forall>s m. g (s\<lparr>rq_mem := m\<rparr>) = g s)"

lemma mem_blindD:
  assumes "mem_blind g"
  shows "in_blind g" and "g (s\<lparr>rq_mem := m\<rparr>) = g s" and "g (set_in b s) = g s" and "g (s\<lparr>cs_errs := es\<rparr>) = g s"
  using assms by (simp_all add: mem_blind_def in_blind_def)

lemma parse_found_result:
  fixes s :: "('b, 'w, 'a, 'k, 'z) req_st_scheme"
  assumes "conn_lib_ok C str ok rx tx" and "conn_inv C str ok rx tx S T s" and "base \<le> b_tell (cl_buf C) (cs_in s)"
    and "b_end (cl_buf C) (cs_in s) - base \<le> b_max (cl_buf C) (cs_in s)" and g: "mem_blind g"
  shows "\<exists>e list s'. parse_found C parser base s = Inr (e, list, s') \<and> conn_inv C str ok rx tx S T s' \<and>
           str (cs_in s') = str (cs_in s) \<and> b_max (cl_buf C) (cs_in s') = b_max (cl_buf C) (cs_in s) \<and>
           g s' = g s \<and>
           b_tell (cl_buf C) (cs_in s') = (if e = LAW_ERR_OK then b_tell (cl_buf C) (cs_in s) else base) \<and>
           (e = LAW_ERR_OK \<longrightarrow>
              (\<exists>m m'. parser (take (b_tell (cl_buf C) (cs_in s) - base) (drop base (str (cs_in s)))) m =
                 ((LAW_ERR_OK, list, b_tell (cl_buf C) (cs_in s) - base), m')))"
proof -
  let ?P = "cl_buf C" and ?t = "b_tell (cl_buf C) (cs_in s)"
  have P: "pgc_spec ?P str ok" using assms(1) by (simp add: conn_lib_ok_def)
  have i: "ok (cs_in s)" by (rule conn_invD(1) [OF assms(2)])
  note pos = pgc_pos [OF P i]
  obtain b1 where b1: "b_seek ?P base (cs_in s) = (LAW_ERR_OK, b1)" "moved ?P str ok (cs_in s) base b1"
    by (rule pgc_seek [OF P i, of base]) (use assms(3,4) pos in auto)
  have I1: "conn_inv C str ok rx tx S T (set_in b1 s)" by (rule seek_inv [OF assms(2) b1(2)])
  have ok1: "ok b1" using b1(2) by (simp add: moved_def)
  have e1: "b_end ?P b1 = b_end ?P (cs_in s)" using pgc_pos(3) [OF P ok1] pos(3) b1(2) by (simp add: moved_def)
  obtain b2 where b2: "b_seek ?P ?t b1 = (LAW_ERR_OK, b2)" "moved ?P str ok b1 ?t b2"
    by (rule pgc_seek [OF P ok1, of ?t]) (use pos b1(2) e1 in \<open>auto simp: moved_def\<close>)
  let ?bytes = "take (?t - base) (drop base (str (cs_in s)))"
  have l: "pgc_buf_lens ?P (?t - base) b1 = ?bytes"
    using lens_bytes [OF P ok1, of "?t - base"] b1(2) e1 pos(1) assms(3) by (simp add: moved_def)
  have len: "length ?bytes = ?t - base" using pos assms(3) by simp
  obtain e list used m where p: "parser ?bytes (rq_mem s) = ((e, list, used), m)"
    by (metis prod.exhaust)
  let ?s2 = "(set_in b1 s)\<lparr>rq_mem := m\<rparr>"
  have I2: "conn_inv C str ok rx tx S T ?s2" using I1 by simp
  have mem: "rq_mem (set_in b1 s) = rq_mem s" by (simp add: set_in_def)
  have push: "\<exists>es. HTS_PUSH e action func line ?s2 = Inr (e, ?s2\<lparr>cs_errs := es\<rparr>) \<and>
      conn_inv C str ok rx tx S T (?s2\<lparr>cs_errs := es\<rparr>)" for e action func line
    using HTS_PUSH_inv [OF I2] by metis
  have b: "str b1 = str (cs_in s)" "b_max ?P b1 = b_max ?P (cs_in s)" "b_tell ?P b1 = base"
    using b1(2) by (simp_all add: moved_def)
  consider "e = LAW_ERR_OOM" | "e \<noteq> LAW_ERR_OK" "e \<noteq> LAW_ERR_OOM" | "e = LAW_ERR_OK" "used \<noteq> ?t - base"
    | "e = LAW_ERR_OK" "used = ?t - base" by blast
  then show ?thesis
  proof cases
    case 1
    from push [of LAW_ERR_OOM "''pgc_lang_parse_ex''" "''law_hts_read_scan_parse''" 92] 1 b1(1) l p mem b
    show ?thesis by (auto simp: parse_found_def Let_def mem_blindD [OF g])
  next
    case 2
    from push [of LAW_ERR_SYN "''pgc_lang_parse_ex''" "''law_hts_read_scan_parse''" 94] 2 b1(1) l p mem b
    show ?thesis by (auto simp: parse_found_def Let_def mem_blindD [OF g])
  next
    case 3
    from push [of LAW_ERR_SYN "''parse_incomplete''" "''law_hts_read_scan_parse''" 98] 3 b1(1) l p mem b len
    show ?thesis by (auto simp: parse_found_def Let_def mem_blindD [OF g])
  next
    case 4
    have I3: "conn_inv C str ok rx tx S T (set_in b2 ?s2)" by (rule seek_inv [OF I2]) (use b2(2) in simp)
    have "parse_found C parser base s = Inr (LAW_ERR_OK, list, set_in b2 ?s2)"
      using 4 b1(1) b2(1) l p mem len by (simp add: parse_found_def Let_def)
    moreover have "g (set_in b2 ?s2) = g s" by (simp only: mem_blindD [OF g])
    ultimately show ?thesis using I3 b2(2) b p 4
      by (intro exI [of _ LAW_ERR_OK] exI [of _ list] exI [of _ "set_in b2 ?s2"]) (auto simp: moved_def)
  qed
qed

lemma scan_inv_errs: "scan_inv C str ok rx tx S T base delim s \<Longrightarrow> err_inv es \<Longrightarrow>
    scan_inv C str ok rx tx S T base delim (s\<lparr>cs_errs := es\<rparr>)"
  by (simp add: scan_inv_def conn_inv_def mode_ok_def scanned_def)

lemma scan_parse_result:
  fixes s :: "('b, 'w, 'a, 'k, 'z) req_st_scheme"
  assumes "scan_inv C str ok rx tx S T base delim s" and "delim \<noteq> []" and g: "mem_blind g"
  shows "\<exists>e list s'. law_hts_read_scan_parse C parser base delim s = Inr (e, list, s') \<and>
           conn_inv C str ok rx tx S T s' \<and> g s' = g s \<and>
           b_max (cl_buf C) (cs_in s') = b_max (cl_buf C) (cs_in s) \<and>
           (if e = LAW_ERR_OK then parsed C str parser base delim list s'
            else scan_inv C str ok rx tx S T base delim s')"
proof -
  let ?P = "cl_buf C"
  have I: "conn_lib_ok C str ok rx tx" "conn_inv C str ok rx tx S T s" "base \<le> b_tell ?P (cs_in s)"
    "b_end ?P (cs_in s) - base \<le> b_max ?P (cs_in s)"
    "length delim \<le> b_max ?P (cs_in s)" "scanned C str base delim s"
    using assms(1) by (simp_all add: scan_inv_def)
  have P: "pgc_spec ?P str ok" using I(1) by (simp add: conn_lib_ok_def)
  let ?es = "(cs_errs s)\<lparr>es_offset := 0\<rparr>"
  have es: "law_err_clear (cs_errs s) = Inr ?es" "err_inv ?es"
    using conn_invD(4) [OF I(2)] by (simp_all add: law_err_clear_def err_inv_def)
  let ?s1 = "s\<lparr>cs_errs := ?es\<rparr>"
  have I1: "scan_inv C str ok rx tx S T base delim ?s1" by (rule scan_inv_errs [OF assms(1) es(2)])
  then have J: "conn_inv C str ok rx tx S T ?s1" "scanned C str base delim ?s1" by (simp_all add: scan_inv_def)
  have c: "length delim \<le> b_max ?P (cs_in ?s1)" "base \<le> b_tell ?P (cs_in ?s1)"
    "b_end ?P (cs_in ?s1) - base \<le> b_max ?P (cs_in ?s1)"
    using I(3-5) by simp_all
  note full = read_scan_full [OF I(1) J(1) assms(2) c J(2)]
  obtain e s2 xs where r0: "law_htc_read_scan C base delim ?s1 = Inr (e, s2)" "conn_inv C str ok rx tx S T s2"
    "b_max ?P (cs_in s2) = b_max ?P (cs_in ?s1)" "base \<le> b_tell ?P (cs_in s2)"
    "b_end ?P (cs_in s2) - base \<le> b_max ?P (cs_in s2)"
    "if e = LAW_ERR_OK
            then (\<exists>p \<ge> base. occurs_at delim (str (cs_in s2)) p) \<and>
              b_tell ?P (cs_in s2) =
                (LEAST p. base \<le> p \<and> occurs_at delim (str (cs_in s2)) p) + length delim
            else scanned C str base delim s2 \<and>
              (e \<in> {LAW_ERR_WANTR, LAW_ERR_WANTW, LAW_ERR_EOF, LAW_ERR_OOB} \<longrightarrow>
                 (\<forall>p \<ge> base. \<not> occurs_at delim (str (cs_in s2)) p))"
    using full by (elim exE conjE) (rule that)
  have r: "law_htc_read_scan C base delim ?s1 = Inr (e, s2)" "conn_inv C str ok rx tx S T s2"
    "b_max ?P (cs_in s2) = b_max ?P (cs_in s)" "base \<le> b_tell ?P (cs_in s2)"
    "b_end ?P (cs_in s2) - base \<le> b_max ?P (cs_in s2)"
    using r0 by simp_all
  have d: "if e = LAW_ERR_OK
            then (\<exists>p \<ge> base. occurs_at delim (str (cs_in s2)) p) \<and>
              b_tell ?P (cs_in s2) =
                (LEAST p. base \<le> p \<and> occurs_at delim (str (cs_in s2)) p) + length delim
            else scanned C str base delim s2"
    using r0(6) by (simp split: if_splits)
  have now: "g s2 = g s" using read_scan_blind [OF mem_blindD(1) [OF g] r(1)] mem_blindD(4) [OF g] by metis
  have "base \<le> b_end ?P (cs_in s)" using I(3) pgc_pos(1) [OF P conn_invD(1) [OF I(2)]] by simp
  then have f: "law_hts_read_scan_parse C parser base delim s =
      (if e = LAW_ERR_OK then parse_found C parser base s2
       else if e = LAW_ERR_WANTR \<or> e = LAW_ERR_WANTW then Inr (e, [], s2)
       else bindE (HTS_PUSH e ''law_htc_read_scan'' ''law_hts_read_scan_parse'' 72 s2) (\<lambda>(e, s). Inr (e, [], s)))"
    using es(1) r(1) I(4) by (simp add: law_hts_read_scan_parse_def Let_def)
  show ?thesis
  proof (cases "e = LAW_ERR_OK")
    case True
    obtain e' list s3 where p: "parse_found C parser base s2 = Inr (e', list, s3)" "conn_inv C str ok rx tx S T s3"
      "str (cs_in s3) = str (cs_in s2)" "b_max ?P (cs_in s3) = b_max ?P (cs_in s2)" "g s3 = g s2"
      "b_tell ?P (cs_in s3) = (if e' = LAW_ERR_OK then b_tell ?P (cs_in s2) else base)"
      "e' = LAW_ERR_OK \<longrightarrow>
              (\<exists>m m'. parser (take (b_tell ?P (cs_in s2) - base) (drop base (str (cs_in s2)))) m =
                 ((LAW_ERR_OK, list, b_tell ?P (cs_in s2) - base), m'))"
      using parse_found_result [OF I(1) r(2,4,5) g, of parser] by blast
    have e3: "b_end ?P (cs_in s3) = b_end ?P (cs_in s2)"
      using pgc_pos(3) [OF P conn_invD(1) [OF p(2)]] pgc_pos(3) [OF P conn_invD(1) [OF r(2)]] p(3) by simp
    have "parsed C str parser base delim list s3" if "e' = LAW_ERR_OK"
      using that p(3,6,7) d True by (simp add: parsed_def)
    moreover have "scan_inv C str ok rx tx S T base delim s3" if "e' \<noteq> LAW_ERR_OK"
      using that p e3 r I by (auto simp: scan_inv_def scanned_def)
    ultimately show ?thesis using f True p(1,2,4,5) r(3) now by simp
  next
    case False
    have K: "scan_inv C str ok rx tx S T base delim s2" using d False r I by (simp add: scan_inv_def)
    obtain es2 where "HTS_PUSH e ''law_htc_read_scan'' ''law_hts_read_scan_parse'' 72 s2 = Inr (e, s2\<lparr>cs_errs := es2\<rparr>)"
      "conn_inv C str ok rx tx S T (s2\<lparr>cs_errs := es2\<rparr>)"
      by (rule HTS_PUSH_inv [OF r(2)])
    moreover from this K have "scan_inv C str ok rx tx S T base delim (s2\<lparr>cs_errs := es2\<rparr>)"
      by (simp add: scan_inv_def scanned_def)
    moreover have "g (s2\<lparr>cs_errs := es2\<rparr>) = g s" using mem_blindD(4) [OF g] now by metis
    ultimately show ?thesis using f False K r(2,3) now by auto
  qed
qed

section \<open>The request line and the headers\<close>

text \<open>What the grammars promise: the nodes of a request line are three, the second one a URI's.\<close>

definition reqline_lang :: "('a, 'k) htp \<Rightarrow> bool" where
  "reqline_lang H \<longleftrightarrow>
     ast_spec (hp_ast H) \<and>
     (\<forall>bs m list n m'. hp_reqline H bs m = ((LAW_ERR_OK, list, n), m') \<longrightarrow>
        length list = 3 \<and> (\<forall>x \<in> set (a_tolst (hp_ast H) (list ! 1)). a_typeof (hp_ast H) x < 5))"

lemma reqline_of_ok:
  assumes "reqline_lang H" and "hp_reqline H bs m = ((LAW_ERR_OK, list, n), m')"
  obtains line where "reqline_of (hp_ast H) list = Inr line"
proof -
  have "length list = 3" "\<forall>x \<in> set (a_tolst (hp_ast H) (list ! 1)). a_typeof (hp_ast H) x < 5"
    using assms unfolding reqline_lang_def by blast+
  moreover have "\<And>n. a_at (hp_ast H) list n = (if n < length list then Some (list ! n) else None)"
    using assms(1) by (simp add: reqline_lang_def ast_spec_def)
  ultimately show thesis
    using that uri_parts_last [of "a_tolst (hp_ast H) (list ! 1)" "hp_ast H"]
    by (auto simp: reqline_of_def node_at_def law_uri_from_ast_def)
qed

text \<open>
  \<open>frame_ok\<close> is what a reading call keeps besides: the size of the buffer and every function of
  the state, here \<open>g\<close>, that sees nothing the call or its waits change.
\<close>

definition sync_blind :: "(('b, 'w, 'a, 'k, 'z) req_st_scheme \<Rightarrow> 'v) \<Rightarrow> bool" where
  "sync_blind g \<longleftrightarrow> mem_blind g \<and>
     (\<forall>s l. g (s\<lparr>rq_line := l\<rparr>) = g s) \<and> (\<forall>s hs. g (s\<lparr>rq_headers := hs\<rparr>) = g s) \<and>
     (\<forall>s n. g (s\<lparr>tk_now := n\<rparr>) = g s) \<and> (\<forall>s c. g (s\<lparr>tk_ctl := c\<rparr>) = g s) \<and>
     (\<forall>s ds. g (s\<lparr>tk_waits := ds\<rparr>) = g s)"

lemma sync_blindD:
  assumes "sync_blind g"
  shows "mem_blind g" and "g (s\<lparr>rq_line := l\<rparr>) = g s" and "g (s\<lparr>rq_headers := hs\<rparr>) = g s"
    and "g (s\<lparr>tk_now := n\<rparr>) = g s" and "g (s\<lparr>tk_ctl := c\<rparr>) = g s" and "g (s\<lparr>tk_waits := ds\<rparr>) = g s"
    and "g (s\<lparr>cs_errs := es\<rparr>) = g s"
  using assms by (simp_all add: sync_blind_def mem_blindD)

definition frame_ok where
  "frame_ok C g v room s \<longleftrightarrow> sync_blind g \<and> g s = v \<and> b_max (cl_buf C) (cs_in s) = room"

text \<open>What one call keeps with the clock as another thing that it does not see.\<close>

lemma scan_parse_frame:
  fixes s :: "('b, 'w, 'a, 'k, 'z) req_st_scheme"
  assumes "scan_inv C str ok rx tx S T base delim s" and "delim \<noteq> []" and f: "frame_ok C g v room s"
  obtains e list s' where "law_hts_read_scan_parse C parser base delim s = Inr (e, list, s')"
    and "conn_inv C str ok rx tx S T s'" and "tk_now s' = tk_now s" and "frame_ok C g v room s'"
    and "if e = LAW_ERR_OK then parsed C str parser base delim list s'
         else scan_inv C str ok rx tx S T base delim s'"
proof -
  have g: "sync_blind g" using f by (simp add: frame_ok_def)
  then have "mem_blind (\<lambda>s. (tk_now s, g s))"
    by (simp add: mem_blind_def in_blind_def sync_blind_def)
  from scan_parse_result [OF assms(1,2) this, of parser] f that show thesis
    unfolding frame_ok_def by auto
qed

definition reqline_inv where
  "reqline_inv C H str ok rx tx S T base g v room s \<longleftrightarrow>
     reqline_lang H \<and> scan_inv C str ok rx tx S T base [13, 10] s \<and> frame_ok C g v room s"

definition reqline_read where
  "reqline_read C H str ok rx tx S T base g v room s \<longleftrightarrow>
     conn_inv C str ok rx tx S T s \<and> frame_ok C g v room s \<and>
     (\<exists>list. parsed C str (hp_reqline H) base [13, 10] list s \<and> reqline_of (hp_ast H) list = Inr (rq_line s))"

definition headers_inv where
  "headers_inv C str ok rx tx S T base g v room s \<longleftrightarrow>
     scan_inv C str ok rx tx S T base [13, 10, 13, 10] s \<and> frame_ok C g v room s"

definition headers_read where
  "headers_read C H str ok rx tx S T base g v room s \<longleftrightarrow>
     conn_inv C str ok rx tx S T s \<and> frame_ok C g v room s \<and>
     parsed C str (hp_headers H) base [13, 10, 13, 10] (rq_headers s) s"

lemma conn_only_frame:
  "conn_only (\<lambda>s. scan_inv C str ok rx tx S T base delim s \<and> frame_ok C g v room s)"
  by (auto simp: conn_only_def scan_inv_def conn_inv_def mode_ok_def scanned_def frame_ok_def sync_blindD)

lemma frame_ok_upd:
  assumes "frame_ok C g v room s"
  shows "frame_ok C g v room (s\<lparr>rq_line := l\<rparr>)" and "frame_ok C g v room (s\<lparr>rq_headers := hs\<rparr>)"
  using assms by (simp_all add: frame_ok_def sync_blindD)

lemma reqline_callback:
  fixes C :: "('b, 'w) conn_lib" and H :: "('a, 'k) htp"
  shows "sync_callback (task_env asserts) (law_hts_read_reqline_cb C H base)
     (reqline_inv C H str ok rx tx S T base g v room :: ('b, 'w, 'a, 'k, 'z) req_st_scheme \<Rightarrow> bool)
     (reqline_read C H str ok rx tx S T base g v room) tk_now asserts"
proof (rule task_callback)
  show "conn_only (reqline_inv C H str ok rx tx S T base g v room :: ('b, 'w, 'a, 'k, 'z) req_st_scheme \<Rightarrow> bool)"
    using conn_only_frame [of C str ok rx tx S T base "[13, 10]" g v room]
    unfolding conn_only_def reqline_inv_def by blast
next
  fix s :: "('b, 'w, 'a, 'k, 'z) req_st_scheme"
  assume "reqline_inv C H str ok rx tx S T base g v room s"
  then have L: "reqline_lang H" and sc: "scan_inv C str ok rx tx S T base [13, 10] s" and fr: "frame_ok C g v room s"
    by (simp_all add: reqline_inv_def)
  obtain e list s' where r: "law_hts_read_scan_parse C (hp_reqline H) base [13, 10] s = Inr (e, list, s')"
    "conn_inv C str ok rx tx S T s'" "tk_now s' = tk_now s" "frame_ok C g v room s'"
    "if e = LAW_ERR_OK then parsed C str (hp_reqline H) base [13, 10] list s'
     else scan_inv C str ok rx tx S T base [13, 10] s'"
    by (rule scan_parse_frame [OF sc _ fr, of "hp_reqline H"]) simp
  show "\<exists>e t. law_hts_read_reqline_cb C H base s = Inr (e, t) \<and>
      (if e = LAW_ERR_OK then reqline_read C H str ok rx tx S T base g v room t
       else reqline_inv C H str ok rx tx S T base g v room t \<and> tk_now t = tk_now s)"
  proof (cases "e = LAW_ERR_OK")
    case True
    with r(5) have p1: "parsed C str (hp_reqline H) base [13, 10] list s'" by simp
    then obtain bs m n m' where p: "parsed C str (hp_reqline H) base [13, 10] list s'"
      "hp_reqline H bs m = ((LAW_ERR_OK, list, n), m')" unfolding parsed_def by blast
    obtain line where l: "reqline_of (hp_ast H) list = Inr line" by (rule reqline_of_ok [OF L p(2)])
    have "law_hts_read_reqline_cb C H base s = Inr (LAW_ERR_OK, s'\<lparr>rq_line := line\<rparr>)"
      using True r(1) l by (simp add: law_hts_read_reqline_cb_def law_hts_read_reqline_def)
    moreover have "reqline_read C H str ok rx tx S T base g v room (s'\<lparr>rq_line := line\<rparr>)"
      unfolding reqline_read_def using r(2) frame_ok_upd [OF r(4)] p(1) l by auto
    ultimately show ?thesis by simp
  next
    case False
    with r L show ?thesis
      by (simp add: law_hts_read_reqline_cb_def law_hts_read_reqline_def reqline_inv_def)
  qed
qed

lemma headers_callback:
  fixes C :: "('b, 'w) conn_lib" and H :: "('a, 'k) htp"
  shows "sync_callback (task_env asserts) (law_hts_read_headers_cb C H base)
     (headers_inv C str ok rx tx S T base g v room :: ('b, 'w, 'a, 'k, 'z) req_st_scheme \<Rightarrow> bool)
     (headers_read C H str ok rx tx S T base g v room) tk_now asserts"
proof (rule task_callback)
  show "conn_only (headers_inv C str ok rx tx S T base g v room :: ('b, 'w, 'a, 'k, 'z) req_st_scheme \<Rightarrow> bool)"
    using conn_only_frame [of C str ok rx tx S T base "[13, 10, 13, 10]" g v room]
    unfolding conn_only_def headers_inv_def .
next
  fix s :: "('b, 'w, 'a, 'k, 'z) req_st_scheme"
  assume "headers_inv C str ok rx tx S T base g v room s"
  then have sc: "scan_inv C str ok rx tx S T base [13, 10, 13, 10] s" and fr: "frame_ok C g v room s"
    by (simp_all add: headers_inv_def)
  obtain e list s' where r: "law_hts_read_scan_parse C (hp_headers H) base [13, 10, 13, 10] s = Inr (e, list, s')"
    "conn_inv C str ok rx tx S T s'" "tk_now s' = tk_now s" "frame_ok C g v room s'"
    "if e = LAW_ERR_OK then parsed C str (hp_headers H) base [13, 10, 13, 10] list s'
     else scan_inv C str ok rx tx S T base [13, 10, 13, 10] s'"
    by (rule scan_parse_frame [OF sc _ fr, of "hp_headers H"]) simp
  note fu = frame_ok_upd(2) [OF r(4), of list]
  have "law_hts_read_headers_cb C H base s = Inr (e, s'\<lparr>rq_headers := list\<rparr>)"
    using r(1) by (simp add: law_hts_read_headers_cb_def law_hts_read_headers_def)
  moreover have "headers_inv C str ok rx tx S T base g v room (s'\<lparr>rq_headers := list\<rparr>)" if "e \<noteq> LAW_ERR_OK"
    using that r(5) fu by (simp add: headers_inv_def scan_inv_def scanned_def)
  moreover have "headers_read C H str ok rx tx S T base g v room (s'\<lparr>rq_headers := list\<rparr>)" if "e = LAW_ERR_OK"
    using that r(2,5) fu by (simp add: headers_read_def)
  ultimately show "\<exists>e t. law_hts_read_headers_cb C H base s = Inr (e, t) \<and>
      (if e = LAW_ERR_OK then headers_read C H str ok rx tx S T base g v room t
       else headers_inv C str ok rx tx S T base g v room t \<and> tk_now t = tk_now s)"
    using r(3) by auto
qed

interpretation rqs: sync_callback "task_env asserts" "law_hts_read_reqline_cb C H base"
  "reqline_inv C H str ok rx tx S T base g v room" "reqline_read C H str ok rx tx S T base g v room" tk_now asserts
  for asserts C H base str ok rx tx S T g v room
  by (rule reqline_callback)

interpretation hds: sync_callback "task_env asserts" "law_hts_read_headers_cb C H base"
  "headers_inv C str ok rx tx S T base g v room" "headers_read C H str ok rx tx S T base g v room" tk_now asserts
  for asserts C H base str ok rx tx S T g v room
  by (rule headers_callback)

lemma scan_start:
  assumes "conn_lib_ok C str ok rx tx" and "conn_inv C str ok rx tx S T s"
    and "base = b_tell (cl_buf C) (cs_in s)" and "length delim \<le> b_max (cl_buf C) (cs_in s)"
  shows "scan_inv C str ok rx tx S T base delim s"
proof -
  have P: "pgc_spec (cl_buf C) str ok" using assms(1) by (simp add: conn_lib_ok_def)
  show ?thesis
    using assms pgc_pos(2) [OF P conn_invD(1) [OF assms(2)]] by (simp add: scan_inv_def scanned_none)
qed

lemma reqline_sync_full:
  assumes "conn_lib_ok C str ok rx tx" and "conn_inv C str ok rx tx S T s" and "reqline_lang H"
    and "base = b_tell (cl_buf C) (cs_in s)" and "2 \<le> b_max (cl_buf C) (cs_in s)" and "frame_ok C g v room s"
  shows "asserts \<and> law_hts_read_reqline_sync C H (task_env asserts) timeout base s = Inl SEL_ASSERT \<or>
    (\<exists>e t. law_hts_read_reqline_sync C H (task_env asserts) timeout base s = Inr (e, t) \<and>
       (if e = LAW_ERR_OK then reqline_read C H str ok rx tx S T base g v room t
        else reqline_inv C H str ok rx tx S T base g v room t))"
proof -
  have "reqline_inv C H str ok rx tx S T base g v room s"
    using scan_start [OF assms(1,2,4), of "[13, 10]"] assms(3,5,6) by (simp add: reqline_inv_def)
  from rqs.sync_result [OF this, of timeout "sync_fuel timeout" asserts "hc_socket (cs_conn s)"]
  show ?thesis unfolding law_hts_read_reqline_sync_def by (simp add: sync_fuel_def)
qed

text \<open>The same for the headers, which end with an empty line.\<close>

lemma headers_sync_full:
  assumes "conn_lib_ok C str ok rx tx" and "conn_inv C str ok rx tx S T s"
    and "base = b_tell (cl_buf C) (cs_in s)" and "4 \<le> b_max (cl_buf C) (cs_in s)" and "frame_ok C g v room s"
  shows "asserts \<and> law_hts_read_headers_sync C H (task_env asserts) timeout base s = Inl SEL_ASSERT \<or>
    (\<exists>e t. law_hts_read_headers_sync C H (task_env asserts) timeout base s = Inr (e, t) \<and>
       (if e = LAW_ERR_OK then headers_read C H str ok rx tx S T base g v room t
        else headers_inv C str ok rx tx S T base g v room t))"
proof -
  have "headers_inv C str ok rx tx S T base g v room s"
    using scan_start [OF assms(1,2,3), of "[13, 10, 13, 10]"] assms(4,5) by (simp add: headers_inv_def)
  from hds.sync_result [OF this, of timeout "sync_fuel timeout" asserts H "hc_socket (cs_conn s)"]
  show ?thesis unfolding law_hts_read_headers_sync_def by (simp add: sync_fuel_def)
qed


section \<open>What the answering calls give\<close>

text \<open>A call that puts a text into the output buffer puts all of it or none.\<close>

definition puts_text where
  "puts_text C str ok txt s r \<longleftrightarrow>
     (\<exists>b. snd r = set_out b s \<and>
        (if fst r = LAW_ERR_OK then appended (cl_buf C) str ok (cs_out s) txt b
         else fst r = LAW_ERR_OOB \<and> b = cs_out s))"

lemma put_text:
  assumes "pgc_spec (cl_buf C) str ok" and "ok (cs_out s)"
  shows "puts_text C str ok txt s (case b_put (cl_buf C) txt (cs_out s) of (e, b) \<Rightarrow> (e, set_out b s))"
proof -
  let ?b = "cs_out s"
  have "if b_end (cl_buf C) ?b - b_tell (cl_buf C) ?b + length txt \<le> b_max (cl_buf C) ?b
         then \<exists>b'. b_put (cl_buf C) txt ?b = (LAW_ERR_OK, b') \<and> appended (cl_buf C) str ok ?b txt b'
         else b_put (cl_buf C) txt ?b = (LAW_ERR_OOB, ?b)"
    using pgc_specD(2) [OF assms(1)] assms(2) unfolding pgc_copy_spec_def by blast
  then show ?thesis unfolding puts_text_def by (auto split: if_splits intro: exI [of _ ?b])
qed

lemma answer_calls:
  assumes "pgc_spec (cl_buf C) str ok" and "ok (cs_out s)"
  shows "puts_text C str ok (text_bytes (version @ '' '' @ show_int status @ '' '' @ reason @ CRLF)) s
           (law_hts_set_status C version status reason s)"
    and "puts_text C str ok (text_bytes (name @ '': '' @ val @ CRLF)) s (law_hts_add_header C name val s)"
    and "puts_text C str ok [13, 10] s (law_hts_begin_body C s)"
  unfolding law_hts_set_status_def law_hts_add_header_def law_hts_begin_body_def pgc_buf_printf_def
  by (rule put_text [OF assms])+

section \<open>Examples\<close>

definition demo_htp :: "(tree, unit) htp" where
  "demo_htp = \<lparr>hp_ast = ref_ast,
     hp_reqline = (\<lambda>bs m. ((LAW_ERR_OK, [Leaf 0 ''GET'', Node 0 [Leaf 3 ''/''], Leaf 0 ''HTTP/1.1''], length bs), m)),
     hp_headers = (\<lambda>bs m. ((LAW_ERR_OK, [], length bs), m))\<rparr>"

lemma demo_htp_lang: "reqline_lang demo_htp"
  by (simp add: reqline_lang_def demo_htp_def ref_ast_spec ref_ast_def)
    (simp add: ast_spec_def)

definition demo_req :: "u8 list \<Rightarrow> nat list \<Rightarrow> (rbuf, peer, tree, unit) req_st" where
  "demo_req rx script =
     task_st.extend (demo_conn_task rx [] script) \<lparr>rq_mem = (), rq_line = no_reqline, rq_headers = []\<rparr>"

lemma demo_req_inv: "conn_inv demo_clib rb_str rb_ok pe_rx pe_tx rx [] (demo_req rx script)"
  using demo_conn_task_inv [of rx "[]" script]
  by (simp add: demo_req_def conn_inv_def mode_ok_def task_st.defs)

lemma demo_req_in: "cs_in (demo_req rx script) = \<lparr>rb_str = [], rb_tell = 0, rb_max = 8\<rparr>"
  by (simp add: demo_req_def task_st.defs demo_conn_task_def conn_st.defs demo_conn_def)


end
