(* ===== verification/HttpEntry.thy ===== *)
theory HttpEntry
  imports HttpRequest
begin

text \<open>
  Serving a connection: the second half of \<^verbatim>\<open>http_server.c\<close>. \<open>law_hts_entry_handler\<close>
  reads a request and hands it to the user's callback, or reports why not; \<open>law_hts_entry_setup\<close>
  does what has to be done around it, for the socket, the event object and the SSL session.
  \<^verbatim>\<open>law_hts_entry\<close>, which calls it, is in \<open>HttpServe\<close>.
\<close>

section \<open>State\<close>

text \<open>
  The request, with the descriptors, sessions and contexts of the process and the answers of the coming
  calls of \<^verbatim>\<open>SSL_accept\<close> and \<^verbatim>\<open>SSL_shutdown\<close>; where there are none left a call is
  successful. The error stack is the one of the connection.
\<close>

record ('b, 'w, 'a, 'k) entry_st = "('b, 'w, 'a, 'k) req_st" +
  rq_kern :: kern
  rq_ssl :: "ssl_outcome list"

text \<open>
  The user's callbacks are called through the pointers of the configuration, of type \<open>'cb\<close>; what
  \<^verbatim>\<open>on_error\<close> returns is ignored.
\<close>

record ('s, 'cb, 'a) entry_env =
  e_sync :: "'s sync_env"
  e_on_error :: "'cb \<Rightarrow> sel_err_t \<Rightarrow> 's \<Rightarrow> 's run"
  e_on_accept :: "'cb \<Rightarrow> law_hts_reqline \<Rightarrow> 'a list \<Rightarrow> 's \<Rightarrow> (sel_err_t \<times> 's) run"

section \<open>The context\<close>

text \<open>
  \<^verbatim>\<open>SSL_CTX_new\<close> makes a context, or fails; the two calls that read the files give an
  \<^verbatim>\<open>int\<close>, \<open>cert\<close> and \<open>pkey\<close>.
\<close>

definition CTX_PUSH :: "sel_err_t \<Rightarrow> string \<Rightarrow> int \<Rightarrow> kern \<Rightarrow> (sel_err_t \<times> kern) run" where
  "CTX_PUSH type action line k =
     bindE (law_err_push type action ''source/lawd/http_server.c'' ''law_hts_init_ssl_ctx'' line (k_errs k))
       (\<lambda>(e, es). Inr (e, k\<lparr>k_errs := es\<rparr>))"

definition law_hts_init_ssl_ctx ::
  "int \<Rightarrow> int \<Rightarrow> fd option \<Rightarrow> kern \<Rightarrow> (sel_err_t \<times> fd option \<times> kern) run" where
  "law_hts_init_ssl_ctx cert pkey ctx k =
     (case sys_new_fd k of
        (None, k) \<Rightarrow> bindE (CTX_PUSH LAW_ERR_SSL ''SSL_CTX_new'' 562 k) (\<lambda>(e, k). Inr (e, ctx, k))
      | (Some context, k) \<Rightarrow>
          if cert < 0 then
            bindE (CTX_PUSH LAW_ERR_SSL ''SSL_CTX_use_certificate_file'' 571 (sys_close context k))
              (\<lambda>(e, k). Inr (e, ctx, k))
          else if pkey < 0 then
            bindE (CTX_PUSH LAW_ERR_SSL ''SSL_CTX_use_PrivateKey_file'' 583 (sys_close context k))
              (\<lambda>(e, k). Inr (e, ctx, k))
          else Inr (LAW_ERR_OK, Some context, k))"

definition law_htserver_open ::
  "int \<Rightarrow> int \<Rightarrow> fd option \<Rightarrow> kern \<Rightarrow> (sel_err_t \<times> fd option \<times> kern) run" where
  "law_htserver_open = law_hts_init_ssl_ctx"

text \<open>The server keeps its pointer to the released context.\<close>

definition law_htserver_close :: "fd option \<Rightarrow> kern \<Rightarrow> sel_err_t \<times> kern" where
  "law_htserver_close ctx k = (LAW_ERR_OK, case ctx of None \<Rightarrow> k | Some c \<Rightarrow> sys_close c k)"

section \<open>The handler\<close>

definition hts_report ::
  "('s, 'cb, 'a) entry_env \<Rightarrow> 'cb law_htserver_cfg \<Rightarrow> sel_err_t \<Rightarrow> 's \<Rightarrow> 's run" where
  "hts_report E cfg e s = (case hc_on_error cfg of None \<Rightarrow> Inl NULL_CALL | Some cb \<Rightarrow> e_on_error E cb e s)"

text \<open>
  The four cases of a failed read; the two switches differ in the codes that are reported and in the
  lines. The value is the one the handler returns.
\<close>

definition read_failed ::
  "(('b, 'w, 'a, 'k, 'z) req_st_scheme, 'cb, 'a) entry_env \<Rightarrow> 'cb law_htserver_cfg \<Rightarrow> string \<Rightarrow> int \<Rightarrow>
   sel_err_t \<times> sel_err_t \<times> sel_err_t \<Rightarrow> sel_err_t \<Rightarrow> ('b, 'w, 'a, 'k, 'z) req_st_scheme \<Rightarrow>
   (sel_err_t \<times> ('b, 'w, 'a, 'k, 'z) req_st_scheme) run" where
  "read_failed E cfg action line codes err s =
     (let (timeout, malformed, too_long) = codes;
          (n, code, result) =
            (if err = LAW_ERR_TIME then (0, timeout, LAW_ERR_OK)
             else if err = LAW_ERR_SYN then (8, malformed, LAW_ERR_OK)
             else if err = LAW_ERR_OOB then (16, too_long, LAW_ERR_OK)
             else (24, err, err))
      in bindE (HTS_PUSH err action ''law_hts_entry_handler'' (line + n) s) (\<lambda>(_, s).
         bindE (hts_report E cfg code s) (\<lambda>s. Inr (result, s))))"

definition law_hts_entry_handler ::
  "('b, 'w) conn_lib \<Rightarrow> ('a, 'k) htp \<Rightarrow> (('b, 'w, 'a, 'k, 'z) req_st_scheme, 'cb, 'a) entry_env \<Rightarrow>
   'cb law_htserver_cfg \<Rightarrow> ('b, 'w, 'a, 'k, 'z) req_st_scheme \<Rightarrow>
   (sel_err_t \<times> ('b, 'w, 'a, 'k, 'z) req_st_scheme) run" where
  "law_hts_entry_handler C H E cfg s =
     (let s = s\<lparr>rq_line := no_reqline, rq_headers := []\<rparr>;
          tell = \<lambda>s. b_tell (cl_buf C) (cs_in s)
      in bindE (law_hts_read_reqline_sync C H (e_sync E) (hc_reqline_timeout cfg) (tell s) s) (\<lambda>(err, s).
         if err \<noteq> LAW_ERR_OK then
           read_failed E cfg ''law_hts_read_reqline_sync'' 626
             (LAW_ERR_REQLINE_TIMEOUT, LAW_ERR_REQLINE_MALFORMED, LAW_ERR_REQLINE_TOO_LONG) err s
         else
           bindE (law_hts_read_headers_sync C H (e_sync E) (hc_headers_timeout cfg) (tell s) s) (\<lambda>(err, s).
             if err \<noteq> LAW_ERR_OK then
               read_failed E cfg ''law_hts_read_headers_sync'' 669
                 (LAW_ERR_HEADERS_TIMEOUT, LAW_ERR_HEADERS_MALFORMED, LAW_ERR_HEADERS_TOO_LONG) err s
             else
               case hc_on_accept cfg of
                 None \<Rightarrow> Inl NULL_CALL
               | Some cb \<Rightarrow> e_on_accept E cb (rq_line s) (rq_headers s) s)))"

definition law_hts_entry_stream ::
  "('b, 'w) conn_lib \<Rightarrow> ('a, 'k) htp \<Rightarrow> (('b, 'w, 'a, 'k, 'z) req_st_scheme, 'cb, 'a) entry_env \<Rightarrow>
   'cb law_htserver_cfg \<Rightarrow> ('b, 'w, 'a, 'k, 'z) req_st_scheme \<Rightarrow>
   (sel_err_t \<times> ('b, 'w, 'a, 'k, 'z) req_st_scheme) run" where
  "law_hts_entry_stream = law_hts_entry_handler"

section \<open>Sessions\<close>

text \<open>A call on the process's resources uses the connection's error stack.\<close>

definition entry_kern :: "('b, 'w, 'a, 'k, 'z) entry_st_scheme \<Rightarrow> kern" where
  "entry_kern s = (rq_kern s)\<lparr>k_errs := cs_errs s\<rparr>"

definition set_kern :: "kern \<Rightarrow> ('b, 'w, 'a, 'k, 'z) entry_st_scheme \<Rightarrow> ('b, 'w, 'a, 'k, 'z) entry_st_scheme" where
  "set_kern k s = s\<lparr>rq_kern := k, cs_errs := k_errs k\<rparr>"

definition next_answer ::
  "('b, 'w, 'a, 'k, 'z) entry_st_scheme \<Rightarrow> ssl_outcome \<times> ('b, 'w, 'a, 'k, 'z) entry_st_scheme" where
  "next_answer s = (case rq_ssl s of [] \<Rightarrow> (SSL_POSITIVE, s) | r # rs \<Rightarrow> (r, s\<lparr>rq_ssl := rs\<rparr>))"

definition entry_ssl_accept ::
  "('b, 'w, 'a, 'k, 'z) entry_st_scheme \<Rightarrow> (sel_err_t \<times> ('b, 'w, 'a, 'k, 'z) entry_st_scheme) run" where
  "entry_ssl_accept s =
     (case next_answer s of
        (res, s) \<Rightarrow>
          bindE (law_htc_ssl_accept res (cs_conn s) (entry_kern s))
            (\<lambda>(e, conn, k). Inr (e, (set_kern k s)\<lparr>cs_conn := conn\<rparr>)))"

definition law_htc_ssl_shutdown_cb ::
  "('b, 'w, 'a, 'k, 'z) entry_st_scheme \<Rightarrow> (sel_err_t \<times> ('b, 'w, 'a, 'k, 'z) entry_st_scheme) run" where
  "law_htc_ssl_shutdown_cb s =
     (case next_answer s of
        (res, s) \<Rightarrow>
          bindE (law_htc_ssl_shutdown res (cs_conn s) (entry_kern s)) (\<lambda>(e, k). Inr (e, set_kern k s)))"

definition law_htc_ssl_shutdown_sync ::
  "('b, 'w, 'a, 'k, 'z) entry_st_scheme sync_env \<Rightarrow> law_time_t \<Rightarrow> ('b, 'w, 'a, 'k, 'z) entry_st_scheme \<Rightarrow>
   (sel_err_t \<times> ('b, 'w, 'a, 'k, 'z) entry_st_scheme) run" where
  "law_htc_ssl_shutdown_sync V timeout s =
     law_sync V (sync_fuel timeout) timeout law_htc_ssl_shutdown_cb (hc_socket (cs_conn s)) s"

section \<open>What is done around the handler\<close>

text \<open>An error is pushed and reported; the next step is taken all the same.\<close>

definition setup_failed ::
  "(('b, 'w, 'a, 'k, 'z) req_st_scheme, 'cb, 'a) entry_env \<Rightarrow> 'cb law_htserver_cfg \<Rightarrow> sel_err_t \<Rightarrow> string \<Rightarrow> int \<Rightarrow>
   sel_err_t \<Rightarrow> ('b, 'w, 'a, 'k, 'z) req_st_scheme \<Rightarrow> ('b, 'w, 'a, 'k, 'z) req_st_scheme run" where
  "setup_failed E cfg err action line code s =
     bindE (HTS_PUSH err action ''law_hts_entry_setup'' line s) (\<lambda>(_, s). hts_report E cfg code s)"

definition close_socket ::
  "('b, 'w, 'a, 'k, 'z) entry_st_scheme \<Rightarrow> ('b, 'w, 'a, 'k, 'z) entry_st_scheme run" where
  "close_socket s = Inr (s\<lparr>rq_kern := sys_close (hc_socket (cs_conn s)) (rq_kern s)\<rparr>)"

definition delete_socket ::
  "(('b, 'w, 'a, 'k, 'z) entry_st_scheme, 'cb, 'a) entry_env \<Rightarrow> 'cb law_htserver_cfg \<Rightarrow>
   ('b, 'w, 'a, 'k, 'z) entry_st_scheme \<Rightarrow> ('b, 'w, 'a, 'k, 'z) entry_st_scheme run" where
  "delete_socket E cfg s =
     bindE (v_ectl (e_sync E) (hc_socket (cs_conn s)) LAW_EV_DEL 0 0 0 s) (\<lambda>(err, s).
       if err \<noteq> LAW_ERR_OK then bindE (setup_failed E cfg err ''law_ectl'' 804 err s) close_socket
       else close_socket s)"

definition ssl_free ::
  "(('b, 'w, 'a, 'k, 'z) entry_st_scheme, 'cb, 'a) entry_env \<Rightarrow> 'cb law_htserver_cfg \<Rightarrow>
   ('b, 'w, 'a, 'k, 'z) entry_st_scheme \<Rightarrow> ('b, 'w, 'a, 'k, 'z) entry_st_scheme run" where
  "ssl_free E cfg s = delete_socket E cfg (s\<lparr>rq_kern := law_htc_ssl_free (cs_conn s) (rq_kern s)\<rparr>)"

definition entry_secured ::
  "('b, 'w) conn_lib \<Rightarrow> ('a, 'k) htp \<Rightarrow> (('b, 'w, 'a, 'k, 'z) entry_st_scheme, 'cb, 'a) entry_env \<Rightarrow>
   'cb law_htserver_cfg \<Rightarrow> ('b, 'w, 'a, 'k, 'z) entry_st_scheme \<Rightarrow>
   ('b, 'w, 'a, 'k, 'z) entry_st_scheme run" where
  "entry_secured C H E cfg s =
     bindE (entry_ssl_accept s) (\<lambda>(err, s).
       if err \<notin> {LAW_ERR_OK, LAW_ERR_WANTW, LAW_ERR_WANTR} then
         bindE (setup_failed E cfg err ''law_htc_ssl_accept'' 753 LAW_ERR_SSL_ACCEPT_FAILED s) (delete_socket E cfg)
       else
         bindE (law_hts_entry_stream C H E cfg s) (\<lambda>(err, s).
           if err \<noteq> LAW_ERR_OK then ssl_free E cfg s
           else
             bindE (law_htc_ssl_shutdown_sync (e_sync E) (hc_ssl_shutdown_timeout cfg) s) (\<lambda>(err, s).
               if err = LAW_ERR_OK then ssl_free E cfg s
               else if err = LAW_ERR_TIME then
                 bindE (setup_failed E cfg err ''law_htc_ssl_shutdown_sync'' 774 LAW_ERR_SSL_SHUTDOWN_TIMEOUT s)
                   (ssl_free E cfg)
               else
                 bindE (setup_failed E cfg err ''law_htc_ssl_shutdown_sync'' 782 LAW_ERR_SSL_SHUTDOWN_FAILED s)
                   (ssl_free E cfg))))"

definition law_hts_entry_setup ::
  "('b, 'w) conn_lib \<Rightarrow> ('a, 'k) htp \<Rightarrow> (('b, 'w, 'a, 'k, 'z) entry_st_scheme, 'cb, 'a) entry_env \<Rightarrow>
   'cb law_htserver_cfg \<Rightarrow> fd option \<Rightarrow> ('b, 'w, 'a, 'k, 'z) entry_st_scheme \<Rightarrow>
   ('b, 'w, 'a, 'k, 'z) entry_st_scheme run" where
  "law_hts_entry_setup C H E cfg ssl_ctx s =
     require SEL_ASSERT (ssl_ctx \<noteq> None)
      (bindE (law_err_clear (cs_errs s)) (\<lambda>es.
       bindE (v_ectl (e_sync E) (hc_socket (cs_conn s)) LAW_EV_ADD 0 0 0 (s\<lparr>cs_errs := es\<rparr>)) (\<lambda>(err, s).
         if err \<noteq> LAW_ERR_OK then bindE (setup_failed E cfg err ''law_ectl'' 733 err s) close_socket
         else if hc_security cfg \<noteq> LAW_HTC_SSL then
           bindE (law_hts_entry_stream C H E cfg s) (\<lambda>(_, s). delete_socket E cfg s)
         else entry_secured C H E cfg s)))"

section \<open>What the parts keep\<close>

text \<open>
  \<open>keeps s t\<close>: no descriptor or session was opened or closed on balance, and the connection has
  the same socket and session.
\<close>

definition keeps :: "('b, 'w, 'a, 'k, 'z) entry_st_scheme \<Rightarrow> ('b, 'w, 'a, 'k, 'z) entry_st_scheme \<Rightarrow> bool" where
  "keeps s t \<longleftrightarrow>
     same_fds (entry_kern s) (entry_kern t) \<and> hc_ssl (cs_conn t) = hc_ssl (cs_conn s) \<and>
     hc_socket (cs_conn t) = hc_socket (cs_conn s)"

text \<open>What is asked of the user: both callbacks are there, come back and keep that.\<close>

definition user_ok ::
  "(('b, 'w, 'a, 'k, 'z) entry_st_scheme, 'cb, 'a) entry_env \<Rightarrow> 'cb law_htserver_cfg \<Rightarrow> bool" where
  "user_ok E cfg \<longleftrightarrow>
     (\<exists>cb. hc_on_error cfg = Some cb \<and>
        (\<forall>e s. kern_inv (entry_kern s) \<longrightarrow> (\<exists>t. e_on_error E cb e s = Inr t \<and> keeps s t))) \<and>
     (\<exists>cb. hc_on_accept cfg = Some cb \<and>
        (\<forall>l hs s. kern_inv (entry_kern s) \<longrightarrow> (\<exists>e t. e_on_accept E cb l hs s = Inr (e, t) \<and> keeps s t)))"

lemma keeps_refl: "kern_inv (entry_kern s) \<Longrightarrow> keeps s s"
  by (simp add: keeps_def same_fds_refl)

lemma keeps_trans: "keeps s t \<Longrightarrow> keeps t u \<Longrightarrow> keeps s u"
  by (auto simp: keeps_def intro: same_fds_trans)

lemma keeps_inv: "keeps s t \<Longrightarrow> kern_inv (entry_kern t)"
  by (simp add: keeps_def same_fds_def)

lemma keeps_fields:
  assumes "keeps s t"
  shows "k_open (rq_kern t) = k_open (rq_kern s)" and "k_bad (rq_kern t) = k_bad (rq_kern s)"
    and "hc_ssl (cs_conn t) = hc_ssl (cs_conn s)" and "hc_socket (cs_conn t) = hc_socket (cs_conn s)"
  using assms by (simp_all add: keeps_def same_fds_def entry_kern_def)

lemma keeps_errs:
  assumes "kern_inv (entry_kern s)" and "err_inv es"
  shows "keeps s (s\<lparr>cs_errs := es\<rparr>)"
  using assms by (simp add: keeps_def same_fds_def entry_kern_def kern_inv_def)

lemma HTS_PUSH_keeps:
  assumes "kern_inv (entry_kern s)"
  obtains t where "HTS_PUSH e action func line s = Inr (e, t)" and "keeps s t"
proof -
  have "err_inv (cs_errs s)" using assms by (simp add: kern_inv_def entry_kern_def)
  from law_err_push_ok [OF this, of e action "''source/lawd/http_server.c''" func line] keeps_errs [OF assms] that
  show thesis by (auto simp: HTS_PUSH_def)
qed

lemma report_keeps:
  assumes "user_ok E cfg" and "kern_inv (entry_kern s)"
  obtains t where "hts_report E cfg e s = Inr t" and "keeps s t"
  using assms unfolding user_ok_def hts_report_def by fastforce

lemma setup_failed_keeps:
  assumes "user_ok E cfg" and "kern_inv (entry_kern s)"
  obtains t where "setup_failed E cfg err action line code s = Inr t" and "keeps s t"
proof -
  obtain s1 where 1: "HTS_PUSH err action ''law_hts_entry_setup'' line s = Inr (err, s1)" "keeps s s1"
    by (rule HTS_PUSH_keeps [OF assms(2)])
  obtain s2 where "hts_report E cfg code s1 = Inr s2" "keeps s1 s2"
    by (rule report_keeps [OF assms(1) keeps_inv [OF 1(2)]])
  with 1 that keeps_trans show thesis by (auto simp: setup_failed_def)
qed

lemma read_failed_keeps:
  assumes "user_ok E cfg" and "kern_inv (entry_kern s)"
  obtains e t where "read_failed E cfg action line codes err s = Inr (e, t)" and "keeps s t"
proof -
  have push: "\<exists>t. HTS_PUSH err action ''law_hts_entry_handler'' l s = Inr (err, t) \<and> keeps s t" for l
    using HTS_PUSH_keeps [OF assms(2)] by metis
  have report: "\<exists>u. hts_report E cfg code t = Inr u \<and> keeps s u" if "keeps s t" for code t
    using report_keeps [OF assms(1) keeps_inv [OF that]] keeps_trans [OF that] by metis
  obtain timeout malformed too_long where c: "codes = (timeout, malformed, too_long)" by (cases codes)
  let ?n = "if err = LAW_ERR_TIME then 0 else if err = LAW_ERR_SYN then 8 else if err = LAW_ERR_OOB then 16 else 24 :: int"
  let ?code = "if err = LAW_ERR_TIME then timeout else if err = LAW_ERR_SYN then malformed
    else if err = LAW_ERR_OOB then too_long else err"
  from push [of "line + ?n"] obtain s1 where
    1: "HTS_PUSH err action ''law_hts_entry_handler'' (line + ?n) s = Inr (err, s1)" "keeps s s1" by blast
  from report [OF 1(2), of ?code] obtain s2 where "hts_report E cfg ?code s1 = Inr s2" "keeps s s2" by blast
  with 1 c that show thesis by (auto simp: read_failed_def Let_def split: if_splits)
qed

section \<open>The handler\<close>

definition resources where
  "resources s = (rq_kern s, hc_ssl (cs_conn s), hc_socket (cs_conn s))"

lemma resources_blind: "sync_blind resources"
  by (simp add: sync_blind_def mem_blind_def in_blind_def resources_def set_in_def)

lemma frame_keeps:
  assumes "frame_ok C resources (resources s) room t" and "conn_inv C str ok rx tx S T t"
    and "kern_inv (entry_kern s)"
  shows "keeps s t"
proof -
  have "rq_kern t = rq_kern s" "hc_ssl (cs_conn t) = hc_ssl (cs_conn s)" "hc_socket (cs_conn t) = hc_socket (cs_conn s)"
    using assms(1) by (simp_all add: frame_ok_def resources_def)
  with assms(2,3) show ?thesis
    by (simp add: keeps_def same_fds_def entry_kern_def kern_inv_def conn_invD(4) [OF assms(2)])
qed

definition servable where
  "servable C H str ok rx tx S T s \<longleftrightarrow>
     conn_lib_ok C str ok rx tx \<and> conn_inv C str ok rx tx S T s \<and> reqline_lang H \<and>
     4 \<le> b_max (cl_buf C) (cs_in s) \<and> kern_inv (entry_kern s)"

lemma handler_keeps:
  assumes E: "user_ok E cfg" "e_sync E = task_env asserts" and s: "servable C H str ok rx tx S T s"
  shows "asserts \<and> law_hts_entry_handler C H E cfg s = Inl SEL_ASSERT \<or>
    (\<exists>e t. law_hts_entry_handler C H E cfg s = Inr (e, t) \<and> keeps s t)"
proof -
  let ?s = "s\<lparr>rq_line := no_reqline, rq_headers := []\<rparr>" and ?P = "cl_buf C"
  let ?room = "b_max ?P (cs_in s)"
  have I: "conn_lib_ok C str ok rx tx" "conn_inv C str ok rx tx S T ?s" "reqline_lang H" "4 \<le> ?room"
    "kern_inv (entry_kern s)"
    using s by (simp_all add: servable_def)
  have f: "frame_ok C resources (resources s) ?room ?s"
    using resources_blind by (simp add: frame_ok_def resources_def)
  have failed: "\<exists>e t. read_failed E cfg action line codes err u = Inr (e, t) \<and> keeps s t"
    if "keeps s u" for action line codes err u
    using read_failed_keeps [OF E(1) keeps_inv [OF that]] keeps_trans [OF that] by metis
  from reqline_sync_full [OF I(1-3) refl _ f, of asserts "hc_reqline_timeout cfg"] I(4)
  consider "asserts" "law_hts_read_reqline_sync C H (task_env asserts) (hc_reqline_timeout cfg)
      (b_tell ?P (cs_in ?s)) ?s = Inl SEL_ASSERT"
    | e t where "law_hts_read_reqline_sync C H (task_env asserts) (hc_reqline_timeout cfg)
      (b_tell ?P (cs_in ?s)) ?s = Inr (e, t)" "conn_inv C str ok rx tx S T t"
      "frame_ok C resources (resources s) ?room t"
    by (auto simp: reqline_read_def reqline_inv_def scan_inv_def split: if_splits)
  then show ?thesis
  proof cases
    case 1
    then show ?thesis by (simp add: law_hts_entry_handler_def Let_def E(2))
  next
    case (2 e t)
    note k = frame_keeps [OF 2(3,2) I(5)]
    show ?thesis
    proof (cases "e = LAW_ERR_OK")
      case False
      with 2(1) failed [OF k] show ?thesis by (simp add: law_hts_entry_handler_def Let_def E(2))
    next
      case True
      have "4 \<le> b_max ?P (cs_in t)" using 2(3) I(4) by (simp add: frame_ok_def)
      from headers_sync_full [OF I(1) 2(2) refl this 2(3), of asserts H "hc_headers_timeout cfg"]
      consider "asserts" "law_hts_read_headers_sync C H (task_env asserts) (hc_headers_timeout cfg)
          (b_tell ?P (cs_in t)) t = Inl SEL_ASSERT"
        | e' u where "law_hts_read_headers_sync C H (task_env asserts) (hc_headers_timeout cfg)
          (b_tell ?P (cs_in t)) t = Inr (e', u)" "conn_inv C str ok rx tx S T u"
          "frame_ok C resources (resources s) ?room u"
        by (auto simp: headers_read_def headers_inv_def scan_inv_def split: if_splits)
      then show ?thesis
      proof cases
        case 1
        with 2(1) True show ?thesis by (simp add: law_hts_entry_handler_def Let_def E(2))
      next
        case (2 e' u)
        note k' = frame_keeps [OF 2(3,2) I(5)]
        obtain cb where cb: "hc_on_accept cfg = Some cb"
          "\<exists>e v. e_on_accept E cb (rq_line u) (rq_headers u) u = Inr (e, v) \<and> keeps u v"
          using E(1) keeps_inv [OF k'] unfolding user_ok_def by blast
        then have "\<exists>e v. e_on_accept E cb (rq_line u) (rq_headers u) u = Inr (e, v) \<and> keeps s v"
          using keeps_trans [OF k'] by blast
        with \<open>law_hts_read_reqline_sync C H (task_env asserts) (hc_reqline_timeout cfg) (b_tell ?P (cs_in ?s)) ?s = Inr (e, t)\<close>
          True 2(1) cb(1) failed [OF k'] show ?thesis
          by (auto simp: law_hts_entry_handler_def Let_def E(2))
      qed
    qed
  qed
qed

section \<open>Sessions and the socket\<close>

text \<open>\<open>SSL_accept\<close> changes nothing in the connection but its mode and its session.\<close>

lemma ssl_accept_conn:
  assumes "law_htc_ssl_accept res conn k = Inr (e, conn', k')"
  shows "conn' = conn \<or> (\<exists>x. conn' = conn\<lparr>hc_mode := LAW_HTC_SSL, hc_ssl := Some x\<rparr>)"
proof -
  obtain es where es: "law_err_clear (k_errs k) = Inr es"
    using assms by (auto simp: law_htc_ssl_accept_def bindE_Inr_iff)
  obtain s1 k1 where 1: "sys_new_fd (k\<lparr>k_errs := es\<rparr>) = (s1, k1)" by (cases "sys_new_fd (k\<lparr>k_errs := es\<rparr>)")
  obtain b k2 where 2: "sys_call k1 = (b, k2)" by (cases "sys_call k1")
  show ?thesis
    using assms es 1 2
    by (cases s1; cases b; cases res)
      (auto simp: law_htc_ssl_accept_def bindE_Inr_iff Let_def split: ssl_error.split_asm)
qed

lemma next_answer_same:
  assumes "next_answer s = (r, t)"
  shows "entry_kern t = entry_kern s" and "cs_conn t = cs_conn s" and "cs_net t = cs_net s" and "cs_errs t = cs_errs s"
    and "rq_kern t = rq_kern s" and "tk_now t = tk_now s"
  using assms by (auto simp: next_answer_def entry_kern_def split: list.splits)

lemma set_kern_simps [simp]:
  "cs_conn (set_kern k s) = cs_conn s" "cs_net (set_kern k s) = cs_net s" "cs_errs (set_kern k s) = k_errs k"
  "rq_kern (set_kern k s) = k" "tk_now (set_kern k s) = tk_now s" "entry_kern (set_kern k s) = k"
  by (simp_all add: set_kern_def entry_kern_def)

text \<open>Either the connection has a new session now, or nothing has changed that counts.\<close>

lemma entry_ssl_accept_result:
  assumes "kern_inv (entry_kern s)"
  obtains e t x where "entry_ssl_accept s = Inr (e, t)" and "e \<in> {LAW_ERR_OK, LAW_ERR_WANTR, LAW_ERR_WANTW}"
      and "cs_conn t = (cs_conn s)\<lparr>hc_mode := LAW_HTC_SSL, hc_ssl := Some x\<rparr>"
      and "cs_net t = cs_net s" and "adds_fds {x} (entry_kern s) (entry_kern t)"
    | e t where "entry_ssl_accept s = Inr (e, t)" and "e \<notin> {LAW_ERR_OK, LAW_ERR_WANTR, LAW_ERR_WANTW}"
      and "same_fds (entry_kern s) (entry_kern t)" and "hc_socket (cs_conn t) = hc_socket (cs_conn s)"
proof -
  obtain r s1 where n: "next_answer s = (r, s1)" by (cases "next_answer s")
  note n' = next_answer_same [OF n]
  have k1: "kern_inv (entry_kern s1)" using assms n' by simp
  obtain e conn k where a: "law_htc_ssl_accept r (cs_conn s1) (entry_kern s1) = Inr (e, conn, k)"
    and c: "if e \<in> {LAW_ERR_OK, LAW_ERR_WANTR, LAW_ERR_WANTW}
            then \<exists>ssl. hc_ssl conn = Some ssl \<and> hc_mode conn = LAW_HTC_SSL \<and> adds_fds {ssl} (entry_kern s1) k
            else same_fds (entry_kern s1) k"
    using ssl_accept_full [OF k1, of r "cs_conn s1"] by (auto split: if_splits)
  let ?t = "(set_kern k s1)\<lparr>cs_conn := conn\<rparr>"
  have run: "entry_ssl_accept s = Inr (e, ?t)" using n a by (simp add: entry_ssl_accept_def)
  have k: "entry_kern ?t = k" by (simp add: entry_kern_def set_kern_def)
  from ssl_accept_conn [OF a] show thesis
  proof (elim disjE exE)
    assume same: "conn = cs_conn s1"
    show thesis
    proof (cases "e \<in> {LAW_ERR_OK, LAW_ERR_WANTR, LAW_ERR_WANTW}")
      case True
      with c same obtain x where "hc_ssl (cs_conn s1) = Some x" "hc_mode (cs_conn s1) = LAW_HTC_SSL"
        "adds_fds {x} (entry_kern s1) k" by auto
      with True same run k n' that(1) [of e ?t x] show thesis by simp
    next
      case False
      with c same run k n' that(2) [of e ?t] show thesis by simp
    qed
  next
    fix x
    assume new: "conn = (cs_conn s1)\<lparr>hc_mode := LAW_HTC_SSL, hc_ssl := Some x\<rparr>"
    show thesis
    proof (cases "e \<in> {LAW_ERR_OK, LAW_ERR_WANTR, LAW_ERR_WANTW}")
      case True
      with c new run k n' that(1) [of e ?t x] show thesis by simp
    next
      case False
      with c new run k n' that(2) [of e ?t] show thesis by simp
    qed
  qed
qed

lemma shutdown_keeps:
  assumes "kern_inv (entry_kern s)" and "hc_ssl (cs_conn s) \<noteq> None"
  shows "\<exists>e t. law_htc_ssl_shutdown_cb s = Inr (e, t) \<and> keeps s t \<and> tk_now t = tk_now s"
proof -
  obtain r s1 where n: "next_answer s = (r, s1)" by (cases "next_answer s")
  note n' = next_answer_same [OF n]
  let ?k = "(entry_kern s1)\<lparr>k_errs := (k_errs (entry_kern s1))\<lparr>es_offset := 0\<rparr>\<rparr>"
  have k1: "kern_inv (entry_kern s1)" using assms n' by simp
  have c: "law_err_clear (k_errs (entry_kern s1)) = Inr ((k_errs (entry_kern s1))\<lparr>es_offset := 0\<rparr>)"
    and k2: "same_fds (entry_kern s1) ?k"
    using k1 by (simp_all add: law_err_clear_def kern_inv_def err_inv_def same_fds_def)
  have push: "\<exists>k. KERN_PUSH e a f l ?k = Inr (e, k) \<and> same_fds (entry_kern s1) k" for e a f l
    using KERN_PUSH_same [OF same_fds_inv [OF k2]] same_fds_trans [OF k2] by metis
  have "\<exists>e k. law_htc_ssl_shutdown r (cs_conn s1) (entry_kern s1) = Inr (e, k) \<and> same_fds (entry_kern s1) k"
    using c k2 assms(2) n'(2) push [of LAW_ERR_SYS "''SSL_shutdown''" "''law_htc_ssl_shutdown''" 333]
      push [of LAW_ERR_SSL "''SSL_shutdown''" "''law_htc_ssl_shutdown''" 337]
    by (cases r) (auto simp: law_htc_ssl_shutdown_def Let_def split: ssl_error.splits)
  with n n' show ?thesis by (auto simp: law_htc_ssl_shutdown_cb_def keeps_def)
qed

definition shutdown_inv where
  "shutdown_inv s0 s \<longleftrightarrow> keeps s0 s \<and> hc_ssl (cs_conn s0) \<noteq> None"

interpretation shd: sync_callback "task_env asserts" law_htc_ssl_shutdown_cb
  "shutdown_inv s0" "keeps s0" tk_now asserts
  for asserts s0
proof (rule task_callback)
  show "conn_only (shutdown_inv s0)"
    by (auto simp: conn_only_def shutdown_inv_def keeps_def same_fds_def entry_kern_def kern_inv_def)
next
  fix s
  assume i: "shutdown_inv s0 s"
  then have k: "keeps s0 s" by (simp add: shutdown_inv_def)
  have "kern_inv (entry_kern s)" "hc_ssl (cs_conn s) \<noteq> None"
    using keeps_inv [OF k] keeps_fields(3) [OF k] i by (simp_all add: shutdown_inv_def)
  from shutdown_keeps [OF this(1,2)] keeps_trans [OF k] i
  show "\<exists>e t. law_htc_ssl_shutdown_cb s = Inr (e, t) \<and>
      (if e = LAW_ERR_OK then keeps s0 t else shutdown_inv s0 t \<and> tk_now t = tk_now s)"
    by (fastforce simp: shutdown_inv_def)
qed

text \<open>\<open>closes D s t\<close>: from \<open>s\<close> to \<open>t\<close> exactly \<open>D\<close> was closed, each once.\<close>

definition closes :: "fd set \<Rightarrow> ('b, 'w, 'a, 'k, 'z) entry_st_scheme \<Rightarrow> ('b, 'w, 'a, 'k, 'z) entry_st_scheme \<Rightarrow> bool" where
  "closes D s t \<longleftrightarrow> k_open (rq_kern t) = k_open (rq_kern s) - D \<and> k_bad (rq_kern t) = k_bad (rq_kern s)"

lemma keeps_closes: "keeps s t \<Longrightarrow> closes D t u \<Longrightarrow> closes D s u"
  by (simp add: closes_def keeps_fields)

lemma close_socket_closes:
  assumes "hc_socket (cs_conn s) \<in> k_open (rq_kern s)"
  shows "\<exists>t. close_socket s = Inr t \<and> closes {hc_socket (cs_conn s)} s t"
  using assms by (simp add: close_socket_def closes_def sys_close_def)

lemma failed_closes:
  assumes "user_ok E cfg" and "kern_inv (entry_kern s)" and "hc_socket (cs_conn s) \<in> k_open (rq_kern s)"
  shows "\<exists>t. bindE (setup_failed E cfg err action line code s) close_socket = Inr t \<and>
           closes {hc_socket (cs_conn s)} s t"
proof -
  obtain s1 where 1: "setup_failed E cfg err action line code s = Inr s1" "keeps s s1"
    by (rule setup_failed_keeps [OF assms(1,2)])
  with assms(3) have "hc_socket (cs_conn s1) \<in> k_open (rq_kern s1)" by (simp add: keeps_fields)
  from close_socket_closes [OF this] 1 keeps_closes [OF 1(2)] keeps_fields(4) [OF 1(2)]
  show ?thesis by auto
qed

text \<open>The socket is taken out of the event object; the outcome is only reported.\<close>

lemma task_ectl:
  "\<exists>e cs. v_ectl (task_env asserts) d op flags evs b s = Inr (e, s\<lparr>tk_ctl := cs\<rparr>)"
  by (auto simp: task_env_def split: list.splits intro: exI [of _ "tk_ctl s"])

lemma ctl_keeps: "kern_inv (entry_kern s) \<Longrightarrow> keeps s (s\<lparr>tk_ctl := cs\<rparr>)"
  by (simp add: keeps_def same_fds_def entry_kern_def kern_inv_def)

lemma delete_socket_closes:
  assumes E: "user_ok E cfg" "e_sync E = task_env asserts" and "kern_inv (entry_kern s)"
    and "hc_socket (cs_conn s) \<in> k_open (rq_kern s)"
  shows "\<exists>t. delete_socket E cfg s = Inr t \<and> closes {hc_socket (cs_conn s)} s t"
proof -
  obtain e cs where c: "v_ectl (task_env asserts) (hc_socket (cs_conn s)) LAW_EV_DEL 0 0 0 s = Inr (e, s\<lparr>tk_ctl := cs\<rparr>)"
    using task_ectl by blast
  let ?s = "s\<lparr>tk_ctl := cs\<rparr>"
  note k = ctl_keeps [OF assms(3), of cs]
  have o: "hc_socket (cs_conn ?s) \<in> k_open (rq_kern ?s)" using assms(4) by simp
  show ?thesis
    using c E(2) failed_closes [OF E(1) keeps_inv [OF k] o, of e "''law_ectl''" 804 e]
      close_socket_closes [OF o] keeps_closes [OF k]
    by (auto simp: delete_socket_def)
qed

lemma ssl_free_closes:
  assumes E: "user_ok E cfg" "e_sync E = task_env asserts" and k: "kern_inv (entry_kern s)"
    and x: "hc_ssl (cs_conn s) = Some x" "x \<in> k_open (rq_kern s)"
    and d: "hc_socket (cs_conn s) \<in> k_open (rq_kern s)" "hc_socket (cs_conn s) \<noteq> x"
  shows "\<exists>t. ssl_free E cfg s = Inr t \<and> closes {x, hc_socket (cs_conn s)} s t"
proof -
  let ?s = "s\<lparr>rq_kern := law_htc_ssl_free (cs_conn s) (rq_kern s)\<rparr>"
  have f: "rq_kern ?s = (rq_kern s)\<lparr>k_open := k_open (rq_kern s) - {x}\<rparr>"
    using x by (simp add: law_htc_ssl_free_def sys_close_def)
  have "kern_inv (entry_kern ?s)" using k unfolding entry_kern_def f by (auto simp: kern_inv_def)
  moreover have "hc_socket (cs_conn ?s) \<in> k_open (rq_kern ?s)" using d unfolding f by simp
  ultimately obtain t where t: "delete_socket E cfg ?s = Inr t" "closes {hc_socket (cs_conn ?s)} ?s t"
    using delete_socket_closes [OF E] by blast
  from t(2) have "closes {x, hc_socket (cs_conn s)} s t" unfolding closes_def f by auto
  with t(1) show ?thesis by (simp add: ssl_free_def)
qed

lemma shutdown_sync_keeps:
  assumes "kern_inv (entry_kern s)" and "hc_ssl (cs_conn s) \<noteq> None"
  shows "asserts \<and> law_htc_ssl_shutdown_sync (task_env asserts) timeout s = Inl SEL_ASSERT \<or>
    (\<exists>e t. law_htc_ssl_shutdown_sync (task_env asserts) timeout s = Inr (e, t) \<and> keeps s t)"
proof -
  have "shutdown_inv s s" using assms by (simp add: shutdown_inv_def keeps_refl)
  from shd.sync_result [OF this, of timeout "sync_fuel timeout" asserts "hc_socket (cs_conn s)"]
  show ?thesis
    by (auto simp: law_htc_ssl_shutdown_sync_def sync_fuel_def shutdown_inv_def split: if_splits)
qed

text \<open>With a session \<open>x\<close> of its own, the end of a secured connection.\<close>

lemma shutdown_closes:
  assumes E: "user_ok E cfg" "e_sync E = task_env asserts" and k: "kern_inv (entry_kern s)"
    and x: "hc_ssl (cs_conn s) = Some x" "x \<in> k_open (rq_kern s)"
    and d: "hc_socket (cs_conn s) \<in> k_open (rq_kern s)" "hc_socket (cs_conn s) \<noteq> x"
  shows "asserts \<and> (bindE (law_htc_ssl_shutdown_sync (e_sync E) timeout s) (\<lambda>(err, s).
               if err = LAW_ERR_OK then ssl_free E cfg s
               else if err = LAW_ERR_TIME then
                 bindE (setup_failed E cfg err a1 l1 c1 s) (ssl_free E cfg)
               else bindE (setup_failed E cfg err a2 l2 c2 s) (ssl_free E cfg))) = Inl SEL_ASSERT \<or>
    (\<exists>t. (bindE (law_htc_ssl_shutdown_sync (e_sync E) timeout s) (\<lambda>(err, s).
               if err = LAW_ERR_OK then ssl_free E cfg s
               else if err = LAW_ERR_TIME then
                 bindE (setup_failed E cfg err a1 l1 c1 s) (ssl_free E cfg)
               else bindE (setup_failed E cfg err a2 l2 c2 s) (ssl_free E cfg))) = Inr t \<and>
         closes {x, hc_socket (cs_conn s)} s t)"
proof -
  have fin: "\<exists>t. ssl_free E cfg u = Inr t \<and> closes {x, hc_socket (cs_conn s)} s t" if "keeps s u" for u
    using ssl_free_closes [OF E keeps_inv [OF that], of x] keeps_fields [OF that] x d keeps_closes [OF that]
    by auto
  have failed: "\<exists>v. setup_failed E cfg e a l c u = Inr v \<and> keeps s v" if "keeps s u" for e a l c u
    using setup_failed_keeps [OF E(1) keeps_inv [OF that]] keeps_trans [OF that] by metis
  have "hc_ssl (cs_conn s) \<noteq> None" using x(1) by simp
  from shutdown_sync_keeps [OF k this, of asserts timeout] show ?thesis
  proof (elim disjE exE conjE)
    fix e u
    assume u: "law_htc_ssl_shutdown_sync (task_env asserts) timeout s = Inr (e, u)" "keeps s u"
    obtain v w where "setup_failed E cfg e a1 l1 c1 u = Inr v" "keeps s v"
      "setup_failed E cfg e a2 l2 c2 u = Inr w" "keeps s w"
      using failed [OF u(2)] by metis
    with u fin [OF u(2)] fin [of v] fin [of w] E(2) show ?thesis by auto
  qed (simp_all add: E(2))
qed

lemma secured_closes:
  assumes E: "user_ok E cfg" "e_sync E = task_env asserts" and s: "servable C H str ok rx tx S T s"
    and d: "hc_socket (cs_conn s) \<in> k_open (rq_kern s)"
  shows "asserts \<and> entry_secured C H E cfg s = Inl SEL_ASSERT \<or>
    (\<exists>t. entry_secured C H E cfg s = Inr t \<and> closes {hc_socket (cs_conn s)} s t)"
proof -
  let ?d = "hc_socket (cs_conn s)"
  have k: "kern_inv (entry_kern s)" using s by (simp add: servable_def)
  from k show ?thesis
  proof (cases rule: entry_ssl_accept_result)
    case (2 e s1)
    have k1: "kern_inv (entry_kern s1)" by (rule same_fds_inv [OF 2(3)])
    obtain s2 where 3: "setup_failed E cfg e ''law_htc_ssl_accept'' 753 LAW_ERR_SSL_ACCEPT_FAILED s1 = Inr s2" "keeps s1 s2"
      by (rule setup_failed_keeps [OF E(1) k1])
    have o: "k_open (rq_kern s1) = k_open (rq_kern s)" "k_bad (rq_kern s1) = k_bad (rq_kern s)"
      using 2(3) by (simp_all add: same_fds_def entry_kern_def)
    have "hc_socket (cs_conn s2) \<in> k_open (rq_kern s2)" using d 2(4) o keeps_fields [OF 3(2)] by simp
    from delete_socket_closes [OF E keeps_inv [OF 3(2)] this] obtain t where
      "delete_socket E cfg s2 = Inr t" "closes {?d} s2 t"
      using 2(4) keeps_fields [OF 3(2)] by auto
    moreover from this have "closes {?d} s t" using o keeps_fields [OF 3(2)] by (simp add: closes_def)
    ultimately show ?thesis using 2(1,2) 3(1) by (auto simp: entry_secured_def)
  next
    case (1 e s1 x)
    have k1: "kern_inv (entry_kern s1)" by (rule adds_fds_inv [OF 1(5)])
    have o: "k_open (rq_kern s1) = {x} \<union> k_open (rq_kern s)" "x \<notin> k_open (rq_kern s)"
      "k_bad (rq_kern s1) = k_bad (rq_kern s)"
      using 1(5) by (auto simp: adds_fds_def entry_kern_def)
    have s1: "servable C H str ok rx tx S T s1"
      using s 1(3,4) k1 by (simp add: servable_def conn_inv_def mode_ok_def kern_inv_def entry_kern_def)
    have fin: "closes {x, ?d} s1 t \<Longrightarrow> closes {?d} s t" for t using o by (auto simp: closes_def)
    have run: "entry_secured C H E cfg s =
        bindE (law_hts_entry_stream C H E cfg s1) (\<lambda>(err, s).
           if err \<noteq> LAW_ERR_OK then ssl_free E cfg s
           else
             bindE (law_htc_ssl_shutdown_sync (e_sync E) (hc_ssl_shutdown_timeout cfg) s) (\<lambda>(err, s).
               if err = LAW_ERR_OK then ssl_free E cfg s
               else if err = LAW_ERR_TIME then
                 bindE (setup_failed E cfg err ''law_htc_ssl_shutdown_sync'' 774 LAW_ERR_SSL_SHUTDOWN_TIMEOUT s)
                   (ssl_free E cfg)
               else
                 bindE (setup_failed E cfg err ''law_htc_ssl_shutdown_sync'' 782 LAW_ERR_SSL_SHUTDOWN_FAILED s)
                   (ssl_free E cfg)))"
      using 1(1,2) by (auto simp: entry_secured_def)
    from handler_keeps [OF E s1] show ?thesis
    proof (elim disjE exE conjE)
      assume "asserts" "law_hts_entry_handler C H E cfg s1 = Inl SEL_ASSERT"
      then show ?thesis unfolding run by (simp add: law_hts_entry_stream_def)
    next
      fix e2 s2
      assume h: "law_hts_entry_handler C H E cfg s1 = Inr (e2, s2)" "keeps s1 s2"
      note f = keeps_fields [OF h(2)]
      have c: "hc_ssl (cs_conn s2) = Some x" "x \<in> k_open (rq_kern s2)" "hc_socket (cs_conn s2) \<in> k_open (rq_kern s2)"
        "hc_socket (cs_conn s2) \<noteq> x" "hc_socket (cs_conn s2) = ?d"
        using f 1(3) o d by auto
      have end_ok: "closes {x, hc_socket (cs_conn s2)} s2 t \<Longrightarrow> closes {?d} s t" for t
        using keeps_closes [OF h(2)] fin c(5) by simp
      show ?thesis
      proof (cases "e2 = LAW_ERR_OK")
        case False
        with ssl_free_closes [OF E keeps_inv [OF h(2)] c(1-4)] h(1) end_ok show ?thesis
          unfolding run by (auto simp: law_hts_entry_stream_def)
      next
        case True
        from shutdown_closes [OF E keeps_inv [OF h(2)] c(1-4), of "hc_ssl_shutdown_timeout cfg"
            "''law_htc_ssl_shutdown_sync''" 774 LAW_ERR_SSL_SHUTDOWN_TIMEOUT
            "''law_htc_ssl_shutdown_sync''" 782 LAW_ERR_SSL_SHUTDOWN_FAILED]
        show ?thesis
          unfolding run using h(1) True end_ok by (fastforce simp: law_hts_entry_stream_def)
      qed
    qed
  qed
qed

lemma entry_setup_full:
  assumes "user_ok E cfg" and "e_sync E = task_env asserts" and "servable C H str ok rx tx S T s"
    and "hc_socket (cs_conn s) \<in> k_open (rq_kern s)"
  shows "if ssl_ctx = None then law_hts_entry_setup C H E cfg ssl_ctx s = Inl SEL_ASSERT
         else asserts \<and> law_hts_entry_setup C H E cfg ssl_ctx s = Inl SEL_ASSERT \<or>
           (\<exists>t. law_hts_entry_setup C H E cfg ssl_ctx s = Inr t \<and>
              k_open (rq_kern t) = k_open (rq_kern s) - {hc_socket (cs_conn s)} \<and>
              k_bad (rq_kern t) = k_bad (rq_kern s))"
proof (cases "ssl_ctx = None")
  case True
  then show ?thesis by (simp add: law_hts_entry_setup_def)
next
  case False
  let ?es = "(cs_errs s)\<lparr>es_offset := 0\<rparr>" and ?d = "hc_socket (cs_conn s)"
  have err: "err_inv (cs_errs s)" using assms(3) by (simp add: servable_def conn_inv_def)
  then have c: "law_err_clear (cs_errs s) = Inr ?es" by (simp add: law_err_clear_def err_inv_def)
  obtain e cs where v: "v_ectl (task_env asserts) ?d LAW_EV_ADD 0 0 0 (s\<lparr>cs_errs := ?es\<rparr>) =
      Inr (e, s\<lparr>cs_errs := ?es, tk_ctl := cs\<rparr>)"
    using task_ectl [of asserts ?d LAW_EV_ADD 0 0 0 "s\<lparr>cs_errs := ?es\<rparr>"] by auto
  let ?s = "s\<lparr>cs_errs := ?es, tk_ctl := cs\<rparr>"
  have s1: "servable C H str ok rx tx S T ?s"
    using assms(3) err by (simp add: servable_def conn_inv_def mode_ok_def entry_kern_def kern_inv_def err_inv_def)
  then have k: "kern_inv (entry_kern ?s)" by (simp add: servable_def)
  have d: "hc_socket (cs_conn ?s) \<in> k_open (rq_kern ?s)" using assms(4) by simp
  have fin: "closes {?d} ?s t \<Longrightarrow> k_open (rq_kern t) = k_open (rq_kern s) - {?d} \<and> k_bad (rq_kern t) = k_bad (rq_kern s)"
    for t by (simp add: closes_def)
  consider "e \<noteq> LAW_ERR_OK" | "e = LAW_ERR_OK" "hc_security cfg \<noteq> LAW_HTC_SSL"
    | "e = LAW_ERR_OK" "hc_security cfg = LAW_HTC_SSL" by blast
  then show ?thesis
  proof cases
    case 1
    from failed_closes [OF assms(1) k d, of e "''law_ectl''" 733 e] False 1 c v assms(2) fin show ?thesis
      by (fastforce simp: law_hts_entry_setup_def)
  next
    case 2
    from handler_keeps [OF assms(1,2) s1] show ?thesis
    proof (elim disjE exE conjE)
      assume "asserts" "law_hts_entry_handler C H E cfg ?s = Inl SEL_ASSERT"
      with False 2 c v assms(2) show ?thesis by (simp add: law_hts_entry_setup_def law_hts_entry_stream_def)
    next
      fix e2 s2
      assume h: "law_hts_entry_handler C H E cfg ?s = Inr (e2, s2)" "keeps ?s s2"
      have "hc_socket (cs_conn s2) \<in> k_open (rq_kern s2)" using d keeps_fields [OF h(2)] by simp
      from delete_socket_closes [OF assms(1,2) keeps_inv [OF h(2)] this] keeps_closes [OF h(2)] fin
        keeps_fields(4) [OF h(2)] False 2 c v assms(2) h(1)
      show ?thesis by (fastforce simp: law_hts_entry_setup_def law_hts_entry_stream_def)
    qed
  next
    case 3
    from secured_closes [OF assms(1,2) s1 d] False 3 c v assms(2) fin show ?thesis
      by (fastforce simp: law_hts_entry_setup_def)
  qed
qed

text \<open>
  \<^verbatim>\<open>law_hts_entry_setup\<close> closes the connection's socket, once, and leaves every other
  descriptor and every SSL session as they were, whatever the peer, the event object, the handshake and the
  user's callbacks do: no error path leaks a session or releases one twice. It
  stops the process where the server has no SSL context, even if it is to serve unsecured
  connections only.
\<close>

theorem entry_setup_closes:
  assumes "user_ok E cfg" and "e_sync E = task_env asserts" and "servable C H str ok rx tx S T s"
    and "hc_socket (cs_conn s) \<in> k_open (rq_kern s)"
  shows "if ssl_ctx = None then law_hts_entry_setup C H E cfg ssl_ctx s = Inl SEL_ASSERT
         else asserts \<and> law_hts_entry_setup C H E cfg ssl_ctx s = Inl SEL_ASSERT \<or>
           (\<exists>t. law_hts_entry_setup C H E cfg ssl_ctx s = Inr t \<and>
              k_open (rq_kern t) = k_open (rq_kern s) - {hc_socket (cs_conn s)} \<and>
              k_bad (rq_kern t) = k_bad (rq_kern s))"
  by (rule entry_setup_full [OF assms])

section \<open>The context of the server\<close>

text \<open>
  Opening makes one context or leaves nothing behind, and closing releases it. The two calls that
  read the files fail with zero, which is taken for success.
\<close>

lemma htserver_open_close:
  assumes "kern_inv k"
  shows "\<exists>e c k'. law_htserver_open cert pkey ctx k = Inr (e, c, k') \<and>
           (if e = LAW_ERR_OK
            then \<exists>d. c = Some d \<and> adds_fds {d} k k' \<and> same_fds k (snd (law_htserver_close c k'))
            else same_fds k k' \<and> c = ctx)"
  using assms
proof (cases rule: sys_new_fd_cases)
  case (1 k1)
  from law_err_push_ok [of "k_errs k1" LAW_ERR_SSL "''SSL_CTX_new''"
      "''source/lawd/http_server.c''" "''law_hts_init_ssl_ctx''" 562] 1
  show ?thesis
    by (fastforce simp: law_htserver_open_def law_hts_init_ssl_ctx_def CTX_PUSH_def same_fds_def kern_inv_def)
next
  case (2 d k1)
  have c: "same_fds k (sys_close d k1)" using sys_close_adds [OF 2(2), of d] by (simp add: adds_fds_empty)
  have push: "\<exists>k2. CTX_PUSH e action line (sys_close d k1) = Inr (e, k2) \<and> same_fds k k2" for e action line
    using law_err_push_ok [of "k_errs (sys_close d k1)" e action "''source/lawd/http_server.c''"
        "''law_hts_init_ssl_ctx''" line] c
    by (fastforce simp: CTX_PUSH_def same_fds_def kern_inv_def)
  from 2 c push [of LAW_ERR_SSL "''SSL_CTX_use_certificate_file''" 571]
    push [of LAW_ERR_SSL "''SSL_CTX_use_PrivateKey_file''" 583]
  show ?thesis
    by (cases "cert < 0"; cases "pkey < 0")
      (auto simp: law_htserver_open_def law_hts_init_ssl_ctx_def law_htserver_close_def)
qed

section \<open>Examples\<close>

definition demo_entry :: "u8 list \<Rightarrow> ssl_outcome list \<Rightarrow> (rbuf, peer, tree, unit) entry_st" where
  "demo_entry rx answers =
     req_st.extend (demo_req rx []) \<lparr>rq_kern = (demo_kern [])\<lparr>k_open := {5, 6}, k_next := 7\<rparr>, rq_ssl = answers\<rparr>"

definition demo_user :: "((rbuf, peer, tree, unit) entry_st, unit, tree) entry_env" where
  "demo_user = \<lparr>e_sync = task_env False, e_on_error = (\<lambda>cb e s. Inr s), e_on_accept = (\<lambda>cb l hs s. Inr (LAW_ERR_OK, s))\<rparr>"

definition demo_https :: "unit law_htserver_cfg" where
  "demo_https = law_htserver_sanity\<lparr>hc_on_accept := Some (), hc_on_error := Some (), hc_security := LAW_HTC_SSL\<rparr>"

lemma demo_hts_user_ok: "user_ok demo_user demo_https"
  by (auto simp: user_ok_def demo_user_def demo_https_def keeps_refl)

lemma demo_entry_servable: "servable demo_clib demo_htp rb_str rb_ok pe_rx pe_tx rx [] (demo_entry rx answers)"
  using demo_req_inv [of rx "[]"] demo_htp_lang demo_clib_ok demo_req_in [of rx "[]"]
  by (simp add: servable_def demo_entry_def req_st.defs conn_inv_def mode_ok_def demo_conn_simps
      entry_kern_def kern_inv_def)

theorem entry_setup_closes_witness:
  "\<exists>t. law_hts_entry_setup demo_clib demo_htp demo_user demo_https (Some 6)
       (demo_entry [71, 13, 10, 13, 10] [SSL_POSITIVE, SSL_ZERO, SSL_NEGATIVE SSL_ERROR_SYSCALL]) = Inr t \<and>
     k_open (rq_kern t) = {6}"
proof -
  let ?s = "demo_entry [71, 13, 10, 13, 10] [SSL_POSITIVE, SSL_ZERO, SSL_NEGATIVE SSL_ERROR_SYSCALL]"
  have d: "hc_socket (cs_conn ?s) = 5" "k_open (rq_kern ?s) = {5, 6}"
    by (simp_all add: demo_entry_def req_st.defs demo_req_def task_st.defs demo_conn_task_def conn_st.defs demo_conn_def)
  have "hc_socket (cs_conn ?s) \<in> k_open (rq_kern ?s)" by (simp add: d)
  from entry_setup_closes [OF demo_hts_user_ok _ demo_entry_servable this, of False "Some 6"] show ?thesis
    by (simp add: demo_user_def d) auto
qed

end
