(* ===== verification/HttpServe.thy ===== *)
theory HttpServe
  imports HttpEntry HttpGroup
begin

text \<open>
  The entry of a request as a whole, \<^verbatim>\<open>law_hts_entry\<close> of \<^verbatim>\<open>http_server.c\<close>: the
  nodes it takes from its worker's pools (theory \<open>HttpGroup\<close>) become the buffers and stacks of
  the request that \<^verbatim>\<open>law_hts_entry_setup\<close> serves (theory \<open>HttpEntry\<close>).
\<close>

section \<open>The entry\<close>

text \<open>The request: its connection is the socket over the two buffers, its memory the heap and the stack.\<close>

definition entry_request ::
  "'cb law_htserver_cfg \<Rightarrow> fd \<Rightarrow> hts_nodes \<Rightarrow> ('b, 'j) hts_mem \<Rightarrow>
   ('b, 'w, 'a, 'j \<times> 'j) entry_st \<Rightarrow> ('b, 'w, 'a, 'j \<times> 'j) entry_st" where
  "entry_request cfg socket x m s = s\<lparr>
     cs_conn := \<lparr>hc_socket = socket, hc_mode = hc_security cfg, hc_ssl = None,
       hc_inbuf = hb_buffer (m_bufs m (n_in x)), hc_outbuf = hb_buffer (m_bufs m (n_out x))\<rparr>,
     rq_mem := (hk_stack (m_stks m (n_heap x)), hk_stack (m_stks m (n_stack x)))\<rparr>"

text \<open>The nodes hold what the request did to them.\<close>

definition entry_contents ::
  "hts_nodes \<Rightarrow> ('b, 'w, 'a, 'j \<times> 'j) entry_st \<Rightarrow> ('b, 'j) hts_mem \<Rightarrow> ('b, 'j) hts_mem" where
  "entry_contents x s m = m\<lparr>
     m_bufs := on_buf (\<lambda>_. cs_in s) (n_in x) (on_buf (\<lambda>_. cs_out s) (n_out x) (m_bufs m)),
     m_stks := on_stk (\<lambda>_. fst (rq_mem s)) (n_heap x) (on_stk (\<lambda>_. snd (rq_mem s)) (n_stack x) (m_stks m))\<rparr>"

text \<open>
  \<open>others\<close> is what the worker's other tasks do to the pools while this one waits for its
  peer. \<open>s\<close> holds the world outside, the resources of the process and the error stack.
\<close>

definition law_hts_entry ::
  "'b buf_heap pmt_ll \<Rightarrow> 'j stk_heap pmt_ll \<Rightarrow> ('b, 'w) conn_lib \<Rightarrow> ('j \<Rightarrow> 'j) \<Rightarrow> ('a, 'j \<times> 'j) htp \<Rightarrow>
   (('b, 'w, 'a, 'j \<times> 'j) entry_st, 'cb, 'a) entry_env \<Rightarrow> 'cb law_htserver_cfg \<Rightarrow> fd option \<Rightarrow> fd \<Rightarrow>
   (('b, 'j) hts_mem \<Rightarrow> ('b, 'j) hts_mem) \<Rightarrow> ('b, 'j) hts_mem \<Rightarrow> ('b, 'w, 'a, 'j \<times> 'j) entry_st \<Rightarrow>
   (sel_err_t \<times> ('b, 'j) hts_mem \<times> ('b, 'w, 'a, 'j \<times> 'j) entry_st) run" where
  "law_hts_entry LB LK C stk_zero H E cfg ssl_ctx socket others m s =
     bindE (entry_take LB LK (b_zero (cl_buf C)) stk_zero m) (\<lambda>(x, m).
     bindE (law_hts_entry_setup C H E cfg ssl_ctx (entry_request cfg socket x m s)) (\<lambda>s.
       Inr (LAW_ERR_OK, entry_give LB LK x (others (entry_contents x s m)), s)))"

section \<open>What it gets and leaves\<close>

text \<open>The buffers of the pools are well formed and large enough for a blank line.\<close>

definition bufs_ok where
  "bufs_ok P ok IO m \<longleftrightarrow> (\<forall>p \<in> IO. ok (hb_buffer (m_bufs m p)) \<and> 4 \<le> b_max P (hb_buffer (m_bufs m p)))"

lemma entry_take_contents:
  assumes "pmt_ll_spec LB" and "entry_take LB LK bz kz m = Inr (x, m')" and "n_in x \<noteq> n_out x"
  shows "hb_buffer (m_bufs m' (n_in x)) = bz (hb_buffer (m_bufs m (n_in x)))"
    and "hb_buffer (m_bufs m' (n_out x)) = bz (hb_buffer (m_bufs m (n_out x)))"
  using assms
  by (auto simp: entry_take_def law_hts_buf_pool_pop_def law_hts_stk_pool_pop_def pmt_ll_remove Let_def require_def
      on_buf_def law_hts_buf_iface_def law_hts_buf_set_next_def split: prod.splits if_splits)

lemma group_inv_nodes:
  assumes "group_inv n IO HK (m, x # held)"
  shows "n_in x \<in> IO" and "n_out x \<in> IO" and "n_in x \<noteq> n_out x"
  by (rule group_invE [OF assms], auto simp: one_place_def)+

lemma contents_inv:
  assumes "group_inv n IO HK (m, held)"
  shows "group_inv n IO HK (entry_contents x s m, held)"
proof (rule group_invE [OF assms])
  fix ns os hs ks
  assume g: "group_lists m ns os hs ks" and r: "\<forall>xs \<in> {ns, os, hs, ks}. length xs + length held = n"
    "one_place IO (ns @ os @ map n_in held @ map n_out held)"
    "one_place HK (hs @ ks @ map n_heap held @ map n_stack held)"
  have "group_lists (entry_contents x s m) ns os hs ks" using g by (simp add: group_lists_def entry_contents_def)
  from group_invI [OF this r] show ?thesis .
qed

lemma request_servable:
  assumes "conn_lib_ok C str ok rx tx" and "reqline_lang H" and "kern_inv (entry_kern s)"
    and "hc_security cfg = LAW_HTC_UNSECURED \<or> hc_security cfg = LAW_HTC_SSL"
    and "bufs_ok (cl_buf C) ok IO m" and "n_in x \<in> IO" "n_out x \<in> IO"
    and "hb_buffer (m_bufs m' (n_in x)) = b_zero (cl_buf C) (hb_buffer (m_bufs m (n_in x)))"
    and "hb_buffer (m_bufs m' (n_out x)) = b_zero (cl_buf C) (hb_buffer (m_bufs m (n_out x)))"
  shows "servable C H str ok rx tx (rx (cs_net s)) (tx (cs_net s)) (entry_request cfg socket x m' s)"
proof -
  let ?P = "cl_buf C"
  have P: "pgc_spec ?P str ok" using assms(1) by (simp add: conn_lib_ok_def)
  have z: "ok (b_zero ?P b) \<and> str (b_zero ?P b) = [] \<and> b_tell ?P (b_zero ?P b) = 0 \<and> b_max ?P (b_zero ?P b) = b_max ?P b"
    if "ok b" for b
    using pgc_specD(2) [OF P] that unfolding pgc_copy_spec_def by blast
  have b: "ok (hb_buffer (m_bufs m (n_in x)))" "4 \<le> b_max ?P (hb_buffer (m_bufs m (n_in x)))"
    "ok (hb_buffer (m_bufs m (n_out x)))"
    using assms(5-7) by (auto simp: bufs_ok_def)
  show ?thesis
    using assms(1-4) z [OF b(1)] z [OF b(3)] b(2)
    by (simp add: servable_def conn_inv_def mode_ok_def entry_request_def assms(8,9) entry_kern_def kern_inv_def)
qed

lemma entry_returned:
  assumes "pmt_ll_spec LB" and "pmt_ll_spec LK" and "group_inv n IO HK (m1, x # held)"
    and "\<And>x m. group_inv n IO HK (m, x # held) \<Longrightarrow> \<exists>xs ys. group_inv n IO HK (others m, xs @ x # ys)"
  shows "\<exists>held'. group_inv n IO HK (entry_give LB LK x (others (entry_contents x t m1)), held')"
proof -
  obtain xs ys where "group_inv n IO HK (others (entry_contents x t m1), xs @ x # ys)"
    using assms(4) [OF contents_inv [OF assms(3)]] by blast
  from group_give [OF assms(1,2) this] show ?thesis by blast
qed


section \<open>An example\<close>

definition serve_htp :: "(tree, nat \<times> nat) htp" where
  "serve_htp = \<lparr>hp_ast = ref_ast,
     hp_reqline = (\<lambda>bs m. ((LAW_ERR_OK, [Leaf 0 ''GET'', Node 0 [Leaf 3 ''/''], Leaf 0 ''HTTP/1.1''], length bs), m)),
     hp_headers = (\<lambda>bs m. ((LAW_ERR_OK, [], length bs), m))\<rparr>"

lemma serve_htp_lang: "reqline_lang serve_htp"
  by (simp add: reqline_lang_def serve_htp_def ref_ast_spec ref_ast_def) (simp add: ast_spec_def)

definition serve_st :: "(rbuf, peer, tree, nat \<times> nat) entry_st" where
  "serve_st = req_st.extend (task_st.extend (demo_conn_task [71, 13, 10, 13, 10] [] [])
       \<lparr>rq_mem = (0, 0), rq_line = no_reqline, rq_headers = []\<rparr>)
     \<lparr>rq_kern = (demo_kern [])\<lparr>k_open := {5, 6}, k_next := 7\<rparr>, rq_ssl = []\<rparr>"

definition serve_user :: "((rbuf, peer, tree, nat \<times> nat) entry_st, unit, tree) entry_env" where
  "serve_user = \<lparr>e_sync = task_env False, e_on_error = (\<lambda>cb e s. Inr s), e_on_accept = (\<lambda>cb l hs s. Inr (LAW_ERR_OK, s))\<rparr>"

definition serve_cfg :: "unit law_htserver_cfg" where
  "serve_cfg = law_htserver_sanity\<lparr>hc_on_accept := Some (), hc_on_error := Some ()\<rparr>"

definition serve_mem :: "(rbuf, nat) hts_mem" where
  "serve_mem = \<lparr>m_bufs = (\<lambda>p. \<lparr>hb_buffer = \<lparr>rb_str = [1], rb_tell = 0, rb_max = 8\<rparr>, hb_next = NULL\<rparr>),
     m_stks = (\<lambda>p. \<lparr>hk_stack = 7, hk_next = NULL\<rparr>),
     m_group = \<lparr>in_pool = 1, out_pool = 2, stack_pool = 4, heap_pool = 3\<rparr>\<rparr>"

lemma serve_mem_inv: "group_inv 1 {1, 2} {3, 4} (serve_mem, [])"
  by (rule group_invI [where ns = "[1]" and os = "[2]" and hs = "[3]" and ks = "[4]"])
    (auto simp: group_lists_def serve_mem_def law_hts_buf_get_next_def law_hts_stk_get_next_def one_place_def)


end
