(* ===== verification/WebSock.thy ===== *)
theory WebSock
  imports HttpConn Ast
begin

text \<open>
  WebSocket frames: \<^verbatim>\<open>web_sockets.c\<close>. The head of a frame is written to the output
  buffer of a connection in one of three formats and read from its input buffer in two steps, and
  the payload is masked by a repeated key. The file includes headers that are not in the repository and uses
  an error code, \<^verbatim>\<open>LAW_ERR_WS\<close>, a waiting function,
  \<^verbatim>\<open>law_srv_await2\<close>, and logging functions that are not there either; the first two
  are parameters, the messages it logs are left out.
\<close>

record law_ws_head =
  wh_fin :: u8
  wh_opcode :: u8
  wh_masking_key :: "u8 list"
  wh_payload_length :: u64

section \<open>Byte order\<close>

text \<open>\<^verbatim>\<open>ntohs\<close>, \<^verbatim>\<open>be64toh\<close> and their inverses: the most significant byte is first.\<close>

definition be_bytes :: "nat \<Rightarrow> nat \<Rightarrow> u8 list" where
  "be_bytes n x = rev (le_bytes n x)"

definition be_value :: "u8 list \<Rightarrow> nat" where
  "be_value bs = le_value (rev bs)"

lemma length_be_bytes [simp]: "length (be_bytes n x) = n"
  by (simp add: be_bytes_def)

lemma be_value_be_bytes: "be_value (be_bytes n x) = x mod 256 ^ n"
  by (simp add: be_value_def be_bytes_def le_value_le_bytes)

section \<open>Reading a head\<close>

text \<open>
  \<open>get_bytes\<close> is \<^verbatim>\<open>SEL_TRY_QUIETLY(pgc_buf_get(in, ...))\<close> with the rest of the
  function as its continuation.
\<close>

definition get_bytes ::
  "('b, 'w) conn_lib \<Rightarrow> nat \<Rightarrow> 'h \<Rightarrow> (u8 list \<Rightarrow> ('b, 'w, 'z) conn_st_scheme \<Rightarrow>
   (sel_err_t \<times> 'h \<times> ('b, 'w, 'z) conn_st_scheme) run) \<Rightarrow> ('b, 'w, 'z) conn_st_scheme \<Rightarrow>
   (sel_err_t \<times> 'h \<times> ('b, 'w, 'z) conn_st_scheme) run" where
  "get_bytes C n head cont s =
     (case b_get (cl_buf C) n (cs_in s) of
        (e, bs, b) \<Rightarrow>
          let s = set_in b s in if e \<noteq> LAW_ERR_OK then Inr (e, head, s) else cont bs s)"

definition law_ws_read_head_start ::
  "('b, 'w) conn_lib \<Rightarrow> sel_err_t \<Rightarrow> law_ws_head \<Rightarrow> ('b, 'w, 'z) conn_st_scheme \<Rightarrow>
   (sel_err_t \<times> law_ws_head \<times> ('b, 'w, 'z) conn_st_scheme) run" where
  "law_ws_read_head_start C LAW_ERR_WS head s =
     bindE (law_htc_ensure_input C 2 s) (\<lambda>(e, s).
       if e \<noteq> LAW_ERR_OK then Inr (e, head, s)
       else
         get_bytes C 2 head (\<lambda>buf s.
           let head = head\<lparr>wh_fin := drop_bit 7 (buf ! 0), wh_opcode := buf ! 0 AND 0xF\<rparr> in
           if buf ! 1 AND 0x80 = 0 then Inr (LAW_ERR_WS, head, s)
           else Inr (LAW_ERR_OK, head\<lparr>wh_payload_length := ucast (buf ! 1 AND 0x7F)\<rparr>, s)) s)"

definition law_ws_read_head_small ::
  "('b, 'w) conn_lib \<Rightarrow> law_ws_head \<Rightarrow> ('b, 'w, 'z) conn_st_scheme \<Rightarrow>
   (sel_err_t \<times> law_ws_head \<times> ('b, 'w, 'z) conn_st_scheme) run" where
  "law_ws_read_head_small C head s =
     bindE (law_htc_ensure_input C 4 s) (\<lambda>(e, s).
       if e \<noteq> LAW_ERR_OK then Inr (e, head, s)
       else
         get_bytes C 4 head (\<lambda>key s. Inr (LAW_ERR_OK, head\<lparr>wh_masking_key := key\<rparr>, s)) s)"

definition law_ws_read_head_medium ::
  "('b, 'w) conn_lib \<Rightarrow> law_ws_head \<Rightarrow> ('b, 'w, 'z) conn_st_scheme \<Rightarrow>
   (sel_err_t \<times> law_ws_head \<times> ('b, 'w, 'z) conn_st_scheme) run" where
  "law_ws_read_head_medium C head s =
     bindE (law_htc_ensure_input C 6 s) (\<lambda>(e, s).
       if e \<noteq> LAW_ERR_OK then Inr (e, head, s)
       else
         get_bytes C 2 head (\<lambda>len s.
           let head = head\<lparr>wh_payload_length := word_of_nat (be_value len)\<rparr> in
           get_bytes C 4 head (\<lambda>key s. Inr (LAW_ERR_OK, head\<lparr>wh_masking_key := key\<rparr>, s)) s) s)"

text \<open>The length is converted, but it is not stored in the head.\<close>

definition law_ws_read_head_large ::
  "('b, 'w) conn_lib \<Rightarrow> law_ws_head \<Rightarrow> ('b, 'w, 'z) conn_st_scheme \<Rightarrow>
   (sel_err_t \<times> law_ws_head \<times> ('b, 'w, 'z) conn_st_scheme) run" where
  "law_ws_read_head_large C head s =
     bindE (law_htc_ensure_input C 12 s) (\<lambda>(e, s).
       if e \<noteq> LAW_ERR_OK then Inr (e, head, s)
       else
         get_bytes C 8 head (\<lambda>len s.
           get_bytes C 4 head (\<lambda>key s. Inr (LAW_ERR_OK, head\<lparr>wh_masking_key := key\<rparr>, s)) s) s)"

text \<open>
  The choice of the second call; after the first the length is at most 127. \<open>await\<close> stands for
  \<^verbatim>\<open>law_srv_await2\<close>, which repeats a call until it does not want to wait.
\<close>

definition law_ws_read_head ::
  "('b, 'w) conn_lib \<Rightarrow> sel_err_t \<Rightarrow>
   ((law_ws_head \<Rightarrow> ('b, 'w, 'z) conn_st_scheme \<Rightarrow> (sel_err_t \<times> law_ws_head \<times> ('b, 'w, 'z) conn_st_scheme) run) \<Rightarrow>
    law_ws_head \<Rightarrow> ('b, 'w, 'z) conn_st_scheme \<Rightarrow> (sel_err_t \<times> law_ws_head \<times> ('b, 'w, 'z) conn_st_scheme) run) \<Rightarrow>
   law_ws_head \<Rightarrow> ('b, 'w, 'z) conn_st_scheme \<Rightarrow>
   (sel_err_t \<times> law_ws_head \<times> ('b, 'w, 'z) conn_st_scheme) run" where
  "law_ws_read_head C LAW_ERR_WS await head s =
     bindE (await (law_ws_read_head_start C LAW_ERR_WS) head s) (\<lambda>(e, head, s).
       if e \<noteq> LAW_ERR_OK then Inr (e, head, s)
       else if wh_payload_length head \<le> 125 then await (law_ws_read_head_small C) head s
       else if wh_payload_length head = 126 then await (law_ws_read_head_medium C) head s
       else if wh_payload_length head = 127 then await (law_ws_read_head_large C) head s
       else Inl NULL_CALL)"

section \<open>Writing a head\<close>

definition ws_byte0 :: "law_ws_head \<Rightarrow> u8" where
  "ws_byte0 head = push_bit 7 (1 AND wh_fin head) OR wh_opcode head"

text \<open>\<open>SEL_TRY_QUIETLY(pgc_buf_put(out, ...))\<close> for the pieces one after the other.\<close>

primrec put_pieces ::
  "('b, 'w) conn_lib \<Rightarrow> u8 list list \<Rightarrow> ('b, 'w, 'z) conn_st_scheme \<Rightarrow>
   sel_err_t \<times> ('b, 'w, 'z) conn_st_scheme" where
  "put_pieces C [] s = (LAW_ERR_OK, s)"
| "put_pieces C (bs # rest) s =
     (case b_put (cl_buf C) bs (cs_out s) of
        (e, b) \<Rightarrow> if e \<noteq> LAW_ERR_OK then (e, set_out b s) else put_pieces C rest (set_out b s))"

definition ws_write ::
  "('b, 'w) conn_lib \<Rightarrow> nat \<Rightarrow> u8 list list \<Rightarrow> ('b, 'w, 'z) conn_st_scheme \<Rightarrow>
   (sel_err_t \<times> ('b, 'w, 'z) conn_st_scheme) run" where
  "ws_write C n pieces s =
     bindE (law_htc_ensure_output C n s) (\<lambda>(e, s).
       if e \<noteq> LAW_ERR_OK then Inr (e, s) else Inr (put_pieces C pieces s))"

definition law_ws_write_head_small ::
  "('b, 'w) conn_lib \<Rightarrow> law_ws_head \<Rightarrow> ('b, 'w, 'z) conn_st_scheme \<Rightarrow>
   (sel_err_t \<times> ('b, 'w, 'z) conn_st_scheme) run" where
  "law_ws_write_head_small C head s =
     require SEL_ASSERT (wh_payload_length head \<le> 125)
       (ws_write C 6 [[ws_byte0 head, 0x80 OR ucast (wh_payload_length head)], wh_masking_key head] s)"

definition law_ws_write_head_medium ::
  "('b, 'w) conn_lib \<Rightarrow> law_ws_head \<Rightarrow> ('b, 'w, 'z) conn_st_scheme \<Rightarrow>
   (sel_err_t \<times> ('b, 'w, 'z) conn_st_scheme) run" where
  "law_ws_write_head_medium C head s =
     require SEL_ASSERT (wh_payload_length head \<le> 0xFFFF)
       (ws_write C 8 [[ws_byte0 head, 0x80 OR 126], be_bytes 2 (unat (wh_payload_length head)), wh_masking_key head] s)"

definition law_ws_write_head_large ::
  "('b, 'w) conn_lib \<Rightarrow> law_ws_head \<Rightarrow> ('b, 'w, 'z) conn_st_scheme \<Rightarrow>
   (sel_err_t \<times> ('b, 'w, 'z) conn_st_scheme) run" where
  "law_ws_write_head_large C head s =
     ws_write C 14 [[ws_byte0 head, 0x80 OR 127], be_bytes 8 (unat (wh_payload_length head)), wh_masking_key head] s"

definition law_ws_write_head ::
  "('b, 'w) conn_lib \<Rightarrow> law_ws_head \<Rightarrow> ('b, 'w, 'z) conn_st_scheme \<Rightarrow>
   (sel_err_t \<times> ('b, 'w, 'z) conn_st_scheme) run" where
  "law_ws_write_head C head s =
     (if wh_payload_length head \<le> 125 then law_ws_write_head_small C head s
      else if wh_payload_length head \<le> 0xFFFF then law_ws_write_head_medium C head s
      else law_ws_write_head_large C head s)"

section \<open>Masking\<close>

record law_ws_xor =
  wx_masking_key :: "u8 list"
  wx_offset :: nat

definition law_ws_xor_init :: "u8 list \<Rightarrow> law_ws_xor" where
  "law_ws_xor_init key = \<lparr>wx_masking_key = key, wx_offset = 0\<rparr>"

text \<open>\<open>rnd\<close> is what \<^verbatim>\<open>RAND_bytes\<close> gives.\<close>

definition law_ws_xor_gen :: "u8 list \<Rightarrow> law_ws_xor" where
  "law_ws_xor_gen rnd = \<lparr>wx_masking_key = rnd, wx_offset = 0\<rparr>"

text \<open>The offset is a \<^verbatim>\<open>size_t\<close>; that it wraps round does not show, as four divides its modulus.\<close>

primrec law_ws_xor_apply :: "law_ws_xor \<Rightarrow> u8 list \<Rightarrow> u8 list \<times> law_ws_xor" where
  "law_ws_xor_apply x [] = ([], x)"
| "law_ws_xor_apply x (b # bs) =
     (let j = wx_offset x mod 4 in
      case law_ws_xor_apply (x\<lparr>wx_offset := wx_offset x + 1\<rparr>) bs of
        (cs, x') \<Rightarrow> ((b XOR wx_masking_key x ! j) # cs, x'))"

section \<open>The format of a head\<close>

text \<open>
  The bytes of a head (RFC 6455, 5.2): final bit and opcode, mask bit and length, the length again in
  two or eight bytes where seven bits are too few, and the key.
\<close>

definition ws_length_bytes :: "u64 \<Rightarrow> u8 list" where
  "ws_length_bytes n =
     (if n \<le> 125 then [0x80 OR ucast n]
      else if n \<le> 0xFFFF then (0x80 OR 126) # be_bytes 2 (unat n)
      else (0x80 OR 127) # be_bytes 8 (unat n))"

definition ws_bytes :: "law_ws_head \<Rightarrow> u8 list" where
  "ws_bytes head = ws_byte0 head # ws_length_bytes (wh_payload_length head) @ wh_masking_key head"

definition ws_head_ok :: "law_ws_head \<Rightarrow> bool" where
  "ws_head_ok head \<longleftrightarrow> wh_fin head \<le> 1 \<and> wh_opcode head < 16 \<and> length (wh_masking_key head) = 4"

lemma bit_0x80: "bit (0x80 :: 'a :: len word) n \<longleftrightarrow> n = 7 \<and> 7 < LENGTH('a)" "bit (0x80 :: int) n \<longleftrightarrow> n = 7"
proof -
  have w: "(0x80 :: 'a word) = push_bit 7 1" and i: "(0x80 :: int) = push_bit 7 1" by simp_all
  show "bit (0x80 :: 'a word) n \<longleftrightarrow> n = 7 \<and> 7 < LENGTH('a)"
    unfolding w by (simp only: bit_simps) auto
  show "bit (0x80 :: int) n \<longleftrightarrow> n = 7"
    unfolding i by (simp only: bit_push_bit_iff bit_1_iff) auto
qed

lemma low_bits:
  fixes x :: "'a::len word"
  assumes "x < 2 ^ k"
  shows "bit x n \<Longrightarrow> n < k"
proof -
  assume "bit x n"
  moreover have "take_bit k x = x" using assms by (simp add: take_bit_eq_mod mod_word_less)
  ultimately show "n < k" by (metis bit_take_bit_iff)
qed

lemma length_byte:
  fixes p :: u64
  assumes "p < 128"
  shows "((0x80 :: u8) OR ucast p) AND 0x80 \<noteq> 0" and "ucast (((0x80 :: u8) OR ucast p) AND 0x7F) = p"
proof -
  have "bit (((0x80 :: u8) OR ucast p) AND 0x80) 7" by (simp add: bit_simps bit_0x80)
  then show "((0x80 :: u8) OR ucast p) AND 0x80 \<noteq> 0" by (metis bit_0_eq bot_apply bot_bool_def)
  have m: "(0x7F :: u8) = mask 7" by (simp add: mask_eq_decr_exp)
  have p: "bit p n \<Longrightarrow> n < 7" for n using low_bits [of p 7] assms by simp
  show "ucast (((0x80 :: u8) OR ucast p) AND 0x7F) = p"
    unfolding m by (rule bit_word_eqI) (auto simp: bit_simps bit_0x80 dest: p)
qed

lemma first_byte:
  assumes "wh_fin head \<le> 1" and "wh_opcode head < 16"
  shows "drop_bit 7 (ws_byte0 head) = wh_fin head" and "ws_byte0 head AND 0xF = wh_opcode head"
proof -
  have m: "(0xF :: u8) = mask 4" by (simp add: mask_eq_decr_exp)
  have o: "bit (wh_opcode head) n \<Longrightarrow> n < 4" for n
    using low_bits [of "wh_opcode head" 4] assms(2) by simp
  have "wh_fin head < 2 ^ 1" using assms(1) by (simp add: word_le_nat_alt word_less_nat_alt)
  then have f: "bit (wh_fin head) n \<Longrightarrow> n < 1" for n by (rule low_bits)
  show "drop_bit 7 (ws_byte0 head) = wh_fin head"
    unfolding ws_byte0_def by (rule bit_word_eqI) (auto simp: bit_simps dest: o f)
  show "ws_byte0 head AND 0xF = wh_opcode head"
    unfolding ws_byte0_def m by (rule bit_word_eqI) (auto simp: bit_simps dest: o)
qed

section \<open>Writing\<close>

lemma put_pieces_ok:
  fixes s :: "('b, 'w, 'z) conn_st_scheme"
  assumes "pgc_spec (cl_buf C) str ok"
  shows "ok (cs_out s) \<Longrightarrow>
    length (concat pieces) \<le> b_max (cl_buf C) (cs_out s) - (b_end (cl_buf C) (cs_out s) - b_tell (cl_buf C) (cs_out s)) \<Longrightarrow>
    \<exists>b. put_pieces C pieces s = (LAW_ERR_OK, set_out b s) \<and>
        appended (cl_buf C) str ok (cs_out s) (concat pieces) b"
proof (induction pieces arbitrary: s)
  case Nil
  then show ?case by (intro exI [of _ "cs_out s"]) (simp add: appended_def)
next
  case (Cons bs rest)
  let ?P = "cl_buf C"
  obtain b where b: "b_put ?P bs (cs_out s) = (LAW_ERR_OK, b)" "appended ?P str ok (cs_out s) bs b"
    by (rule pgc_put [OF assms Cons.prems(1), of bs]) (use Cons.prems(2) in auto)
  have ok: "ok b" using b(2) by (simp add: appended_def)
  have len: "b_end ?P b = b_end ?P (cs_out s) + length bs"
    using b(2) pgc_pos(3) [OF assms ok] pgc_pos(3) [OF assms Cons.prems(1)] by (simp add: appended_def)
  have "length (concat rest) \<le> b_max ?P b - (b_end ?P b - b_tell ?P b)"
    using Cons.prems(2) b(2) len pgc_pos(1) [OF assms Cons.prems(1)] by (simp add: appended_def)
  with Cons.IH [of "set_out b s"] ok obtain b' where
    b': "put_pieces C rest (set_out b s) = (LAW_ERR_OK, set_out b' (set_out b s))"
      "appended ?P str ok b (concat rest) b'" by auto
  have "set_out b' (set_out b s) = set_out b' s" by (simp add: set_out_def)
  with b b' show ?case by (intro exI [of _ b']) (simp add: appended_def)
qed

lemma ws_write_full:
  assumes "conn_lib_ok C str ok rx tx" and "conn_inv C str ok rx tx S T s" and "cl_zero C \<noteq> LAW_ERR_OK"
    and "n = length (concat pieces)"
  shows "\<exists>e s' s1 k. ws_write C n pieces s = Inr (e, s') \<and> sent C str ok rx tx k s s1 \<and>
     (if e = LAW_ERR_OK then \<exists>b. s' = set_out b s1 \<and> appended (cl_buf C) str ok (cs_out s1) (concat pieces) b
      else s' = s1)"
proof -
  obtain e s1 k where r: "law_htc_ensure_output C n s = Inr (e, s1)" "sent C str ok rx tx k s s1"
    "e = LAW_ERR_OK \<longrightarrow> n \<le> b_max (cl_buf C) (cs_out s1) -
              (b_end (cl_buf C) (cs_out s1) - b_tell (cl_buf C) (cs_out s1))"
    using ensure_output_ok [OF assms(1-3)] by blast
  have P: "pgc_spec (cl_buf C) str ok" using assms(1) by (simp add: conn_lib_ok_def)
  show ?thesis
  proof (cases "e = LAW_ERR_OK")
    case True
    with r(3) assms(4) put_pieces_ok [OF P sentD(1) [OF r(2)], of pieces] obtain b where
      "put_pieces C pieces s1 = (LAW_ERR_OK, set_out b s1)"
      "appended (cl_buf C) str ok (cs_out s1) (concat pieces) b" by auto
    with True r have "ws_write C n pieces s = Inr (LAW_ERR_OK, set_out b s1) \<and>
        sent C str ok rx tx k s s1 \<and> appended (cl_buf C) str ok (cs_out s1) (concat pieces) b"
      by (simp add: ws_write_def)
    then show ?thesis by auto
  next
    case False
    with r show ?thesis
      by (intro exI [of _ e] exI [of _ s1] exI [of _ k]) (simp add: ws_write_def)
  qed
qed

lemma write_head_pieces:
  assumes "length (wh_masking_key head) = 4"
  obtains n pieces where "law_ws_write_head C head s = ws_write C n pieces s"
    and "n = length (concat pieces)" and "concat pieces = ws_bytes head"
proof (cases "wh_payload_length head \<le> 125")
  case True
  then show ?thesis
    by (intro that [of 6 "[[ws_byte0 head, 0x80 OR ucast (wh_payload_length head)], wh_masking_key head]"])
      (simp_all add: law_ws_write_head_def law_ws_write_head_small_def ws_bytes_def ws_length_bytes_def assms)
next
  case False
  show ?thesis
  proof (cases "wh_payload_length head \<le> 0xFFFF")
    case True
    with False show ?thesis
      by (intro that [of 8 "[[ws_byte0 head, 0x80 OR 126], be_bytes 2 (unat (wh_payload_length head)), wh_masking_key head]"])
        (simp_all add: law_ws_write_head_def law_ws_write_head_medium_def ws_bytes_def ws_length_bytes_def assms)
  next
    case large: False
    with False show ?thesis
      by (intro that [of 14 "[[ws_byte0 head, 0x80 OR 127], be_bytes 8 (unat (wh_payload_length head)), wh_masking_key head]"])
        (simp_all add: law_ws_write_head_def law_ws_write_head_large_def ws_bytes_def ws_length_bytes_def assms)
  qed
qed

lemma write_head_full:
  assumes "conn_lib_ok C str ok rx tx" and "conn_inv C str ok rx tx S T s" and "cl_zero C \<noteq> LAW_ERR_OK"
    and "length (wh_masking_key head) = 4"
  shows "\<exists>e s' s1 k. law_ws_write_head C head s = Inr (e, s') \<and> sent C str ok rx tx k s s1 \<and>
     (if e = LAW_ERR_OK then \<exists>b. s' = set_out b s1 \<and> appended (cl_buf C) str ok (cs_out s1) (ws_bytes head) b
      else s' = s1)"
proof -
  obtain n pieces where p: "law_ws_write_head C head s = ws_write C n pieces s"
    "n = length (concat pieces)" "concat pieces = ws_bytes head"
    using assms(4) by (rule write_head_pieces)
  show ?thesis using ws_write_full [OF assms(1-3) p(2)] unfolding p(1,3) .
qed

section \<open>Reading back\<close>

definition ahead :: "('b, 'w) conn_lib \<Rightarrow> ('b \<Rightarrow> u8 list) \<Rightarrow> ('b, 'w, 'z) conn_st_scheme \<Rightarrow> u8 list" where
  "ahead C str s = drop (b_tell (cl_buf C) (cs_in s)) (str (cs_in s))"

definition can_read where
  "can_read C str ok s xs rest \<longleftrightarrow>
     pgc_spec (cl_buf C) str ok \<and> ok (cs_in s) \<and> ahead C str s = xs @ rest \<and>
     length (xs @ rest) + 12 \<le> b_max (cl_buf C) (cs_in s) \<and> b_max (cl_buf C) (cs_in s) < 2 ^ 64"

lemma can_read_length:
  assumes "can_read C str ok s xs rest"
  shows "b_end (cl_buf C) (cs_in s) - b_tell (cl_buf C) (cs_in s) = length (xs @ rest)"
  using assms pgc_pos(3) unfolding can_read_def ahead_def by (metis length_drop)

lemma get_bytes_step:
  assumes "can_read C str ok s (xs @ ys) rest" and "length xs = n"
  obtains b where "b_get (cl_buf C) n (cs_in s) = (LAW_ERR_OK, xs, b)" and "can_read C str ok (set_in b s) ys rest"
proof -
  let ?P = "cl_buf C"
  have P: "pgc_spec ?P str ok" "ok (cs_in s)" using assms by (simp_all add: can_read_def)
  obtain b where b: "b_get ?P (length xs) (cs_in s) =
      (LAW_ERR_OK, take (length xs) (drop (b_tell ?P (cs_in s)) (str (cs_in s))), b)"
    "moved ?P str ok (cs_in s) (b_tell ?P (cs_in s) + length xs) b"
    by (rule pgc_get [OF P, of "length xs"]) (use can_read_length [OF assms(1)] in auto)
  have d: "drop (b_tell ?P (cs_in s)) (str (cs_in s)) = xs @ ys @ rest"
    using assms(1) by (simp add: can_read_def ahead_def)
  have "drop (b_tell ?P (cs_in s) + length xs) (str (cs_in s)) = drop (length xs) (xs @ ys @ rest)"
    using d by (metis drop_drop add.commute)
  then have "can_read C str ok (set_in b s) ys rest"
    using assms(1) b(2) by (simp add: can_read_def ahead_def moved_def)
  with b(1) d assms(2) show thesis by (intro that [of b]) simp_all
qed

lemma ensure_input_ready:
  assumes "can_read C str ok s xs rest" and "n \<le> length xs" and "n \<le> 12"
  shows "law_htc_ensure_input C n s = Inr (LAW_ERR_OK, s)"
proof -
  have "length (xs @ rest) + n \<le> b_max (cl_buf C) (cs_in s)" "b_max (cl_buf C) (cs_in s) < 2 ^ 64"
    using assms by (simp_all add: can_read_def)
  then show ?thesis using can_read_length [OF assms(1)] assms(2) by (simp add: law_htc_ensure_input_def Let_def)
qed

lemma can_read_append: "can_read C str ok s xs (ys @ rest) \<longleftrightarrow> can_read C str ok s (xs @ ys) rest"
  by (simp add: can_read_def)

lemma read_start:
  assumes "can_read C str ok s [b0, b1] rest" and "b1 AND 0x80 \<noteq> 0"
  obtains s' where "law_ws_read_head_start C ws head s =
      Inr (LAW_ERR_OK, head\<lparr>wh_fin := drop_bit 7 b0, wh_opcode := b0 AND 0xF,
        wh_payload_length := ucast (b1 AND 0x7F)\<rparr>, s')"
    and "can_read C str ok s' [] rest"
proof -
  have r: "can_read C str ok s ([b0, b1] @ []) rest" using assms(1) by simp
  obtain b where "b_get (cl_buf C) 2 (cs_in s) = (LAW_ERR_OK, [b0, b1], b)" "can_read C str ok (set_in b s) [] rest"
    by (rule get_bytes_step [OF r, of 2]) simp
  moreover have "law_htc_ensure_input C 2 s = Inr (LAW_ERR_OK, s)"
    by (rule ensure_input_ready [OF assms(1)]) simp_all
  ultimately show thesis
    using assms(2) by (intro that [of "set_in b s"]) (simp_all add: law_ws_read_head_start_def get_bytes_def Let_def)
qed

lemma read_small:
  assumes "can_read C str ok s key rest" and "length key = 4"
  obtains s' where "law_ws_read_head_small C head s = Inr (LAW_ERR_OK, head\<lparr>wh_masking_key := key\<rparr>, s')"
    and "can_read C str ok s' [] rest"
proof -
  have r: "can_read C str ok s (key @ []) rest" using assms(1) by simp
  obtain b where "b_get (cl_buf C) 4 (cs_in s) = (LAW_ERR_OK, key, b)" "can_read C str ok (set_in b s) [] rest"
    by (rule get_bytes_step [OF r assms(2)])
  moreover have "law_htc_ensure_input C 4 s = Inr (LAW_ERR_OK, s)"
    by (rule ensure_input_ready [OF assms(1)]) (simp_all add: assms(2))
  ultimately show thesis
    by (intro that [of "set_in b s"]) (simp_all add: law_ws_read_head_small_def get_bytes_def)
qed

text \<open>The two long formats differ in the number of bytes, and in whether the length is kept.\<close>

lemma read_two:
  assumes "can_read C str ok s (len @ key) rest" and "length len = n" and "length key = 4"
  obtains b1 b2 where "b_get (cl_buf C) n (cs_in s) = (LAW_ERR_OK, len, b1)"
    and "b_get (cl_buf C) 4 b1 = (LAW_ERR_OK, key, b2)" and "can_read C str ok (set_in b2 s) [] rest"
proof -
  obtain b1 where b1: "b_get (cl_buf C) n (cs_in s) = (LAW_ERR_OK, len, b1)" "can_read C str ok (set_in b1 s) key rest"
    by (rule get_bytes_step [OF assms(1,2)])
  have "can_read C str ok (set_in b1 s) (key @ []) rest" using b1(2) by simp
  from get_bytes_step [OF this assms(3)] obtain b2 where
    "b_get (cl_buf C) 4 b1 = (LAW_ERR_OK, key, b2)" "can_read C str ok (set_in b2 s) [] rest" by auto
  with b1(1) that show thesis by metis
qed

lemma read_medium:
  assumes "can_read C str ok s (len @ key) rest" and "length len = 2" and "length key = 4"
  obtains s' where "law_ws_read_head_medium C head s =
      Inr (LAW_ERR_OK, head\<lparr>wh_payload_length := word_of_nat (be_value len), wh_masking_key := key\<rparr>, s')"
    and "can_read C str ok s' [] rest"
proof -
  have e: "law_htc_ensure_input C 6 s = Inr (LAW_ERR_OK, s)"
    by (rule ensure_input_ready [OF assms(1)]) (use assms in auto)
  obtain b1 b2 where "b_get (cl_buf C) 2 (cs_in s) = (LAW_ERR_OK, len, b1)"
    "b_get (cl_buf C) 4 b1 = (LAW_ERR_OK, key, b2)" "can_read C str ok (set_in b2 s) [] rest"
    by (rule read_two [OF assms])
  with e show thesis
    by (intro that [of "set_in b2 s"]) (simp_all add: law_ws_read_head_medium_def get_bytes_def Let_def)
qed

lemma read_large:
  assumes "can_read C str ok s (len @ key) rest" and "length len = 8" and "length key = 4"
  obtains s' where "law_ws_read_head_large C head s = Inr (LAW_ERR_OK, head\<lparr>wh_masking_key := key\<rparr>, s')"
    and "can_read C str ok s' [] rest"
proof -
  have e: "law_htc_ensure_input C 12 s = Inr (LAW_ERR_OK, s)"
    by (rule ensure_input_ready [OF assms(1)]) (use assms in auto)
  obtain b1 b2 where "b_get (cl_buf C) 8 (cs_in s) = (LAW_ERR_OK, len, b1)"
    "b_get (cl_buf C) 4 b1 = (LAW_ERR_OK, key, b2)" "can_read C str ok (set_in b2 s) [] rest"
    by (rule read_two [OF assms])
  with e show thesis
    by (intro that [of "set_in b2 s"]) (simp_all add: law_ws_read_head_large_def get_bytes_def Let_def)
qed

text \<open>A waiting function returns what the call returns when that is not that it has to wait.\<close>

definition awaits where
  "awaits await \<longleftrightarrow>
     (\<forall>f h s e h' s'. f h s = Inr (e, h', s') \<longrightarrow> e \<noteq> LAW_ERR_WANTR \<longrightarrow> e \<noteq> LAW_ERR_WANTW \<longrightarrow>
        await f h s = Inr (e, h', s'))"

definition ws_head_read :: "law_ws_head \<Rightarrow> law_ws_head" where
  "ws_head_read head = (if wh_payload_length head \<le> 0xFFFF then head else head\<lparr>wh_payload_length := 127\<rparr>)"

lemma awaitsD:
  assumes "awaits await"
  shows "f h s = Inr (LAW_ERR_OK, h', s') \<Longrightarrow> await f h s = Inr (LAW_ERR_OK, h', s')"
  using assms unfolding awaits_def by simp

text \<open>The second byte and what follows it, for each format.\<close>

lemma read_rest:
  assumes "can_read C str ok s (tl (ws_length_bytes n) @ key) rest" and "length key = 4" and "awaits await"
    and "wh_payload_length h = ucast (hd (ws_length_bytes n) AND 0x7F)"
  obtains s' where "(if wh_payload_length h \<le> 125 then await (law_ws_read_head_small C) h s
       else if wh_payload_length h = 126 then await (law_ws_read_head_medium C) h s
       else if wh_payload_length h = 127 then await (law_ws_read_head_large C) h s
       else Inl NULL_CALL) =
      Inr (LAW_ERR_OK, h\<lparr>wh_payload_length := if n \<le> 0xFFFF then n else 127, wh_masking_key := key\<rparr>, s')"
    and "can_read C str ok s' [] rest"
proof (cases "n \<le> 125")
  case True
  have "n < 128" using True by (simp add: word_le_nat_alt word_less_nat_alt)
  with True assms(4) have p: "wh_payload_length h = n" by (simp add: ws_length_bytes_def length_byte(2))
  have "n \<le> 0xFFFF" using True by (simp add: word_le_nat_alt)
  from True assms(1) have "can_read C str ok s key rest" by (simp add: ws_length_bytes_def)
  from read_small [OF this assms(2), of h] obtain s' where
    "law_ws_read_head_small C h s = Inr (LAW_ERR_OK, h\<lparr>wh_masking_key := key\<rparr>, s')" "can_read C str ok s' [] rest"
    by metis
  with True p \<open>n \<le> 0xFFFF\<close> awaitsD [OF assms(3)] show thesis by (intro that [of s']) auto
next
  case False
  show thesis
  proof (cases "n \<le> 0xFFFF")
    case True
    with False assms(4) have p: "wh_payload_length h = 126" by (simp add: ws_length_bytes_def)
    have v: "word_of_nat (be_value (be_bytes 2 (unat n))) = n"
      using True by (simp add: be_value_be_bytes word_le_nat_alt)
    from True False assms(1) have "can_read C str ok s (be_bytes 2 (unat n) @ key) rest"
      by (simp add: ws_length_bytes_def)
    from read_medium [OF this _ assms(2), of h] obtain s' where
      "law_ws_read_head_medium C h s = Inr (LAW_ERR_OK, h\<lparr>wh_payload_length := n, wh_masking_key := key\<rparr>, s')"
      "can_read C str ok s' [] rest"
      using v by (metis length_be_bytes)
    with True p awaitsD [OF assms(3)] show thesis by (intro that [of s']) auto
  next
    case large: False
    with False assms(4) have p: "wh_payload_length h = 127" by (simp add: ws_length_bytes_def)
    from large False assms(1) have "can_read C str ok s (be_bytes 8 (unat n) @ key) rest"
      by (simp add: ws_length_bytes_def)
    from read_large [OF this _ assms(2), of h] obtain s' where
      "law_ws_read_head_large C h s = Inr (LAW_ERR_OK, h\<lparr>wh_masking_key := key\<rparr>, s')"
      "can_read C str ok s' [] rest"
      by (metis length_be_bytes)
    with large p awaitsD [OF assms(3)] show thesis by (intro that [of s']) auto
  qed
qed

lemma read_head_full:
  assumes "can_read C str ok s (ws_bytes head) rest" and "ws_head_ok head" and "awaits await"
  obtains s' where "law_ws_read_head C ws await head0 s = Inr (LAW_ERR_OK, ws_head_read head, s')"
    and "can_read C str ok s' [] rest"
proof -
  let ?n = "wh_payload_length head" and ?key = "wh_masking_key head"
  let ?b1 = "hd (ws_length_bytes ?n)" and ?tl = "tl (ws_length_bytes ?n)"
  let ?h = "head0\<lparr>wh_fin := wh_fin head, wh_opcode := wh_opcode head, wh_payload_length := ucast (?b1 AND 0x7F)\<rparr>"
  have h: "wh_fin head \<le> 1" "wh_opcode head < 16" "length ?key = 4" using assms(2) by (simp_all add: ws_head_ok_def)
  have split: "ws_bytes head = [ws_byte0 head, ?b1] @ ?tl @ ?key"
    by (simp add: ws_bytes_def ws_length_bytes_def)
  then have r: "can_read C str ok s [ws_byte0 head, ?b1] (?tl @ ?key @ rest)"
    using assms(1) by (simp add: can_read_def)
  have "?b1 AND 0x80 \<noteq> 0"
  proof (cases "?n \<le> 125")
    case True
    then have "?n < 128" by (simp add: word_le_nat_alt word_less_nat_alt)
    with True show ?thesis by (simp add: ws_length_bytes_def length_byte(1))
  qed (simp add: ws_length_bytes_def)
  from read_start [OF r this, of ws head0] obtain s1 where
    s1: "law_ws_read_head_start C ws head0 s = Inr (LAW_ERR_OK, ?h, s1)"
    and c: "can_read C str ok s1 [] (?tl @ ?key @ rest)"
    by (metis first_byte [OF h(1,2)])
  from c have "can_read C str ok s1 (?tl @ ?key) rest" by (simp add: can_read_def)
  from read_rest [OF this h(3) assms(3), of ?h] obtain s2 where
    "(if wh_payload_length ?h \<le> 125 then await (law_ws_read_head_small C) ?h s1
       else if wh_payload_length ?h = 126 then await (law_ws_read_head_medium C) ?h s1
       else if wh_payload_length ?h = 127 then await (law_ws_read_head_large C) ?h s1
       else Inl NULL_CALL) =
      Inr (LAW_ERR_OK, ?h\<lparr>wh_payload_length := if ?n \<le> 0xFFFF then ?n else 127, wh_masking_key := ?key\<rparr>, s2)"
    "can_read C str ok s2 [] rest" by auto
  moreover have "?h\<lparr>wh_payload_length := if ?n \<le> 0xFFFF then ?n else 127, wh_masking_key := ?key\<rparr> = ws_head_read head"
    by (cases head) (simp add: ws_head_read_def)
  ultimately show thesis
    using awaitsD [OF assms(3), where f = "law_ws_read_head_start C ws", OF s1] by (intro that [of s2]) (simp_all add: law_ws_read_head_def)
qed

lemma write_head_stream:
  assumes "conn_lib_ok C str ok rx tx" and "conn_inv C str ok rx tx S T s" and "cl_zero C \<noteq> LAW_ERR_OK"
    and "length (wh_masking_key head) = 4" and "law_ws_write_head C head s = Inr (LAW_ERR_OK, s')"
  shows "drop (length (str (cs_out s))) (str (cs_out s')) = ws_bytes head"
proof -
  obtain s1 k b where "sent C str ok rx tx k s s1" "s' = set_out b s1"
    "appended (cl_buf C) str ok (cs_out s1) (ws_bytes head) b"
    using write_head_full [OF assms(1-4)] assms(5) by auto
  with sentD(2) [of C str ok rx tx k s s1] show ?thesis by (simp add: appended_def)
qed


section \<open>Masking twice\<close>

text \<open>A payload masked, or unmasked, in pieces, as its bytes come.\<close>

primrec mask_pieces :: "law_ws_xor \<Rightarrow> u8 list list \<Rightarrow> u8 list list" where
  "mask_pieces x [] = []"
| "mask_pieces x (bs # rest) =
     (case law_ws_xor_apply x bs of (cs, x') \<Rightarrow> cs # mask_pieces x' rest)"

lemma xor_apply_append:
  "law_ws_xor_apply x (as @ bs) =
     (case law_ws_xor_apply x as of (cs, x1) \<Rightarrow> case law_ws_xor_apply x1 bs of (ds, x2) \<Rightarrow> (cs @ ds, x2))"
  by (induction as arbitrary: x) (auto simp: Let_def split: prod.splits)

lemma mask_pieces_concat: "concat (mask_pieces x bss) = fst (law_ws_xor_apply x (concat bss))"
  by (induction bss arbitrary: x) (auto simp: xor_apply_append split: prod.splits)

lemma xor_apply_twice: "fst (law_ws_xor_apply x (fst (law_ws_xor_apply x bs))) = bs"
proof (induction bs arbitrary: x)
  case (Cons b bs)
  from Cons.IH [of "x\<lparr>wx_offset := wx_offset x + 1\<rparr>"] show ?case
    by (simp add: Let_def case_prod_unfold xor.assoc)
qed simp


section \<open>Examples\<close>

definition ws_clib :: "(rbuf, peer) conn_lib" where
  "ws_clib = demo_clib\<lparr>cl_zero := ERR_OTHER 0\<rparr>"

definition ws_conn :: "u8 list \<Rightarrow> (rbuf, peer) conn_st" where
  "ws_conn inp =
     (set_in \<lparr>rb_str = inp, rb_tell = 0, rb_max = 64\<rparr> (set_out \<lparr>rb_str = [], rb_tell = 0, rb_max = 64\<rparr> (demo_conn [] [] [])))"

lemma ws_clib_ok: "conn_lib_ok ws_clib rb_str rb_ok pe_rx pe_tx"
  using demo_clib_ok by (simp add: conn_lib_ok_def ws_clib_def)

lemma ws_conn_inv: "length inp \<le> 64 \<Longrightarrow> conn_inv ws_clib rb_str rb_ok pe_rx pe_tx inp [] (ws_conn inp)"
  using demo_conn_inv [of "[]" "[]" "[]"]
  by (simp add: conn_inv_def ws_conn_def ws_clib_def rb_ok_def mode_ok_def demo_conn_simps demo_conn_def)

definition ws_head_demo :: law_ws_head where
  "ws_head_demo = \<lparr>wh_fin = 1, wh_opcode = 2, wh_masking_key = [1, 2, 3, 4], wh_payload_length = 0x12345\<rparr>"

lemma ws_head_demo_run:
  "map_sum id (\<lambda>(e, s). (e, rb_str (cs_out s))) (law_ws_write_head ws_clib ws_head_demo (ws_conn [])) =
     Inr (LAW_ERR_OK, [0x82, 0xFF, 0, 0, 0, 0, 0, 1, 0x23, 0x45, 1, 2, 3, 4])"
proof -
  have eight: "(8 :: nat) = Suc (Suc (Suc (Suc (Suc (Suc (Suc (Suc 0)))))))" by simp
  have "be_bytes 8 0x12345 = [0, 0, 0, 0, 0, 1, 0x23, 0x45]"
    unfolding be_bytes_def eight le_bytes.simps by simp
  then show ?thesis
    by (simp add: law_ws_write_head_def law_ws_write_head_large_def ws_write_def law_htc_ensure_output_def
        ws_clib_def demo_conn_simps demo_clib_def ref_pgc_def rb_put_def ws_conn_def ws_head_demo_def ws_byte0_def Let_def)
qed

lemma ws_head_demo_written:
  "\<exists>s'. law_ws_write_head ws_clib ws_head_demo (ws_conn []) = Inr (LAW_ERR_OK, s') \<and>
     rb_str (cs_out s') = [0x82, 0xFF, 0, 0, 0, 0, 0, 1, 0x23, 0x45, 1, 2, 3, 4]"
  using ws_head_demo_run by (cases "law_ws_write_head ws_clib ws_head_demo (ws_conn [])") auto



end
