(* ===== verification/WsAccept.thy ===== *)
theory WsAccept
  imports WebSock HttpRequest
begin

text \<open>
  The opening handshake of \<^verbatim>\<open>web_sockets.c\<close>. OpenSSL's digest and its base64 encoding are
  parameters; the messages the function logs are left out.
\<close>

definition LAW_WS_MAGIC_STR :: string where
  "LAW_WS_MAGIC_STR = ''258EAFA5-E914-47DA-95CA-C5AB0DC85B11''"

definition LAW_WS_ACCEPT_BUF_LEN :: nat where
  "LAW_WS_ACCEPT_BUF_LEN = 29"

text \<open>\<^verbatim>\<open>EVP_EncodeBlock\<close> writes the text and a null byte into the buffer.\<close>

definition law_ws_gen_accept :: "(u8 list \<Rightarrow> u8 list) \<Rightarrow> (u8 list \<Rightarrow> string) \<Rightarrow> string \<Rightarrow> string run" where
  "law_ws_gen_accept sha1 encode key =
     (let hash = sha1 (text_bytes key @ text_bytes LAW_WS_MAGIC_STR) in
      require SEL_ASSERT (length hash = 20)
       (require OVERRUN (length (encode hash) + 1 \<le> LAW_WS_ACCEPT_BUF_LEN) (Inr (encode hash))))"

text \<open>The five writes of the answer, each under \<^verbatim>\<open>SEL_TRY_QUIETLY\<close>.\<close>

primrec try_all ::
  "(('b, 'w, 'z) conn_st_scheme \<Rightarrow> sel_err_t \<times> ('b, 'w, 'z) conn_st_scheme) list \<Rightarrow>
   ('b, 'w, 'z) conn_st_scheme \<Rightarrow> sel_err_t \<times> ('b, 'w, 'z) conn_st_scheme" where
  "try_all [] s = (LAW_ERR_OK, s)"
| "try_all (f # fs) s = (case f s of (e, s) \<Rightarrow> if e \<noteq> LAW_ERR_OK then (e, s) else try_all fs s)"

definition ws_answer ::
  "('b, 'w) conn_lib \<Rightarrow> string \<Rightarrow> ('b, 'w, 'z) conn_st_scheme \<Rightarrow> sel_err_t \<times> ('b, 'w, 'z) conn_st_scheme" where
  "ws_answer C accept =
     try_all [law_hts_set_status C ''HTTP/1.1'' 101 ''Switching Protocols'',
       law_hts_add_header C ''Upgrade'' ''websocket'', law_hts_add_header C ''Connection'' ''Upgrade'',
       law_hts_add_header C ''Sec-WebSocket-Accept'' accept, law_hts_begin_body C]"

definition law_ws_accept ::
  "('b, 'w) conn_lib \<Rightarrow> 'a ast_ops \<Rightarrow> (u8 list \<Rightarrow> u8 list) \<Rightarrow> (u8 list \<Rightarrow> string) \<Rightarrow> sel_err_t \<Rightarrow> 'a list \<Rightarrow>
   ('b, 'w, 'z) conn_st_scheme \<Rightarrow> (sel_err_t \<times> ('b, 'w, 'z) conn_st_scheme) run" where
  "law_ws_accept C A sha1 encode LAW_ERR_WS hdrs s =
     bindE (law_hth_get A hdrs ''Host'') (\<lambda>host.
     if host = None then Inr (LAW_ERR_WS, s) else
     bindE (law_hth_get A hdrs ''Origin'') (\<lambda>origin.
     if origin = None then Inr (LAW_ERR_WS, s) else
     bindE (law_hth_get A hdrs ''Upgrade'') (\<lambda>upgrade.
     if upgrade = None then Inr (LAW_ERR_WS, s)
     else if upgrade \<noteq> Some ''websocket'' then Inr (LAW_ERR_WS, s) else
     bindE (law_hth_get A hdrs ''Connection'') (\<lambda>connection.
     if connection = None then Inr (LAW_ERR_WS, s) else
     bindE (law_hth_get A hdrs ''Sec-WebSocket-Version'') (\<lambda>version.
     if version = None then Inr (LAW_ERR_WS, s)
     else if version \<noteq> Some ''13'' then Inr (LAW_ERR_WS, s) else
     bindE (law_hth_get A hdrs ''Sec-WebSocket-Key'') (\<lambda>key.
     case key of
       None \<Rightarrow> Inr (LAW_ERR_WS, s)
     | Some k \<Rightarrow>
         if 24 < length k then Inr (LAW_ERR_WS, s)
         else bindE (law_ws_gen_accept sha1 encode k) (\<lambda>accept. Inr (ws_answer C accept s))))))))"

section \<open>What the handshake writes\<close>

lemma try_all_puts:
  assumes "pgc_spec (cl_buf C) str ok"
    and "\<forall>s. ok (cs_out s) \<longrightarrow> (\<forall>(f, t) \<in> set fts. puts_text C str ok t s (f s))"
  shows "ok (cs_out s) \<Longrightarrow> \<exists>ts b. (\<exists>us. map snd fts = ts @ us \<and>
       (if fst (try_all (map fst fts) s) = LAW_ERR_OK then us = [] else fst (try_all (map fst fts) s) = LAW_ERR_OOB)) \<and>
     snd (try_all (map fst fts) s) = set_out b s \<and> appended (cl_buf C) str ok (cs_out s) (concat ts) b"
  using assms(2)
proof (induction fts arbitrary: s)
  case Nil
  then show ?case by (intro exI [of _ "[]"] exI [of _ "cs_out s"]) (simp add: appended_def)
next
  case (Cons ft fts)
  obtain f t where ft: "ft = (f, t)" by (cases ft)
  obtain e s1 where r: "f s = (e, s1)" by (cases "f s")
  have "puts_text C str ok t s (f s)" using Cons.prems ft by simp
  then obtain b where b: "s1 = set_out b s"
    "if e = LAW_ERR_OK then appended (cl_buf C) str ok (cs_out s) t b else e = LAW_ERR_OOB \<and> b = cs_out s"
    unfolding puts_text_def r fst_conv snd_conv by blast
  show ?case
  proof (cases "e = LAW_ERR_OK")
    case False
    with b ft r Cons.prems(1) show ?thesis
      by (intro exI [of _ "[]"] exI [of _ "cs_out s"]) (simp add: appended_def)
  next
    case True
    with b have a: "appended (cl_buf C) str ok (cs_out s) t b" by simp
    then have "ok (cs_out s1)" using b(1) by (simp add: appended_def)
    from Cons.IH [OF this] Cons.prems(2) obtain ts us b' where h: "map snd fts = ts @ us"
      "if fst (try_all (map fst fts) s1) = LAW_ERR_OK then us = [] else fst (try_all (map fst fts) s1) = LAW_ERR_OOB"
      "snd (try_all (map fst fts) s1) = set_out b' s1" "appended (cl_buf C) str ok (cs_out s1) (concat ts) b'"
      by auto
    have "try_all (map fst (ft # fts)) s = try_all (map fst fts) s1" using ft r True by simp
    moreover have "set_out b' s1 = set_out b' s" using b(1) by (simp add: set_out_def)
    moreover have "appended (cl_buf C) str ok (cs_out s) (concat (t # ts)) b'"
      using a h(4) b(1) by (simp add: appended_def)
    ultimately show ?thesis using h(1,2,3) ft
      by (intro exI [of _ "t # ts"] exI [of _ b']) simp
  qed
qed

text \<open>The lines of the answer.\<close>

definition ws_answer_lines :: "string \<Rightarrow> u8 list list" where
  "ws_answer_lines accept = map text_bytes
     [''HTTP/1.1 101 Switching Protocols'' @ CRLF, ''Upgrade: websocket'' @ CRLF, ''Connection: Upgrade'' @ CRLF,
      ''Sec-WebSocket-Accept: '' @ accept @ CRLF, CRLF]"

lemma ws_answer_puts:
  assumes "pgc_spec (cl_buf C) str ok" and "ok (cs_out s)"
  shows "\<exists>ts us b. ws_answer_lines accept = ts @ us \<and> snd (ws_answer C accept s) = set_out b s \<and>
     (if fst (ws_answer C accept s) = LAW_ERR_OK then us = [] else fst (ws_answer C accept s) = LAW_ERR_OOB) \<and>
     appended (cl_buf C) str ok (cs_out s) (concat ts) b"
proof -
  let ?calls = "[law_hts_set_status C ''HTTP/1.1'' 101 ''Switching Protocols'',
       law_hts_add_header C ''Upgrade'' ''websocket'', law_hts_add_header C ''Connection'' ''Upgrade'',
       law_hts_add_header C ''Sec-WebSocket-Accept'' accept, law_hts_begin_body C]"
  let ?fts = "zip ?calls (ws_answer_lines accept)"
  have m: "map fst ?fts = ?calls" "map snd ?fts = ws_answer_lines accept" by (simp_all add: ws_answer_lines_def)
  have n: "show_int 101 = ''101''" "text_bytes CRLF = [13, 10]" by code_simp+
  have "puts_text C str ok t u (f u)" if "ok (cs_out u)" "(f, t) \<in> set ?fts" for u f t
    using that(2) answer_calls(1) [OF assms(1) that(1), of "''HTTP/1.1''" 101 "''Switching Protocols''"]
      answer_calls(2) [OF assms(1) that(1), of "''Upgrade''" "''websocket''"]
      answer_calls(2) [OF assms(1) that(1), of "''Connection''" "''Upgrade''"]
      answer_calls(2) [OF assms(1) that(1), of "''Sec-WebSocket-Accept''" accept]
      answer_calls(3) [OF assms(1) that(1)]
    by (auto simp: ws_answer_lines_def n)
  then have "\<forall>u. ok (cs_out u) \<longrightarrow> (\<forall>(f, t) \<in> set ?fts. puts_text C str ok t u (f u))" by blast
  from try_all_puts [where C = C and str = str and ok = ok and fts = ?fts and s = s, OF assms(1) this assms(2)]
  show ?thesis unfolding m ws_answer_def by blast
qed

text \<open>What the headers must be, with the values the iterator gives.\<close>

definition ws_wanted :: "(string \<times> string) list \<Rightarrow> bool" where
  "ws_wanted ps \<longleftrightarrow>
     map_of ps ''Host'' \<noteq> None \<and> map_of ps ''Origin'' \<noteq> None \<and> map_of ps ''Upgrade'' = Some ''websocket'' \<and>
     map_of ps ''Connection'' \<noteq> None \<and> map_of ps ''Sec-WebSocket-Version'' = Some ''13'' \<and>
     (\<exists>key. map_of ps ''Sec-WebSocket-Key'' = Some key \<and> length key \<le> 24)"

definition ws_accept_text :: "(u8 list \<Rightarrow> u8 list) \<Rightarrow> (u8 list \<Rightarrow> string) \<Rightarrow> (string \<times> string) list \<Rightarrow> string" where
  "ws_accept_text sha1 encode ps =
     encode (sha1 (text_bytes (the (map_of ps ''Sec-WebSocket-Key'') @ LAW_WS_MAGIC_STR)))"

text \<open>
  C37: \<^verbatim>\<open>law_ws_accept\<close> answers a handshake exactly when the headers ask for one: then it
  writes the five lines of the answer in order, with the encoded digest of the key and the magic
  string, which fits its buffer, and returns \<open>LAW_ERR_OK\<close>, or \<open>LAW_ERR_OOB\<close> after the first lines
  that fit. Otherwise it returns \<open>LAW_ERR_WS\<close> and writes nothing.
\<close>

theorem ws_accept_answers:
  assumes "pgc_spec (cl_buf C) str ok" and "ok (cs_out s)"
    and "hdr.drain A (Suc (length hdrs)) hdrs = Inr ps"
    and "\<And>bs. length (sha1 bs) = 20" and "\<And>bs. length (encode bs) = 4 * ((length bs + 2) div 3)"
  shows "\<exists>e s'. law_ws_accept C A sha1 encode ws hdrs s = Inr (e, s') \<and>
           (if ws_wanted ps
            then \<exists>ts us b. ws_answer_lines (ws_accept_text sha1 encode ps) = ts @ us \<and> s' = set_out b s \<and>
              (if e = LAW_ERR_OK then us = [] else e = LAW_ERR_OOB) \<and>
              appended (cl_buf C) str ok (cs_out s) (concat ts) b
            else e = ws \<and> s' = s)"
proof -
  note g = hdr.get_drain [OF assms(3)]
  have get: "law_hth_get A hdrs name = Inr (map_of ps name)" for name using g [of name] by simp
  have gen: "law_ws_gen_accept sha1 encode k = Inr (encode (sha1 (text_bytes (k @ LAW_WS_MAGIC_STR))))" for k
    by (simp add: law_ws_gen_accept_def Let_def assms(4,5) LAW_WS_ACCEPT_BUF_LEN_def text_bytes_def)
  show ?thesis
  proof (cases "ws_wanted ps")
    case True
    have run: "law_ws_accept C A sha1 encode ws hdrs s = Inr (ws_answer C (ws_accept_text sha1 encode ps) s)"
      using True by (auto simp: law_ws_accept_def get gen ws_wanted_def ws_accept_text_def)
    obtain e s' where r: "ws_answer C (ws_accept_text sha1 encode ps) s = (e, s')"
      by (cases "ws_answer C (ws_accept_text sha1 encode ps) s")
    from ws_answer_puts [where ok = ok and s = s, OF assms(1,2), of "ws_accept_text sha1 encode ps"]
    have "\<exists>ts us b. ws_answer_lines (ws_accept_text sha1 encode ps) = ts @ us \<and> s' = set_out b s \<and>
              (if e = LAW_ERR_OK then us = [] else e = LAW_ERR_OOB) \<and>
              appended (cl_buf C) str ok (cs_out s) (concat ts) b"
      unfolding r fst_conv snd_conv by blast
    with True run r show ?thesis by (intro exI [of _ e] exI [of _ s']) simp
  next
    case False
    then have "law_ws_accept C A sha1 encode ws hdrs s = Inr (ws, s)"
      by (auto simp: law_ws_accept_def get ws_wanted_def split: option.splits)
    with False show ?thesis by simp
  qed
qed

section \<open>An example\<close>

definition ws_headers :: "tree list" where
  "ws_headers = map (\<lambda>(k, v). Node 0 [Leaf 0 k, Leaf 0 v])
     [(''Host'', ''h''), (''Upgrade'', ''websocket''), (''Connection'', ''Upgrade''), (''Origin'', ''o''),
      (''Sec-WebSocket-Version'', ''13''), (''Sec-WebSocket-Key'', ''dGhlIHNhbXBsZSBub25jZQ=='')]"

theorem ws_accept_answers_witness:
  "\<exists>e s'. law_ws_accept ws_clib ref_ast (\<lambda>bs. replicate 20 0) (\<lambda>bs. replicate (4 * ((length bs + 2) div 3)) CHR ''A'')
       (ERR_OTHER 1) ws_headers (ws_conn []) = Inr (e, s') \<and> e \<noteq> ERR_OTHER 1"
proof -
  let ?ps = "[(''Host'', ''h''), (''Upgrade'', ''websocket''), (''Connection'', ''Upgrade''), (''Origin'', ''o''),
      (''Sec-WebSocket-Version'', ''13''), (''Sec-WebSocket-Key'', ''dGhlIHNhbXBsZSBub25jZQ=='')]"
  have d: "hdr.drain ref_ast (Suc (length ws_headers)) ws_headers = Inr ?ps"
    by (simp add: law_hth_next_def ref_ast_def ws_headers_def)
  have w: "ws_wanted ?ps" by (simp add: ws_wanted_def)
  have "pgc_spec (cl_buf ws_clib) rb_str rb_ok" using ws_clib_ok by (simp add: conn_lib_ok_def)
  moreover have "rb_ok (cs_out (ws_conn []))" by (simp add: ws_conn_def rb_ok_def)
  ultimately show ?thesis
    using ws_accept_answers [OF _ _ d, of ws_clib rb_str rb_ok "ws_conn []" "\<lambda>bs. replicate 20 0"
        "\<lambda>bs. replicate (4 * ((length bs + 2) div 3)) CHR ''A''" "ERR_OTHER 1"] w
    by (auto split: if_splits)
qed

end
