(* ===== verification/Captures.thy ===== *)
theory Captures
  imports Ast
begin

text \<open>
  The captures of the grammars: \<^verbatim>\<open>http_parser.c\<close> and the last part of
  \<^verbatim>\<open>uri.c\<close>. A capture runs a parser and makes a node of what it read, with the tag of its
  kind. pgenc's functions that do this are the fields of the record \<open>pgc_lang\<close>; \<open>'s\<close>
  is the state of a parse (the buffer, the stack, and the heap with the nodes made so far), \<open>'p\<close>
  a parser. The second half of the theory says which captures may feed
  \<^verbatim>\<open>law_uri_from_ast\<close>, which stops the process at a tag it does not know.
\<close>

type_synonym 's term_reader = "nat \<Rightarrow> nat \<Rightarrow> 's \<Rightarrow> sel_err_t \<times> 's"

record ('s, 'p) pgc_lang =
  l_readterm :: "'p \<Rightarrow> nat \<Rightarrow> 's term_reader \<Rightarrow> 's \<Rightarrow> sel_err_t \<times> 's"
  l_readexp :: "'p \<Rightarrow> nat \<Rightarrow> nat \<Rightarrow> 's \<Rightarrow> sel_err_t \<times> 's"
  l_readstr :: "'s term_reader"
  l_readenc :: "nat \<Rightarrow> 's term_reader"

text \<open>\<open>l_readenc\<close> is \<^verbatim>\<open>pgc_lang_readenc\<close> with its type, decoder and digit reader fixed to the
  32-bit ones; what is left is the base, the start and the tag.\<close>

section \<open>The tags\<close>

definition LAW_HTP_STATUS :: nat where "LAW_HTP_STATUS = 0"
definition LAW_HTP_METHOD :: nat where "LAW_HTP_METHOD = 1"
definition LAW_HTP_VERSION :: nat where "LAW_HTP_VERSION = 2"
definition LAW_HTP_FIELD :: nat where "LAW_HTP_FIELD = 3"
definition LAW_HTP_FIELD_NAME :: nat where "LAW_HTP_FIELD_NAME = 4"
definition LAW_HTP_FIELD_VALUE :: nat where "LAW_HTP_FIELD_VALUE = 5"
definition LAW_HTP_ORIGIN_FORM :: nat where "LAW_HTP_ORIGIN_FORM = 6"
definition LAW_HTP_ABSOLUTE_FORM :: nat where "LAW_HTP_ABSOLUTE_FORM = 7"
definition LAW_HTP_AUTHORITY_FORM :: nat where "LAW_HTP_AUTHORITY_FORM = 8"

definition LAW_URI_TOKEN :: nat where "LAW_URI_TOKEN = 5"
definition LAW_URI_ELEM :: nat where "LAW_URI_ELEM = 6"
definition LAW_URI_SEG :: nat where "LAW_URI_SEG = 7"

section \<open>The captures of a message\<close>

definition law_htp_read_uint32 :: "('s, 'p) pgc_lang \<Rightarrow> 's term_reader" where
  "law_htp_read_uint32 L start tag s = l_readenc L 10 start tag s"

definition law_htp_cap_status :: "('s, 'p) pgc_lang \<Rightarrow> 'p \<Rightarrow> 's \<Rightarrow> sel_err_t \<times> 's" where
  "law_htp_cap_status L arg s = l_readterm L arg LAW_HTP_STATUS (law_htp_read_uint32 L) s"

definition law_htp_cap_method :: "('s, 'p) pgc_lang \<Rightarrow> 'p \<Rightarrow> 's \<Rightarrow> sel_err_t \<times> 's" where
  "law_htp_cap_method L arg s = l_readterm L arg LAW_HTP_METHOD (l_readstr L) s"

definition law_htp_cap_version :: "('s, 'p) pgc_lang \<Rightarrow> 'p \<Rightarrow> 's \<Rightarrow> sel_err_t \<times> 's" where
  "law_htp_cap_version L arg s = l_readterm L arg LAW_HTP_VERSION (l_readstr L) s"

definition law_htp_cap_field_name :: "('s, 'p) pgc_lang \<Rightarrow> 'p \<Rightarrow> 's \<Rightarrow> sel_err_t \<times> 's" where
  "law_htp_cap_field_name L arg s = l_readterm L arg LAW_HTP_FIELD_NAME (l_readstr L) s"

definition law_htp_cap_field_value :: "('s, 'p) pgc_lang \<Rightarrow> 'p \<Rightarrow> 's \<Rightarrow> sel_err_t \<times> 's" where
  "law_htp_cap_field_value L arg s = l_readterm L arg LAW_HTP_FIELD_VALUE (l_readstr L) s"

definition law_htp_cap_field :: "('s, 'p) pgc_lang \<Rightarrow> 'p \<Rightarrow> 's \<Rightarrow> sel_err_t \<times> 's" where
  "law_htp_cap_field L arg s = l_readexp L arg LAW_HTP_FIELD 0 s"

definition law_htp_cap_origin_form :: "('s, 'p) pgc_lang \<Rightarrow> 'p \<Rightarrow> 's \<Rightarrow> sel_err_t \<times> 's" where
  "law_htp_cap_origin_form L arg s = l_readexp L arg LAW_HTP_ORIGIN_FORM 0 s"

definition law_htp_cap_absolute_form :: "('s, 'p) pgc_lang \<Rightarrow> 'p \<Rightarrow> 's \<Rightarrow> sel_err_t \<times> 's" where
  "law_htp_cap_absolute_form L arg s = l_readexp L arg LAW_HTP_ABSOLUTE_FORM 0 s"

definition law_htp_cap_authority_form :: "('s, 'p) pgc_lang \<Rightarrow> 'p \<Rightarrow> 's \<Rightarrow> sel_err_t \<times> 's" where
  "law_htp_cap_authority_form L arg s = l_readexp L arg LAW_HTP_AUTHORITY_FORM 0 s"

section \<open>The captures of a URI\<close>

definition law_uri_cap_scheme :: "('s, 'p) pgc_lang \<Rightarrow> 'p \<Rightarrow> 's \<Rightarrow> sel_err_t \<times> 's" where
  "law_uri_cap_scheme L arg s = l_readterm L arg LAW_URI_SCHEME (l_readstr L) s"

definition law_uri_cap_host :: "('s, 'p) pgc_lang \<Rightarrow> 'p \<Rightarrow> 's \<Rightarrow> sel_err_t \<times> 's" where
  "law_uri_cap_host L arg s = l_readterm L arg LAW_URI_HOST (l_readstr L) s"

definition law_uri_cap_port :: "('s, 'p) pgc_lang \<Rightarrow> 'p \<Rightarrow> 's \<Rightarrow> sel_err_t \<times> 's" where
  "law_uri_cap_port L arg s = l_readterm L arg LAW_URI_PORT (l_readstr L) s"

definition law_uri_cap_path :: "('s, 'p) pgc_lang \<Rightarrow> 'p \<Rightarrow> 's \<Rightarrow> sel_err_t \<times> 's" where
  "law_uri_cap_path L arg s = l_readterm L arg LAW_URI_PATH (l_readstr L) s"

definition law_uri_cap_query :: "('s, 'p) pgc_lang \<Rightarrow> 'p \<Rightarrow> 's \<Rightarrow> sel_err_t \<times> 's" where
  "law_uri_cap_query L arg s = l_readterm L arg LAW_URI_QUERY (l_readstr L) s"

definition law_uri_cap_token :: "('s, 'p) pgc_lang \<Rightarrow> 'p \<Rightarrow> 's \<Rightarrow> sel_err_t \<times> 's" where
  "law_uri_cap_token L arg s = l_readterm L arg LAW_URI_TOKEN (l_readstr L) s"

definition law_uri_cap_elem :: "('s, 'p) pgc_lang \<Rightarrow> 'p \<Rightarrow> 's \<Rightarrow> sel_err_t \<times> 's" where
  "law_uri_cap_elem L arg s = l_readexp L arg LAW_URI_ELEM 0 s"

definition law_uri_cap_seg :: "('s, 'p) pgc_lang \<Rightarrow> 'p \<Rightarrow> 's \<Rightarrow> sel_err_t \<times> 's" where
  "law_uri_cap_seg L arg s = l_readterm L arg LAW_URI_SEG (l_readstr L) s"

section \<open>Which nodes make a URI\<close>

text \<open>
  A grammar is a tree of captures, generated at build time; what one successful parse runs is a
  list of them, each with its parser.
\<close>

datatype uri_capture =
  Cap_scheme | Cap_host | Cap_port | Cap_path | Cap_query | Cap_token | Cap_elem | Cap_seg

fun uri_cap :: "('s, 'p) pgc_lang \<Rightarrow> uri_capture \<Rightarrow> 'p \<Rightarrow> 's \<Rightarrow> sel_err_t \<times> 's" where
  "uri_cap L Cap_scheme = law_uri_cap_scheme L"
| "uri_cap L Cap_host = law_uri_cap_host L"
| "uri_cap L Cap_port = law_uri_cap_port L"
| "uri_cap L Cap_path = law_uri_cap_path L"
| "uri_cap L Cap_query = law_uri_cap_query L"
| "uri_cap L Cap_token = law_uri_cap_token L"
| "uri_cap L Cap_elem = law_uri_cap_elem L"
| "uri_cap L Cap_seg = law_uri_cap_seg L"

primrec run_caps :: "('s, 'p) pgc_lang \<Rightarrow> (uri_capture \<times> 'p) list \<Rightarrow> 's \<Rightarrow> sel_err_t \<times> 's" where
  "run_caps L [] s = (LAW_ERR_OK, s)"
| "run_caps L (c # cs) s = try_next (uri_cap L (fst c) (snd c) s) (run_caps L cs)"

text \<open>pgenc's promise: a capture that succeeds has put one node at the end, with its tag.\<close>

definition lang_spec :: "'a ast_ops \<Rightarrow> ('s \<Rightarrow> 'a list) \<Rightarrow> ('s, 'p) pgc_lang \<Rightarrow> bool" where
  "lang_spec A nodes L \<longleftrightarrow>
     (\<forall>p t r s s'. l_readterm L p t r s = (LAW_ERR_OK, s') \<longrightarrow>
        (\<exists>x. nodes s' = nodes s @ [x] \<and> a_typeof A x = t)) \<and>
     (\<forall>p t u s s'. l_readexp L p t u s = (LAW_ERR_OK, s') \<longrightarrow>
        (\<exists>x. nodes s' = nodes s @ [x] \<and> a_typeof A x = t))"

fun cap_tag :: "uri_capture \<Rightarrow> nat" where
  "cap_tag Cap_scheme = LAW_URI_SCHEME"
| "cap_tag Cap_host = LAW_URI_HOST"
| "cap_tag Cap_port = LAW_URI_PORT"
| "cap_tag Cap_path = LAW_URI_PATH"
| "cap_tag Cap_query = LAW_URI_QUERY"
| "cap_tag Cap_token = LAW_URI_TOKEN"
| "cap_tag Cap_elem = LAW_URI_ELEM"
| "cap_tag Cap_seg = LAW_URI_SEG"

lemmas tag_defs =
  LAW_URI_SCHEME_def LAW_URI_HOST_def LAW_URI_PORT_def LAW_URI_PATH_def LAW_URI_QUERY_def
  LAW_URI_TOKEN_def LAW_URI_ELEM_def LAW_URI_SEG_def

lemmas cap_defs =
  law_uri_cap_scheme_def law_uri_cap_host_def law_uri_cap_port_def law_uri_cap_path_def
  law_uri_cap_query_def law_uri_cap_token_def law_uri_cap_elem_def law_uri_cap_seg_def

lemma uri_cap_node:
  assumes "lang_spec A nodes L" and "uri_cap L c p s = (LAW_ERR_OK, s')"
  shows "\<exists>x. nodes s' = nodes s @ [x] \<and> a_typeof A x = cap_tag c"
  using assms by (cases c) (auto simp: cap_defs lang_spec_def)

lemma run_caps_nodes:
  assumes "lang_spec A nodes L" and "run_caps L cs s = (LAW_ERR_OK, s')"
  shows "map (a_typeof A) (nodes s') = map (a_typeof A) (nodes s) @ map (cap_tag \<circ> fst) cs"
  using assms(2)
proof (induction cs arbitrary: s)
  case (Cons c cs)
  obtain e u where one: "uri_cap L (fst c) (snd c) s = (e, u)" by fastforce
  with Cons.prems have ok: "e = LAW_ERR_OK" and rest: "run_caps L cs u = (LAW_ERR_OK, s')"
    by (auto simp: try_next_def split: if_splits)
  from uri_cap_node [OF assms(1) one [unfolded ok]] Cons.IH [OF rest] show ?case by auto
qed simp

definition uri_tag :: "nat \<Rightarrow> bool" where
  "uri_tag t \<longleftrightarrow> t \<in> {LAW_URI_SCHEME, LAW_URI_HOST, LAW_URI_PORT, LAW_URI_PATH, LAW_URI_QUERY}"

lemma uri_parts_total:
  "(\<exists>u'. uri_parts A xs u = Inr u') \<longleftrightarrow> (\<forall>x \<in> set xs. uri_tag (a_typeof A x))"
  by (induction xs arbitrary: u)
    (auto simp: uri_part_def uri_tag_def Let_def bindE_def split: if_splits)

lemma uri_tag_cap:
  "uri_tag (cap_tag c) \<longleftrightarrow> c \<in> {Cap_scheme, Cap_host, Cap_port, Cap_path, Cap_query}"
  by (cases c) (simp_all add: uri_tag_def tag_defs)


text \<open>A parser that reads its own name, for the example.\<close>

definition demo_lang :: "(tree list, string) pgc_lang" where
  "demo_lang = \<lparr>
     l_readterm = (\<lambda>p t r s. if p = [] then (LAW_ERR_SYS, s) else (LAW_ERR_OK, s @ [Leaf t p])),
     l_readexp = (\<lambda>p t u s. if p = [] then (LAW_ERR_SYS, s) else (LAW_ERR_OK, s @ [Node t []])),
     l_readstr = (\<lambda>start t s. (LAW_ERR_OK, s)),
     l_readenc = (\<lambda>base start t s. (LAW_ERR_OK, s))\<rparr>"

lemma demo_lang_spec: "lang_spec ref_ast id demo_lang"
  by (auto simp: lang_spec_def demo_lang_def ref_ast_def split: if_splits)


end
