(* ===== verification/Log.thy ===== *)
theory Log
  imports Errors Sys
begin

text \<open>
  The log: \<^verbatim>\<open>log.c\<close>, the date of \<^verbatim>\<open>time.c\<close>, and the two tables of reason phrases,
  \<^verbatim>\<open>law_hts_status_str\<close> of \<^verbatim>\<open>http_server.c\<close> and \<^verbatim>\<open>law_ht_status_str\<close> of the
  older \<^verbatim>\<open>http.c\<close>. The abstract specification of an access line is a reader of such lines.
\<close>

section \<open>The date\<close>

text \<open>The fields of \<^verbatim>\<open>struct tm\<close> that \<^verbatim>\<open>gmtime_r\<close> fills and the format uses.\<close>

record tm =
  tm_year :: int
  tm_mon :: nat
  tm_mday :: nat
  tm_hour :: nat
  tm_min :: nat
  tm_sec :: nat

definition LAW_TIME_DT_BUF_LEN :: nat where
  "LAW_TIME_DT_BUF_LEN = 24"

definition pad2 :: "nat \<Rightarrow> string" where
  "pad2 n = (if n < 10 then ''0'' else []) @ show_nat n"

text \<open>
  \<^verbatim>\<open>strftime\<close> leaves the contents of a buffer that is too small undetermined; the callers read
  it all the same.
\<close>

definition law_time_datetime :: "tm \<Rightarrow> string run" where
  "law_time_datetime t =
     (let txt = show_int (tm_year t + 1900) @ ''-'' @ pad2 (tm_mon t + 1) @ ''-'' @ pad2 (tm_mday t) @ ''T'' @
            pad2 (tm_hour t) @ '':'' @ pad2 (tm_min t) @ '':'' @ pad2 (tm_sec t) @ ''Z''
      in require OVERRUN (length txt < LAW_TIME_DT_BUF_LEN) (Inr txt))"

text \<open>\<open>nanosleep\<close> is given the seconds and nanoseconds to sleep.\<close>

definition law_time_sleep :: "(int \<Rightarrow> int \<Rightarrow> int) \<Rightarrow> int \<Rightarrow> int" where
  "law_time_sleep nanosleep millis = nanosleep 0 1000000"

text \<open>Whatever is asked for, the process sleeps for one millisecond.\<close>

lemma time_sleep_constant: "law_time_sleep nanosleep a = law_time_sleep nanosleep b"
  by (simp add: law_time_sleep_def)

section \<open>Addresses and details\<close>

text \<open>
  A socket's address as \<^verbatim>\<open>getsockname\<close> gives it, by family. What the functions read of their
  surroundings: \<open>lg_sockname\<close> gives an address or an \<^verbatim>\<open>errno\<close>, and so does
  \<open>lg_ntop\<close> with a text; \<open>lg_peer\<close> is the other end, which no function reads.
\<close>

datatype sock_addr = AF_INET "u8 list" | AF_INET6 "u8 list" | AF_OTHER

record log_env =
  lg_sel_strerror :: "sel_err_t \<Rightarrow> string"
  lg_strerror :: "int \<Rightarrow> string"
  lg_ssl_reason :: "string option"
  lg_thread :: nat
  lg_now :: tm
  lg_sockname :: "fd \<Rightarrow> int + sock_addr"
  lg_ntop :: "sock_addr \<Rightarrow> int + string"
  lg_peer :: "fd \<Rightarrow> sock_addr"

text \<open>The text, or null; and \<^verbatim>\<open>errno\<close> afterwards.\<close>

definition law_log_ntop :: "log_env \<Rightarrow> fd \<Rightarrow> int \<Rightarrow> (string option \<times> int) run" where
  "law_log_ntop L sock errno =
     (case lg_sockname L sock of
        Inl e \<Rightarrow> Inr (None, e)
      | Inr AF_OTHER \<Rightarrow> Inl SEL_HALT
      | Inr a \<Rightarrow> (case lg_ntop L a of Inl e \<Rightarrow> Inr (None, e) | Inr txt \<Rightarrow> Inr (Some txt, errno)))"

definition law_log_details :: "log_env \<Rightarrow> sel_err_t \<Rightarrow> int \<Rightarrow> string" where
  "law_log_details L e errno =
     (if e = LAW_ERR_SYS then lg_strerror L errno
      else if e = LAW_ERR_SSL then
        (case lg_ssl_reason L of Some r \<Rightarrow> r | None \<Rightarrow> ''Call SSL_load_error_strings() first'')
      else ''LAWD built in error'')"

section \<open>The lines\<close>

definition or_dash :: "string option \<Rightarrow> string" where
  "or_dash x = (case x of Some t \<Rightarrow> t | None \<Rightarrow> ''-'')"

definition or_empty :: "string option \<Rightarrow> string" where
  "or_empty x = (case x of Some t \<Rightarrow> t | None \<Rightarrow> [])"

definition log_printf :: "string \<Rightarrow> stream \<Rightarrow> sel_err_t \<times> stream" where
  "log_printf txt f = (case fprintf txt f of (ok, f) \<Rightarrow> (if ok then LAW_ERR_OK else LAW_ERR_SYS, f))"

definition law_log_err_ex ::
  "log_env \<Rightarrow> string option \<Rightarrow> string option \<Rightarrow> string option \<Rightarrow> string option \<Rightarrow> string option \<Rightarrow> int \<Rightarrow>
   stream \<Rightarrow> (sel_err_t \<times> stream) run" where
  "law_log_err_ex L error action details file func line f =
     bindE (law_time_datetime (lg_now L)) (\<lambda>datetime. Inr (log_printf
       (''! 0x'' @ show_hex (lg_thread L) @ '' ['' @ datetime @ ''] '' @ or_dash error @ '' '' @ or_dash action @ CRLF @
        or_dash func @ ''() : '' @ or_dash file @ '' : '' @ show_int line @ CRLF @
        or_empty details @ CRLF) f))"

definition law_log_err ::
  "log_env \<Rightarrow> sel_err_t \<Rightarrow> string option \<Rightarrow> string option \<Rightarrow> string option \<Rightarrow> int \<Rightarrow> int \<Rightarrow>
   stream \<Rightarrow> (sel_err_t \<times> stream) run" where
  "law_log_err L error action file func line errno f =
     law_log_err_ex L (Some (lg_sel_strerror L error)) action (Some (law_log_details L error errno)) file func line f"

definition law_log_net_err_ex ::
  "log_env \<Rightarrow> string option \<Rightarrow> string option \<Rightarrow> string option \<Rightarrow> string option \<Rightarrow> string option \<Rightarrow> string option \<Rightarrow>
   string option \<Rightarrow> int \<Rightarrow> stream \<Rightarrow> (sel_err_t \<times> stream) run" where
  "law_log_net_err_ex L error ip_address user action details file func line f =
     bindE (law_time_datetime (lg_now L)) (\<lambda>datetime. Inr (log_printf
       (''! 0x'' @ show_hex (lg_thread L) @ '' '' @ or_dash ip_address @ '' '' @ or_dash user @
        '' ['' @ datetime @ ''] '' @ or_dash error @ '' '' @ or_dash action @ CRLF @
        or_dash func @ ''() : '' @ or_dash file @ '' : '' @ show_int line @ CRLF @
        or_empty details) f))"

text \<open>The address is read before the details, so \<^verbatim>\<open>errno\<close> is what that left.\<close>

definition law_log_net_err ::
  "log_env \<Rightarrow> sel_err_t \<Rightarrow> fd \<Rightarrow> string option \<Rightarrow> string option \<Rightarrow> string option \<Rightarrow> string option \<Rightarrow> int \<Rightarrow> int \<Rightarrow>
   stream \<Rightarrow> (sel_err_t \<times> stream) run" where
  "law_log_net_err L error sock user action file func line errno f =
     bindE (law_log_ntop L sock errno) (\<lambda>(ip_address, errno).
       law_log_net_err_ex L (Some (lg_sel_strerror L error)) ip_address user action
         (Some (law_log_details L error errno)) file func line f)"

definition law_log_access_ex ::
  "log_env \<Rightarrow> string option \<Rightarrow> string option \<Rightarrow> string option \<Rightarrow> string option \<Rightarrow> int \<Rightarrow> nat \<Rightarrow>
   stream \<Rightarrow> (sel_err_t \<times> stream) run" where
  "law_log_access_ex L ip_address ident user req_line status content_len f =
     bindE (law_time_datetime (lg_now L)) (\<lambda>datetime. Inr (log_printf
       (or_dash ip_address @ '' '' @ or_dash ident @ '' '' @ or_dash user @ '' ['' @ datetime @ ''] '' @
        [CHR 0x22] @ or_empty req_line @ [CHR 0x22] @ '' '' @ show_int status @ '' '' @ show_nat content_len @ CRLF) f))"

definition law_log_access ::
  "log_env \<Rightarrow> fd \<Rightarrow> string option \<Rightarrow> string option \<Rightarrow> string option \<Rightarrow> int \<Rightarrow> nat \<Rightarrow> int \<Rightarrow>
   stream \<Rightarrow> (sel_err_t \<times> stream) run" where
  "law_log_access L sock ident user req_line status_code content_len errno f =
     bindE (law_log_ntop L sock errno) (\<lambda>(ip_address, _).
       law_log_access_ex L ip_address ident user req_line status_code content_len f)"

section \<open>Reading an access line\<close>

text \<open>The inverse of the printing of numbers.\<close>

definition read_nat :: "string \<Rightarrow> nat" where
  "read_nat s = foldl (\<lambda>a c. 10 * a + (of_char c - 48)) 0 s"

definition read_int :: "string \<Rightarrow> int" where
  "read_int s = (case s of [] \<Rightarrow> 0 | c # cs \<Rightarrow> if c = CHR 0x2D then - int (read_nat cs) else int (read_nat s))"

text \<open>The text up to the first \<open>c\<close>, and the text after it.\<close>

definition upto_char :: "char \<Rightarrow> string \<Rightarrow> string \<times> string" where
  "upto_char c s = (takeWhile (\<lambda>x. x \<noteq> c) s, tl (dropWhile (\<lambda>x. x \<noteq> c) s))"

definition read_access :: "string \<Rightarrow> (string \<times> string \<times> string \<times> string \<times> string) \<times> int \<times> nat" where
  "read_access s =
     (let (ip, s) = upto_char (CHR '' '') s; (ident, s) = upto_char (CHR '' '') s; (user, s) = upto_char (CHR '' '') s;
          (date, s) = upto_char (CHR '']'') (drop 1 s); (req, s) = upto_char (CHR 0x22) (drop 2 s);
          (status, s) = upto_char (CHR '' '') (drop 1 s); (len, s) = upto_char (CHR 0x0D) s
      in ((ip, ident, user, date, req), read_int status, read_nat len))"

lemma upto_char_append: "c \<notin> set a \<Longrightarrow> upto_char c (a @ c # r) = (a, r)"
  by (induction a) (auto simp: upto_char_def)

definition digits :: "char set" where
  "digits = {c. 48 \<le> (of_char c :: nat) \<and> (of_char c :: nat) < 58}"

lemma digit_char_digits: "d < 10 \<Longrightarrow> digit_char d \<in> digits"
  by (simp add: digits_def digit_char_def)

lemma show_nat_digits: "set (show_nat n) \<subseteq> digits \<and> show_nat n \<noteq> []"
  unfolding show_nat_def
proof (induction n rule: less_induct)
  case (less n)
  show ?case
  proof (cases "n < 10")
    case True
    then show ?thesis by (simp add: show_base.simps [of 10 n] digit_char_digits)
  next
    case False
    then have "set (show_base 10 (n div 10)) \<subseteq> digits" using less.IH [of "n div 10"] by simp
    then show ?thesis using False by (simp add: show_base.simps [of 10 n] digit_char_digits)
  qed
qed

lemma read_show_nat: "read_nat (show_nat n) = n"
  unfolding show_nat_def
proof (induction n rule: less_induct)
  case (less n)
  have d: "of_char (digit_char m) - 48 = m" if "m < 10" for m
    using that by (simp add: digit_char_def)
  show ?case
  proof (cases "n < 10")
    case True
    then show ?thesis using d [of n] by (simp add: show_base.simps [of 10 n] read_nat_def)
  next
    case False
    then have "read_nat (show_base 10 (n div 10)) = n div 10" by (intro less.IH) simp
    then show ?thesis using False d [of "n mod 10"]
      by (simp add: show_base.simps [of 10 n] read_nat_def)
  qed
qed

lemma minus_no_digit: "CHR 0x2D \<notin> digits"
  by (simp add: digits_def)

lemma read_show_int: "read_int (show_int i) = i"
proof -
  have "hd (show_nat n) \<noteq> CHR 0x2D" for n
    using show_nat_digits [of n] minus_no_digit by (metis hd_in_set subsetD)
  then show ?thesis
    using show_nat_digits [of "nat i"] read_show_nat [of "nat i"]
    by (cases "show_nat (nat i)") (auto simp: read_int_def show_int_def read_show_nat minus_no_digit)
qed

lemma show_int_chars: "set (show_int i) \<subseteq> insert (CHR 0x2D) digits"
  using show_nat_digits by (auto simp: show_int_def)

lemma pad2_chars: "set (pad2 n) \<subseteq> digits"
  using show_nat_digits [of n] by (auto simp: pad2_def digits_def)

lemma datetime_chars:
  assumes "law_time_datetime t = Inr d"
  shows "set d \<subseteq> insert (CHR 0x2D) digits \<union> set ''T:Z''"
proof -
  have "d = show_int (tm_year t + 1900) @ ''-'' @ pad2 (tm_mon t + 1) @ ''-'' @ pad2 (tm_mday t) @ ''T'' @
            pad2 (tm_hour t) @ '':'' @ pad2 (tm_min t) @ '':'' @ pad2 (tm_sec t) @ ''Z''"
    using assms by (auto simp: law_time_datetime_def Let_def require_def split: if_splits)
  then show ?thesis using show_int_chars pad2_chars by (simp add: subset_iff)
qed

lemma not_in_chars:
  "CHR 0x5D \<notin> insert (CHR 0x2D) digits \<union> set ''T:Z''" "CHR 0x20 \<notin> insert (CHR 0x2D) digits" "CHR 0x0D \<notin> digits"
  by (simp_all add: digits_def)

lemma read_access_line:
  assumes "CHR '' '' \<notin> set ip" "CHR '' '' \<notin> set ident" "CHR '' '' \<notin> set user" "CHR 0x22 \<notin> set req"
    and "law_time_datetime t = Inr d"
  shows "read_access (ip @ '' '' @ ident @ '' '' @ user @ '' ['' @ d @ ''] '' @
      [CHR 0x22] @ req @ [CHR 0x22] @ '' '' @ show_int st @ '' '' @ show_nat len @ CRLF) =
    ((ip, ident, user, d, req), st, len)"
proof -
  have a: "CHR '']'' \<notin> set d" using datetime_chars [OF assms(5)] not_in_chars(1) by blast
  have b: "CHR '' '' \<notin> set (show_int st)" using show_int_chars not_in_chars(2) by blast
  have c: "CHR 0x0D \<notin> set (show_nat len)" using show_nat_digits not_in_chars(3) by blast
  show ?thesis
    unfolding read_access_def CRLF_def append_Cons append_Nil
    by (simp add: upto_char_append assms a b c read_show_nat read_show_int)
qed


text \<open>A clock of the year 2024, a socket bound to a private address, and a peer.\<close>

definition demo_log :: log_env where
  "demo_log = \<lparr>lg_sel_strerror = (\<lambda>_. ''LAW_ERR''), lg_strerror = (\<lambda>n. show_int n), lg_ssl_reason = None,
     lg_thread = 26, lg_now = \<lparr>tm_year = 124, tm_mon = 1, tm_mday = 29, tm_hour = 23, tm_min = 5, tm_sec = 0\<rparr>,
     lg_sockname = (\<lambda>s. if s = 7 then Inr (AF_INET [10, 0, 0, 1]) else Inl 9),
     lg_ntop = (\<lambda>_. Inr ''10.0.0.1''), lg_peer = (\<lambda>_. AF_INET [1, 2, 3, 4])\<rparr>"

lemma show_small: "n < 10 \<Longrightarrow> show_nat n = [digit_char n]"
  "10 \<le> n \<Longrightarrow> show_nat n = show_nat (n div 10) @ [digit_char (n mod 10)]"
  by (simp_all add: show_nat_def show_base.simps [of 10 n])

lemma demo_datetime: "law_time_datetime (lg_now demo_log) = Inr ''2024-02-29T23:05:00Z''"
  by (simp add: law_time_datetime_def demo_log_def show_int_def pad2_def show_small digit_char_def
      LAW_TIME_DT_BUF_LEN_def char_of_def bit_Suc_0_iff)

definition demo_access :: string where
  "demo_access = ''10.0.0.1 - ann [2024-02-29T23:05:00Z] '' @ [CHR 0x22] @ ''GET / HTTP/1.1'' @ [CHR 0x22] @ '' '' @
     show_int 200 @ '' '' @ show_nat 12 @ CRLF"


text \<open>
  The request line is printed as it came. One with a quotation mark in it can say of itself what
  status it got: the texts of two different calls agree up to the end of the forged line.
\<close>

lemma log_access_forged:
  assumes "law_time_datetime (lg_now L) = Inr d" and "f = \<lparr>st_out = [], st_fail = []\<rparr>"
  shows "\<exists>g h rest. law_log_access_ex L ip ident user (Some ''GET /'') 200 0 f = Inr (LAW_ERR_OK, g) \<and>
    law_log_access_ex L ip ident user (Some (''GET /'' @ [CHR 0x22] @ '' '' @ show_int 200 @ '' '' @ show_nat 0 @ CRLF))
      404 len f = Inr (LAW_ERR_OK, h) \<and> st_out h = st_out g @ rest"
  using assms by (simp add: law_log_access_ex_def log_printf_def fprintf_def or_empty_def)

text \<open>
  The details of a network error are those of \<^verbatim>\<open>errno\<close>, unless looking up the address has
  failed; then they are those of the look-up.
\<close>

lemma log_net_err_details:
  "law_log_net_err L LAW_ERR_SYS sock user action file func line errno f =
     (case law_log_ntop L sock errno of
        Inl e \<Rightarrow> Inl e
      | Inr (ip, errno') \<Rightarrow>
          law_log_net_err_ex L (Some (lg_sel_strerror L LAW_ERR_SYS)) ip user action
            (Some (lg_strerror L (if ip = None then errno' else errno))) file func line f)"
  by (auto simp: law_log_net_err_def law_log_ntop_def law_log_details_def split: sum.splits sock_addr.splits)

section \<open>Reason phrases\<close>

definition law_hts_status_str :: "int \<Rightarrow> string run" where
  "law_hts_status_str status_code =
     require SEL_ASSERT (0 < status_code) (Inr (case map_of
      [(100, ''Continue''), (101, ''Switching Protocols''), (200, ''OK''), (201, ''Created''),
       (202, ''Accepted''), (203, ''Non-Authoritative Information''), (204, ''No Content''),
       (205, ''Reset Content''), (300, ''Multiple Choices''), (301, ''Moved Permanently''),
       (302, ''Found''), (303, ''See Other''), (304, ''Not Modified''), (305, ''Use Proxy''),
       (307, ''Temporary Redirect''), (400, ''Bad Request''), (401, ''Unauthorized''),
       (402, ''Payment Required''), (403, ''Forbidden''), (404, ''Not Found''),
       (405, ''Method Not Allowed''), (406, ''Not Acceptable''),
       (407, ''Proxy Authentication Required''), (408, ''Request Timeout''), (409, ''Conflict''),
       (410, ''Gone''), (411, ''Length Required''), (412, ''Precondition Failed''),
       (413, ''Request Entity Too Large''), (414, ''Request-URI Too Long''),
       (415, ''Unsupported Media Type''), (416, ''Requested Range Not Satisfiable''),
       (417, ''Expectation Failed''), (500, ''Internal Server Error''), (501, ''Not Implemented''),
       (502, ''Bad Gateway''), (503, ''Service Unavailable''), (504, ''Gateway Timeout''),
       (505, ''HTTP Version Not Supported'')] status_code of
       None \<Rightarrow> ''Unknown Status Code'' | Some txt \<Rightarrow> txt))"

definition law_ht_status_str :: "int \<Rightarrow> string" where
  "law_ht_status_str code =
     (case map_of
      [(100, ''Continue''), (101, ''Switching Protocols''), (200, ''OK''), (201, ''Created''),
       (202, ''Accepted''), (203, ''Non-Authoritative Information''), (204, ''No Content''),
       (205, ''Reset Content''), (300, ''Multiple Choices''), (301, ''Moved Permanently''),
       (302, ''Found''), (303, ''See Other''), (304, ''Not Modified''), (305, ''Use Proxy''),
       (307, ''Temporary Redirect''), (400, ''Bad Request''), (401, ''Unauthorized''),
       (402, ''Payment Required''), (403, ''Forbidden''), (404, ''Not Found''),
       (405, ''Method Not Allowed''), (406, ''Not Acceptable''),
       (407, ''Proxy Authentication Required''), (408, ''Request Timeout''), (409, ''Conflict''),
       (410, ''Gone''), (411, ''Length Required''), (412, ''Precondition Failed''),
       (413, ''Request Entity Too Large''), (414, ''Request-URI Too Long''),
       (415, ''Unsupported Media Type''), (416, ''Requested Range Not Satisfiable''),
       (417, ''Expectation Failed''), (500, ''Internal Server Error''), (501, ''Not Implemented''),
       (502, ''Bad Gateway''), (503, ''Service Unavailable''), (504, ''Gateway Timeout''),
       (505, ''HTTP Version Not Supported'')] code of
       None \<Rightarrow> ''Unknown HTTP Error'' | Some txt \<Rightarrow> txt)"

text \<open>
  The two tables of reason phrases are one: for a positive code that either knows, both
  functions give the same text, and each has its own text for a code that is unknown, which is
  unknown to the other too. For a code that is not positive the newer function stops the process.
\<close>

theorem status_str_same:
  "law_hts_status_str c =
     (if c \<le> 0 then Inl SEL_ASSERT
      else Inr (if law_ht_status_str c = ''Unknown HTTP Error'' then ''Unknown Status Code''
                else law_ht_status_str c))"
  by (simp add: law_hts_status_str_def law_ht_status_str_def require_def)

end
