(* ===== verification/HttpOld.thy ===== *)
theory HttpOld
  imports HttpRequest Captures
begin

text \<open>
  The older HTTP library, \<^verbatim>\<open>http.c\<close>, from which \<^verbatim>\<open>http_conn.c\<close> and
  \<^verbatim>\<open>http_server.c\<close> come: this theory has the connection, the reading and writing of
  messages, and the captures; \<open>HttpClient\<close> has the objects that own memory and descriptors. The
  header it includes, \<^verbatim>\<open>lawd/http.h\<close>, is not in the repository. The error codes
  \<^verbatim>\<open>LAW_ERR_WNTR\<close> and \<^verbatim>\<open>LAW_ERR_WNTW\<close>, declared nowhere else, are read as
  the codes that took their place; the numbers of the tags are a parameter.
\<close>

abbreviation LAW_ERR_WNTR :: sel_err_t where
  "LAW_ERR_WNTR \<equiv> LAW_ERR_WANTR"

abbreviation LAW_ERR_WNTW :: sel_err_t where
  "LAW_ERR_WNTW \<equiv> LAW_ERR_WANTW"

section \<open>The connection\<close>

datatype law_ht_security = LAW_HT_UNSECURED | LAW_HT_SSL | HT_SECURITY_OTHER int

record 'b law_ht_conn =
  ht_socket :: fd
  ht_security :: law_ht_security
  ht_ssl :: "fd option"
  ht_in :: 'b
  ht_out :: 'b

text \<open>What pgenc's own calls on a descriptor or a session return, with the reason of a failure.\<close>

datatype pgc_result =
  PGC_ERR_OK | PGC_ERR_OOB | PGC_ERR_SYS errno | PGC_ERR_SSL ssl_error | PGC_ERR_OTHER sel_err_t

record ('b, 'w) pgc_io =
  pi_buf :: "('b, 'w) pgc"
  pi_read :: "nat \<Rightarrow> 'b \<Rightarrow> 'w \<Rightarrow> pgc_result \<times> 'b \<times> 'w"
  pi_sread :: "nat \<Rightarrow> 'b \<Rightarrow> 'w \<Rightarrow> pgc_result \<times> 'b \<times> 'w"
  pi_write :: "nat \<Rightarrow> 'b \<Rightarrow> 'w \<Rightarrow> pgc_result \<times> 'b \<times> 'w"
  pi_swrite :: "nat \<Rightarrow> 'b \<Rightarrow> 'w \<Rightarrow> pgc_result \<times> 'b \<times> 'w"

text \<open>The code as a caller of these functions sees it, where it is passed on.\<close>

definition plain :: "pgc_result \<Rightarrow> sel_err_t" where
  "plain r = (case r of PGC_ERR_OK \<Rightarrow> LAW_ERR_OK | PGC_ERR_OOB \<Rightarrow> LAW_ERR_OOB | PGC_ERR_SYS _ \<Rightarrow> LAW_ERR_SYS
     | PGC_ERR_SSL _ \<Rightarrow> LAW_ERR_SSL | PGC_ERR_OTHER e \<Rightarrow> e)"

definition ssl_code :: "ssl_error \<Rightarrow> sel_err_t" where
  "ssl_code e = (case e of SSL_ERROR_WANT_READ \<Rightarrow> LAW_ERR_WNTR | SSL_ERROR_WANT_WRITE \<Rightarrow> LAW_ERR_WNTW
     | SSL_ERROR_SYSCALL \<Rightarrow> LAW_ERR_SYS | _ \<Rightarrow> LAW_ERR_SSL)"

definition law_ht_read_SSL ::
  "('b, 'w) pgc_io \<Rightarrow> nat \<Rightarrow> 'b \<Rightarrow> 'w \<Rightarrow> (sel_err_t \<times> 'b \<times> 'w) run" where
  "law_ht_read_SSL I nbytes b w =
     (case pi_sread I nbytes b w of
        (err, b, w) \<Rightarrow>
          require SEL_ASSERT (err \<noteq> PGC_ERR_OOB)
           (case err of PGC_ERR_SSL e \<Rightarrow> Inr (ssl_code e, b, w) | _ \<Rightarrow> Inr (plain err, b, w)))"

definition law_ht_read_sys ::
  "('b, 'w) pgc_io \<Rightarrow> nat \<Rightarrow> 'b \<Rightarrow> 'w \<Rightarrow> (sel_err_t \<times> 'b \<times> 'w) run" where
  "law_ht_read_sys I nbytes b w =
     (case pi_read I nbytes b w of
        (err, b, w) \<Rightarrow>
          require SEL_ASSERT (err \<noteq> PGC_ERR_OOB)
           (case err of
              PGC_ERR_SYS e \<Rightarrow> Inr (if e = EAGAIN then LAW_ERR_WNTR else LAW_ERR_SYS, b, w)
            | _ \<Rightarrow> Inr (plain err, b, w)))"

definition law_ht_write_SSL ::
  "('b, 'w) pgc_io \<Rightarrow> nat \<Rightarrow> 'b \<Rightarrow> 'w \<Rightarrow> (sel_err_t \<times> 'b \<times> 'w) run" where
  "law_ht_write_SSL I nbytes b w =
     (case pi_swrite I nbytes b w of
        (err, b, w) \<Rightarrow>
          require SEL_ASSERT (err \<noteq> PGC_ERR_OOB)
           (case err of PGC_ERR_SSL e \<Rightarrow> Inr (ssl_code e, b, w) | _ \<Rightarrow> Inr (plain err, b, w)))"

definition law_ht_write_sys ::
  "('b, 'w) pgc_io \<Rightarrow> nat \<Rightarrow> 'b \<Rightarrow> 'w \<Rightarrow> (sel_err_t \<times> 'b \<times> 'w) run" where
  "law_ht_write_sys I nbytes b w =
     (case pi_write I nbytes b w of
        (err, b, w) \<Rightarrow>
          require SEL_ASSERT (err \<noteq> PGC_ERR_OOB)
           (case err of
              PGC_ERR_SYS e \<Rightarrow> Inr (if e = EAGAIN then LAW_ERR_WNTW else LAW_ERR_SYS, b, w)
            | _ \<Rightarrow> Inr (plain err, b, w)))"

text \<open>
  The two assertions stand behind the subtractions they guard; where they hold, no subtraction
  wraps round, and where they fail the process stops.
\<close>

definition law_ht_read_data ::
  "('b, 'w) pgc_io \<Rightarrow> 'b law_ht_conn \<Rightarrow> 'w \<Rightarrow> (sel_err_t \<times> 'b law_ht_conn \<times> 'w) run" where
  "law_ht_read_data I conn w =
     (let P = pi_buf I; inb = ht_in conn; block = b_end P inb - b_tell P inb; avail = b_max P inb - block;
          put = \<lambda>(err, b, w). Inr (err, conn\<lparr>ht_in := b\<rparr>, w)
      in require SEL_ASSERT (b_tell P inb \<le> b_end P inb)
          (require SEL_ASSERT (block \<le> b_max P inb)
            (if avail = 0 then Inr (LAW_ERR_OOB, conn, w)
             else
               (case ht_security conn of
                  LAW_HT_UNSECURED \<Rightarrow> bindE (law_ht_read_sys I avail inb w) put
                | LAW_HT_SSL \<Rightarrow> bindE (law_ht_read_SSL I avail inb w) put
                | HT_SECURITY_OTHER _ \<Rightarrow> Inl SEL_HALT))))"

definition law_ht_write_data ::
  "('b, 'w) pgc_io \<Rightarrow> 'b law_ht_conn \<Rightarrow> 'w \<Rightarrow> (sel_err_t \<times> 'b law_ht_conn \<times> 'w) run" where
  "law_ht_write_data I conn w =
     (let P = pi_buf I; outb = ht_out conn; block = b_end P outb - b_tell P outb;
          put = \<lambda>(err, b, w). Inr (err, conn\<lparr>ht_out := b\<rparr>, w)
      in require SEL_ASSERT (b_tell P outb \<le> b_end P outb)
          (if block = 0 then Inr (LAW_ERR_OK, conn, w)
           else
             (case ht_security conn of
                LAW_HT_SSL \<Rightarrow> bindE (law_ht_write_SSL I block outb w) put
              | LAW_HT_UNSECURED \<Rightarrow> bindE (law_ht_write_sys I block outb w) put
              | HT_SECURITY_OTHER _ \<Rightarrow> Inl SEL_HALT)))"

section \<open>The head of a message\<close>

text \<open>
  Data is read; then the blank line is looked for from the offset on. The parser runs on a view of
  the buffer.
\<close>

definition head_missing ::
  "('b, 'w) pgc_io \<Rightarrow> nat \<Rightarrow> sel_err_t \<Rightarrow> 'b law_ht_conn \<Rightarrow> (sel_err_t \<times> 'b law_ht_conn) run" where
  "head_missing I base read_err conn =
     (let P = pi_buf I; end_in = b_end P (ht_in conn); block = end_in - base in
      case b_seek P base (ht_in conn) of
        (err, b) \<Rightarrow>
          require SEL_ASSERT (err = LAW_ERR_OK \<and> base \<le> end_in \<and> block \<le> b_max P (ht_in conn))
           (Inr (if block = b_max P (ht_in conn) then LAW_ERR_OOB
                 else if read_err = LAW_ERR_OK then LAW_ERR_WNTR else read_err,
              conn\<lparr>ht_in := b\<rparr>)))"

definition head_found ::
  "('b, 'w) pgc_io \<Rightarrow> ('a, 'k) lang \<Rightarrow> nat \<Rightarrow> 'b law_ht_conn \<Rightarrow> 'k \<Rightarrow>
   (sel_err_t \<times> 'a list \<times> 'b law_ht_conn \<times> 'k) run" where
  "head_found I parser base conn heap =
     (let P = pi_buf I; head_end = b_tell P (ht_in conn) in
      case b_seek P base (ht_in conn) of
        (err, b) \<Rightarrow>
          require SEL_ASSERT (err = LAW_ERR_OK \<and> base \<le> head_end)
           (case parser (pgc_buf_lens P (head_end - base) b) heap of
              ((err, list, _), heap) \<Rightarrow>
                Inr (if err \<noteq> LAW_ERR_OK then LAW_ERR_SYN else LAW_ERR_OK, list, conn\<lparr>ht_in := b\<rparr>, heap)))"

definition law_ht_read_head ::
  "('b, 'w) pgc_io \<Rightarrow> ('a, 'k) lang \<Rightarrow> 'b law_ht_conn \<Rightarrow> 'k \<Rightarrow> 'w \<Rightarrow>
   (sel_err_t \<times> 'a list \<times> 'b law_ht_conn \<times> 'k \<times> 'w) run" where
  "law_ht_read_head I parser conn heap w =
     (let P = pi_buf I; base = b_tell P (ht_in conn) in
      bindE (law_ht_read_data I conn w) (\<lambda>(read_err, conn, w).
        case b_scan P [13, 10, 13, 10] (ht_in conn) of
          (err, b) \<Rightarrow>
            let conn = conn\<lparr>ht_in := b\<rparr> in
            if err \<noteq> LAW_ERR_OK
            then bindE (head_missing I base read_err conn) (\<lambda>(err, conn). Inr (err, [], conn, heap, w))
            else bindE (head_found I parser base conn heap) (\<lambda>(err, list, conn, heap).
                   Inr (err, list, conn, heap, w))))"

section \<open>Requests at the server\<close>

text \<open>
  A request of either side: its connection, the heap the parsers use, and the world outside. The
  context a server's request points to is an argument where it is read.
\<close>

record ('b, 'w, 'k) ht_req =
  hq_conn :: "'b law_ht_conn"
  hq_heap :: 'k
  hq_net :: 'w

definition law_ht_sreq_socket :: "('b, 'w, 'k) ht_req \<Rightarrow> fd" where
  "law_ht_sreq_socket req = ht_socket (hq_conn req)"

definition law_ht_sreq_ssl :: "('b, 'w, 'k) ht_req \<Rightarrow> fd option" where
  "law_ht_sreq_ssl req = ht_ssl (hq_conn req)"

definition law_ht_sreq_in :: "('b, 'w, 'k) ht_req \<Rightarrow> 'b" where
  "law_ht_sreq_in req = ht_in (hq_conn req)"

definition law_ht_sreq_out :: "('b, 'w, 'k) ht_req \<Rightarrow> 'b" where
  "law_ht_sreq_out req = ht_out (hq_conn req)"

definition law_ht_sreq_heap :: "('b, 'w, 'k) ht_req \<Rightarrow> 'k" where
  "law_ht_sreq_heap req = hq_heap req"

text \<open>\<open>res\<close> is the answer of the handshake; a session is a handle of the theory \<open>Sys\<close>.\<close>

definition law_ht_sreq_ssl_accept ::
  "ssl_outcome \<Rightarrow> 'b law_ht_conn \<Rightarrow> kern \<Rightarrow> sel_err_t \<times> 'b law_ht_conn \<times> kern" where
  "law_ht_sreq_ssl_accept res conn k =
     (case sys_new_fd k of
        (None, k) \<Rightarrow> (LAW_ERR_SSL, conn, k)
      | (Some ssl, k) \<Rightarrow>
          (case sys_call k of
             (False, k) \<Rightarrow> (LAW_ERR_SSL, conn, free ssl k)
           | (True, k) \<Rightarrow>
               let conn = conn\<lparr>ht_security := LAW_HT_SSL, ht_ssl := Some ssl\<rparr> in
               (case res of
                  SSL_ZERO \<Rightarrow> (LAW_ERR_EOF, conn, free ssl k)
                | SSL_NEGATIVE e \<Rightarrow>
                    (case e of
                       SSL_ERROR_WANT_READ \<Rightarrow> (LAW_ERR_WNTR, conn, k)
                     | SSL_ERROR_WANT_WRITE \<Rightarrow> (LAW_ERR_WNTW, conn, k)
                     | SSL_ERROR_SYSCALL \<Rightarrow> (LAW_ERR_SYS, conn, free ssl k)
                     | _ \<Rightarrow> (LAW_ERR_SSL, conn, free ssl k))
                | SSL_POSITIVE \<Rightarrow> (LAW_ERR_OK, conn, k))))"

definition law_ht_sreq_ssl_shutdown :: "ssl_outcome \<Rightarrow> sel_err_t" where
  "law_ht_sreq_ssl_shutdown res =
     (case res of
        SSL_ZERO \<Rightarrow> LAW_ERR_WNTR
      | SSL_NEGATIVE e \<Rightarrow>
          (case e of
             SSL_ERROR_WANT_READ \<Rightarrow> LAW_ERR_WNTR
           | SSL_ERROR_WANT_WRITE \<Rightarrow> LAW_ERR_WNTW
           | SSL_ERROR_SYSCALL \<Rightarrow> LAW_ERR_SYS
           | _ \<Rightarrow> LAW_ERR_SSL)
      | SSL_POSITIVE \<Rightarrow> LAW_ERR_OK)"

definition law_ht_sreq_ssl_free :: "'b law_ht_conn \<Rightarrow> kern \<Rightarrow> kern" where
  "law_ht_sreq_ssl_free conn k = (case ht_ssl conn of None \<Rightarrow> k | Some ssl \<Rightarrow> free ssl k)"

text \<open>What a head is made of; the headers are null until the block that holds them is allocated.\<close>

record 'a law_ht_req_head =
  rh_method :: string
  rh_target :: law_uri
  rh_version :: string
  rh_headers :: "'a list option"

definition list_from :: "'a ast_ops \<Rightarrow> 'a list \<Rightarrow> nat \<Rightarrow> 'a list" where
  "list_from A list n = (case a_at A list n of None \<Rightarrow> [] | Some _ \<Rightarrow> drop n list)"

definition law_ht_sreq_read_head ::
  "('b, 'w) pgc_io \<Rightarrow> 'a ast_ops \<Rightarrow> ('a, 'k) lang \<Rightarrow> ('k \<Rightarrow> bool \<times> 'k) \<Rightarrow> ('b, 'w, 'k) ht_req \<Rightarrow>
   (sel_err_t \<times> 'a law_ht_req_head option \<times> ('b, 'w, 'k) ht_req) run" where
  "law_ht_sreq_read_head I A parser push req =
     bindE (law_ht_read_head I parser (hq_conn req) (hq_heap req) (hq_net req)) (\<lambda>(err, list, conn, heap, w).
       let req = \<lparr>hq_conn = conn, hq_heap = heap, hq_net = w\<rparr> in
       if err \<noteq> LAW_ERR_OK then Inr (err, None, req)
       else
         bindE (node_at A list 0) (\<lambda>m.
         bindE (node_at A list 1) (\<lambda>t.
         bindE (law_uri_from_ast A (a_tolst A t)) (\<lambda>uri.
         bindE (node_at A list 2) (\<lambda>v.
           let head = \<lparr>rh_method = a_tostr A m, rh_target = uri, rh_version = a_tostr A v, rh_headers = None\<rparr> in
           case push (hq_heap req) of
             (room, heap) \<Rightarrow>
               let req = req\<lparr>hq_heap := heap\<rparr> in
               if \<not> room then Inr (LAW_ERR_OOM, Some head, req)
               else Inr (LAW_ERR_OK, Some (head\<lparr>rh_headers := Some (list_from A list 3)\<rparr>), req))))))"

definition on_conn ::
  "('b law_ht_conn \<Rightarrow> 'w \<Rightarrow> (sel_err_t \<times> 'b law_ht_conn \<times> 'w) run) \<Rightarrow> ('b, 'w, 'k) ht_req \<Rightarrow>
   (sel_err_t \<times> ('b, 'w, 'k) ht_req) run" where
  "on_conn f req =
     bindE (f (hq_conn req) (hq_net req)) (\<lambda>(err, conn, w). Inr (err, req\<lparr>hq_conn := conn, hq_net := w\<rparr>))"

definition law_ht_sreq_read_data ::
  "('b, 'w) pgc_io \<Rightarrow> ('b, 'w, 'k) ht_req \<Rightarrow> (sel_err_t \<times> ('b, 'w, 'k) ht_req) run" where
  "law_ht_sreq_read_data I = on_conn (law_ht_read_data I)"

definition law_ht_sreq_write_data ::
  "('b, 'w) pgc_io \<Rightarrow> ('b, 'w, 'k) ht_req \<Rightarrow> (sel_err_t \<times> ('b, 'w, 'k) ht_req) run" where
  "law_ht_sreq_write_data I = on_conn (law_ht_write_data I)"

definition to_out ::
  "('b \<Rightarrow> sel_err_t \<times> 'b) \<Rightarrow> ('b, 'w, 'k) ht_req \<Rightarrow> sel_err_t \<times> ('b, 'w, 'k) ht_req" where
  "to_out f req = (case f (ht_out (hq_conn req)) of (e, b) \<Rightarrow> (e, req\<lparr>hq_conn := (hq_conn req)\<lparr>ht_out := b\<rparr>\<rparr>))"

definition law_ht_sreq_set_status ::
  "('b, 'w) pgc_io \<Rightarrow> string \<Rightarrow> int \<Rightarrow> string \<Rightarrow> ('b, 'w, 'k) ht_req \<Rightarrow> sel_err_t \<times> ('b, 'w, 'k) ht_req" where
  "law_ht_sreq_set_status I version status reason =
     to_out (pgc_buf_printf (pi_buf I) (version @ '' '' @ show_int status @ '' '' @ reason @ CRLF))"

definition law_ht_sreq_add_header ::
  "('b, 'w) pgc_io \<Rightarrow> string \<Rightarrow> string \<Rightarrow> ('b, 'w, 'k) ht_req \<Rightarrow> sel_err_t \<times> ('b, 'w, 'k) ht_req" where
  "law_ht_sreq_add_header I name value = to_out (pgc_buf_printf (pi_buf I) (name @ '': '' @ value @ CRLF))"

definition law_ht_sreq_begin_body ::
  "('b, 'w) pgc_io \<Rightarrow> ('b, 'w, 'k) ht_req \<Rightarrow> sel_err_t \<times> ('b, 'w, 'k) ht_req" where
  "law_ht_sreq_begin_body I = to_out (b_put (pi_buf I) [13, 10])"

definition law_ht_sreq_close :: "('b, 'w, 'k) ht_req \<Rightarrow> kern \<Rightarrow> sel_err_t \<times> kern" where
  "law_ht_sreq_close req k = (LAW_ERR_OK, sys_close (ht_socket (hq_conn req)) k)"

section \<open>Headers\<close>

fun law_ht_hdrs_get :: "'a ast_ops \<Rightarrow> 'a list \<Rightarrow> string \<Rightarrow> string option run" where
  "law_ht_hdrs_get A [] name = Inr None"
| "law_ht_hdrs_get A (l # ls) name =
     (case a_tolst A l of
        [] \<Rightarrow> Inl NULL_DEREF
      | k # rest \<Rightarrow>
          if a_tostr A k \<noteq> name then law_ht_hdrs_get A ls name
          else Inr (Some (case rest of v # _ \<Rightarrow> a_tostr A v | [] \<Rightarrow> [])))"

text \<open>The iterator is put where the caller says.\<close>

definition law_ht_hdrs_elems :: "'a list \<Rightarrow> 'a list" where
  "law_ht_hdrs_elems hdrs = hdrs"

definition law_ht_hdrs_i_next :: "'a ast_ops \<Rightarrow> 'a list \<Rightarrow> ((string \<times> string) option \<times> 'a list) run" where
  "law_ht_hdrs_i_next A iter =
     (case iter of
        [] \<Rightarrow> Inr (None, [])
      | e # es \<Rightarrow>
          (case a_tolst A e of
             [] \<Rightarrow> Inl NULL_DEREF
           | k # rest \<Rightarrow>
               Inr (Some (a_tostr A k, case rest of v # _ \<Rightarrow> a_tostr A v | [] \<Rightarrow> []), es)))"

section \<open>Captures\<close>

datatype ht_tag =
  HT_STATUS | HT_METHOD | HT_VERSION | HT_FIELD | HT_FIELD_NAME | HT_FIELD_VALUE
  | HT_ORIGIN_FORM | HT_ABSOLUTE_FORM | HT_AUTHORITY_FORM

text \<open>\<open>T\<close> gives a tag its number. The reader of a number puts its own tag, whatever it is given.\<close>

definition law_ht_read_uint32 :: "('s, 'p) pgc_lang \<Rightarrow> (ht_tag \<Rightarrow> nat) \<Rightarrow> 's term_reader" where
  "law_ht_read_uint32 L T start tag s = l_readenc L 10 start (T HT_STATUS) s"

definition law_ht_cap_status :: "('s, 'p) pgc_lang \<Rightarrow> (ht_tag \<Rightarrow> nat) \<Rightarrow> 'p \<Rightarrow> 's \<Rightarrow> sel_err_t \<times> 's" where
  "law_ht_cap_status L T arg s = l_readterm L arg (T HT_METHOD) (law_ht_read_uint32 L T) s"

definition law_ht_cap_method :: "('s, 'p) pgc_lang \<Rightarrow> (ht_tag \<Rightarrow> nat) \<Rightarrow> 'p \<Rightarrow> 's \<Rightarrow> sel_err_t \<times> 's" where
  "law_ht_cap_method L T arg s = l_readterm L arg (T HT_METHOD) (l_readstr L) s"

definition law_ht_cap_version :: "('s, 'p) pgc_lang \<Rightarrow> (ht_tag \<Rightarrow> nat) \<Rightarrow> 'p \<Rightarrow> 's \<Rightarrow> sel_err_t \<times> 's" where
  "law_ht_cap_version L T arg s = l_readterm L arg (T HT_VERSION) (l_readstr L) s"

definition law_ht_cap_field_name :: "('s, 'p) pgc_lang \<Rightarrow> (ht_tag \<Rightarrow> nat) \<Rightarrow> 'p \<Rightarrow> 's \<Rightarrow> sel_err_t \<times> 's" where
  "law_ht_cap_field_name L T arg s = l_readterm L arg (T HT_FIELD_NAME) (l_readstr L) s"

definition law_ht_cap_field_value :: "('s, 'p) pgc_lang \<Rightarrow> (ht_tag \<Rightarrow> nat) \<Rightarrow> 'p \<Rightarrow> 's \<Rightarrow> sel_err_t \<times> 's" where
  "law_ht_cap_field_value L T arg s = l_readterm L arg (T HT_FIELD_VALUE) (l_readstr L) s"

definition law_ht_cap_field :: "('s, 'p) pgc_lang \<Rightarrow> (ht_tag \<Rightarrow> nat) \<Rightarrow> 'p \<Rightarrow> 's \<Rightarrow> sel_err_t \<times> 's" where
  "law_ht_cap_field L T arg s = l_readexp L arg (T HT_FIELD) 0 s"

definition law_ht_cap_origin_form :: "('s, 'p) pgc_lang \<Rightarrow> (ht_tag \<Rightarrow> nat) \<Rightarrow> 'p \<Rightarrow> 's \<Rightarrow> sel_err_t \<times> 's" where
  "law_ht_cap_origin_form L T arg s = l_readexp L arg (T HT_ORIGIN_FORM) 0 s"

definition law_ht_cap_absolute_form :: "('s, 'p) pgc_lang \<Rightarrow> (ht_tag \<Rightarrow> nat) \<Rightarrow> 'p \<Rightarrow> 's \<Rightarrow> sel_err_t \<times> 's" where
  "law_ht_cap_absolute_form L T arg s = l_readexp L arg (T HT_ABSOLUTE_FORM) 0 s"

definition law_ht_cap_authority_form :: "('s, 'p) pgc_lang \<Rightarrow> (ht_tag \<Rightarrow> nat) \<Rightarrow> 'p \<Rightarrow> 's \<Rightarrow> sel_err_t \<times> 's" where
  "law_ht_cap_authority_form L T arg s = l_readexp L arg (T HT_AUTHORITY_FORM) 0 s"

section \<open>Reading a head\<close>

text \<open>
  What is asked of pgenc's calls: they move bytes between the buffer and the two streams of the
  connection, as those of the theory \<open>Buffer\<close> do, and never complain of bounds where there is
  room or data.
\<close>

definition pgc_io_spec ::
  "('b, 'w) pgc_io \<Rightarrow> ('b \<Rightarrow> u8 list) \<Rightarrow> ('b \<Rightarrow> bool) \<Rightarrow> ('w \<Rightarrow> u8 list) \<Rightarrow> bool" where
  "pgc_io_spec I str ok rx \<longleftrightarrow>
     pgc_spec (pi_buf I) str ok \<and>
     (\<forall>f \<in> {pi_read I, pi_sread I}. \<forall>n b w r b' w'.
        ok b \<longrightarrow> 0 < n \<longrightarrow> b_end (pi_buf I) b - b_tell (pi_buf I) b + n \<le> b_max (pi_buf I) b \<longrightarrow>
        f n b w = (r, b', w') \<longrightarrow>
        r \<noteq> PGC_ERR_OOB \<and> (\<exists>xs. appended (pi_buf I) str ok b xs b' \<and> rx w = xs @ rx w' \<and> length xs \<le> n))"

definition ht_mode_ok :: "'b law_ht_conn \<Rightarrow> bool" where
  "ht_mode_ok conn \<longleftrightarrow> ht_security conn = LAW_HT_UNSECURED \<or> ht_security conn = LAW_HT_SSL"

lemma ht_read_data_cases:
  assumes L: "pgc_io_spec I str ok rx" and i: "ok (ht_in conn)" and m: "ht_mode_ok conn"
  obtains e b xs w' where "law_ht_read_data I conn w = Inr (e, conn\<lparr>ht_in := b\<rparr>, w')"
    and "appended (pi_buf I) str ok (ht_in conn) xs b" and "rx w = xs @ rx w'"
    and "b_end (pi_buf I) b - b_tell (pi_buf I) b \<le> b_max (pi_buf I) b"
proof -
  note result = that
  let ?P = "pi_buf I" and ?b = "ht_in conn"
  let ?avail = "b_max ?P ?b - (b_end ?P ?b - b_tell ?P ?b)"
  have P: "pgc_spec ?P str ok" using L by (simp add: pgc_io_spec_def)
  note pos = pgc_pos [OF P i]
  show thesis
  proof (cases "?avail = 0")
    case True
    then have "law_ht_read_data I conn w = Inr (LAW_ERR_OOB, conn\<lparr>ht_in := ?b\<rparr>, w)"
      using pos by (simp add: law_ht_read_data_def Let_def require_def)
    then show thesis
      by (rule result [where xs = "[]"]) (use pos i in \<open>simp_all add: appended_def\<close>)
  next
    case False
    then have room: "0 < ?avail" "b_end ?P ?b - b_tell ?P ?b + ?avail \<le> b_max ?P ?b" using pos by simp_all
    have go: thesis if f: "f \<in> {pi_read I, pi_sread I}"
      and r: "\<And>r b' w'. f ?avail ?b w = (r, b', w') \<Longrightarrow> r \<noteq> PGC_ERR_OOB \<Longrightarrow>
        \<exists>e. law_ht_read_data I conn w = Inr (e, conn\<lparr>ht_in := b'\<rparr>, w')" for f
    proof -
      obtain r b' w' where c: "f ?avail ?b w = (r, b', w')" by (cases "f ?avail ?b w") auto
      from L f i room c have x: "r \<noteq> PGC_ERR_OOB"
        "\<exists>xs. appended ?P str ok ?b xs b' \<and> rx w = xs @ rx w' \<and> length xs \<le> ?avail"
        unfolding pgc_io_spec_def by blast+
      from x(2) obtain xs where xs: "appended ?P str ok ?b xs b'" "rx w = xs @ rx w'" by blast
      from xs(1) have "ok b'" by (simp add: appended_def)
      from pgc_pos(2) [OF P this] r [OF c x(1)] xs result show thesis by blast
    qed
    show thesis
    proof (cases "ht_security conn = LAW_HT_SSL")
      case True
      show thesis
        by (rule go [of "pi_sread I"])
          (use True False pos in \<open>auto simp: law_ht_read_data_def law_ht_read_SSL_def Let_def require_def
             split: pgc_result.split\<close>)
    next
      case u: False
      with m have "ht_security conn = LAW_HT_UNSECURED" by (simp add: ht_mode_ok_def)
      then show thesis
        by (intro go [of "pi_read I"])
          (use False pos in \<open>auto simp: law_ht_read_data_def law_ht_read_sys_def Let_def require_def
             split: pgc_result.split\<close>)
    qed
  qed
qed

definition CRLF2 :: "u8 list" where
  "CRLF2 = [13, 10, 13, 10]"

lemma if_weaken: "(if c then A else B) \<Longrightarrow> (A \<Longrightarrow> A') \<Longrightarrow> (B \<Longrightarrow> B') \<Longrightarrow> if c then A' else B'"
  by simp

lemma old_read_full:
  assumes L: "pgc_io_spec I str ok rx" and i: "ok (ht_in conn)" and m: "ht_mode_ok conn"
  shows "\<exists>err list conn' heap' w' xs. law_ht_read_head I parser conn heap w = Inr (err, list, conn', heap', w') \<and>
    appended (pi_buf I) str ok (ht_in conn) xs (ht_in conn') \<and> rx w = xs @ rx w' \<and>
    (let base = b_tell (pi_buf I) (ht_in conn); text = drop base (str (ht_in conn')) in
     if \<exists>p. occurs_at CRLF2 text p
     then (\<exists>used e. parser (take ((LEAST p. occurs_at CRLF2 text p) + 4) text) heap = ((e, list, used), heap') \<and>
             err = (if e = LAW_ERR_OK then LAW_ERR_OK else LAW_ERR_SYN))
     else err \<noteq> LAW_ERR_OK \<and> list = [] \<and> heap' = heap \<and>
       (length text = b_max (pi_buf I) (ht_in conn') \<longrightarrow> err = LAW_ERR_OOB))"
proof -
  let ?P = "pi_buf I" and ?b = "ht_in conn"
  let ?base = "b_tell ?P ?b"
  have P: "pgc_spec ?P str ok" using L by (simp add: pgc_io_spec_def)
  obtain e1 b1 xs w1 where r: "law_ht_read_data I conn w = Inr (e1, conn\<lparr>ht_in := b1\<rparr>, w1)"
    and a: "appended ?P str ok ?b xs b1" and rx: "rx w = xs @ rx w1"
    and fit: "b_end ?P b1 - b_tell ?P b1 \<le> b_max ?P b1"
    by (rule ht_read_data_cases [OF L i m])
  have b1: "ok b1" "b_tell ?P b1 = ?base" "b_max ?P b1 = b_max ?P ?b" "str b1 = str ?b @ xs"
    using a by (simp_all add: appended_def)
  have end1: "b_end ?P b1 = length (str b1)" "?base \<le> length (str b1)"
    using pgc_pos [OF P b1(1)] b1(2) by simp_all
  let ?text = "drop ?base (str b1)"
  have occ: "occurs_at CRLF2 ?text p \<longleftrightarrow> occurs_at CRLF2 (str b1) (?base + p)" for p
    using end1(2) by (auto simp: occurs_at_def add.commute)
  have ex: "(\<exists>q \<ge> ?base. occurs_at CRLF2 (str b1) q) \<longleftrightarrow> (\<exists>p. occurs_at CRLF2 ?text p)"
    unfolding occ by (metis le_add1 le_iff_add)
  have seek: "\<exists>b2. b_seek ?P ?base b = (LAW_ERR_OK, b2) \<and> moved ?P str ok b ?base b2"
    if "ok b" "str b = str b1" "b_max ?P b = b_max ?P b1" for b
  proof -
    have "b_end ?P b = length (str b1)" using pgc_pos(3) [OF P that(1)] that(2) by simp
    then have "?base \<le> b_end ?P b" "b_end ?P b - ?base \<le> b_max ?P b" using end1 fit b1(2) that(3) by simp_all
    from pgc_seek [OF P that(1) this] show ?thesis by blast
  qed
  have "CRLF2 \<noteq> []" by (simp add: CRLF2_def)
  from pgc_specD(3) [OF P, unfolded pgc_scan_spec_def, rule_format, OF b1(1) this]
  obtain e2 b2 where sc: "b_scan ?P CRLF2 b1 = (e2, b2)"
    and found: "if \<exists>p \<ge> ?base. occurs_at CRLF2 (str b1) p
      then e2 = LAW_ERR_OK \<and> moved ?P str ok b1 ((LEAST p. ?base \<le> p \<and> occurs_at CRLF2 (str b1) p) + length CRLF2) b2
      else e2 \<noteq> LAW_ERR_OK \<and> (\<exists>q. ?base \<le> q \<and> q \<le> b_end ?P b1 \<and> moved ?P str ok b1 q b2 \<and>
        (\<forall>p ys. ?base \<le> p \<and> p < q \<longrightarrow> \<not> occurs_at CRLF2 (str b1 @ ys) p))"
    unfolding b1(2) by blast
  have scan: "if \<exists>p \<ge> ?base. occurs_at CRLF2 (str b1) p
      then e2 = LAW_ERR_OK \<and> moved ?P str ok b1 ((LEAST p. ?base \<le> p \<and> occurs_at CRLF2 (str b1) p) + length CRLF2) b2
      else e2 \<noteq> LAW_ERR_OK \<and> (\<exists>q. moved ?P str ok b1 q b2)"
    by (rule if_weaken [OF found]) blast+
  show ?thesis
  proof (cases "\<exists>p. occurs_at CRLF2 ?text p")
    case True
    let ?p = "LEAST p. occurs_at CRLF2 ?text p"
    from True have "occurs_at CRLF2 ?text ?p" by (rule LeastI_ex)
    have least: "(LEAST q. ?base \<le> q \<and> occurs_at CRLF2 (str b1) q) = ?base + ?p"
    proof (rule Least_equality)
      show "?base \<le> ?base + ?p \<and> occurs_at CRLF2 (str b1) (?base + ?p)"
        using \<open>occurs_at CRLF2 ?text ?p\<close> occ by simp
      show "?base + ?p \<le> q" if "?base \<le> q \<and> occurs_at CRLF2 (str b1) q" for q
      proof -
        from that occ [of "q - ?base"] have "occurs_at CRLF2 ?text (q - ?base)" by simp
        then have "?p \<le> q - ?base" by (rule Least_le)
        with that show ?thesis by linarith
      qed
    qed
    have len: "length CRLF2 = 4" by (simp add: CRLF2_def)
    from scan have e2: "e2 = LAW_ERR_OK" and m2: "moved ?P str ok b1 (?base + ?p + 4) b2"
      unfolding least len using ex True by simp_all
    from m2 have b2: "ok b2" "str b2 = str b1" "b_max ?P b2 = b_max ?P b1" "b_tell ?P b2 = ?base + ?p + 4"
      by (simp_all add: moved_def)
    obtain b3 where s3: "b_seek ?P ?base b2 = (LAW_ERR_OK, b3)" and m3: "moved ?P str ok b2 ?base b3"
      using seek [OF b2(1-3)] by blast
    from m3 b2 have b3: "ok b3" "str b3 = str b1" "b_tell ?P b3 = ?base" "b_max ?P b3 = b_max ?P b1"
      by (simp_all add: moved_def)
    have "?p + 4 \<le> length ?text" using \<open>occurs_at CRLF2 ?text ?p\<close> by (simp add: occurs_at_def CRLF2_def)
    then have "?p + 4 \<le> b_end ?P b3 - b_tell ?P b3" using pgc_pos(3) [OF P b3(1)] b3 by simp
    from pgc_get [OF P b3(1) this] have lens: "pgc_buf_lens ?P (?p + 4) b3 = take (?p + 4) ?text"
      unfolding pgc_buf_lens_def b3(2,3) by (metis (no_types, lifting) case_prod_conv)
    obtain e list used heap' where pr: "parser (take (?p + 4) ?text) heap = ((e, list, used), heap')"
      by (metis surj_pair)
    have "law_ht_read_head I parser conn heap w =
        Inr (if e \<noteq> LAW_ERR_OK then LAW_ERR_SYN else LAW_ERR_OK, list, conn\<lparr>ht_in := b3\<rparr>, heap', w1)"
      using r sc e2 s3 b2(4) lens pr
      by (simp add: law_ht_read_head_def head_found_def Let_def CRLF2_def)
    moreover have "appended ?P str ok ?b xs b3" using a b3 by (simp add: appended_def)
    ultimately show ?thesis using rx True pr b3(2)
      by (intro exI [of _ "if e \<noteq> LAW_ERR_OK then LAW_ERR_SYN else LAW_ERR_OK"] exI [of _ list]
          exI [of _ "conn\<lparr>ht_in := b3\<rparr>"] exI [of _ heap'] exI [of _ w1] exI [of _ xs]) (simp add: Let_def)
  next
    case False
    with scan ex obtain q where e2: "e2 \<noteq> LAW_ERR_OK" and m2: "moved ?P str ok b1 q b2" by auto
    from m2 have b2: "ok b2" "str b2 = str b1" "b_max ?P b2 = b_max ?P b1" by (simp_all add: moved_def)
    obtain b3 where s3: "b_seek ?P ?base b2 = (LAW_ERR_OK, b3)" and m3: "moved ?P str ok b2 ?base b3"
      using seek [OF b2] by blast
    from m3 b2 have b3: "ok b3" "str b3 = str b1" "b_tell ?P b3 = ?base" "b_max ?P b3 = b_max ?P b1"
      by (simp_all add: moved_def)
    have end2: "b_end ?P b2 = length (str b1)" using pgc_pos(3) [OF P b2(1)] b2(2) by simp
    let ?err = "if b_end ?P b2 - ?base = b_max ?P b2 then LAW_ERR_OOB else if e1 = LAW_ERR_OK then LAW_ERR_WNTR else e1"
    have "law_ht_read_head I parser conn heap w = Inr (?err, [], conn\<lparr>ht_in := b3\<rparr>, heap, w1)"
      using r sc e2 s3 end1 end2 fit b1(2) b2(3)
      by (simp add: law_ht_read_head_def head_missing_def Let_def CRLF2_def require_def)
    moreover have "appended ?P str ok ?b xs b3" using a b3 by (simp add: appended_def)
    ultimately show ?thesis using rx False b3 b2(3) end2
      by (intro exI [of _ ?err] exI [of _ "[]"] exI [of _ "conn\<lparr>ht_in := b3\<rparr>"] exI [of _ heap] exI [of _ w1] exI [of _ xs])
        (auto simp: Let_def)
  qed
qed

text \<open>
  \<^verbatim>\<open>law_ht_read_head\<close> appends the next bytes of the stream to the input and returns
  with the offset where it was. It parses exactly the bytes from the offset to the end of the first
  blank line, if the buffer has one, and then returns \<^verbatim>\<open>LAW_ERR_OK\<close> or
  \<^verbatim>\<open>LAW_ERR_SYN\<close>; without one it fails, with \<^verbatim>\<open>LAW_ERR_OOB\<close> if the buffer is full.
  So the head is still in front of the offset after a success, and is read again as the start of
  the body.
\<close>

theorem old_head_read:
  assumes "pgc_io_spec I str ok rx" and "ok (ht_in conn)" and "ht_mode_ok conn"
  shows "\<exists>err list conn' heap' w' xs. law_ht_read_head I parser conn heap w = Inr (err, list, conn', heap', w') \<and>
    appended (pi_buf I) str ok (ht_in conn) xs (ht_in conn') \<and> rx w = xs @ rx w' \<and>
    (let base = b_tell (pi_buf I) (ht_in conn); text = drop base (str (ht_in conn')) in
     if \<exists>p. occurs_at CRLF2 text p
     then (\<exists>used e. parser (take ((LEAST p. occurs_at CRLF2 text p) + 4) text) heap = ((e, list, used), heap') \<and>
             err = (if e = LAW_ERR_OK then LAW_ERR_OK else LAW_ERR_SYN))
     else err \<noteq> LAW_ERR_OK \<and> list = [] \<and> heap' = heap \<and>
       (length text = b_max (pi_buf I) (ht_in conn') \<longrightarrow> err = LAW_ERR_OOB))"
  by (rule old_read_full [OF assms])

text \<open>The reference buffer of the theory \<open>Buffer\<close> with a peer whose bytes have all arrived.\<close>

definition io_read :: "nat \<Rightarrow> rbuf \<Rightarrow> u8 list \<Rightarrow> pgc_result \<times> rbuf \<times> u8 list" where
  "io_read n b w = (PGC_ERR_OK, b\<lparr>rb_str := rb_str b @ take n w\<rparr>, drop n w)"

definition io_write :: "nat \<Rightarrow> rbuf \<Rightarrow> u8 list \<Rightarrow> pgc_result \<times> rbuf \<times> u8 list" where
  "io_write n b w = (PGC_ERR_OK, b\<lparr>rb_tell := rb_tell b + n\<rparr>, w)"

definition demo_io :: "(rbuf, u8 list) pgc_io" where
  "demo_io = \<lparr>pi_buf = ref_pgc, pi_read = io_read, pi_sread = io_read, pi_write = io_write, pi_swrite = io_write\<rparr>"

lemma demo_io_spec: "pgc_io_spec demo_io rb_str rb_ok id"
proof -
  have "\<forall>f \<in> {pi_read demo_io, pi_sread demo_io}. f = io_read" by (simp add: demo_io_def)
  moreover have "pgc_spec (pi_buf demo_io) rb_str rb_ok" using ref_pgc_spec by (simp add: demo_io_def)
  moreover have "appended (pi_buf demo_io) rb_str rb_ok b (take n w) (b\<lparr>rb_str := rb_str b @ take n w\<rparr>)"
    if "rb_ok b" "b_end (pi_buf demo_io) b - b_tell (pi_buf demo_io) b + n \<le> b_max (pi_buf demo_io) b" for b n w
    using that by (auto simp: appended_def demo_io_def ref_pgc_def rb_ok_def)
  ultimately show ?thesis
    unfolding pgc_io_spec_def by (simp add: io_read_def) (metis append_take_drop_id length_take min.cobounded2)
qed

definition demo_ht_conn :: "rbuf law_ht_conn" where
  "demo_ht_conn = \<lparr>ht_socket = 7, ht_security = LAW_HT_UNSECURED, ht_ssl = None,
     ht_in = \<lparr>rb_str = [65], rb_tell = 1, rb_max = 8\<rparr>, ht_out = \<lparr>rb_str = [], rb_tell = 0, rb_max = 8\<rparr>\<rparr>"

lemma old_head_read_witness:
  "\<exists>err list conn' heap' w' xs.
     law_ht_read_head demo_io (hp_headers demo_htp) demo_ht_conn () [71, 13, 10, 13, 10, 72] =
       Inr (err, list, conn', heap', w') \<and>
     [71, 13, 10, 13, 10, 72] = xs @ w' \<and> rb_str (ht_in conn') = 65 # xs \<and> rb_tell (ht_in conn') = 1"
proof -
  have c: "rb_ok (ht_in demo_ht_conn)" "ht_mode_ok demo_ht_conn"
    by (simp_all add: demo_ht_conn_def rb_ok_def ht_mode_ok_def)
  from old_head_read [OF demo_io_spec c, of "hp_headers demo_htp" "()" "[71, 13, 10, 13, 10, 72]"]
  obtain err list conn' heap' w' xs where
    r: "law_ht_read_head demo_io (hp_headers demo_htp) demo_ht_conn () [71, 13, 10, 13, 10, 72] =
        Inr (err, list, conn', heap', w')"
    and a: "appended (pi_buf demo_io) rb_str rb_ok (ht_in demo_ht_conn) xs (ht_in conn')"
    and x: "id [71, 13, 10, 13, 10, 72] = xs @ id w'" by blast
  from a have "rb_str (ht_in conn') = 65 # xs \<and> rb_tell (ht_in conn') = 1"
    by (simp add: appended_def demo_io_def ref_pgc_def demo_ht_conn_def)
  with r x show ?thesis by auto
qed

section \<open>The two libraries\<close>

text \<open>The calls of the theory \<open>Sys\<close> do not look at the error stack.\<close>

lemma sys_call_errs:
  "sys_call (k\<lparr>k_errs := es\<rparr>) = (case sys_call k of (b, k) \<Rightarrow> (b, k\<lparr>k_errs := es\<rparr>))"
  by (simp add: sys_call_def split: list.split)

lemma sys_new_fd_errs:
  "sys_new_fd (k\<lparr>k_errs := es\<rparr>) = (case sys_new_fd k of (d, k) \<Rightarrow> (d, k\<lparr>k_errs := es\<rparr>))"
  by (auto simp: sys_new_fd_def sys_call_errs split: prod.split bool.split)

lemma sys_close_errs: "sys_close d (k\<lparr>k_errs := es\<rparr>) = (sys_close d k)\<lparr>k_errs := es\<rparr>"
  by (simp add: sys_close_def)

lemma sys_call_inv: "kern_inv k \<Longrightarrow> sys_call k = (b, k') \<Longrightarrow> err_inv (k_errs k')"
  by (auto simp: sys_call_def kern_inv_def split: list.splits)

definition same_conn :: "'b law_htconn \<Rightarrow> 'b law_ht_conn \<Rightarrow> bool" where
  "same_conn new old \<longleftrightarrow>
     hc_ssl new = ht_ssl old \<and> (hc_mode new = LAW_HTC_SSL \<longleftrightarrow> ht_security old = LAW_HT_SSL) \<and>
     hc_socket new = ht_socket old"

definition same_kern :: "kern \<Rightarrow> kern \<Rightarrow> bool" where
  "same_kern k l \<longleftrightarrow> (\<exists>es. k = l\<lparr>k_errs := es\<rparr>)"

lemma KERN_PUSH_errs:
  assumes "err_inv es"
  shows "\<exists>k'. KERN_PUSH e a f n (k\<lparr>k_errs := es\<rparr>) = Inr (e, k') \<and> same_kern k' k"
proof -
  from law_err_push_ok [OF assms, of e a "''source/lawd/http_conn.c''" f n]
  obtain t where "law_err_push e a ''source/lawd/http_conn.c'' f n es = Inr (e, t)" by blast
  then show ?thesis by (auto simp: KERN_PUSH_def same_kern_def)
qed

lemma same_kern_errs [simp]: "same_kern (k\<lparr>k_errs := es\<rparr>) k"
  by (auto simp: same_kern_def)

text \<open>
  C34: The TLS handshake of \<^verbatim>\<open>http_conn.c\<close> is that of \<^verbatim>\<open>http.c\<close>. From the same
  state, for the same answers of OpenSSL, \<^verbatim>\<open>law_htc_ssl_accept\<close> and
  \<^verbatim>\<open>law_ht_sreq_ssl_accept\<close> return the same code, leave the same session on the connection
  and the same sessions and descriptors open; only the error stack, which the older one does not use,
  may differ. So the newer one has kept the older one's fault: after a failed handshake the
  connection points to a session that is released.
\<close>

theorem ssl_accept_as_before:
  assumes "kern_inv k" and "same_conn new old"
  shows "\<exists>e new' old' k' l'. law_htc_ssl_accept res new k = Inr (e, new', k') \<and>
    law_ht_sreq_ssl_accept res old k = (e, old', l') \<and> same_conn new' old' \<and> same_kern k' l' \<and>
    (e \<in> {LAW_ERR_EOF, LAW_ERR_SYS} \<longrightarrow> (\<exists>ssl. ht_ssl old' = Some ssl \<and> ssl \<notin> k_open l'))"
proof -
  let ?es = "(k_errs k)\<lparr>es_offset := 0\<rparr>"
  have es: "err_inv ?es" using assms(1) by (simp add: kern_inv_def err_inv_def)
  have clear: "law_err_clear (k_errs k) = Inr ?es" using assms(1) by (simp add: law_err_clear_def kern_inv_def err_inv_def)
  note push = KERN_PUSH_errs [OF es]
  obtain d k1 where n: "sys_new_fd k = (d, k1)" by fastforce
  show ?thesis
  proof (cases d)
    case None
    from push [of LAW_ERR_SSL "''SSL_new''" "''law_htc_ssl_accept''" 271 k1] n None clear assms(2) show ?thesis
      by (auto simp: law_htc_ssl_accept_def law_ht_sreq_ssl_accept_def sys_new_fd_errs)
  next
    case (Some ssl)
    obtain b k2 where c: "sys_call k1 = (b, k2)" by fastforce
    have gone: "ssl \<notin> k_open (free ssl k2)" by (simp add: sys_close_def)
    from push [of LAW_ERR_SSL "''SSL_set_fd''" "''law_htc_ssl_accept''" 277 "free ssl k2"]
      push [of LAW_ERR_SYS "''SSL_accept''" "''law_htc_ssl_accept''" 299 "free ssl k2"]
      push [of LAW_ERR_SSL "''SSL_accept''" "''law_htc_ssl_accept''" 304 "free ssl k2"]
    show ?thesis using n Some c clear assms(2) gone
      by (cases b; cases res)
        (auto simp: law_htc_ssl_accept_def law_ht_sreq_ssl_accept_def sys_new_fd_errs sys_call_errs
          sys_close_errs same_conn_def Let_def split: ssl_error.split)
  qed
qed

lemma ssl_accept_as_before_witness:
  "\<exists>new' old' k' l'.
     law_htc_ssl_accept (SSL_NEGATIVE SSL_ERROR_SYSCALL)
       \<lparr>hc_socket = 7, hc_mode = LAW_HTC_UNSECURED, hc_ssl = None, hc_inbuf = (), hc_outbuf = ()\<rparr> (demo_kern []) =
       Inr (LAW_ERR_SYS, new', k') \<and>
     law_ht_sreq_ssl_accept (SSL_NEGATIVE SSL_ERROR_SYSCALL)
       \<lparr>ht_socket = 7, ht_security = LAW_HT_UNSECURED, ht_ssl = None, ht_in = (), ht_out = ()\<rparr> (demo_kern []) =
       (LAW_ERR_SYS, old', l') \<and>
     (\<exists>ssl. ht_ssl old' = Some ssl \<and> ssl \<notin> k_open l')"
proof -
  let ?new = "\<lparr>hc_socket = 7, hc_mode = LAW_HTC_UNSECURED, hc_ssl = None, hc_inbuf = (), hc_outbuf = ()\<rparr>"
  let ?old = "\<lparr>ht_socket = 7, ht_security = LAW_HT_UNSECURED, ht_ssl = None, ht_in = (), ht_out = ()\<rparr>"
  let ?res = "SSL_NEGATIVE SSL_ERROR_SYSCALL"
  have "same_conn ?new ?old" by (simp add: same_conn_def)
  from ssl_accept_as_before [OF demo_kern_inv this, of ?res "[]"]
  obtain e new' old' k' l' where r: "law_htc_ssl_accept ?res ?new (demo_kern []) = Inr (e, new', k')"
    "law_ht_sreq_ssl_accept ?res ?old (demo_kern []) = (e, old', l')"
    "e \<in> {LAW_ERR_EOF, LAW_ERR_SYS} \<longrightarrow> (\<exists>ssl. ht_ssl old' = Some ssl \<and> ssl \<notin> k_open l')"
    by blast
  have "e = LAW_ERR_SYS" using r(2)
    by (simp add: law_ht_sreq_ssl_accept_def sys_new_fd_def sys_call_def demo_kern_def Let_def)
  with r show ?thesis by auto
qed

section \<open>Headers again\<close>

interpretation old_hdr: pair_list "law_ht_hdrs_get A" "law_ht_hdrs_i_next A" for A
  by unfold_locales (auto simp: law_ht_hdrs_i_next_def split: list.splits)

text \<open>Where the iterator gets through, the older look-up and the newer one give the same.\<close>

lemma old_headers_get:
  assumes "old_hdr.drain A (Suc (length hdrs)) hdrs = Inr ps"
  shows "law_ht_hdrs_get A (law_ht_hdrs_elems hdrs) name = Inr (map_of ps name)"
  using old_hdr.get_drain [OF assms] by (simp add: law_ht_hdrs_elems_def)

end
