(* ===== verification/HttpClient.thy ===== *)
theory HttpClient
  imports HttpOld
begin

text \<open>
  The objects of \<^verbatim>\<open>http.c\<close> that own memory and descriptors: a client's request and the
  connection it makes, a server's context, and the entry of a server's request. Blocks, mappings,
  sessions and descriptors are handles of the theory \<open>Sys\<close>. None of the allocations is checked
  before its result is used.
\<close>

section \<open>A client's request\<close>

record law_ht_creq_cfg =
  cq_in_length :: nat
  cq_in_guard :: nat
  cq_out_length :: nat
  cq_out_guard :: nat
  cq_heap_length :: nat
  cq_heap_guard :: nat

text \<open>The blocks and mappings of a request.\<close>

record law_ht_creq =
  cr_block :: fd
  cr_in :: fd
  cr_out :: fd
  cr_heap :: fd
  cr_in_mem :: law_smem
  cr_out_mem :: law_smem
  cr_heap_mem :: law_smem

text \<open>
  The first four allocations are all made before the first of their results is used, by the
  initialisation of the heap.
\<close>

definition law_ht_creq_create ::
  "(nat \<Rightarrow> nat \<Rightarrow> bool) \<Rightarrow> law_ht_creq_cfg \<Rightarrow> kern \<Rightarrow> (law_ht_creq \<times> kern) run" where
  "law_ht_creq_create prot cfg k =
     (case sys_new_fd k of (request, k) \<Rightarrow>
      bindE (law_smem_create prot (cq_in_length cfg) (cq_in_guard cfg) k) (\<lambda>(in_mem, k).
      bindE (law_smem_create prot (cq_out_length cfg) (cq_out_guard cfg) k) (\<lambda>(out_mem, k).
      bindE (law_smem_create prot (cq_heap_length cfg) (cq_heap_guard cfg) k) (\<lambda>(heap_mem, k).
        case sys_new_fd k of (heap, k) \<Rightarrow>
        require NULL_DEREF (heap \<noteq> None \<and> heap_mem \<noteq> None)
         (case sys_new_fd k of (inb, k) \<Rightarrow>
          case sys_new_fd k of (outb, k) \<Rightarrow>
          require NULL_DEREF (inb \<noteq> None \<and> in_mem \<noteq> None)
           (require NULL_DEREF (outb \<noteq> None \<and> out_mem \<noteq> None)
             (require NULL_DEREF (request \<noteq> None)
               (Inr (\<lparr>cr_block = the request, cr_in = the inb, cr_out = the outb, cr_heap = the heap,
                  cr_in_mem = the in_mem, cr_out_mem = the out_mem, cr_heap_mem = the heap_mem\<rparr>, k)))))))))"

definition law_ht_creq_destroy :: "law_ht_creq \<Rightarrow> kern \<Rightarrow> kern" where
  "law_ht_creq_destroy request k =
     (let k = free (cr_out request) k; k = free (cr_in request) k; k = free (cr_heap request) k;
          k = law_smem_destroy (cr_out_mem request) k; k = law_smem_destroy (cr_in_mem request) k;
          k = law_smem_destroy (cr_heap_mem request) k
      in free (cr_block request) k)"

definition creq_handles :: "law_ht_creq \<Rightarrow> fd set" where
  "creq_handles r = {cr_block r} \<union> smem_handles (cr_in_mem r) \<union> smem_handles (cr_out_mem r) \<union>
     smem_handles (cr_heap_mem r) \<union> {cr_heap r} \<union> {cr_in r} \<union> {cr_out r}"

definition law_ht_creq_socket :: "('b, 'w, 'k) ht_req \<Rightarrow> fd" where
  "law_ht_creq_socket request = ht_socket (hq_conn request)"

definition law_ht_creq_SSL :: "('b, 'w, 'k) ht_req \<Rightarrow> fd option" where
  "law_ht_creq_SSL request = ht_ssl (hq_conn request)"

definition law_ht_creq_out :: "('b, 'w, 'k) ht_req \<Rightarrow> 'b" where
  "law_ht_creq_out request = ht_out (hq_conn request)"

definition law_ht_creq_in :: "('b, 'w, 'k) ht_req \<Rightarrow> 'b" where
  "law_ht_creq_in request = ht_in (hq_conn request)"

definition law_ht_creq_heap :: "('b, 'w, 'k) ht_req \<Rightarrow> 'k" where
  "law_ht_creq_heap request = hq_heap request"

section \<open>Connecting\<close>

text \<open>
  An address of the list \<^verbatim>\<open>getaddrinfo\<close> gives, with the answer of
  \<^verbatim>\<open>connect\<close>. The list is a block that \<^verbatim>\<open>freeaddrinfo\<close> releases. The loop
  returns its variables \<^verbatim>\<open>i\<close> and \<^verbatim>\<open>fd\<close>; it has no exit but the end of the list.
\<close>

datatype connect_answer = CONNECTED | EINPROGRESS | CONNECT_FAILED

fun connect_loop ::
  "connect_answer list \<Rightarrow> fd option \<Rightarrow> kern \<Rightarrow> connect_answer list \<times> fd option \<times> kern" where
  "connect_loop [] fd k = ([], fd, k)"
| "connect_loop (i # rest) fd k =
     (case sys_new_fd k of
        (None, k) \<Rightarrow> connect_loop rest None k
      | (Some fd, k) \<Rightarrow>
          (case sys_call k of
             (False, k) \<Rightarrow> connect_loop rest (Some fd) (sys_close fd k)
           | (True, k) \<Rightarrow>
               if i = CONNECT_FAILED then connect_loop rest (Some fd) (sys_close fd k)
               else connect_loop rest (Some fd) k))"

definition law_ht_creq_connect ::
  "connect_answer list \<Rightarrow> ('b, 'w, 'k) ht_req \<Rightarrow> kern \<Rightarrow> sel_err_t \<times> ('b, 'w, 'k) ht_req \<times> kern" where
  "law_ht_creq_connect info request k =
     (case sys_new_fd k of
        (None, k) \<Rightarrow> (LAW_ERR_GAI, request, k)
      | (Some block, k) \<Rightarrow>
          (case connect_loop info None k of
             (i, fd, k) \<Rightarrow>
               let k = free block k in
               if i = [] then (LAW_ERR_SYS, request, k)
               else (LAW_ERR_OK, request\<lparr>hq_conn := (hq_conn request)\<lparr>ht_socket := the fd\<rparr>\<rparr>, k)))"

section \<open>Writing a request and reading the answer\<close>

definition law_ht_creq_request_line ::
  "('b, 'w) pgc_io \<Rightarrow> string \<Rightarrow> string \<Rightarrow> string \<Rightarrow> ('b, 'w, 'k) ht_req \<Rightarrow> sel_err_t \<times> ('b, 'w, 'k) ht_req" where
  "law_ht_creq_request_line I method target version =
     to_out (pgc_buf_printf (pi_buf I) (method @ '' '' @ target @ '' '' @ version @ CRLF))"

definition law_ht_creq_header ::
  "('b, 'w) pgc_io \<Rightarrow> string \<Rightarrow> string \<Rightarrow> ('b, 'w, 'k) ht_req \<Rightarrow> sel_err_t \<times> ('b, 'w, 'k) ht_req" where
  "law_ht_creq_header I name value = to_out (pgc_buf_printf (pi_buf I) (name @ '': '' @ value @ CRLF))"

definition law_ht_creq_body ::
  "('b, 'w) pgc_io \<Rightarrow> ('b, 'w, 'k) ht_req \<Rightarrow> sel_err_t \<times> ('b, 'w, 'k) ht_req" where
  "law_ht_creq_body I = to_out (b_put (pi_buf I) [13, 10])"

definition law_ht_creq_write_data ::
  "('b, 'w) pgc_io \<Rightarrow> ('b, 'w, 'k) ht_req \<Rightarrow> (sel_err_t \<times> ('b, 'w, 'k) ht_req) run" where
  "law_ht_creq_write_data I = on_conn (law_ht_write_data I)"

definition law_ht_creq_send :: sel_err_t where
  "law_ht_creq_send = LAW_ERR_SYS"

record 'a law_ht_res_head =
  sh_version :: string
  sh_status :: int
  sh_headers :: "'a list option"

text \<open>\<open>touint32\<close> is \<^verbatim>\<open>pgc_ast_touint32\<close>; its value is cast to \<^verbatim>\<open>int\<close>.\<close>

definition law_ht_creq_read_head ::
  "('b, 'w) pgc_io \<Rightarrow> 'a ast_ops \<Rightarrow> ('a \<Rightarrow> u32) \<Rightarrow> ('a, 'k) lang \<Rightarrow> ('k \<Rightarrow> bool \<times> 'k) \<Rightarrow> ('b, 'w, 'k) ht_req \<Rightarrow>
   (sel_err_t \<times> 'a law_ht_res_head option \<times> ('b, 'w, 'k) ht_req) run" where
  "law_ht_creq_read_head I A touint32 parser push req =
     bindE (law_ht_read_head I parser (hq_conn req) (hq_heap req) (hq_net req)) (\<lambda>(err, list, conn, heap, w).
       let req = \<lparr>hq_conn = conn, hq_heap = heap, hq_net = w\<rparr> in
       if err \<noteq> LAW_ERR_OK then Inr (err, None, req)
       else
         bindE (node_at A list 0) (\<lambda>v.
         bindE (node_at A list 1) (\<lambda>st.
           let head = \<lparr>sh_version = a_tostr A v, sh_status = sint (touint32 st), sh_headers = None\<rparr> in
           case push (hq_heap req) of
             (room, heap) \<Rightarrow>
               let req = req\<lparr>hq_heap := heap\<rparr> in
               if \<not> room then Inr (LAW_ERR_OOM, Some head, req)
               else Inr (LAW_ERR_OK, Some (head\<lparr>sh_headers := Some (list_from A list 2)\<rparr>), req))))"

definition law_ht_creq_read_data ::
  "('b, 'w) pgc_io \<Rightarrow> ('b, 'w, 'k) ht_req \<Rightarrow> (sel_err_t \<times> ('b, 'w, 'k) ht_req) run" where
  "law_ht_creq_read_data I = on_conn (law_ht_read_data I)"

definition law_ht_creq_done :: "('b, 'w, 'k) ht_req \<Rightarrow> kern \<Rightarrow> sel_err_t \<times> kern" where
  "law_ht_creq_done request k = (LAW_ERR_OK, sys_close (ht_socket (hq_conn request)) k)"

section \<open>A server's context\<close>

record 'cb law_ht_sctx_cfg =
  sc_in_length :: nat
  sc_in_guard :: nat
  sc_out_length :: nat
  sc_out_guard :: nat
  sc_heap_length :: nat
  sc_heap_guard :: nat
  sc_security :: law_ht_security
  sc_private_key :: "string option"
  sc_certificate :: "string option"
  sc_callback :: "'cb option"

definition law_ht_sctx_cfg_sanity :: "'cb law_ht_sctx_cfg" where
  "law_ht_sctx_cfg_sanity =
     \<lparr>sc_in_length = 0x2000, sc_in_guard = 0x1000, sc_out_length = 0x2000, sc_out_guard = 0x1000,
      sc_heap_length = 0xF000, sc_heap_guard = 0x1000, sc_security = LAW_HT_UNSECURED,
      sc_private_key = None, sc_certificate = None, sc_callback = None\<rparr>"

record 'cb law_ht_sctx =
  sx_block :: fd
  sx_cfg :: "'cb law_ht_sctx_cfg"
  sx_ssl :: "fd option"

definition law_ht_sreq_security :: "'cb law_ht_sctx \<Rightarrow> law_ht_security" where
  "law_ht_sreq_security context = sc_security (sx_cfg context)"

definition law_ht_sctx_create :: "'cb law_ht_sctx_cfg \<Rightarrow> kern \<Rightarrow> ('cb law_ht_sctx \<times> kern) run" where
  "law_ht_sctx_create cfg k =
     (case sys_new_fd k of
        (None, k) \<Rightarrow> Inl NULL_DEREF
      | (Some http, k) \<Rightarrow> Inr (\<lparr>sx_block = http, sx_cfg = cfg, sx_ssl = None\<rparr>, k))"

definition law_ht_sctx_destroy :: "'cb law_ht_sctx \<Rightarrow> kern \<Rightarrow> kern" where
  "law_ht_sctx_destroy http k = free (sx_block http) (case sx_ssl http of None \<Rightarrow> k | Some c \<Rightarrow> free c k)"

text \<open>\<open>cert\<close> and \<open>pkey\<close> are what the two calls that read the files return.\<close>

definition law_ht_sctx_init ::
  "int \<Rightarrow> int \<Rightarrow> 'cb law_ht_sctx \<Rightarrow> kern \<Rightarrow> sel_err_t \<times> 'cb law_ht_sctx \<times> kern" where
  "law_ht_sctx_init cert pkey http k =
     (case sys_new_fd k of
        (None, k) \<Rightarrow> (LAW_ERR_SSL, http, k)
      | (Some context, k) \<Rightarrow>
          if cert < 0 then (LAW_ERR_SSL, http, free context k)
          else if pkey < 0 then (LAW_ERR_SSL, http, free context k)
          else (LAW_ERR_OK, http\<lparr>sx_ssl := Some context\<rparr>, k))"

text \<open>
  The entry of a request: three mappings are made, the callback runs on a request over them, and
  they are released. \<open>bufs\<close> makes a zeroed buffer or stack of a length.
\<close>

definition law_ht_accept ::
  "(nat \<Rightarrow> nat \<Rightarrow> bool) \<Rightarrow> (nat \<Rightarrow> 'b) \<Rightarrow> (nat \<Rightarrow> 'k) \<Rightarrow>
   ('cb \<Rightarrow> ('b, 'w, 'k) ht_req \<Rightarrow> kern \<Rightarrow> (sel_err_t \<times> kern) run) \<Rightarrow>
   fd \<Rightarrow> 'cb law_ht_sctx \<Rightarrow> 'w \<Rightarrow> kern \<Rightarrow> (sel_err_t \<times> kern) run" where
  "law_ht_accept prot bufs stks call sock context w k =
     (let cfg = sx_cfg context in
      bindE (law_smem_create prot (sc_in_length cfg) (sc_in_guard cfg) k) (\<lambda>(in_mem, k).
      bindE (law_smem_create prot (sc_out_length cfg) (sc_out_guard cfg) k) (\<lambda>(out_mem, k).
      bindE (law_smem_create prot (sc_heap_length cfg) (sc_heap_guard cfg) k) (\<lambda>(heap_mem, k).
        require NULL_DEREF (heap_mem \<noteq> None)
         (require NULL_DEREF (in_mem \<noteq> None)
           (require NULL_DEREF (out_mem \<noteq> None)
             (let request =
                \<lparr>hq_conn = \<lparr>ht_socket = sock, ht_security = LAW_HT_UNSECURED, ht_ssl = None,
                    ht_in = bufs (sc_in_length cfg), ht_out = bufs (sc_out_length cfg)\<rparr>,
                 hq_heap = stks (sc_heap_length cfg), hq_net = w\<rparr>
              in case sc_callback cfg of
                   None \<Rightarrow> Inl NULL_CALL
                 | Some cb \<Rightarrow>
                     bindE (call cb request k) (\<lambda>(error, k).
                       let k = law_smem_destroy (the heap_mem) k; k = law_smem_destroy (the out_mem) k
                       in Inr (error, law_smem_destroy (the in_mem) k)))))))))"

section \<open>What a connection attempt leaves\<close>

lemma new_fd_more:
  assumes "adds_fds D k0 k" and "sys_new_fd k = (d, k')"
  shows "case d of None \<Rightarrow> adds_fds D k0 k' | Some d \<Rightarrow> d \<notin> D \<and> adds_fds (insert d D) k0 k'"
  using adds_fds_inv [OF assms(1)]
proof (cases rule: sys_new_fd_cases)
  case (1 k1)
  with assms show ?thesis by (auto intro: adds_same_trans)
next
  case (2 b k1)
  have "D \<subseteq> k_open k" using assms(1) by (auto simp: adds_fds_def)
  with 2(2) have "b \<notin> D" by (auto simp: adds_fds_def)
  with adds_fds_trans [OF assms(1) 2(2)] 2(1) assms(2) show ?thesis by simp
qed

lemma sys_call_more:
  assumes "adds_fds D k0 k" and "sys_call k = (b, k')"
  shows "adds_fds D k0 k'"
  using adds_same_trans [OF assms(1) sys_call_same [OF adds_fds_inv [OF assms(1)] assms(2)]] .

lemma sys_new_fd_free:
  assumes "k_outs k = []"
  shows "sys_new_fd k = (Some (k_next k), k\<lparr>k_open := insert (k_next k) (k_open k), k_next := k_next k + 1\<rparr>)"
    and "sys_call k = (True, k)"
  using assms by (simp_all add: sys_new_fd_def sys_call_def)

lemma sys_close_outs [simp]: "k_outs (sys_close d k) = k_outs k"
  by (simp add: sys_close_def)

lemma connect_loop_leaves:
  assumes "adds_fds D k0 k" and "finite D"
  shows "\<exists>fd' k' E. connect_loop info fd k = ([], fd', k') \<and> adds_fds E k0 k' \<and> finite E \<and> D \<subseteq> E \<and>
    card E \<le> card D + length (filter (\<lambda>i. i \<noteq> CONNECT_FAILED) info) \<and>
    (k_outs k = [] \<longrightarrow> card E = card D + length (filter (\<lambda>i. i \<noteq> CONNECT_FAILED) info) \<and> k_outs k' = [])"
  using assms
proof (induction info arbitrary: fd k D)
  case Nil
  then show ?case by auto
next
  case (Cons i rest)
  obtain d k1 where n: "sys_new_fd k = (d, k1)" by fastforce
  note more = new_fd_more [OF Cons.prems(1) n]
  show ?case
  proof (cases d)
    case None
    with more have a: "adds_fds D k0 k1" by simp
    have "k_outs k \<noteq> []" using n None by (auto simp: sys_new_fd_def sys_call_def split: list.splits)
    with Cons.IH [OF a Cons.prems(2), of None] n None show ?thesis by (auto simp: le_Suc_eq)
  next
    case (Some f)
    with more have f: "f \<notin> D" and a: "adds_fds (insert f D) k0 k1" by simp_all
    obtain b k2 where c: "sys_call k1 = (b, k2)" by fastforce
    note a2 = sys_call_more [OF a c]
    have shut: "adds_fds D k0 (sys_close f k2)" using sys_close_adds [OF a2, of f] f by simp
    have outs: "b \<and> k_outs k1 = [] \<and> k_outs k2 = []" if "k_outs k = []"
      using that n c by (auto simp: sys_new_fd_def sys_call_def)
    show ?thesis
    proof (cases "b \<and> i \<noteq> CONNECT_FAILED")
      case True
      have "finite (insert f D)" using Cons.prems(2) by simp
      from Cons.IH [OF a2 this, of "Some f"] n Some c True f outs Cons.prems(2) show ?thesis by auto
    next
      case False
      then have "connect_loop (i # rest) fd k = connect_loop rest (Some f) (sys_close f k2)"
        using n Some c by (auto split: bool.split)
      moreover have "k_outs k = [] \<longrightarrow> i = CONNECT_FAILED" using False outs by blast
      ultimately show ?thesis using Cons.IH [OF shut Cons.prems(2), of "Some f"] outs by (auto simp: le_Suc_eq)
    qed
  qed
qed

text \<open>
  \<^verbatim>\<open>law_ht_creq_connect\<close> never succeeds. Its loop ends only at the end of the list of
  addresses, which the code takes for failure: the result is \<^verbatim>\<open>LAW_ERR_GAI\<close> or
  \<^verbatim>\<open>LAW_ERR_SYS\<close>, the request has no new socket, and the descriptors of the addresses that
  did connect, or were about to, stay open with nobody to close them; if no other call fails there is
  one for each such address.
\<close>

theorem creq_connect_leaks:
  assumes "kern_inv k"
  shows "\<exists>e k' D. law_ht_creq_connect info request k = (e, request, k') \<and> e \<in> {LAW_ERR_GAI, LAW_ERR_SYS} \<and>
    adds_fds D k k' \<and> card D \<le> length (filter (\<lambda>i. i \<noteq> CONNECT_FAILED) info) \<and>
    (k_outs k = [] \<longrightarrow> e = LAW_ERR_SYS \<and> card D = length (filter (\<lambda>i. i \<noteq> CONNECT_FAILED) info))"
proof -
  have start: "adds_fds {} k k" using assms by (simp add: adds_fds_empty same_fds_refl)
  obtain d k1 where n: "sys_new_fd k = (d, k1)" by fastforce
  note more = new_fd_more [OF start n]
  show ?thesis
  proof (cases d)
    case None
    then have "k_outs k \<noteq> []" using n by (auto simp: sys_new_fd_def sys_call_def split: list.splits)
    with None n more show ?thesis
      by (intro exI [of _ LAW_ERR_GAI] exI [of _ k1] exI [of _ "{}"]) (simp add: law_ht_creq_connect_def)
  next
    case (Some b)
    with more have a: "adds_fds {b} k k1" by simp
    from connect_loop_leaves [OF a, of info None]
    obtain fd' k' E where c: "connect_loop info None k1 = ([], fd', k')" "adds_fds E k k'" "finite E" "{b} \<subseteq> E"
      "card E \<le> 1 + length (filter (\<lambda>i. i \<noteq> CONNECT_FAILED) info)"
      "k_outs k1 = [] \<longrightarrow> card E = 1 + length (filter (\<lambda>i. i \<noteq> CONNECT_FAILED) info)"
      by auto
    have "adds_fds (E - {b}) k (free b k')" using c(4) by (intro sys_close_adds [OF c(2)]) simp
    moreover have "card (E - {b}) = card E - 1" using c(3,4) by simp
    moreover have "k_outs k = [] \<longrightarrow> k_outs k1 = []" using n by (auto simp: sys_new_fd_def sys_call_def)
    ultimately show ?thesis using c n Some
      by (intro exI [of _ LAW_ERR_SYS] exI [of _ "free b k'"] exI [of _ "E - {b}"])
        (auto simp: law_ht_creq_connect_def)
  qed
qed

definition demo_ht_req :: "(rbuf, u8 list, unit) ht_req" where
  "demo_ht_req = \<lparr>hq_conn = demo_ht_conn, hq_heap = (), hq_net = []\<rparr>"

lemma creq_connect_leaks_witness:
  "\<exists>k' D. law_ht_creq_connect [CONNECT_FAILED, EINPROGRESS, CONNECTED] demo_ht_req (demo_kern []) =
     (LAW_ERR_SYS, demo_ht_req, k') \<and> adds_fds D (demo_kern []) k' \<and> card D = 2"
proof -
  from creq_connect_leaks [OF demo_kern_inv, of "[CONNECT_FAILED, EINPROGRESS, CONNECTED]" demo_ht_req "[]"]
  obtain e k' D where "law_ht_creq_connect [CONNECT_FAILED, EINPROGRESS, CONNECTED] demo_ht_req (demo_kern []) =
      (e, demo_ht_req, k')" "adds_fds D (demo_kern []) k'" "k_outs (demo_kern []) = [] \<longrightarrow> e = LAW_ERR_SYS \<and> card D = 2"
    by auto
  then show ?thesis by (auto simp: demo_kern_def)
qed

section \<open>What the objects own\<close>

text \<open>A step that may hand out handles: none, or new ones.\<close>

definition grown :: "('a \<Rightarrow> fd set) \<Rightarrow> fd set \<Rightarrow> kern \<Rightarrow> 'a option \<Rightarrow> kern \<Rightarrow> bool" where
  "grown h D k0 x k \<longleftrightarrow>
     (case x of None \<Rightarrow> adds_fds D k0 k | Some a \<Rightarrow> D \<inter> h a = {} \<and> adds_fds (D \<union> h a) k0 k)"

lemma new_fd_grown:
  assumes "adds_fds D k0 k"
  obtains d k' where "sys_new_fd k = (d, k')" and "grown (\<lambda>b. {b}) D k0 d k'"
proof -
  obtain d k' where r: "sys_new_fd k = (d, k')" by fastforce
  from new_fd_more [OF assms r] have "grown (\<lambda>b. {b}) D k0 d k'"
    by (auto simp: grown_def split: option.splits)
  with r show thesis by (rule that)
qed

lemma smem_grown:
  assumes "adds_fds D k0 k"
  obtains m k' where "law_smem_create (\<lambda>_ _. True) l g k = Inr (m, k')" and "grown smem_handles D k0 m k'"
    and "\<forall>x. m = Some x \<longrightarrow> sm_block x \<noteq> sm_address x"
proof -
  from sm.create_more [OF assms, where l = l and g = g] show thesis
    by (elim disjE exE conjE) (auto simp: grown_def intro: that)
qed

lemma grown_None: "grown h D k0 None k \<Longrightarrow> adds_fds D k0 k"
  by (simp add: grown_def)

lemma grown_Some: "grown h D k0 (Some a) k \<Longrightarrow> D \<inter> h a = {} \<and> adds_fds (D \<union> h a) k0 k"
  by (simp add: grown_def)

lemma grown_adds: "grown h D k0 x k \<Longrightarrow> \<exists>E. adds_fds E k0 k"
  by (auto simp: grown_def split: option.splits)

text \<open>
  Three mappings in a row, as the request and the entry make them: either all are there, or the one
  that is missing will be read through a null pointer.
\<close>

lemma three_mappings:
  assumes "adds_fds D k0 k"
  obtains a b c k1 k2 k3 where
    "law_smem_create (\<lambda>_ _. True) la ga k = Inr (a, k1)"
    "law_smem_create (\<lambda>_ _. True) lb gb k1 = Inr (b, k2)"
    "law_smem_create (\<lambda>_ _. True) lc gc k2 = Inr (c, k3)"
    "\<exists>E. adds_fds E k0 k3"
    "\<forall>x y z. a = Some x \<longrightarrow> b = Some y \<longrightarrow> c = Some z \<longrightarrow>
       adds_fds (D \<union> smem_handles x \<union> smem_handles y \<union> smem_handles z) k0 k3 \<and>
       D \<inter> smem_handles x = {} \<and> (D \<union> smem_handles x) \<inter> smem_handles y = {} \<and>
       (D \<union> smem_handles x \<union> smem_handles y) \<inter> smem_handles z = {} \<and>
       sm_block x \<noteq> sm_address x \<and> sm_block y \<noteq> sm_address y \<and> sm_block z \<noteq> sm_address z"
proof -
  obtain a k1 where a: "law_smem_create (\<lambda>_ _. True) la ga k = Inr (a, k1)" "grown smem_handles D k0 a k1"
    "\<forall>x. a = Some x \<longrightarrow> sm_block x \<noteq> sm_address x"
    by (rule smem_grown [OF assms])
  obtain E where E: "adds_fds E k0 k1" "\<forall>x. a = Some x \<longrightarrow> E = D \<union> smem_handles x \<and> D \<inter> smem_handles x = {}"
    using a(2) by (cases a) (auto simp: grown_def)
  obtain b k2 where b: "law_smem_create (\<lambda>_ _. True) lb gb k1 = Inr (b, k2)" "grown smem_handles E k0 b k2"
    "\<forall>x. b = Some x \<longrightarrow> sm_block x \<noteq> sm_address x"
    by (rule smem_grown [OF E(1)])
  obtain F where F: "adds_fds F k0 k2" "\<forall>x. b = Some x \<longrightarrow> F = E \<union> smem_handles x \<and> E \<inter> smem_handles x = {}"
    using b(2) by (cases b) (auto simp: grown_def)
  obtain c k3 where c: "law_smem_create (\<lambda>_ _. True) lc gc k2 = Inr (c, k3)" "grown smem_handles F k0 c k3"
    "\<forall>x. c = Some x \<longrightarrow> sm_block x \<noteq> sm_address x"
    by (rule smem_grown [OF F(1)])
  have "\<forall>x. c = Some x \<longrightarrow> F \<inter> smem_handles x = {} \<and> adds_fds (F \<union> smem_handles x) k0 k3"
    using c(2) by (auto simp: grown_def)
  note G = this
  show thesis
  proof (rule that [OF a(1) b(1) c(1) grown_adds [OF c(2)]], intro allI impI)
    fix x y z
    assume s: "a = Some x" "b = Some y" "c = Some z"
    from E(2) F(2) s have "E = D \<union> smem_handles x" "F = D \<union> smem_handles x \<union> smem_handles y"
      and "D \<inter> smem_handles x = {}" "(D \<union> smem_handles x) \<inter> smem_handles y = {}" by auto
    with G s a(3) b(3) c(3) show "adds_fds (D \<union> smem_handles x \<union> smem_handles y \<union> smem_handles z) k0 k3 \<and>
       D \<inter> smem_handles x = {} \<and> (D \<union> smem_handles x) \<inter> smem_handles y = {} \<and>
       (D \<union> smem_handles x \<union> smem_handles y) \<inter> smem_handles z = {} \<and>
       sm_block x \<noteq> sm_address x \<and> sm_block y \<noteq> sm_address y \<and> sm_block z \<noteq> sm_address z"
      by simp
  qed
qed

text \<open>Releasing the three in the reverse order.\<close>

lemma smem_release:
  assumes "sm_block m \<noteq> sm_address m" and "adds_fds D k0 k" and "smem_handles m \<subseteq> D"
  shows "adds_fds (D - smem_handles m) k0 (law_smem_destroy m k)"
  by (rule sm.destroy_adds [OF assms])

text \<open>
  \<^verbatim>\<open>law_ht_accept\<close> gives back what it takes. If the callback closes what it opens, the
  entry returns the callback's result with exactly the memory mapped and the descriptors open that were
  before, so it leaves the socket to the callback; unless an allocation fails, which it does not
  check: then it reads through a null pointer.
\<close>

theorem ht_accept_balanced:
  assumes "kern_inv k" and "sc_callback (sx_cfg context) = Some cb"
    and "\<And>req k. kern_inv k \<Longrightarrow> \<exists>e k'. call cb req k = Inr (e, k') \<and> same_fds k k'"
  shows "law_ht_accept (\<lambda>_ _. True) bufs stks call sock context w k = Inl NULL_DEREF \<or>
    (\<exists>e k' k1 k2 req. law_ht_accept (\<lambda>_ _. True) bufs stks call sock context w k = Inr (e, k') \<and> same_fds k k' \<and>
       call cb req k1 = Inr (e, k2) \<and> ht_socket (hq_conn req) = sock)"
proof -
  let ?cfg = "sx_cfg context"
  have start: "adds_fds {} k k" using assms(1) by (simp add: adds_fds_empty same_fds_refl)
  obtain a b c k1 k2 k3 where m:
    "law_smem_create (\<lambda>_ _. True) (sc_in_length ?cfg) (sc_in_guard ?cfg) k = Inr (a, k1)"
    "law_smem_create (\<lambda>_ _. True) (sc_out_length ?cfg) (sc_out_guard ?cfg) k1 = Inr (b, k2)"
    "law_smem_create (\<lambda>_ _. True) (sc_heap_length ?cfg) (sc_heap_guard ?cfg) k2 = Inr (c, k3)"
    and all: "\<forall>x y z. a = Some x \<longrightarrow> b = Some y \<longrightarrow> c = Some z \<longrightarrow>
       adds_fds ({} \<union> smem_handles x \<union> smem_handles y \<union> smem_handles z) k k3 \<and>
       {} \<inter> smem_handles x = {} \<and> ({} \<union> smem_handles x) \<inter> smem_handles y = {} \<and>
       ({} \<union> smem_handles x \<union> smem_handles y) \<inter> smem_handles z = {} \<and>
       sm_block x \<noteq> sm_address x \<and> sm_block y \<noteq> sm_address y \<and> sm_block z \<noteq> sm_address z"
    by (rule three_mappings [OF start])
  show ?thesis
  proof (cases "a = None \<or> b = None \<or> c = None")
    case True
    then show ?thesis using m by (auto simp: law_ht_accept_def Let_def require_def)
  next
    case False
    then obtain x y z where s: "a = Some x" "b = Some y" "c = Some z" by auto
    let ?req = "\<lparr>hq_conn = \<lparr>ht_socket = sock, ht_security = LAW_HT_UNSECURED, ht_ssl = None,
        ht_in = bufs (sc_in_length ?cfg), ht_out = bufs (sc_out_length ?cfg)\<rparr>,
        hq_heap = stks (sc_heap_length ?cfg), hq_net = w\<rparr>"
    note f = all [rule_format, OF s]
    let ?D = "smem_handles x \<union> smem_handles y \<union> smem_handles z"
    from f have a3: "adds_fds ?D k k3" by simp
    obtain e k4 where u: "call cb ?req k3 = Inr (e, k4)" "same_fds k3 k4"
      using assms(3) [OF adds_fds_inv [OF a3]] by blast
    have r1: "adds_fds (?D - smem_handles z) k (law_smem_destroy z k4)"
      by (rule smem_release) (use f adds_same_trans [OF a3 u(2)] in auto)
    have r2: "adds_fds (?D - smem_handles z - smem_handles y) k (law_smem_destroy y (law_smem_destroy z k4))"
      by (rule smem_release [OF _ r1]) (use f in auto)
    have "adds_fds (?D - smem_handles z - smem_handles y - smem_handles x) k
        (law_smem_destroy x (law_smem_destroy y (law_smem_destroy z k4)))"
      by (rule smem_release [OF _ r2]) (use f in auto)
    moreover have "?D - smem_handles z - smem_handles y - smem_handles x = {}" by auto
    ultimately have "same_fds k (law_smem_destroy x (law_smem_destroy y (law_smem_destroy z k4)))"
      by (simp add: adds_fds_empty)
    moreover have "law_ht_accept (\<lambda>_ _. True) bufs stks call sock context w k =
        Inr (e, law_smem_destroy x (law_smem_destroy y (law_smem_destroy z k4)))"
      using m s u(1) assms(2) by (simp add: law_ht_accept_def Let_def require_def)
    ultimately show ?thesis using u(1)
      by (intro disjI2 exI [of _ e] exI [of _ "law_smem_destroy x (law_smem_destroy y (law_smem_destroy z k4))"]
          exI [of _ k3] exI [of _ k4] exI [of _ ?req]) simp
  qed
qed

definition demo_sctx :: "unit law_ht_sctx" where
  "demo_sctx = \<lparr>sx_block = 0, sx_cfg = law_ht_sctx_cfg_sanity\<lparr>sc_callback := Some ()\<rparr>, sx_ssl = None\<rparr>"

lemma ht_accept_balanced_witness:
  "\<exists>k'. law_ht_accept (\<lambda>_ _. True) (\<lambda>n. n) (\<lambda>n. n) (\<lambda>_ req k. Inr (LAW_ERR_EOF, k)) 3 demo_sctx () (demo_kern []) =
     Inr (LAW_ERR_EOF, k') \<and> same_fds (demo_kern []) k'"
proof -
  have cb: "sc_callback (sx_cfg demo_sctx) = Some ()" by (simp add: demo_sctx_def)
  have keep: "\<exists>e k'. (Inr (LAW_ERR_EOF, k) :: (sel_err_t \<times> kern) run) = Inr (e, k') \<and> same_fds k k'"
    if "kern_inv k" for k
    using that same_fds_refl by blast
  let ?call = "\<lambda>_ (req :: (nat, unit, nat) ht_req) k. Inr (LAW_ERR_EOF, k)"
  have "law_ht_accept (\<lambda>_ _. True) (\<lambda>n. n) (\<lambda>n. n) ?call 3 demo_sctx () (demo_kern []) \<noteq> Inl NULL_DEREF"
    by (simp add: law_ht_accept_def law_smem_create_def calloc_def sys_close_def sys_new_fd_def sys_call_def demo_kern_def demo_sctx_def
        law_ht_sctx_cfg_sanity_def Let_def require_def)
  with ht_accept_balanced [where call = ?call and bufs = "\<lambda>n. n" and stks = "\<lambda>n. n" and sock = 3 and w = "()",
      OF demo_kern_inv [of "[]"] cb keep]
  obtain e k' k1 k2 req where "law_ht_accept (\<lambda>_ _. True) (\<lambda>n. n) (\<lambda>n. n) ?call 3 demo_sctx () (demo_kern []) =
      Inr (e, k')" "same_fds (demo_kern []) k'" "?call () req k1 = Inr (e, k2)"
    by blast
  then show ?thesis by auto
qed

text \<open>
  A client's request is created whole or not at all, and destroying it gives everything back,
  once. The allocations are not checked: when one of the seven fails the function does not fail, but
  reads or writes through a null pointer.
\<close>

theorem creq_create_destroy:
  assumes "kern_inv k"
  shows "law_ht_creq_create (\<lambda>_ _. True) cfg k = Inl NULL_DEREF \<or>
    (\<exists>request k'. law_ht_creq_create (\<lambda>_ _. True) cfg k = Inr (request, k') \<and>
       adds_fds (creq_handles request) k k' \<and> same_fds k (law_ht_creq_destroy request k'))"
proof -
  have start: "adds_fds {} k k" using assms by (simp add: adds_fds_empty same_fds_refl)
  obtain r k1 where r: "sys_new_fd k = (r, k1)" "grown (\<lambda>b. {b}) {} k r k1" by (rule new_fd_grown [OF start])
  obtain R where R: "adds_fds R k k1" "\<forall>x. r = Some x \<longrightarrow> R = {x}" using r(2) by (cases r) (auto simp: grown_def)
  obtain a b c k2 k3 k4 where m:
    "law_smem_create (\<lambda>_ _. True) (cq_in_length cfg) (cq_in_guard cfg) k1 = Inr (a, k2)"
    "law_smem_create (\<lambda>_ _. True) (cq_out_length cfg) (cq_out_guard cfg) k2 = Inr (b, k3)"
    "law_smem_create (\<lambda>_ _. True) (cq_heap_length cfg) (cq_heap_guard cfg) k3 = Inr (c, k4)"
    and some: "\<exists>E. adds_fds E k k4"
    and all: "\<forall>x y z. a = Some x \<longrightarrow> b = Some y \<longrightarrow> c = Some z \<longrightarrow>
       adds_fds (R \<union> smem_handles x \<union> smem_handles y \<union> smem_handles z) k k4 \<and>
       R \<inter> smem_handles x = {} \<and> (R \<union> smem_handles x) \<inter> smem_handles y = {} \<and>
       (R \<union> smem_handles x \<union> smem_handles y) \<inter> smem_handles z = {} \<and>
       sm_block x \<noteq> sm_address x \<and> sm_block y \<noteq> sm_address y \<and> sm_block z \<noteq> sm_address z"
    by (rule three_mappings [OF R(1)])
  obtain h k5 where h: "sys_new_fd k4 = (h, k5)" by fastforce
  obtain i k6 where i: "sys_new_fd k5 = (i, k6)" by fastforce
  obtain q k7 where q: "sys_new_fd k6 = (q, k7)" by fastforce
  note run = law_ht_creq_create_def [of "\<lambda>_ _. True" cfg k, unfolded r(1) prod.case m bindE_simps h i q]
  show ?thesis
  proof (cases "r = None \<or> a = None \<or> b = None \<or> c = None \<or> h = None \<or> i = None \<or> q = None")
    case True
    then show ?thesis unfolding run require_def by auto
  next
    case False
    then obtain r' x y z h' i' q' where s: "r = Some r'" "a = Some x" "b = Some y" "c = Some z" "h = Some h'"
      "i = Some i'" "q = Some q'" by auto
    let ?req = "\<lparr>cr_block = r', cr_in = i', cr_out = q', cr_heap = h', cr_in_mem = x, cr_out_mem = y, cr_heap_mem = z\<rparr>"
    note f = all [rule_format, OF s(2-4)]
    have Rr: "R = {r'}" using R(2) s(1) by simp
    let ?M = "{r'} \<union> smem_handles x \<union> smem_handles y \<union> smem_handles z"
    from f have "adds_fds ?M k k4" unfolding Rr by simp
    from new_fd_more [OF this h] s(5) have a5: "adds_fds (insert h' ?M) k k5" and n5: "h' \<notin> ?M" by simp_all
    from new_fd_more [OF a5 i] s(6) have a6: "adds_fds (insert i' (insert h' ?M)) k k6" and n6: "i' \<notin> insert h' ?M"
      by simp_all
    from new_fd_more [OF a6 q] s(7) have a7: "adds_fds (insert q' (insert i' (insert h' ?M))) k k7"
      and n7: "q' \<notin> insert i' (insert h' ?M)" by simp_all
    have own: "creq_handles ?req = insert q' (insert i' (insert h' ?M))" by (auto simp: creq_handles_def)
    have d1: "adds_fds (insert i' (insert h' ?M)) k (free q' k7)" using sys_close_adds [OF a7, of q'] n7 by simp
    have d2: "adds_fds (insert h' ?M) k (free i' (free q' k7))" using sys_close_adds [OF d1, of i'] n6 by simp
    have d3: "adds_fds ?M k (free h' (free i' (free q' k7)))" using sys_close_adds [OF d2, of h'] n5 by simp
    let ?k3 = "free h' (free i' (free q' k7))"
    have d4: "adds_fds (?M - smem_handles y) k (law_smem_destroy y ?k3)"
      by (rule smem_release [OF _ d3]) (use f in auto)
    have d5: "adds_fds (?M - smem_handles y - smem_handles x) k (law_smem_destroy x (law_smem_destroy y ?k3))"
      by (rule smem_release [OF _ d4]) (use f in auto)
    have d6: "adds_fds (?M - smem_handles y - smem_handles x - smem_handles z) k
        (law_smem_destroy z (law_smem_destroy x (law_smem_destroy y ?k3)))"
      by (rule smem_release [OF _ d5]) (use f in auto)
    have left: "?M - smem_handles y - smem_handles x - smem_handles z = {r'}" using f unfolding Rr by auto
    have "adds_fds {} k (law_ht_creq_destroy ?req k7)"
      using sys_close_adds [OF d6 [unfolded left], of r'] by (simp add: law_ht_creq_destroy_def Let_def)
    moreover have "law_ht_creq_create (\<lambda>_ _. True) cfg k = Inr (?req, k7)"
      unfolding run by (simp add: s require_def)
    ultimately show ?thesis using a7 unfolding own [symmetric] adds_fds_empty by blast
  qed
qed

lemma creq_create_destroy_witness:
  "\<exists>request k'. law_ht_creq_create (\<lambda>_ _. True)
       \<lparr>cq_in_length = 1, cq_in_guard = 1, cq_out_length = 1, cq_out_guard = 1, cq_heap_length = 1, cq_heap_guard = 1\<rparr>
       (demo_kern []) = Inr (request, k') \<and>
     adds_fds (creq_handles request) (demo_kern []) k' \<and> same_fds (demo_kern []) (law_ht_creq_destroy request k')"
proof -
  let ?cfg = "\<lparr>cq_in_length = 1, cq_in_guard = 1, cq_out_length = 1, cq_out_guard = 1, cq_heap_length = 1, cq_heap_guard = 1\<rparr>"
  have "law_ht_creq_create (\<lambda>_ _. True) ?cfg (demo_kern []) \<noteq> Inl NULL_DEREF"
    by (simp add: law_ht_creq_create_def law_smem_create_def calloc_def sys_close_def sys_new_fd_def sys_call_def demo_kern_def Let_def
        require_def)
  with creq_create_destroy [OF demo_kern_inv, of ?cfg "[]"] show ?thesis by blast
qed

end
