(* ===== verification/Coroutine.thy ===== *)
theory Coroutine
  imports Prelude
begin

text \<open>
  The switch between a task and its worker: the two routines of \<^verbatim>\<open>cor_x86_64.s\<close>,
  instruction by instruction, and the three functions of \<^verbatim>\<open>cor_x86_64.c\<close> that call them. The
  machine has the registers the routines name, a program counter, and a memory of quadwords; all
  addresses the routines use are multiples of eight, where no two quadwords overlap.
\<close>

section \<open>The machine\<close>

record cpu =
  rax :: u64
  rbx :: u64
  rcx :: u64
  rdx :: u64
  rdi :: u64
  rsi :: u64
  rbp :: u64
  rsp :: u64
  r12 :: u64
  r13 :: u64
  r14 :: u64
  r15 :: u64
  rip :: u64
  memory :: "u64 \<Rightarrow> u64"

definition store :: "u64 \<Rightarrow> u64 \<Rightarrow> cpu \<Rightarrow> cpu" where
  "store a v s = s\<lparr>memory := (memory s)(a := v)\<rparr>"

definition asm_push :: "u64 \<Rightarrow> cpu \<Rightarrow> cpu" where
  "asm_push v s = store (rsp s - 8) v (s\<lparr>rsp := rsp s - 8\<rparr>)"

definition asm_pop :: "((u64 \<Rightarrow> u64) \<Rightarrow> cpu \<Rightarrow> cpu) \<Rightarrow> cpu \<Rightarrow> cpu" where
  "asm_pop set_reg s = set_reg (\<lambda>_. memory s (rsp s)) s\<lparr>rsp := rsp s + 8\<rparr>"

definition asm_ret :: "cpu \<Rightarrow> cpu" where
  "asm_ret s = s\<lparr>rip := memory s (rsp s), rsp := rsp s + 8\<rparr>"

text \<open>\<open>back\<close> is the address of the instruction after the call.\<close>

definition asm_call :: "u64 \<Rightarrow> u64 \<Rightarrow> cpu \<Rightarrow> cpu" where
  "asm_call back target s = (asm_push back s)\<lparr>rip := target\<rparr>"

section \<open>The routines\<close>

definition push_saved :: "cpu \<Rightarrow> cpu" where
  "push_saved s =
     (let s = asm_push (r15 s) s; s = asm_push (r14 s) s; s = asm_push (r13 s) s; s = asm_push (r12 s) s
      in asm_push (rbx s) s)"

definition pop_saved :: "cpu \<Rightarrow> cpu" where
  "pop_saved s =
     (let s = asm_pop rbx_update s; s = asm_pop r12_update s; s = asm_pop r13_update s; s = asm_pop r14_update s
      in asm_pop r15_update s)"

definition save_env :: "u64 \<Rightarrow> cpu \<Rightarrow> cpu" where
  "save_env env s = (let s = store env (rbp s) s in store (env + 8) (rsp s) s)"

definition load_env :: "u64 \<Rightarrow> cpu \<Rightarrow> cpu" where
  "load_env env s = (let s = s\<lparr>rbp := memory s env\<rparr> in s\<lparr>rsp := memory s (env + 8)\<rparr>)"

definition law_cor_swap_x86_64 :: "cpu \<Rightarrow> cpu" where
  "law_cor_swap_x86_64 s =
     (let s = push_saved s; s = save_env (rdi s) s; s = load_env (rsi s) s; s = pop_saved s; s = s\<lparr>rax := rdx s\<rparr>
      in asm_ret s)"

text \<open>The first routine up to its call, and from there on.\<close>

definition law_cor_call_x86_64 :: "u64 \<Rightarrow> cpu \<Rightarrow> cpu" where
  "law_cor_call_x86_64 back s =
     (let s = push_saved s; s = s\<lparr>r15 := rdi s\<rparr>; s = save_env (r15 s) s; s = load_env (rsi s) s
      in asm_call back (rcx s) s)"

definition cor_call_return :: "cpu \<Rightarrow> cpu" where
  "cor_call_return s = (let s = load_env (r15 s) s; s = pop_saved s in asm_ret s)"

section \<open>The functions\<close>

text \<open>
  A call of a routine from C: the arguments in their registers. In the first, both words of the
  coroutine's environment are set to the end of its stack.
\<close>

definition law_cor_call :: "u64 \<Rightarrow> u64 \<Rightarrow> u64 \<Rightarrow> u64 \<Rightarrow> u64 \<Rightarrow> u64 \<Rightarrow> u64 \<Rightarrow> cpu \<Rightarrow> cpu" where
  "law_cor_call back init_env cor_env smem_address smem_length fn arg s =
     (let top = smem_address + smem_length; s = store cor_env top s; s = store (cor_env + 8) (memory s cor_env) s
      in law_cor_call_x86_64 back (s\<lparr>rdi := init_env, rsi := cor_env, rdx := arg, rcx := fn\<rparr>))"

definition law_cor_resume :: "u64 \<Rightarrow> u64 \<Rightarrow> u64 \<Rightarrow> cpu \<Rightarrow> cpu" where
  "law_cor_resume init_env cor_env signal s =
     law_cor_swap_x86_64 (s\<lparr>rdi := init_env, rsi := cor_env, rdx := signal\<rparr>)"

definition law_cor_yield :: "u64 \<Rightarrow> u64 \<Rightarrow> u64 \<Rightarrow> cpu \<Rightarrow> cpu" where
  "law_cor_yield init_env cor_env signal s =
     law_cor_swap_x86_64 (s\<lparr>rdi := cor_env, rsi := init_env, rdx := signal\<rparr>)"

section \<open>What a switch does\<close>

text \<open>
  A context that is put aside: its environment holds its frame pointer and the address of its five
  registers on its stack, under the address it returns to.
\<close>

record cor_context =
  c_rbx :: u64
  c_rbp :: u64
  c_rsp :: u64
  c_r12 :: u64
  c_r13 :: u64
  c_r14 :: u64
  c_r15 :: u64
  c_rip :: u64

definition context_of :: "cpu \<Rightarrow> cor_context" where
  "context_of s = \<lparr>c_rbx = rbx s, c_rbp = rbp s, c_rsp = rsp s, c_r12 = r12 s, c_r13 = r13 s, c_r14 = r14 s,
     c_r15 = r15 s, c_rip = rip s\<rparr>"

text \<open>What a call is about to return to.\<close>

definition returning :: "cpu \<Rightarrow> cor_context" where
  "returning s = (context_of s)\<lparr>c_rip := memory s (rsp s), c_rsp := rsp s + 8\<rparr>"

definition saved_at :: "u64 \<Rightarrow> (u64 \<Rightarrow> u64) \<Rightarrow> cor_context" where
  "saved_at env m =
     (let sp = m (env + 8) in
      \<lparr>c_rbx = m sp, c_rbp = m env, c_rsp = sp + 48, c_r12 = m (sp + 8), c_r13 = m (sp + 16), c_r14 = m (sp + 24),
       c_r15 = m (sp + 32), c_rip = m (sp + 40)\<rparr>)"

definition frame_of :: "u64 \<Rightarrow> u64 set" where
  "frame_of sp = {sp, sp + 8, sp + 16, sp + 24, sp + 32, sp + 40}"

definition env_of :: "u64 \<Rightarrow> u64 set" where
  "env_of env = {env, env + 8}"

text \<open>All that a saved context rests on.\<close>

definition footprint :: "u64 \<Rightarrow> (u64 \<Rightarrow> u64) \<Rightarrow> u64 set" where
  "footprint env m = env_of env \<union> frame_of (m (env + 8))"

lemma saved_at_cong:
  assumes "\<forall>a \<in> footprint env m. m' a = m a"
  shows "saved_at env m' = saved_at env m"
  using assms by (simp add: saved_at_def footprint_def env_of_def frame_of_def Let_def)

lemma push_saved_eq:
  "push_saved s = s\<lparr>rsp := rsp s - 40, memory := (memory s)
     (rsp s - 8 := r15 s, rsp s - 16 := r14 s, rsp s - 24 := r13 s, rsp s - 32 := r12 s, rsp s - 40 := rbx s)\<rparr>"
  by (simp add: push_saved_def asm_push_def store_def Let_def)

lemma pop_saved_eq:
  "pop_saved s = s\<lparr>rbx := memory s (rsp s), r12 := memory s (rsp s + 8), r13 := memory s (rsp s + 16),
     r14 := memory s (rsp s + 24), r15 := memory s (rsp s + 32), rsp := rsp s + 40\<rparr>"
  by (simp add: pop_saved_def asm_pop_def Let_def algebra_simps)

text \<open>The memory after the first half of a switch, and what it may have changed.\<close>

definition saved_mem :: "u64 \<Rightarrow> cpu \<Rightarrow> u64 \<Rightarrow> u64" where
  "saved_mem env s = (memory s)
     (rsp s - 8 := r15 s, rsp s - 16 := r14 s, rsp s - 24 := r13 s, rsp s - 32 := r12 s, rsp s - 40 := rbx s,
      env := rbp s, env + 8 := rsp s - 40)"

definition written :: "cpu \<Rightarrow> u64 \<Rightarrow> u64 set" where
  "written s env = env_of env \<union> (frame_of (rsp s - 40) - {rsp s})"

lemma saved_mem_outside: "a \<notin> written s env \<Longrightarrow> saved_mem env s a = memory s a"
  by (auto simp: saved_mem_def written_def env_of_def frame_of_def)

lemma saved_mem_saves:
  assumes "env_of env \<inter> frame_of (rsp s - 40) = {}"
  shows "saved_at env (saved_mem env s) = returning s"
  using assms by (simp add: saved_mem_def env_of_def frame_of_def saved_at_def returning_def context_of_def)

lemma swap_memory: "memory (law_cor_swap_x86_64 s) = saved_mem (rdi s) s"
  by (simp add: law_cor_swap_x86_64_def push_saved_eq pop_saved_eq save_env_def load_env_def store_def asm_ret_def
      Let_def saved_mem_def)

lemma swap_rax: "rax (law_cor_swap_x86_64 s) = rdx s"
  by (simp add: law_cor_swap_x86_64_def push_saved_eq pop_saved_eq save_env_def load_env_def store_def asm_ret_def
      Let_def)

text \<open>The second half: the context is loaded, popped and returned to.\<close>

lemma load_pop_ret:
  "context_of (asm_ret (pop_saved (load_env env s)\<lparr>rax := x\<rparr>)) = saved_at env (memory s)"
  "context_of (asm_ret (pop_saved (load_env env s))) = saved_at env (memory s)"
  by (simp_all add: pop_saved_eq load_env_def asm_ret_def Let_def context_of_def saved_at_def)

lemma swap_context: "context_of (law_cor_swap_x86_64 s) = saved_at (rsi s) (saved_mem (rdi s) s)"
proof -
  have m: "memory (save_env (rdi s) (push_saved s)) = saved_mem (rdi s) s" "rdi (push_saved s) = rdi s"
    "rsi (save_env (rdi s) (push_saved s)) = rsi s"
    by (simp_all add: push_saved_eq save_env_def store_def Let_def saved_mem_def)
  then show ?thesis by (simp add: law_cor_swap_x86_64_def Let_def load_pop_ret)
qed

lemma load_env_rcx: "rcx (load_env env s) = rcx s"
  by (simp add: load_env_def Let_def)

lemma yield_effect:
  "memory (law_cor_yield init cor sig s) = saved_mem cor s"
  "context_of (law_cor_yield init cor sig s) = saved_at init (saved_mem cor s)"
  "rax (law_cor_yield init cor sig s) = sig"
  by (simp_all add: law_cor_yield_def swap_memory swap_context swap_rax saved_mem_def)

lemma resume_effect:
  "memory (law_cor_resume init cor sig s) = saved_mem init s"
  "context_of (law_cor_resume init cor sig s) = saved_at cor (saved_mem init s)"
  "rax (law_cor_resume init cor sig s) = sig"
  by (simp_all add: law_cor_resume_def swap_memory swap_context swap_rax saved_mem_def)

text \<open>
  C7: A task that yields goes on where it yielded. When a task calls
  \<^verbatim>\<open>law_cor_yield\<close>, the worker takes up the context it had put aside, with the task's
  signal as the value of its call. When the worker then calls \<^verbatim>\<open>law_cor_resume\<close>, in any state
  that has left the task's environment and the six top words of its stack alone, and whose own stack is
  elsewhere, the task returns from its call with its six saved registers, its stack pointer and the signal of the
  worker; and the worker's context is put aside for the next yield.
\<close>

theorem yield_resume:
  assumes "env_of cor \<inter> frame_of (rsp s - 40) = {}" and "footprint init (memory s) \<inter> written s cor = {}"
    and "\<forall>a \<in> env_of cor \<union> frame_of (rsp s - 40). memory t a = memory (law_cor_yield init cor sig s) a"
    and "(env_of cor \<union> frame_of (rsp s - 40)) \<inter> written t init = {}"
    and "env_of init \<inter> frame_of (rsp t - 40) = {}"
  shows "context_of (law_cor_yield init cor sig s) = saved_at init (memory s) \<and>
    rax (law_cor_yield init cor sig s) = sig \<and>
    context_of (law_cor_resume init cor answer t) = returning s \<and>
    rax (law_cor_resume init cor answer t) = answer \<and>
    saved_at init (memory (law_cor_resume init cor answer t)) = returning t"
proof (intro conjI)
  have "\<forall>a \<in> footprint init (memory s). saved_mem cor s a = memory s a"
    using assms(2) saved_mem_outside by blast
  then show "context_of (law_cor_yield init cor sig s) = saved_at init (memory s)"
    unfolding yield_effect by (rule saved_at_cong)
  have sp: "saved_mem cor s (cor + 8) = rsp s - 40" by (simp add: saved_mem_def)
  have "\<forall>a \<in> footprint cor (saved_mem cor s). saved_mem init t a = saved_mem cor s a"
    unfolding footprint_def sp using assms(3,4) saved_mem_outside [of _ t init] yield_effect(1) [of init cor sig s]
    by (metis disjoint_iff)
  from saved_at_cong [OF this] saved_mem_saves [OF assms(1)]
  show "context_of (law_cor_resume init cor answer t) = returning s" unfolding resume_effect by simp
  show "saved_at init (memory (law_cor_resume init cor answer t)) = returning t"
    unfolding resume_effect by (rule saved_mem_saves [OF assms(5)])
qed (rule yield_effect resume_effect)+

text \<open>A task and its worker on two stacks.\<close>

definition demo_cpu :: "u64 \<Rightarrow> cpu" where
  "demo_cpu sp = \<lparr>rax = 0, rbx = 1, rcx = 2, rdx = 3, rdi = 4, rsi = 5, rbp = 6, rsp = sp, r12 = 7, r13 = 8, r14 = 9,
     r15 = 10, rip = 11, memory = (\<lambda>a. if a = 0x118 then 0x5000 else if a = 0x4000 then 77 else 0)\<rparr>"

lemma yield_resume_witness:
  "context_of (law_cor_resume 0x110 0x210 2 ((law_cor_yield 0x110 0x210 1 (demo_cpu 0x4000))\<lparr>rsp := 0x6000\<rparr>)) =
     \<lparr>c_rbx = 1, c_rbp = 6, c_rsp = 0x4008, c_r12 = 7, c_r13 = 8, c_r14 = 9, c_r15 = 10, c_rip = 77\<rparr>"
proof -
  have "context_of (law_cor_resume 0x110 0x210 2 ((law_cor_yield 0x110 0x210 1 (demo_cpu 0x4000))\<lparr>rsp := 0x6000\<rparr>)) =
      returning (demo_cpu 0x4000)"
    using yield_resume [where cor = "0x210" and init = "0x110" and s = "demo_cpu 0x4000" and sig = 1 and answer = 2 and
        t = "(law_cor_yield 0x110 0x210 1 (demo_cpu 0x4000))\<lparr>rsp := 0x6000\<rparr>"]
    by (simp add: env_of_def frame_of_def footprint_def written_def demo_cpu_def)
  then show ?thesis by (simp add: returning_def context_of_def demo_cpu_def)
qed

section \<open>Entering and leaving\<close>

text \<open>
  The first entry: the function runs on the top of the task's stack with its three arguments, and
  \<^verbatim>\<open>r15\<close> has the worker's environment, which holds the worker's context.
\<close>

lemma cor_call_enters:
  assumes "env_of init \<inter> frame_of (rsp s - 40) = {}" and "env_of cor \<inter> written s init = {}"
    and "rsp s \<notin> env_of cor" and "addr + len - 8 \<notin> env_of init \<union> frame_of (rsp s - 40)"
    and "c = law_cor_call back init cor addr len fn arg s"
  shows "rip c = fn" and "rdi c = init" and "rsi c = cor" and "rdx c = arg" and "r15 c = init"
    and "rsp c = addr + len - 8" and "rbp c = addr + len" and "memory c (rsp c) = back"
    and "saved_at init (memory c) = returning s"
proof -
  let ?top = "addr + len"
  let ?s = "s\<lparr>memory := (memory s)(cor := ?top, cor + 8 := ?top), rdi := init, rsi := cor, rdx := arg, rcx := fn\<rparr>"
  let ?m = "saved_mem init ?s"
  have w: "written ?s init = written s init" by (simp add: written_def)
  have env: "?m cor = ?top" "?m (cor + 8) = ?top"
    using assms(2) saved_mem_outside [of cor ?s init] saved_mem_outside [of "cor + 8" ?s init] unfolding w
    by (simp_all add: env_of_def)
  have "c = asm_call back fn (load_env cor (?s\<lparr>rsp := rsp s - 40, r15 := init, memory := ?m\<rparr>))"
    unfolding assms(5)
    by (simp add: law_cor_call_def law_cor_call_x86_64_def push_saved_eq save_env_def store_def Let_def saved_mem_def
        load_env_rcx)
  then have c: "c = ?s\<lparr>rbp := ?top, rsp := ?top - 8, r15 := init, memory := ?m(?top - 8 := back), rip := fn\<rparr>"
    by (simp add: asm_call_def asm_push_def load_env_def store_def Let_def env)
  show "rip c = fn" "rdi c = init" "rsi c = cor" "rdx c = arg" "r15 c = init" "rsp c = ?top - 8" "rbp c = ?top"
    "memory c (rsp c) = back"
    unfolding c by simp_all
  have "?m (init + 8) = rsp s - 40" by (simp add: saved_mem_def)
  then have "\<forall>a \<in> footprint init ?m. memory c a = ?m a"
    using assms(4) unfolding footprint_def c by auto
  from saved_at_cong [OF this] have "saved_at init (memory c) = saved_at init ?m" .
  also have "\<dots> = returning ?s" by (rule saved_mem_saves) (use assms(1) in simp)
  also have "\<dots> = returning s" using assms(3) by (simp add: returning_def context_of_def env_of_def)
  finally show "saved_at init (memory c) = returning s" .
qed

text \<open>The return of the function: the context in the environment that \<^verbatim>\<open>r15\<close> points to.\<close>

lemma cor_call_returns:
  "context_of (cor_call_return u) = saved_at (r15 u) (memory u)"
  "rax (cor_call_return u) = rax u"
proof -
  show "context_of (cor_call_return u) = saved_at (r15 u) (memory u)"
    by (simp add: cor_call_return_def load_pop_ret Let_def)
  show "rax (cor_call_return u) = rax u"
    by (simp add: cor_call_return_def load_env_def pop_saved_eq asm_ret_def Let_def)
qed

end
