(* ===== verification/TableStore.thy ===== *)
theory TableStore
  imports Table Lifecycle
begin

text \<open>
  The memory of the identifier table, \<^verbatim>\<open>table.c\<close>: every entry is a node of its own, which
  the table allocates when it is inserted and frees when it is removed or when the table is
  destroyed. The map from nodes to blocks is the field \<open>ts_node\<close>: two nodes of a table
  are never equal, so that a node's contents tell its block. A handle of the theory \<open>Sys\<close> stands for
  pubmt's array through all its reallocations. The second part is the table's iterator, which is
  pubmt's as well: \<open>ahead\<close> reads the nodes it has still to pass, and it has left a node
  behind when it returns it, so that the node may be freed.
\<close>

section \<open>Nodes and their blocks\<close>

record 'b table_store =
  ts_block :: fd
  ts_buffer :: fd
  ts_table :: "'b law_table"
  ts_node :: "law_table_node \<Rightarrow> fd"

text \<open>\<^verbatim>\<open>pmt_hm_create\<close> allocates its array; when it fails it keeps nothing.\<close>

definition law_table_create_store ::
  "'b pmt_hm \<Rightarrow> nat \<Rightarrow> kern \<Rightarrow> ('b table_store option \<times> kern) run" where
  "law_table_create_store H capacity k =
     bindE (calloc k) (\<lambda>(tb, k).
       case tb of
         None \<Rightarrow> Inr (None, k)
       | Some tb \<Rightarrow>
           bindE (calloc k) (\<lambda>(buffer, k).
             case buffer of
               None \<Rightarrow> Inr (None, free tb k)
             | Some buffer \<Rightarrow>
                 (case law_table_create H capacity of
                    None \<Rightarrow> Inr (None, free tb (free buffer k))
                  | Some t \<Rightarrow> Inr (Some \<lparr>ts_block = tb, ts_buffer = buffer, ts_table = t,
                                     ts_node = \<lambda>_. 0\<rparr>, k))))"

definition law_table_insert_store ::
  "'b pmt_hm \<Rightarrow> u64 \<Rightarrow> ptr \<Rightarrow> 'b table_store \<Rightarrow> kern \<Rightarrow> (hm_result \<times> 'b table_store \<times> kern) run" where
  "law_table_insert_store H i pointer s k =
     (case sys_new_fd k of
        (node, k) \<Rightarrow>
          bindE (law_table_insert H (node \<noteq> None) i pointer (ts_table s)) (\<lambda>(result, t).
            if result \<noteq> PMT_HM_SUCCESS
            then Inr (result, s\<lparr>ts_table := t\<rparr>, free (the node) k)
            else Inr (result, s\<lparr>ts_table := t,
                   ts_node := (ts_node s)(\<lparr>tn_id = i, tn_pointer = pointer\<rparr> := the node)\<rparr>, k)))"

definition law_table_remove_store ::
  "'b pmt_hm \<Rightarrow> u64 \<Rightarrow> 'b table_store \<Rightarrow> kern \<Rightarrow> ptr \<times> 'b table_store \<times> kern" where
  "law_table_remove_store H i s k =
     (case hm_remove H (law_table_iface (hm_fnv H)) (ts_table s) i of
        (None, t) \<Rightarrow> (NULL, s\<lparr>ts_table := t\<rparr>, k)
      | (Some node, t) \<Rightarrow> (tn_pointer node, s\<lparr>ts_table := t\<rparr>, free (ts_node s node) k))"

section \<open>The iterator\<close>

record ('b, 'i) hm_iter =
  hi_entries :: "hm_iface \<Rightarrow> 'b law_table \<Rightarrow> 'i"
  hi_next :: "hm_iface \<Rightarrow> 'i \<Rightarrow> (law_table_node \<times> 'i) option"
  hi_is_next :: "hm_iface \<Rightarrow> 'i \<Rightarrow> bool"

definition hm_iter_spec ::
  "('b, 'i) hm_iter \<Rightarrow> ('b law_table \<Rightarrow> law_table_node set) \<Rightarrow> (hm_iface \<Rightarrow> 'b law_table \<Rightarrow> bool) \<Rightarrow>
   ('i \<Rightarrow> law_table_node list) \<Rightarrow> bool" where
  "hm_iter_spec J nodes ok ahead \<longleftrightarrow>
     (\<forall>i. hm_iface_ok i \<longrightarrow>
       (\<forall>t. ok i t \<longrightarrow> distinct (ahead (hi_entries J i t)) \<and> set (ahead (hi_entries J i t)) = nodes t) \<and>
       (\<forall>c. (case ahead c of
               [] \<Rightarrow> hi_next J i c = None
             | x # xs \<Rightarrow> \<exists>d. hi_next J i c = Some (x, d) \<and> ahead d = xs) \<and>
            (hi_is_next J i c \<longleftrightarrow> ahead c \<noteq> [])))"

definition law_table_entries :: "'b pmt_hm \<Rightarrow> ('b, 'i) hm_iter \<Rightarrow> 'b law_table \<Rightarrow> 'i" where
  "law_table_entries H J t = hi_entries J (law_table_iface (hm_fnv H)) t"

text \<open>\<open>want_id\<close> and \<open>want_pointer\<close> say which of the two results the caller wants.\<close>

definition law_table_next ::
  "'b pmt_hm \<Rightarrow> ('b, 'i) hm_iter \<Rightarrow> bool \<Rightarrow> bool \<Rightarrow> 'i \<Rightarrow> bool \<times> u64 option \<times> ptr option \<times> 'i" where
  "law_table_next H J want_id want_pointer c =
     (case hi_next J (law_table_iface (hm_fnv H)) c of
        None \<Rightarrow> (False, None, None, c)
      | Some (node, d) \<Rightarrow>
          (True, if want_id then Some (tn_id node) else None, if want_pointer then Some (tn_pointer node) else None, d))"

definition law_table_is_next :: "'b pmt_hm \<Rightarrow> ('b, 'i) hm_iter \<Rightarrow> 'i \<Rightarrow> bool" where
  "law_table_is_next H J c = hi_is_next J (law_table_iface (hm_fnv H)) c"

text \<open>The loop of \<^verbatim>\<open>law_table_destroy\<close>, one round, and the whole function.\<close>

definition destroy_body ::
  "'b pmt_hm \<Rightarrow> ('b, 'i) hm_iter \<Rightarrow> (law_table_node \<Rightarrow> fd) \<Rightarrow> 'i \<times> kern \<Rightarrow> (bool \<times> 'i \<times> kern) run" where
  "destroy_body H J block = (\<lambda>(c, k).
     case hi_next J (law_table_iface (hm_fnv H)) c of
       None \<Rightarrow> Inr (False, c, k)
     | Some (node, d) \<Rightarrow> Inr (True, d, free (block node) k))"

definition law_table_destroy ::
  "'b pmt_hm \<Rightarrow> ('b, 'i) hm_iter \<Rightarrow> 'b table_store \<Rightarrow> kern \<Rightarrow> kern run" where
  "law_table_destroy H J s k =
     bindE (loop (Suc (law_table_size (ts_table s))) (destroy_body H J (ts_node s))
              (law_table_entries H J (ts_table s), k))
       (\<lambda>(_, k). Inr (free (ts_block s) (free (ts_buffer s) k)))"

lemma hm_iter_next:
  assumes "hm_iter_spec J nodes ok ahead"
  shows "ahead c = [] \<Longrightarrow> hi_next J (law_table_iface (hm_fnv H)) c = None"
    and "ahead c = x # xs \<Longrightarrow> \<exists>d. hi_next J (law_table_iface (hm_fnv H)) c = Some (x, d) \<and> ahead d = xs"
    and "hi_is_next J (law_table_iface (hm_fnv H)) c \<longleftrightarrow> ahead c \<noteq> []"
proof -
  note all = assms [unfolded hm_iter_spec_def, rule_format, OF law_table_iface_ok [of "hm_fnv H"],
      THEN conjunct2, rule_format, of c]
  show "ahead c = [] \<Longrightarrow> hi_next J (law_table_iface (hm_fnv H)) c = None"
    and "ahead c = x # xs \<Longrightarrow> \<exists>d. hi_next J (law_table_iface (hm_fnv H)) c = Some (x, d) \<and> ahead d = xs"
    and "hi_is_next J (law_table_iface (hm_fnv H)) c \<longleftrightarrow> ahead c \<noteq> []"
    using all by (auto split: list.splits)
qed

lemma hm_iter_entries:
  assumes "hm_iter_spec J nodes ok ahead" and "table_inv H nodes ok t"
  shows "distinct (ahead (law_table_entries H J t))" and "set (ahead (law_table_entries H J t)) = nodes t"
    and "length (ahead (law_table_entries H J t)) = law_table_size t"
proof -
  show e: "distinct (ahead (law_table_entries H J t))" "set (ahead (law_table_entries H J t)) = nodes t"
    using assms law_table_iface_ok [of "hm_fnv H"] unfolding hm_iter_spec_def table_inv_def law_table_entries_def
    by blast+
  show "length (ahead (law_table_entries H J t)) = law_table_size t"
    using distinct_card [OF e(1)] e(2) table_inv_facts(2) [OF assms(2)] by (simp add: law_table_size_def)
qed

text \<open>The iterator passes the entries one by one, each with its identifier and its pointer.\<close>

lemma law_table_next_cases:
  assumes "hm_iter_spec J nodes ok ahead"
  shows "case ahead c of
      [] \<Rightarrow> \<not> law_table_is_next H J c \<and> law_table_next H J want_id want_pointer c = (False, None, None, c)
    | x # xs \<Rightarrow> law_table_is_next H J c \<and>
        (\<exists>d. law_table_next H J want_id want_pointer c =
               (True, if want_id then Some (tn_id x) else None, if want_pointer then Some (tn_pointer x) else None, d) \<and>
             ahead d = xs)"
  using hm_iter_next [OF assms, where H = H and c = c]
  by (cases "ahead c") (fastforce simp: law_table_next_def law_table_is_next_def)+

section \<open>What a table owns\<close>

definition store_handles :: "('b law_table \<Rightarrow> law_table_node set) \<Rightarrow> 'b table_store \<Rightarrow> fd set" where
  "store_handles nodes s = {ts_block s, ts_buffer s} \<union> ts_node s ` nodes (ts_table s)"

definition store_good :: "('b law_table \<Rightarrow> law_table_node set) \<Rightarrow> 'b table_store \<Rightarrow> bool" where
  "store_good nodes s \<longleftrightarrow>
     ts_block s \<noteq> ts_buffer s \<and> inj_on (ts_node s) (nodes (ts_table s)) \<and>
     {ts_block s, ts_buffer s} \<inter> ts_node s ` nodes (ts_table s) = {}"

definition store_inv where
  "store_inv H nodes ok k0 s k \<longleftrightarrow>
     table_inv H nodes ok (ts_table s) \<and> store_good nodes s \<and> adds_fds (store_handles nodes s) k0 k"

interpretation nds: object_list calloc free one any False "(#)"
  by (unfold_locales) simp

lemma one_handles: "list_handles one xs = set xs" and one_good: "list_good one any xs \<longleftrightarrow> distinct xs"
proof -
  show h: "list_handles one xs = set xs" for xs by (induction xs) auto
  show "list_good one any xs \<longleftrightarrow> distinct xs" by (induction xs) (auto simp: h)
qed

text \<open>Freeing the blocks of the nodes in the order of the iterator.\<close>

lemma destroy_loop:
  assumes "hm_iter_spec J nodes ok ahead"
  shows "ahead c = xs \<Longrightarrow> length xs < n \<Longrightarrow>
    \<exists>d. loop n (destroy_body H J block) (c, k) = Inr (d, fold free (map block xs) k)"
proof (induction xs arbitrary: c k n)
  case Nil
  then obtain m where "n = Suc m" by (cases n) auto
  with hm_iter_next(1) [where H = H, OF assms Nil.prems(1)] show ?case by (simp add: loop.simps destroy_body_def)
next
  case (Cons x xs)
  then obtain m where m: "n = Suc m" "length xs < m" by (cases n) auto
  from hm_iter_next(2) [where H = H, OF assms Cons.prems(1)] obtain d where
    d: "hi_next J (law_table_iface (hm_fnv H)) c = Some (x, d)" "ahead d = xs" by blast
  from Cons.IH [OF d(2) m(2), of "free (block x) k"] d(1) m(1) show ?case
    by (simp add: loop.simps destroy_body_def)
qed

lemma destroy_store_inv:
  assumes "hm_iter_spec J nodes ok ahead" and "store_inv H nodes ok k0 s k"
  shows "\<exists>k'. law_table_destroy H J s k = Inr k' \<and> same_fds k0 k'"
proof -
  let ?xs = "ahead (law_table_entries H J (ts_table s))"
  let ?bs = "map (ts_node s) ?xs"
  from assms(2) have inv: "table_inv H nodes ok (ts_table s)" and good: "store_good nodes s"
    and adds: "adds_fds (store_handles nodes s) k0 k" by (simp_all add: store_inv_def)
  note e = hm_iter_entries [OF assms(1) inv]
  have "list_good one any ?bs" using e(1,2) good by (simp add: one_good distinct_map store_good_def)
  from nds.fold_destroy_adds [OF this adds] have
    a: "adds_fds (store_handles nodes s - ts_node s ` nodes (ts_table s)) k0 (fold free ?bs k)"
    by (auto simp: one_handles e(2) store_handles_def)
  have "store_handles nodes s - ts_node s ` nodes (ts_table s) = {ts_block s, ts_buffer s}"
    using good by (auto simp: store_handles_def store_good_def)
  with a have "adds_fds {ts_block s, ts_buffer s} k0 (fold free ?bs k)" by simp
  from sys_close_adds [OF this, of "ts_buffer s"] good
  have "adds_fds {ts_block s} k0 (free (ts_buffer s) (fold free ?bs k))"
    by (simp add: store_good_def insert_Diff_if)
  from sys_close_adds [OF this, of "ts_block s"]
  have "same_fds k0 (free (ts_block s) (free (ts_buffer s) (fold free ?bs k)))" by (simp add: adds_fds_empty)
  moreover obtain d where "loop (Suc (law_table_size (ts_table s))) (destroy_body H J (ts_node s))
      (law_table_entries H J (ts_table s), k) = Inr (d, fold free ?bs k)"
    using destroy_loop [OF assms(1) refl, where n = "Suc (law_table_size (ts_table s))" and H = H
        and block = "ts_node s" and k = k and c = "law_table_entries H J (ts_table s)"] e(3) by auto
  ultimately show ?thesis by (simp add: law_table_destroy_def)
qed

lemma create_store_inv:
  assumes "pmt_hm_spec H nodes ok" and "kern_inv k"
  shows "(\<exists>s k'. law_table_create_store H n k = Inr (Some s, k') \<and> store_inv H nodes ok k s k') \<or>
    (\<exists>k'. law_table_create_store H n k = Inr (None, k') \<and> same_fds k k')"
proof -
  let ?pair = "seq_create calloc free calloc"
  from bb.pair_create [OF assms(2)] show ?thesis
  proof (elim disjE exE conjE)
    fix p k'
    assume p: "?pair k = Inr (Some p, k')" "{fst p} \<inter> {snd p} = {}" "adds_fds ({fst p} \<union> {snd p}) k k'"
    obtain a b where ab: "p = (a, b)" by (cases p)
    from p(1) ab obtain k1 where k1: "calloc k = Inr (Some a, k1)" "calloc k1 = Inr (Some b, k')"
      by (auto simp: seq_create_def bindE_Inr_iff split: option.splits)
    show ?thesis
    proof (cases "law_table_create H n")
      case None
      from sys_close_adds [OF p(3), of b] sys_close_adds [of "{a}" k "free b k'" a] p(2) ab
      have "same_fds k (free a (free b k'))" by (simp add: insert_Diff_if adds_fds_empty)
      with None k1 show ?thesis by (simp add: law_table_create_store_def)
    next
      case (Some t)
      have t: "ok (law_table_iface (hm_fnv H)) t" "nodes t = {}"
        using assms(1) Some law_table_iface_ok [of "hm_fnv H"]
        unfolding pmt_hm_spec_def law_table_create_def by blast+
      with Some k1 p ab assms(1) show ?thesis
        by (simp add: law_table_create_store_def store_inv_def table_inv_def store_good_def store_handles_def
            insert_commute)
    qed
  next
    fix k'
    assume n: "?pair k = Inr (None, k')" "same_fds k k'"
    then have "law_table_create_store H n k = Inr (None, k')"
      by (auto simp: seq_create_def law_table_create_store_def calloc_def split: option.splits prod.splits)
    with n(2) show ?thesis by blast
  qed simp_all
qed

section \<open>Operations keep the invariant\<close>

lemma insert_store_inv:
  assumes "store_inv H nodes ok k0 s k"
  shows "law_table_insert_store H i p s k = Inl NULL_DEREF \<or>
    (\<exists>r s' k'. law_table_insert_store H i p s k = Inr (r, s', k') \<and> store_inv H nodes ok k0 s' k' \<and>
       law_table_insert H True i p (ts_table s) = Inr (r, ts_table s'))"
proof -
  let ?n = "\<lparr>tn_id = i, tn_pointer = p\<rparr>"
  from assms have inv: "table_inv H nodes ok (ts_table s)" and good: "store_good nodes s"
    and adds: "adds_fds (store_handles nodes s) k0 k" by (simp_all add: store_inv_def)
  note facts = table_inv_facts [OF inv]
  from adds_fds_inv [OF adds] show ?thesis
  proof (cases rule: sys_new_fd_cases)
    case (1 k1)
    then show ?thesis by (simp add: law_table_insert_store_def law_table_insert_def)
  next
    case (2 d k1)
    have new: "d \<notin> store_handles nodes s" using adds 2(2) by (auto simp: adds_fds_def)
    have more: "adds_fds (insert d (store_handles nodes s)) k0 k1"
      using adds_fds_trans [OF adds 2(2)] by simp
    obtain r t where t: "table_insert H i p (ts_table s) = (r, t)" by fastforce
    have same: "store_inv H nodes ok k0 (s\<lparr>ts_table := ts_table s\<rparr>) (free d k1)"
      using sys_close_adds [OF more, of d] new inv good by (simp add: store_inv_def)
    show ?thesis
    proof (cases "\<exists>y \<in> nodes (ts_table s). (ucast (tn_id y) :: u32) = ucast i")
      case True
      from facts(6) [OF this, of p] same 2(1) show ?thesis
        by (simp add: law_table_insert_store_def law_table_insert_eq)
    next
      case False
      then have "\<forall>y \<in> nodes (ts_table s). (ucast (tn_id y) :: u32) \<noteq> ucast i" by blast
      from facts(7) [OF this, of p] show ?thesis
      proof (elim disjE exE conjE)
        fix u
        assume u: "table_insert H i p (ts_table s) = (PMT_HM_SUCCESS, u)" "table_inv H nodes ok u"
          "nodes u = insert ?n (nodes (ts_table s))"
        let ?s = "s\<lparr>ts_table := u, ts_node := (ts_node s)(?n := d)\<rparr>"
        have fresh: "?n \<notin> nodes (ts_table s)" using False by auto
        have im: "(ts_node s)(?n := d) ` nodes (ts_table s) = ts_node s ` nodes (ts_table s)"
          using fresh by (intro image_cong) auto
        have d: "d \<noteq> ts_block s" "d \<noteq> ts_buffer s" "d \<notin> ts_node s ` nodes (ts_table s)"
          using new by (simp_all add: store_handles_def)
        have "inj_on ((ts_node s)(?n := d)) (nodes (ts_table s))"
          using good d(3) by (simp add: store_good_def inj_on_fun_updI)
        then have "store_good nodes ?s" and "store_handles nodes ?s = insert d (store_handles nodes s)"
          using good d fresh u(3) im by (auto simp: store_good_def store_handles_def)
        with u(2) more have "store_inv H nodes ok k0 ?s k1" by (simp add: store_inv_def)
        with u(1) 2(1) show ?thesis by (simp add: law_table_insert_store_def law_table_insert_eq)
      next
        assume "table_insert H i p (ts_table s) = (PMT_HM_RESIZE, ts_table s)"
        with same 2(1) show ?thesis by (simp add: law_table_insert_store_def law_table_insert_eq)
      qed
    qed
  qed
qed

lemma remove_store_inv:
  assumes "store_inv H nodes ok k0 s k"
  shows "\<exists>p s' k'. law_table_remove_store H i s k = (p, s', k') \<and> store_inv H nodes ok k0 s' k' \<and>
    law_table_remove H i (ts_table s) = (p, ts_table s')"
proof -
  from assms have inv: "table_inv H nodes ok (ts_table s)" and good: "store_good nodes s"
    and adds: "adds_fds (store_handles nodes s) k0 k" by (simp_all add: store_inv_def)
  note facts = table_inv_facts [OF inv]
  show ?thesis
  proof (cases "hm_lookup H (law_table_iface (hm_fnv H)) (ts_table s) i")
    case None
    with facts(4) assms show ?thesis by (simp add: law_table_remove_store_def law_table_remove_def)
  next
    case (Some x)
    from facts(5) [OF this] obtain u where u: "x \<in> nodes (ts_table s)"
      "hm_remove H (law_table_iface (hm_fnv H)) (ts_table s) i = (Some x, u)"
      "table_inv H nodes ok u" "nodes u = nodes (ts_table s) - {x}" by blast
    have "store_good nodes (s\<lparr>ts_table := u\<rparr>)"
      using good u(4) by (auto simp: store_good_def inj_on_def)
    moreover have "store_handles nodes (s\<lparr>ts_table := u\<rparr>) = store_handles nodes s - {ts_node s x}"
      using good u(1,4) by (auto simp: store_good_def store_handles_def inj_on_def)
    moreover have "ts_node s x \<in> store_handles nodes s" using u(1) by (simp add: store_handles_def)
    ultimately have "store_inv H nodes ok k0 (s\<lparr>ts_table := u\<rparr>) (free (ts_node s x) k)"
      using sys_close_adds [OF adds] u(3) by (simp add: store_inv_def)
    with u(2) show ?thesis by (simp add: law_table_remove_store_def law_table_remove_def)
  qed
qed

lemma store_blocks:
  assumes "store_inv H nodes ok k0 s k"
  shows "card (k_open k - k_open k0) = law_table_size (ts_table s) + 2"
proof -
  from assms have inv: "table_inv H nodes ok (ts_table s)" and good: "store_good nodes s"
    and adds: "adds_fds (store_handles nodes s) k0 k" by (simp_all add: store_inv_def)
  have "k_open k - k_open k0 = {ts_block s, ts_buffer s} \<union> ts_node s ` nodes (ts_table s)"
    using adds by (auto simp: adds_fds_def store_handles_def)
  moreover have "card (ts_node s ` nodes (ts_table s)) = law_table_size (ts_table s)"
    using good table_inv_facts(2) [OF inv] by (simp add: store_good_def card_image law_table_size_def)
  ultimately show ?thesis
    using good table_inv_facts(1) [OF inv] by (simp add: store_good_def card_Un_disjoint card_insert_if)
qed

section \<open>A table's life\<close>

datatype table_call = INSERT u64 ptr | REMOVE u64

definition table_call ::
  "'b pmt_hm \<Rightarrow> table_call \<Rightarrow> 'b table_store \<times> kern \<Rightarrow> ('b table_store \<times> kern) run" where
  "table_call H c = (\<lambda>(s, k).
     case c of
       INSERT i p \<Rightarrow> bindE (law_table_insert_store H i p s k) (\<lambda>(_, s, k). Inr (s, k))
     | REMOVE i \<Rightarrow> Inr (snd (law_table_remove_store H i s k)))"

primrec table_calls ::
  "'b pmt_hm \<Rightarrow> table_call list \<Rightarrow> 'b table_store \<times> kern \<Rightarrow> ('b table_store \<times> kern) run" where
  "table_calls H [] x = Inr x"
| "table_calls H (c # cs) x = bindE (table_call H c x) (table_calls H cs)"

lemma table_call_inv:
  assumes "store_inv H nodes ok k0 s k"
  shows "table_call H c (s, k) = Inl NULL_DEREF \<or>
    (\<exists>s' k'. table_call H c (s, k) = Inr (s', k') \<and> store_inv H nodes ok k0 s' k')"
proof (cases c)
  case (INSERT i p)
  from insert_store_inv [OF assms, of i p] INSERT show ?thesis by (auto simp: table_call_def)
next
  case (REMOVE i)
  from remove_store_inv [OF assms, of i] REMOVE show ?thesis by (auto simp: table_call_def)
qed

lemma table_calls_inv:
  "store_inv H nodes ok k0 s k \<Longrightarrow>
    table_calls H cs (s, k) = Inl NULL_DEREF \<or>
    (\<exists>s' k'. table_calls H cs (s, k) = Inr (s', k') \<and> store_inv H nodes ok k0 s' k')"
proof (induction cs arbitrary: s k)
  case Nil
  then show ?case by simp
next
  case (Cons c cs)
  from table_call_inv [OF Cons.prems, of c] show ?case
  proof (elim disjE exE conjE)
    fix s' k'
    assume "table_call H c (s, k) = Inr (s', k')" "store_inv H nodes ok k0 s' k'"
    with Cons.IH [of s' k'] show ?case by simp
  qed simp
qed


section \<open>An instance\<close>

text \<open>The iterator of the list of nodes.\<close>

definition ref_iter :: "(law_table_node list, law_table_node list) hm_iter" where
  "ref_iter = \<lparr>hi_entries = (\<lambda>_. tb_buffer), hi_next = (\<lambda>_ c. case c of [] \<Rightarrow> None | x # xs \<Rightarrow> Some (x, xs)),
     hi_is_next = (\<lambda>_ c. c \<noteq> [])\<rparr>"

lemma ref_iter_spec: "hm_iter_spec ref_iter ref_hm_nodes ref_hm_ok (\<lambda>c. c)"
  by (auto simp: hm_iter_spec_def ref_iter_def ref_hm_nodes_def ref_hm_ok_def split: list.splits)


end
