(* ===== verification/Arrays.thy ===== *)
theory Arrays
  imports TableStore NodeList Timer
begin

text \<open>
  The callbacks by which \<^verbatim>\<open>table.c\<close> and \<^verbatim>\<open>time.c\<close> let pubmt keep its array in their
  structures: \<^verbatim>\<open>law_table_iface\<close> and \<^verbatim>\<open>law_timer_iface\<close>. The structures lie in a memory
  from addresses to structures, since the callbacks get untyped pointers and write through them. The
  locale \<open>array_fields\<close> states what makes such a record of callbacks an interface to an array.
  What pubmt does with it is its contract in the theories \<open>Table\<close> and \<open>Timer\<close>.
\<close>

section \<open>Structures in memory\<close>

record law_table_cell =
  tc_id :: u64
  tc_pointer :: ptr
  tc_next :: ptr

record struct_mem =
  mem_tables :: "ptr \<Rightarrow> ptr law_table"
  mem_cells :: "ptr \<Rightarrow> law_table_cell"
  mem_timers :: "ptr \<Rightarrow> ptr law_timer"
  mem_elems :: "ptr \<Rightarrow> law_timer_elem"

section \<open>The allocator\<close>

text \<open>
  Blocks are handles; a request is not answered by its size. A failed \<^verbatim>\<open>realloc\<close> leaves the
  old block as it is.
\<close>

definition malloc :: "nat \<Rightarrow> kern \<Rightarrow> fd option \<times> kern" where
  "malloc nbytes k = sys_new_fd k"

definition realloc :: "fd \<Rightarrow> nat \<Rightarrow> kern \<Rightarrow> fd option \<times> kern" where
  "realloc p nbytes k =
     (case sys_new_fd k of (None, k) \<Rightarrow> (None, k) | (Some q, k) \<Rightarrow> (Some q, free p k))"

definition law_table_alloc :: "nat \<Rightarrow> ptr \<Rightarrow> kern \<Rightarrow> fd option \<times> kern" where
  "law_table_alloc nbytes alloc_state k = malloc nbytes k"

definition law_table_realloc :: "fd \<Rightarrow> nat \<Rightarrow> ptr \<Rightarrow> kern \<Rightarrow> fd option \<times> kern" where
  "law_table_realloc pointer nbytes alloc_state k = realloc pointer nbytes k"

definition law_table_free :: "fd \<Rightarrow> ptr \<Rightarrow> kern \<Rightarrow> kern" where
  "law_table_free pointer alloc_state k = free pointer k"

definition law_timer_alloc :: "nat \<Rightarrow> ptr \<Rightarrow> kern \<Rightarrow> fd option \<times> kern" where
  "law_timer_alloc nbytes state k = malloc nbytes k"

definition law_timer_realloc :: "fd \<Rightarrow> nat \<Rightarrow> ptr \<Rightarrow> kern \<Rightarrow> fd option \<times> kern" where
  "law_timer_realloc pointer nbytes state k = realloc pointer nbytes k"

definition law_timer_free :: "fd \<Rightarrow> ptr \<Rightarrow> kern \<Rightarrow> kern" where
  "law_timer_free pointer state k = free pointer k"

section \<open>The fields of a table\<close>

definition law_table_get_buffer :: "struct_mem \<Rightarrow> ptr \<Rightarrow> ptr" where
  "law_table_get_buffer m tb = tb_buffer (mem_tables m tb)"

definition law_table_set_buffer :: "struct_mem \<Rightarrow> ptr \<Rightarrow> ptr \<Rightarrow> struct_mem" where
  "law_table_set_buffer m tb buffer =
     m\<lparr>mem_tables := (mem_tables m)(tb := (mem_tables m tb)\<lparr>tb_buffer := buffer\<rparr>)\<rparr>"

definition law_table_get_size :: "struct_mem \<Rightarrow> ptr \<Rightarrow> nat" where
  "law_table_get_size m tb = tb_size (mem_tables m tb)"

definition law_table_set_size :: "struct_mem \<Rightarrow> ptr \<Rightarrow> nat \<Rightarrow> struct_mem" where
  "law_table_set_size m tb n =
     m\<lparr>mem_tables := (mem_tables m)(tb := (mem_tables m tb)\<lparr>tb_size := n\<rparr>)\<rparr>"

definition law_table_get_capacity :: "struct_mem \<Rightarrow> ptr \<Rightarrow> nat" where
  "law_table_get_capacity m tb = tb_capacity (mem_tables m tb)"

definition law_table_set_capacity :: "struct_mem \<Rightarrow> ptr \<Rightarrow> nat \<Rightarrow> struct_mem" where
  "law_table_set_capacity m tb n =
     m\<lparr>mem_tables := (mem_tables m)(tb := (mem_tables m tb)\<lparr>tb_capacity := n\<rparr>)\<rparr>"

text \<open>The size of \<^verbatim>\<open>struct law_table_node\<close>: three quadwords.\<close>

definition law_table_get_element_size :: "struct_mem \<Rightarrow> ptr \<Rightarrow> nat" where
  "law_table_get_element_size m tb = 24"

definition law_table_get_alloc :: "ptr \<Rightarrow> nat \<Rightarrow> ptr \<Rightarrow> kern \<Rightarrow> fd option \<times> kern" where
  "law_table_get_alloc tb = law_table_alloc"

definition law_table_get_realloc :: "ptr \<Rightarrow> fd \<Rightarrow> nat \<Rightarrow> ptr \<Rightarrow> kern \<Rightarrow> fd option \<times> kern" where
  "law_table_get_realloc tb = law_table_realloc"

definition law_table_get_free :: "ptr \<Rightarrow> fd \<Rightarrow> ptr \<Rightarrow> kern \<Rightarrow> kern" where
  "law_table_get_free tb = law_table_free"

definition law_table_get_alloc_state :: "ptr \<Rightarrow> ptr" where
  "law_table_get_alloc_state tb = NULL"

definition law_table_get_equals :: "ptr \<Rightarrow> u64 \<Rightarrow> u64 \<Rightarrow> bool" where
  "law_table_get_equals tb = law_table_equals"

definition law_table_get_hash :: "(u8 list \<Rightarrow> u64) \<Rightarrow> ptr \<Rightarrow> u64 \<Rightarrow> u64" where
  "law_table_get_hash fnv tb = law_table_hash fnv"

text \<open>The nodes. The key is an address: that of the field, the first of the structure.\<close>

definition law_table_node_get_next :: "struct_mem \<Rightarrow> ptr \<Rightarrow> ptr" where
  "law_table_node_get_next m node = tc_next (mem_cells m node)"

definition law_table_node_set_next :: "struct_mem \<Rightarrow> ptr \<Rightarrow> ptr \<Rightarrow> struct_mem" where
  "law_table_node_set_next m node v =
     m\<lparr>mem_cells := (mem_cells m)(node := (mem_cells m node)\<lparr>tc_next := v\<rparr>)\<rparr>"

definition law_table_node_get_key :: "ptr \<Rightarrow> ptr" where
  "law_table_node_get_key node = node"

section \<open>The fields of a timer\<close>

definition law_timer_get_buffer :: "struct_mem \<Rightarrow> ptr \<Rightarrow> ptr" where
  "law_timer_get_buffer m tm = tm_buffer (mem_timers m tm)"

definition law_timer_set_buffer :: "struct_mem \<Rightarrow> ptr \<Rightarrow> ptr \<Rightarrow> struct_mem" where
  "law_timer_set_buffer m tm buffer =
     m\<lparr>mem_timers := (mem_timers m)(tm := (mem_timers m tm)\<lparr>tm_buffer := buffer\<rparr>)\<rparr>"

definition law_timer_get_size :: "struct_mem \<Rightarrow> ptr \<Rightarrow> nat" where
  "law_timer_get_size m tm = tm_size (mem_timers m tm)"

definition law_timer_set_size :: "struct_mem \<Rightarrow> ptr \<Rightarrow> nat \<Rightarrow> struct_mem" where
  "law_timer_set_size m tm n =
     m\<lparr>mem_timers := (mem_timers m)(tm := (mem_timers m tm)\<lparr>tm_size := n\<rparr>)\<rparr>"

definition law_timer_get_capacity :: "struct_mem \<Rightarrow> ptr \<Rightarrow> nat" where
  "law_timer_get_capacity m tm = tm_capacity (mem_timers m tm)"

definition law_timer_set_capacity :: "struct_mem \<Rightarrow> ptr \<Rightarrow> nat \<Rightarrow> struct_mem" where
  "law_timer_set_capacity m tm n =
     m\<lparr>mem_timers := (mem_timers m)(tm := (mem_timers m tm)\<lparr>tm_capacity := n\<rparr>)\<rparr>"

text \<open>The size of \<^verbatim>\<open>law_timer_elem_t\<close>: two quadwords, a doubleword and its padding.\<close>

definition law_timer_get_element_size :: "struct_mem \<Rightarrow> ptr \<Rightarrow> nat" where
  "law_timer_get_element_size m tm = 24"

definition law_timer_get_alloc :: "ptr \<Rightarrow> nat \<Rightarrow> ptr \<Rightarrow> kern \<Rightarrow> fd option \<times> kern" where
  "law_timer_get_alloc tm = law_timer_alloc"

definition law_timer_get_realloc :: "ptr \<Rightarrow> fd \<Rightarrow> nat \<Rightarrow> ptr \<Rightarrow> kern \<Rightarrow> fd option \<times> kern" where
  "law_timer_get_realloc tm = law_timer_realloc"

definition law_timer_get_free :: "ptr \<Rightarrow> fd \<Rightarrow> ptr \<Rightarrow> kern \<Rightarrow> kern" where
  "law_timer_get_free tm = law_timer_free"

definition law_timer_get_alloc_state :: "ptr \<Rightarrow> ptr" where
  "law_timer_get_alloc_state tm = NULL"

definition law_timer_swap :: "struct_mem \<Rightarrow> ptr \<Rightarrow> ptr \<Rightarrow> struct_mem" where
  "law_timer_swap m a b =
     (let tmp = mem_elems m a;
          m = m\<lparr>mem_elems := (mem_elems m)(a := mem_elems m b)\<rparr>
      in m\<lparr>mem_elems := (mem_elems m)(b := tmp)\<rparr>)"

definition law_timer_get_swap :: "ptr \<Rightarrow> struct_mem \<Rightarrow> ptr \<Rightarrow> ptr \<Rightarrow> struct_mem" where
  "law_timer_get_swap heap = law_timer_swap"

text \<open>The order as a callback: it reads the two elements it is pointed to.\<close>

definition timer_less_than_at :: "struct_mem \<Rightarrow> ptr \<Rightarrow> ptr \<Rightarrow> bool" where
  "timer_less_than_at m a b = law_timer_less_than (mem_elems m a) (mem_elems m b)"

definition law_timer_get_less_than :: "ptr \<Rightarrow> struct_mem \<Rightarrow> ptr \<Rightarrow> ptr \<Rightarrow> bool" where
  "law_timer_get_less_than heap = timer_less_than_at"

section \<open>The two interfaces\<close>

record array_iface =
  da_get_alloc :: "ptr \<Rightarrow> nat \<Rightarrow> ptr \<Rightarrow> kern \<Rightarrow> fd option \<times> kern"
  da_get_realloc :: "ptr \<Rightarrow> fd \<Rightarrow> nat \<Rightarrow> ptr \<Rightarrow> kern \<Rightarrow> fd option \<times> kern"
  da_get_alloc_state :: "ptr \<Rightarrow> ptr"
  da_get_free :: "ptr \<Rightarrow> fd \<Rightarrow> ptr \<Rightarrow> kern \<Rightarrow> kern"
  da_get_buffer :: "struct_mem \<Rightarrow> ptr \<Rightarrow> ptr"
  da_set_buffer :: "struct_mem \<Rightarrow> ptr \<Rightarrow> ptr \<Rightarrow> struct_mem"
  da_get_capacity :: "struct_mem \<Rightarrow> ptr \<Rightarrow> nat"
  da_set_capacity :: "struct_mem \<Rightarrow> ptr \<Rightarrow> nat \<Rightarrow> struct_mem"
  da_get_size :: "struct_mem \<Rightarrow> ptr \<Rightarrow> nat"
  da_set_size :: "struct_mem \<Rightarrow> ptr \<Rightarrow> nat \<Rightarrow> struct_mem"
  da_get_element_size :: "struct_mem \<Rightarrow> ptr \<Rightarrow> nat"

definition table_array_iface :: array_iface where
  "table_array_iface = \<lparr>
     da_get_alloc = law_table_get_alloc,
     da_get_realloc = law_table_get_realloc,
     da_get_alloc_state = law_table_get_alloc_state,
     da_get_free = law_table_get_free,
     da_get_buffer = law_table_get_buffer,
     da_set_buffer = law_table_set_buffer,
     da_get_capacity = law_table_get_capacity,
     da_set_capacity = law_table_set_capacity,
     da_get_size = law_table_get_size,
     da_set_size = law_table_set_size,
     da_get_element_size = law_table_get_element_size\<rparr>"

record bh_iface =
  bhi_array :: array_iface
  bhi_get_swap :: "ptr \<Rightarrow> struct_mem \<Rightarrow> ptr \<Rightarrow> ptr \<Rightarrow> struct_mem"
  bhi_get_less_than :: "ptr \<Rightarrow> struct_mem \<Rightarrow> ptr \<Rightarrow> ptr \<Rightarrow> bool"

definition law_timer_iface :: bh_iface where
  "law_timer_iface = \<lparr>
     bhi_array = \<lparr>
       da_get_alloc = law_timer_get_alloc,
       da_get_realloc = law_timer_get_realloc,
       da_get_alloc_state = law_timer_get_alloc_state,
       da_get_free = law_timer_get_free,
       da_get_buffer = law_timer_get_buffer,
       da_set_buffer = law_timer_set_buffer,
       da_get_capacity = law_timer_get_capacity,
       da_set_capacity = law_timer_set_capacity,
       da_get_size = law_timer_get_size,
       da_set_size = law_timer_set_size,
       da_get_element_size = law_timer_get_element_size\<rparr>,
     bhi_get_swap = law_timer_get_swap,
     bhi_get_less_than = law_timer_get_less_than\<rparr>"

section \<open>What an array interface promises\<close>

text \<open>
  Each setter writes its field of one array and nothing else that a getter reads; the allocator
  gives new blocks, moves a block when it is told to and keeps it when it cannot.
\<close>

locale array_fields =
  fixes I :: array_iface
  assumes buffer_set [simp]: "da_get_buffer I (da_set_buffer I m a p) = (da_get_buffer I m)(a := p)"
      "da_get_capacity I (da_set_buffer I m a p) = da_get_capacity I m"
      "da_get_size I (da_set_buffer I m a p) = da_get_size I m"
    and capacity_set [simp]: "da_get_capacity I (da_set_capacity I m a n) = (da_get_capacity I m)(a := n)"
      "da_get_buffer I (da_set_capacity I m a n) = da_get_buffer I m"
      "da_get_size I (da_set_capacity I m a n) = da_get_size I m"
    and size_set [simp]: "da_get_size I (da_set_size I m a n) = (da_get_size I m)(a := n)"
      "da_get_buffer I (da_set_size I m a n) = da_get_buffer I m"
      "da_get_capacity I (da_set_size I m a n) = da_get_capacity I m"
    and alloc: "da_get_alloc I a l st k = malloc l k"
    and realloc: "da_get_realloc I a b l st k = realloc b l k"
    and free: "da_get_free I a b st k = free b k"
begin

text \<open>The fields can be written in any order.\<close>

lemma set_order:
  fixes m a p n c
  defines "m1 \<equiv> da_set_size I (da_set_capacity I (da_set_buffer I m a p) a c) a n"
    and "m2 \<equiv> da_set_buffer I (da_set_capacity I (da_set_size I m a n) a c) a p"
  shows "da_get_buffer I m1 = da_get_buffer I m2 \<and> da_get_capacity I m1 = da_get_capacity I m2 \<and>
    da_get_size I m1 = da_get_size I m2"
  by (simp add: m1_def m2_def)

text \<open>Moving a block keeps the number of blocks, and loses none when it fails.\<close>

lemma realloc_owned:
  assumes "adds_fds D k0 k" and "p \<in> D"
  shows "(\<exists>k'. da_get_realloc I a p l st k = (None, k') \<and> adds_fds D k0 k') \<or>
    (\<exists>q k'. da_get_realloc I a p l st k = (Some q, k') \<and> q \<notin> D \<and> adds_fds (insert q (D - {p})) k0 k')"
  using adds_fds_inv [OF assms(1)]
proof (cases rule: sys_new_fd_cases)
  case (1 k')
  with adds_same_trans [OF assms(1)] show ?thesis by (simp add: realloc realloc_def)
next
  case (2 q k1)
  have q: "q \<notin> D" using assms(1) 2(2) by (auto simp: adds_fds_def)
  have "adds_fds (insert q D) k0 k1" using adds_fds_trans [OF assms(1) 2(2)] by simp
  from sys_close_adds [OF this, of p] assms(2) q
  have "adds_fds (insert q (D - {p})) k0 (sys_close p k1)" by (metis insert_Diff_if insertI2 singletonD)
  with 2(1) q show ?thesis by (simp add: realloc realloc_def)
qed

text \<open>An array that is allocated, moved and freed leaves nothing.\<close>

lemma alloc_free:
  assumes "kern_inv k" and "da_get_alloc I a l st k = (Some p, k1)"
    and "da_get_realloc I a p l' st k1 = (q, k2)"
  shows "same_fds k (da_get_free I a (case q of None \<Rightarrow> p | Some q \<Rightarrow> q) st k2)"
proof -
  have 1: "adds_fds {p} k k1"
    using assms(1,2) unfolding alloc malloc_def by (cases rule: sys_new_fd_cases) auto
  from realloc_owned [OF 1, of p a l' st] assms(3) sys_close_adds
  show ?thesis by (fastforce simp: free adds_fds_empty)
qed

end

interpretation ta: array_fields table_array_iface
  by unfold_locales
    (simp_all add: table_array_iface_def law_table_get_buffer_def law_table_set_buffer_def
      law_table_get_size_def law_table_set_size_def law_table_get_capacity_def law_table_set_capacity_def
      law_table_get_alloc_def law_table_get_realloc_def law_table_get_free_def law_table_alloc_def
      law_table_realloc_def law_table_free_def fun_eq_iff)

interpretation tma: array_fields "bhi_array law_timer_iface"
  by unfold_locales
    (simp_all add: law_timer_iface_def law_timer_get_buffer_def law_timer_set_buffer_def
      law_timer_get_size_def law_timer_set_size_def law_timer_get_capacity_def law_timer_set_capacity_def
      law_timer_get_alloc_def law_timer_get_realloc_def law_timer_get_free_def law_timer_alloc_def
      law_timer_realloc_def law_timer_free_def fun_eq_iff)

text \<open>The nodes of the table's chains are linked as those of every other list.\<close>

interpretation tbn: node_links law_table_node_get_next law_table_node_set_next
  by unfold_locales (auto simp: law_table_node_get_next_def law_table_node_set_next_def)

section \<open>The elements of a timer\<close>

text \<open>
  The elements of a heap lie one after the other from the buffer on. Exchanging two of them, or
  one with itself, keeps them all.
\<close>

definition elem_at :: "struct_mem \<Rightarrow> ptr \<Rightarrow> nat \<Rightarrow> ptr" where
  "elem_at m tm i = law_timer_get_buffer m tm + word_of_nat (law_timer_get_element_size m tm * i)"

definition timer_elems :: "struct_mem \<Rightarrow> ptr \<Rightarrow> law_timer_elem list" where
  "timer_elems m tm = map (\<lambda>i. mem_elems m (elem_at m tm i)) [0..<law_timer_get_size m tm]"

lemma elem_at_inj:
  assumes "24 * n \<le> 2 ^ 64" and "i < n" and "j < n" and "elem_at m tm i = elem_at m tm j"
  shows "i = j"
proof -
  have "unat (word_of_nat (24 * i) :: u64) = 24 * i" "unat (word_of_nat (24 * j) :: u64) = 24 * j"
    by (rule unat_word_of_nat_64, use assms in simp)+
  with assms(4) show ?thesis by (auto simp: elem_at_def law_timer_get_element_size_def)
qed

lemma timer_swap_fields:
  "law_timer_get_buffer (law_timer_swap m a b) = law_timer_get_buffer m"
  "law_timer_get_size (law_timer_swap m a b) = law_timer_get_size m"
  "elem_at (law_timer_swap m a b) = elem_at m"
  "mem_elems (law_timer_swap m a b) = (mem_elems m)(a := mem_elems m b, b := mem_elems m a)"
  by (auto simp: law_timer_swap_def Let_def fun_eq_iff elem_at_def law_timer_get_buffer_def
      law_timer_get_size_def law_timer_get_element_size_def)

lemma timer_swap_elems:
  assumes "24 * law_timer_get_size m tm \<le> 2 ^ 64"
    and "i < law_timer_get_size m tm" and "j < law_timer_get_size m tm"
  shows "timer_elems (law_timer_swap m (elem_at m tm i) (elem_at m tm j)) tm =
    (timer_elems m tm)[j := timer_elems m tm ! i, i := timer_elems m tm ! j]"
proof (rule nth_equalityI)
  fix k assume "k < length (timer_elems (law_timer_swap m (elem_at m tm i) (elem_at m tm j)) tm)"
  then have k: "k < law_timer_get_size m tm" by (simp add: timer_elems_def timer_swap_fields)
  note e = elem_at_inj [OF assms(1) k assms(2)] elem_at_inj [OF assms(1) k assms(3)]
  show "timer_elems (law_timer_swap m (elem_at m tm i) (elem_at m tm j)) tm ! k =
      (timer_elems m tm)[j := timer_elems m tm ! i, i := timer_elems m tm ! j] ! k"
    using k assms(2,3) e by (auto simp: timer_elems_def timer_swap_fields nth_list_update)
qed (simp add: timer_elems_def timer_swap_fields)

end
