(* ===== verification/Guard.thy ===== *)
theory Guard
  imports Lifecycle
begin

text \<open>
  What the guards of \<^verbatim>\<open>safemem.c\<close> protect. The theory \<open>Lifecycle\<close> has the handles
  that \<open>law_smem_create\<close> takes and gives back; this one has the address space: the
  system maps and protects whole pages, of \<open>P\<close> bytes, and refuses to protect from an
  address inside a page. \<open>place\<close> is the system's choice of an address.
\<close>

section \<open>Pages\<close>

datatype access = PROT_NONE | PROT_READ_WRITE

type_synonym address_space = "nat \<Rightarrow> access option"

definition pages :: "nat \<Rightarrow> nat \<Rightarrow> nat \<Rightarrow> nat set" where
  "pages P a n = {a div P ..< (a + n + (P - 1)) div P}"

definition sys_mmap ::
  "nat \<Rightarrow> (address_space \<Rightarrow> nat \<Rightarrow> nat option) \<Rightarrow> nat \<Rightarrow> address_space \<Rightarrow> nat option \<times> address_space" where
  "sys_mmap P place n s =
     (case place s n of
        None \<Rightarrow> (None, s)
      | Some a \<Rightarrow> (Some a, \<lambda>p. if p \<in> pages P a n then Some PROT_NONE else s p))"

definition sys_mprotect :: "nat \<Rightarrow> nat \<Rightarrow> nat \<Rightarrow> access \<Rightarrow> address_space \<Rightarrow> int \<times> address_space" where
  "sys_mprotect P a n prot s =
     (if a mod P \<noteq> 0 \<or> (\<exists>p \<in> pages P a n. s p = None) then (- 1, s)
      else (0, \<lambda>p. if p \<in> pages P a n then Some prot else s p))"

definition sys_munmap :: "nat \<Rightarrow> nat \<Rightarrow> nat \<Rightarrow> address_space \<Rightarrow> address_space" where
  "sys_munmap P a n s = (\<lambda>p. if p \<in> pages P a n then None else s p)"

definition accessible :: "nat \<Rightarrow> address_space \<Rightarrow> nat \<Rightarrow> bool" where
  "accessible P s a \<longleftrightarrow> s (a div P) = Some PROT_READ_WRITE"

section \<open>The mapping\<close>

record smem_layout =
  sl_guard :: nat
  sl_length :: nat
  sl_address :: nat

text \<open>
  The two calls of \<^verbatim>\<open>law_smem_create\<close>. The length of the mapping is computed in
  \<^verbatim>\<open>size_t\<close>.
\<close>

definition smem_map ::
  "nat \<Rightarrow> (address_space \<Rightarrow> nat \<Rightarrow> nat option) \<Rightarrow> nat \<Rightarrow> nat \<Rightarrow> address_space \<Rightarrow>
   smem_layout option \<times> address_space" where
  "smem_map P place len guard s =
     (case sys_mmap P place ((guard + len + guard) mod 2 ^ 64) s of
        (None, s) \<Rightarrow> (None, s)
      | (Some address, s) \<Rightarrow>
          (case sys_mprotect P (address + guard) len PROT_READ_WRITE s of
             (r, s) \<Rightarrow>
               if r < 0 then (None, s)
               else (Some \<lparr>sl_guard = guard, sl_length = len, sl_address = address\<rparr>, s)))"

definition smem_unmap :: "nat \<Rightarrow> smem_layout \<Rightarrow> address_space \<Rightarrow> address_space" where
  "smem_unmap P mem s =
     sys_munmap P (sl_address mem) ((sl_guard mem + sl_length mem + sl_guard mem) mod 2 ^ 64) s"

definition law_smem_address :: "smem_layout \<Rightarrow> nat" where
  "law_smem_address mem = sl_address mem + sl_guard mem"

definition law_smem_length :: "smem_layout \<Rightarrow> nat" where
  "law_smem_length mem = sl_length mem"

text \<open>The system places a mapping at the start of a page, where no page is mapped.\<close>

definition place_ok :: "nat \<Rightarrow> (address_space \<Rightarrow> nat \<Rightarrow> nat option) \<Rightarrow> bool" where
  "place_ok P place \<longleftrightarrow>
     (\<forall>s n a. place s n = Some a \<longrightarrow> P dvd a \<and> (\<forall>p \<in> pages P a n. s p = None))"

section \<open>What is accessible\<close>

definition page_round :: "nat \<Rightarrow> nat \<Rightarrow> nat" where
  "page_round P n = (n + (P - 1)) div P * P"

lemma page_round_dvd:
  assumes "0 < P" and "P dvd n"
  shows "page_round P n = n"
proof -
  obtain k where k: "n = P * k" using assms(2) by blast
  have "(P * k + (P - 1)) div P = k + (P - 1) div P" using assms(1) by (intro div_mult_self4) simp
  with assms(1) k show ?thesis unfolding page_round_def k by simp
qed

lemma page_round_ge:
  assumes "0 < P"
  shows "n \<le> page_round P n"
  using div_mult_mod_eq [of "n + (P - 1)" P] mod_less_divisor [OF assms, of "n + (P - 1)"]
  unfolding page_round_def by linarith

lemma page_round_less: "0 < P \<Longrightarrow> \<not> P dvd n \<Longrightarrow> n < page_round P n"
  using page_round_ge [of P n] by (metis dvd_triv_right le_neq_implies_less page_round_def)

lemma pages_aligned:
  assumes "0 < P" and "P dvd a"
  shows "q div P \<in> pages P a n \<longleftrightarrow> a \<le> q \<and> q < a + page_round P n"
proof -
  obtain b where b: "a = P * b" using assms(2) by blast
  have "(a + n + (P - 1)) div P = b + (n + (P - 1)) div P"
    using assms(1) b by (metis add.assoc div_mult_self4 less_numeral_extra(3) mult.commute)
  then have "q div P \<in> pages P a n \<longleftrightarrow> b \<le> q div P \<and> q div P < b + (n + (P - 1)) div P"
    using assms(1) b by (simp add: pages_def)
  also have "\<dots> \<longleftrightarrow> a \<le> q \<and> q < a + page_round P n"
    using assms(1) b by (simp add: less_eq_div_iff_mult_less_eq div_less_iff_less_mult page_round_def algebra_simps)
  finally show ?thesis .
qed

lemma pages_part: "g + n \<le> m \<Longrightarrow> pages P (a + g) n \<subseteq> pages P a m"
proof
  fix p assume "g + n \<le> m" and "p \<in> pages P (a + g) n"
  then have p: "(a + g) div P \<le> p" "p < (a + g + n + (P - 1)) div P" by (simp_all only: pages_def atLeastLessThan_iff)
  have "a div P \<le> (a + g) div P" by (rule div_le_mono) simp
  moreover have "(a + g + n + (P - 1)) div P \<le> (a + m + (P - 1)) div P"
    using \<open>g + n \<le> m\<close> by (intro div_le_mono) simp
  ultimately show "p \<in> pages P a m" using p unfolding pages_def atLeastLessThan_iff by linarith
qed

text \<open>
  C29: a guarded memory gives access to exactly the bytes from its address on, its length rounded
  up to whole pages, and the rest of its mapping stays closed. So the bytes just behind it are guarded
  if its length is a multiple of the page size, and otherwise the first of them is accessible. The
  guards have to be whole pages; with any others nothing is created and the mapping stays.
  Destroying the memory unmaps all of it.
\<close>

theorem smem_guards:
  fixes s :: address_space
  assumes "0 < P" and "place_ok P place" and "guard + len + guard < 2 ^ 64"
  shows "case place s (guard + len + guard) of
      None \<Rightarrow> smem_map P place len guard s = (None, s)
    | Some a \<Rightarrow>
        (\<exists>r t. smem_map P place len guard s = (r, t) \<and>
          (\<forall>q. a \<le> q \<and> q < a + page_round P (guard + len + guard) \<longrightarrow> t (q div P) \<noteq> None) \<and>
          (if \<not> P dvd guard then r = None
           else \<exists>mem. r = Some mem \<and> law_smem_address mem = a + guard \<and> law_smem_length mem = len \<and>
             (\<forall>q. a \<le> q \<and> q < a + page_round P (guard + len + guard) \<longrightarrow>
                (accessible P t q \<longleftrightarrow>
                   law_smem_address mem \<le> q \<and> q < law_smem_address mem + page_round P (law_smem_length mem))) \<and>
             (0 < guard \<longrightarrow> (accessible P t (law_smem_address mem + law_smem_length mem) \<longleftrightarrow> \<not> P dvd len)) \<and>
             smem_unmap P mem t = s))"
proof (cases "place s (guard + len + guard)")
  case None
  then show ?thesis using assms(3) by (simp add: smem_map_def sys_mmap_def)
next
  case (Some a)
  let ?n = "guard + len + guard"
  let ?s1 = "\<lambda>p. if p \<in> pages P a ?n then Some PROT_NONE else s p"
  have a: "P dvd a" "\<forall>p \<in> pages P a ?n. s p = None" using assms(2) Some by (simp_all add: place_ok_def)
  note whole = pages_aligned [OF assms(1) a(1), of _ ?n]
  have sub: "pages P (a + guard) len \<subseteq> pages P a ?n" by (rule pages_part) simp
  have unmapped: "sys_munmap P a ?n t = s"
    if "\<And>p. p \<notin> pages P a ?n \<Longrightarrow> t p = s p" for t
    using a(2) that by (auto simp: sys_munmap_def fun_eq_iff)
  show ?thesis
  proof (cases "P dvd guard")
    case False
    then have "(a + guard) mod P \<noteq> 0" using a(1) by (metis dvd_add_right_iff mod_eq_0_iff_dvd)
    with Some False assms(3) whole show ?thesis
      by (simp add: smem_map_def sys_mmap_def sys_mprotect_def)
  next
    case True
    then have g: "P dvd a + guard" using a(1) by simp
    note inner = pages_aligned [OF assms(1) g, of _ len]
    let ?t = "\<lambda>p. if p \<in> pages P (a + guard) len then Some PROT_READ_WRITE else ?s1 p"
    let ?mem = "\<lparr>sl_guard = guard, sl_length = len, sl_address = a\<rparr>"
    have run: "smem_map P place len guard s = (Some ?mem, ?t)"
      using Some assms(3) g sub by (auto simp: smem_map_def sys_mmap_def sys_mprotect_def)
    have acc: "accessible P ?t q \<longleftrightarrow> a + guard \<le> q \<and> q < a + guard + page_round P len"
      if "a \<le> q" "q < a + page_round P ?n" for q
      using that whole [of q] inner [of q] by (simp add: accessible_def)
    have behind: "accessible P ?t (a + guard + len) \<longleftrightarrow> \<not> P dvd len" if "0 < guard"
      using acc [of "a + guard + len"] that page_round_ge [OF assms(1), of ?n] page_round_less [OF assms(1), of len]
        page_round_dvd [OF assms(1), of len] by auto
    have "sys_munmap P a ?n ?t = s" by (rule unmapped) (use sub in auto)
    then have "smem_unmap P ?mem ?t = s" using assms(3) by (simp add: smem_unmap_def)
    with run acc behind Some True whole show ?thesis
      by (auto simp: law_smem_address_def law_smem_length_def)
  qed
qed

text \<open>A system that places a mapping at address 16384, if there is room.\<close>

definition demo_place :: "address_space \<Rightarrow> nat \<Rightarrow> nat option" where
  "demo_place s n = (if \<forall>p \<in> pages 4096 16384 n. s p = None then Some 16384 else None)"

lemma demo_place_ok: "place_ok 4096 demo_place"
  by (auto simp: place_ok_def demo_place_def split: if_splits)

theorem smem_guards_witness:
  "\<exists>mem t. smem_map 4096 demo_place 5000 4096 (\<lambda>_. None) = (Some mem, t) \<and>
     law_smem_address mem = 20480 \<and> accessible 4096 t (law_smem_address mem + law_smem_length mem) \<and>
     \<not> accessible 4096 t (law_smem_address mem + 8192)"
proof -
  have "demo_place (\<lambda>_. None) (4096 + 5000 + 4096) = Some 16384" by (simp add: demo_place_def)
  with smem_guards [of 4096 demo_place 4096 5000 "\<lambda>_. None", OF _ demo_place_ok]
  obtain mem t where m: "smem_map 4096 demo_place 5000 4096 (\<lambda>_. None) = (Some mem, t)"
    "law_smem_address mem = 16384 + 4096" "law_smem_length mem = 5000"
    "\<forall>q. 16384 \<le> q \<and> q < 16384 + page_round 4096 (4096 + 5000 + 4096) \<longrightarrow>
       (accessible 4096 t q \<longleftrightarrow>
          law_smem_address mem \<le> q \<and> q < law_smem_address mem + page_round 4096 (law_smem_length mem))"
    by auto
  from m(4) [rule_format, of 25480] m(4) [rule_format, of 28672] m(1-3) show ?thesis
    by (simp add: page_round_def)
qed

end
