(* ===== verification/ErrNames.thy ===== *)
theory ErrNames
  imports Errors
begin

text \<open>
  The names of the error codes: \<^verbatim>\<open>law_err_init\<close> of \<^verbatim>\<open>error.c\<close> registers them
  with the library selc, from which \<^verbatim>\<open>law_err_print\<close> gets them back. The registry is
  selc's, a parameter; \<open>sel_spec\<close> says that the last name bound to a code is the one it gives.
\<close>

record 'r sel_registry =
  sel_init :: 'r
  sel_bind :: "sel_err_t \<Rightarrow> string \<Rightarrow> 'r \<Rightarrow> 'r"
  sel_strerror :: "'r \<Rightarrow> sel_err_t \<Rightarrow> string"

definition sel_spec :: "'r sel_registry \<Rightarrow> bool" where
  "sel_spec N \<longleftrightarrow> (\<forall>c name r. sel_strerror N (sel_bind N c name r) = (sel_strerror N r)(c := name))"

definition law_err_init :: "'r sel_registry \<Rightarrow> 'r" where
  "law_err_init N =
     (let r = sel_init N;
      r = sel_bind N LAW_ERR_OK ''LAW_ERR_OK'' r;
      r = sel_bind N LAW_ERR_SYS ''LAW_ERR_SYS'' r;
      r = sel_bind N LAW_ERR_OOB ''LAW_ERR_OOB'' r;
      r = sel_bind N LAW_ERR_CMP ''LAW_ERR_CMP'' r;
      r = sel_bind N LAW_ERR_ENC ''LAW_ERR_ENC'' r;
      r = sel_bind N LAW_ERR_SYN ''LAW_ERR_SYN'' r;
      r = sel_bind N LAW_ERR_FLO ''LAW_ERR_FLO'' r;
      r = sel_bind N LAW_ERR_OOM ''LAW_ERR_OOM'' r;
      r = sel_bind N LAW_ERR_MODE ''LAW_ERR_MODE'' r;
      r = sel_bind N LAW_ERR_GAI ''LAW_ERR_GAI'' r;
      r = sel_bind N LAW_ERR_WANTW ''LAW_ERR_WANTW'' r;
      r = sel_bind N LAW_ERR_WANTR ''LAW_ERR_WANTR'' r;
      r = sel_bind N LAW_ERR_TIME ''LAW_ERR_TIME'' r;
      r = sel_bind N LAW_ERR_LIMIT ''LAW_ERR_LIMIT'' r;
      r = sel_bind N LAW_ERR_EOF ''LAW_ERR_EOF'' r;
      r = sel_bind N LAW_ERR_SSL ''LAW_ERR_SSL'' r;
      r = sel_bind N LAW_ERR_VERS ''LAW_ERR_VERS'' r;
      r = sel_bind N LAW_ERR_NOID ''LAW_ERR_NOID'' r;
      r = sel_bind N LAW_ERR_SSL_ACCEPT_FAILED ''LAW_ERR_SSL_ACCEPT_FAILED'' r;
      r = sel_bind N LAW_ERR_SSL_SHUTDOWN_FAILED ''LAW_ERR_SSL_SHUTDOWN_FAILED'' r;
      r = sel_bind N LAW_ERR_REQLINE_TOO_LONG ''LAW_ERR_REQLINE_TOO_LONG'' r;
      r = sel_bind N LAW_ERR_HEADERS_TOO_LONG ''LAW_ERR_HEADERS_TOO_LONG'' r;
      r = sel_bind N LAW_ERR_REQLINE_MALFORMED ''LAW_ERR_REQLINE_MALFORMED'' r;
      r = sel_bind N LAW_ERR_HEADERS_MALFORMED ''LAW_ERR_HEADERS_MALFORMED'' r;
      r = sel_bind N LAW_ERR_REQLINE_TIMEOUT ''LAW_ERR_REQLINE_TIMEOUT'' r;
      r = sel_bind N LAW_ERR_HEADERS_TIMEOUT ''LAW_ERR_HEADERS_TIMEOUT'' r;
      r = sel_bind N LAW_ERR_SSL_SHUTDOWN_TIMEOUT ''LAW_ERR_SSL_SHUTDOWN_TIMEOUT'' r
      in r)"

definition law_err_codes :: "sel_err_t list" where
  "law_err_codes =
  [LAW_ERR_OK, LAW_ERR_SYS, LAW_ERR_OOB, LAW_ERR_CMP, LAW_ERR_ENC,
   LAW_ERR_SYN, LAW_ERR_FLO, LAW_ERR_OOM, LAW_ERR_MODE, LAW_ERR_GAI,
   LAW_ERR_WANTW, LAW_ERR_WANTR, LAW_ERR_TIME, LAW_ERR_LIMIT, LAW_ERR_EOF,
   LAW_ERR_SSL, LAW_ERR_VERS, LAW_ERR_NOID, LAW_ERR_SSL_ACCEPT_FAILED, LAW_ERR_SSL_SHUTDOWN_FAILED,
   LAW_ERR_REQLINE_TOO_LONG, LAW_ERR_HEADERS_TOO_LONG, LAW_ERR_REQLINE_MALFORMED, LAW_ERR_HEADERS_MALFORMED, LAW_ERR_REQLINE_TIMEOUT,
   LAW_ERR_HEADERS_TIMEOUT, LAW_ERR_SSL_SHUTDOWN_TIMEOUT]"

lemma err_codes_all: "c \<in> set law_err_codes \<or> (\<exists>i. c = ERR_OTHER i)"
  by (cases c) (simp_all add: law_err_codes_def)

lemma err_names_distinct:
  assumes "sel_spec N"
  shows "distinct (map (sel_strerror N (law_err_init N)) law_err_codes)"
proof -
  note bound = assms [unfolded sel_spec_def, rule_format]
  show ?thesis unfolding law_err_init_def law_err_codes_def Let_def bound by simp
qed

text \<open>
  Every code of the enumeration has a name of its own, so that the line
  \<^verbatim>\<open>law_err_print\<close> writes tells which error it was.
\<close>

theorem err_names_inj:
  assumes "sel_spec N"
  shows "inj_on (sel_strerror N (law_err_init N)) {c. \<forall>i. c \<noteq> ERR_OTHER i} \<and>
    (\<forall>c. (\<forall>i. c \<noteq> ERR_OTHER i) \<longrightarrow> sel_strerror N (law_err_init N) c \<noteq> [])"
proof -
  have codes: "{c. \<forall>i. c \<noteq> ERR_OTHER i} \<subseteq> set law_err_codes" using err_codes_all by blast
  have "\<forall>c \<in> set law_err_codes. sel_strerror N (law_err_init N) c \<noteq> []"
    unfolding law_err_codes_def law_err_init_def Let_def assms [unfolded sel_spec_def, rule_format] by simp
  moreover have "inj_on (sel_strerror N (law_err_init N)) (set law_err_codes)"
    using err_names_distinct [OF assms] by (simp only: distinct_map)
  ultimately show ?thesis using inj_on_subset [OF _ codes] codes by blast
qed

text \<open>A registry that is a function.\<close>

definition ref_registry :: "(sel_err_t \<Rightarrow> string) sel_registry" where
  "ref_registry = \<lparr>sel_init = (\<lambda>_. []), sel_bind = (\<lambda>c name r. r(c := name)), sel_strerror = (\<lambda>r. r)\<rparr>"

lemma ref_registry_spec: "sel_spec ref_registry"
  by (simp add: sel_spec_def ref_registry_def)

theorem err_names_inj_witness:
  "sel_strerror ref_registry (law_err_init ref_registry) LAW_ERR_WANTR \<noteq>
   sel_strerror ref_registry (law_err_init ref_registry) LAW_ERR_WANTW"
  using inj_onD [OF conjunct1 [OF err_names_inj [OF ref_registry_spec]], of LAW_ERR_WANTR LAW_ERR_WANTW] by auto

end
