(* ===== verification/Spec2Isabelle.thy ===== *)
theory Spec2Isabelle
  imports SystemSpec Spawn Containers Startup Lifecycle HttpGroup HttpServe WsAccept Captures Log HttpClient Coroutine
    Arrays Guard ErrNames
begin

text \<open>
  \<^bold>\<open>The lawd server library.\<close>

  lawd is a library for network servers written in C. A process has one main thread, which
  accepts connections, and one or more worker threads, each of which runs many tasks as
  coroutines. This development models the library's own code, under \<^verbatim>\<open>source/lawd\<close> and
  \<^verbatim>\<open>include/lawd\<close>, and proves what makes it correct; where the code does something else than it
  means to, the theorem states what it does and the manifest has a finding.

  The parts and how they interact.

  The main thread (\<^verbatim>\<open>law_start\<close>, \<^verbatim>\<open>law_server_accept\<close>, \<^verbatim>\<open>law_server_dispatch\<close> of
  \<^verbatim>\<open>server.c\<close>) takes a task from the pool, gives it an identifier and pushes its address into the
  incoming pipe of a worker. The worker (\<^verbatim>\<open>law_worker_tick\<close>) reads the clock and epoll, makes
  ready every task whose timer is due, every task for which the kernel reported an event, and
  every task to which a message was sent; it takes in new tasks and then runs what is ready.
  A task runs as a coroutine (\<^verbatim>\<open>cor_x86_64.s\<close>) until it waits (\<^verbatim>\<open>law_ewait\<close>): it then has a timer
  (\<^verbatim>\<open>time.c\<close>) with its identifier and version, and its file descriptors carry its identifier in a
  slot (\<^verbatim>\<open>law_slot_encode\<close>), so that the worker finds it again in its table (\<^verbatim>\<open>table.c\<close>). When its
  code returns, it is taken out of the table and goes back to the pool. The HTTP server
  (\<^verbatim>\<open>http_server.c\<close>) is the code a task runs: \<^verbatim>\<open>law_hts_entry\<close> takes buffers and stacks from the
  pools of its worker, sets up the SSL session, reads the request line and the headers through a
  connection (\<^verbatim>\<open>http_conn.c\<close>), where every call that may block is tried again by \<^verbatim>\<open>law_sync\<close>
  between two waits of the task, calls the user's callback, and gives everything back. A
  callback can turn its connection into a web socket (\<^verbatim>\<open>web_sockets.c\<close>).

  \<^bold>\<open>Theories.\<close>

  Foundations.
  \<^item> \<open>Prelude\<close>: words, the error codes of \<^verbatim>\<open>error.h\<close>, results (a value, or the reason why the
    process stops: a null dereference, a failed assertion), \<^verbatim>\<open>loop\<close> with a bound on its rounds,
    printing of numbers.
  \<^item> \<open>Errors\<close>: the error stack of \<^verbatim>\<open>error.c\<close>, an array and an offset, refining a bounded stack.
    \<open>ErrNames\<close>: the names of the codes.
  \<^item> \<open>Sys\<close>: the operating system as the sources that open and close things see it: live handles, a
    script of coming outcomes, the error stack of the thread, and a record of bad closes.
  \<^item> \<open>NodeList\<close>: intrusive linked lists through \<^verbatim>\<open>get_next\<close> and \<^verbatim>\<open>set_next\<close>.

  The server core, \<^verbatim>\<open>server.c\<close> and what it uses.
  \<^item> \<open>Slots\<close>: \<^verbatim>\<open>law_slot_encode\<close>, \<^verbatim>\<open>law_slot_decode\<close>.
  \<^item> \<open>Pipe\<close>: \<^verbatim>\<open>law_pipe_*\<close>, \<^verbatim>\<open>law_msg_queue_*\<close>, \<^verbatim>\<open>law_task_queue_*\<close>, on the bytes of a pipe.
  \<^item> \<open>Task\<close>: \<^verbatim>\<open>law_task_pool_*\<close>, \<^verbatim>\<open>law_ready_set_*\<close>, over a store from addresses to tasks.
  \<^item> \<open>Timer\<close>, \<open>Table\<close>, \<open>Event\<close>: \<^verbatim>\<open>time.c\<close>, \<^verbatim>\<open>table.c\<close>, \<^verbatim>\<open>event.c\<close>. \<open>TableStore\<close>: the
    blocks of the table's nodes and its iterator. \<open>Arrays\<close>: the callbacks through which pubmt reads and writes
    the table and the timer, over a memory of structures.
  \<^item> \<open>World\<close>: the state (\<^verbatim>\<open>law_server\<close>, \<^verbatim>\<open>law_worker\<close>) and the record of the parameters, \<^verbatim>\<open>lib\<close>.
  \<^item> \<open>Worker\<close>: \<^verbatim>\<open>law_ectl\<close>, \<^verbatim>\<open>law_ewait\<close>, \<^verbatim>\<open>law_worker_dispatch\<close>, \<^verbatim>\<open>law_worker_tick\<close>. \<open>WorkerInv\<close>,
    \<open>WorkerPhases\<close>, \<open>WorkerTick\<close>: the invariant of a worker through the loops of a round.
    \<open>WorkerSpec\<close>: what a round promises.
  \<^item> \<open>Server\<close>: accepting, dispatching, spawning, stopping. \<open>Spawn\<close>: \<^verbatim>\<open>law_spawn\<close> on every branch,
    and the identifiers. \<open>System\<close>, \<open>SystemSteps\<close>, \<open>SystemSpec\<close>: the interleavings of all threads
    as an inductive step relation, the invariant of the reachable states and its consequences.
  \<^item> \<open>Startup\<close>: \<^verbatim>\<open>law_worker_open\<close>, \<^verbatim>\<open>law_worker_close\<close>, \<^verbatim>\<open>law_create_socket\<close>, \<^verbatim>\<open>law_listen\<close>, \<^verbatim>\<open>law_open\<close>,
    \<^verbatim>\<open>law_close\<close>. \<open>Lifecycle\<close>: the constructors and destructors of \<^verbatim>\<open>safemem.c\<close>, \<^verbatim>\<open>cor_x86_64.c\<close>,
    \<^verbatim>\<open>time.c\<close>, \<^verbatim>\<open>table.c\<close>, \<^verbatim>\<open>event.c\<close> and \<^verbatim>\<open>server.c\<close>.
  \<^item> \<open>Guard\<close>: the accesses that the guarded memory of \<^verbatim>\<open>safemem.c\<close> allows, page by page.
  \<^item> \<open>Coroutine\<close>: the assembly of \<^verbatim>\<open>cor_x86_64.s\<close>, instruction by instruction.
  \<^item> \<open>Containers\<close>: the contracts of the small containers, stated over runs of operations.
  \<^item> \<open>Demo\<close>: a concrete library and program, on which the theorems about the core are applied.

  HTTP.
  \<^item> \<open>Buffer\<close>: \<^verbatim>\<open>buffer.c\<close>. \<open>HttpConn\<close>: \<^verbatim>\<open>http_conn.c\<close>. \<open>Sync\<close>: \<^verbatim>\<open>law_sync\<close>, \<^verbatim>\<open>law_sync_wait\<close> and the
    waiting calls of \<^verbatim>\<open>http_conn.c\<close>.
  \<^item> \<open>Ast\<close>: \<^verbatim>\<open>http_headers.c\<close> and the reading and printing of \<^verbatim>\<open>uri.c\<close>. \<open>Captures\<close>: the captures of
    \<^verbatim>\<open>http_parser.c\<close> and \<^verbatim>\<open>uri.c\<close>.
  \<^item> \<open>HttpPools\<close>: the memory of \<^verbatim>\<open>http_server.c\<close>. \<open>HttpGroup\<close>: its pools at run time.
    \<open>HttpRequest\<close>: reading a request and answering it. \<open>HttpEntry\<close>: the handler and the set-up
    around it. \<open>HttpServe\<close>: \<^verbatim>\<open>law_hts_entry\<close>, from the pools to the handler and back.
  \<^item> \<open>WebSock\<close>: frames of \<^verbatim>\<open>web_sockets.c\<close>. \<open>WsAccept\<close>: its opening handshake.
  \<^item> \<open>HttpOld\<close>, \<open>HttpClient\<close>: the older \<^verbatim>\<open>http.c\<close>, which the Makefile does not build: messages and
    connections, and the objects that own memory and descriptors.
  \<^item> \<open>Log\<close>: \<^verbatim>\<open>log.c\<close>, \<^verbatim>\<open>law_time_datetime\<close> and the two tables of reason phrases.

  \<^bold>\<open>How state and code correspond.\<close>

  A C structure is a record with the fields of the structure; an enumeration is a datatype or a
  word; a \<^verbatim>\<open>uint64_t\<close>, \<^verbatim>\<open>uint32_t\<close> or \<^verbatim>\<open>uint8_t\<close> is a word of its width, whose addition wraps. The
  tasks, which lists, tables and pipes all point to, live in a store from addresses to records.
  Buffers, mappings and descriptors are handles. A function that can stop the process (an
  assertion, a null pointer) returns a sum whose left side says how. \<^verbatim>\<open>SEL_ASSERT\<close> is modelled as
  compiled in; where that matters the parameter of the definition says which way it is.
  A function that returns an error code returns the code, with the state it leaves behind.

  Code that is not in the repository is a parameter with a contract, named \<^verbatim>\<open>..._spec\<close>: the
  linked list, the binary heap and the hash map of pubmt (\<open>NodeList\<close>, \<open>Timer\<close>, \<open>Table\<close>), the
  buffers, the syntax trees and the parser functions of pgenc (\<open>Buffer\<close>, \<open>Ast\<close>, \<open>Captures\<close>),
  OpenSSL, and the code of the user (\<open>Worker\<close>: a state machine that makes calls and waits;
  \<open>HttpEntry\<close>: a callback). The kernel is a script: each coming system call takes its outcome
  from it, so that the theorems hold for every sequence of failures. Each contract is met by a
  concrete instance in the witnesses.

  \<^bold>\<open>Interfaces.\<close>

  A locale states each contract between a component and its clients, and each is interpreted on
  the model of the code:
  \<^item> \<^verbatim>\<open>bounded_stack\<close> (\<open>Errors\<close>): the error stack.
  \<^item> \<^verbatim>\<open>fifo_queue\<close> (\<open>Pipe\<close>): both queues.
  \<^item> \<^verbatim>\<open>node_links\<close> (\<open>NodeList\<close>): tasks, and the two kinds of nodes of the HTTP pools.
  \<^item> \<^verbatim>\<open>task_stack\<close> (\<open>Task\<close>): the pool of idle tasks.
  \<^item> \<^verbatim>\<open>expiry_queue\<close> (\<open>Timer\<close>): the timer.
  \<^item> \<^verbatim>\<open>id_map\<close> (\<open>Table\<close>): the table of tasks.
  \<^item> \<^verbatim>\<open>array_fields\<close> (\<open>Arrays\<close>): the callbacks of the table's and of the timer's array.
  \<^item> \<^verbatim>\<open>descriptor_resource\<close> (\<open>Startup\<close>): what an open and its close owe each other, for pipes,
    workers and the server.
  \<^item> \<^verbatim>\<open>owned_object\<close>, \<^verbatim>\<open>object_pair\<close>, \<^verbatim>\<open>object_list\<close> (\<open>Lifecycle\<close>): what a constructor and its
    destructor owe each other, for one object, for an object built after another and for a list
    of objects. The two last are sublocales of the first, and all constructors of the server and
    of the HTTP pools are instances.
  \<^item> \<^verbatim>\<open>sync_callback\<close> (\<open>Sync\<close>): a callback that \<^verbatim>\<open>law_sync\<close> repeats. Its interpretations are the
    waiting calls for input, output, flushing, the request line, the headers and the shutdown of
    the SSL session.
  \<^item> \<^verbatim>\<open>pair_list\<close> (\<open>Ast\<close>): headers, queries, and the headers of \<^verbatim>\<open>http.c\<close>.
  \<^item> \<^verbatim>\<open>text_sink\<close> (\<open>Ast\<close>): printing to a buffer and to a stream.

  \<^bold>\<open>What the theorems show.\<close>

  \<^item> Running: while the parameters keep their contracts, for every interleaving
    of the main thread, any number of workers and calls of \<^verbatim>\<open>law_stop\<close>, no operation stops
    the process and every task is in exactly one place; when the main thread waits for the
    workers every task is back in the pool, each worker leaves in its next round, and the wait
    ends. A round of a worker ends, keeps
    its invariant, makes ready exactly the tasks whose timers are due, and gives an event to the
    task whose slot it carries.
  \<^item> Switching: \<^verbatim>\<open>law_cor_yield\<close> and \<^verbatim>\<open>law_cor_resume\<close> restore the registers and the stack of the
    side they switch to; a call of a coroutine enters its function and comes back.
  \<^item> Containers: each is a refinement of a stack, a queue, a multiset in order of time or a map.
  \<^item> Errors: a failed open or create leaves nothing behind, except where the manifest has a
    finding; a close or destroy gives back exactly what was taken.
  \<^item> HTTP: the waiting calls end, and when they report success the input is there, or the output
    is with the peer; where assertions are compiled in, they may also end at the one that
    \<^verbatim>\<open>law_sync_wait\<close> runs into; a request is read from the bytes the peer sent. An
    entry takes from the pools and gives back what it took, whatever happens in between, and two
    entries never share a node.
  \<^item> Formats: heads of frames, masks, lines of the access log, slots and messages are read back
    as they were written; URIs and headers are what the syntax tree says.

  \<^bold>\<open>Bounds.\<close>

  Every loop of the sources has a bound on its rounds, and it is proved that the bound is never
  used up, so that a result is never the end of the bound.
  \<^item> The loops of \<^verbatim>\<open>law_worker_tick\<close>: the number of timers, of events, of bytes in a pipe, each plus
    one; \<^verbatim>\<open>law_worker_dispatch\<close>: the size of the table plus one.
  \<^item> \<^verbatim>\<open>law_sync\<close>: \<^verbatim>\<open>sync_fuel\<close>, the time it may take plus two; every wait takes at least a
    millisecond, or \<^verbatim>\<open>law_sync\<close> returns.
  \<^item> \<^verbatim>\<open>lib_ufuel\<close>: the number of calls the code of a task makes between two waits. It is a
    parameter; a task that never waits again keeps its worker for ever.
  \<^item> \<^verbatim>\<open>ids_left\<close>: fewer than \<^verbatim>\<open>2^32\<close> tasks have been spawned. The table compares the low 32 bits of
    an identifier, so without it two tasks may collide.
  \<^item> \<open>System\<close> has any positive number of workers and any number of tasks in the pool. A worker
    that is given more tasks than its table was made for lets the table grow, and allocations
    are taken to succeed there (\<^verbatim>\<open>lib_ok\<close>); what follows when they fail is in \<open>Lifecycle\<close>,
    \<open>Startup\<close> and \<open>TableStore\<close>.
  \<^item> The tasks' code does not call \<^verbatim>\<open>law_spawn\<close> there (\<^verbatim>\<open>user_ok\<close>): on an empty pool that call
    leaves the pool locked, and with full queues it loses the task (\<open>Spawn\<close>).

  \<^bold>\<open>Not modelled.\<close>

  \<^item> The grammars under \<^verbatim>\<open>grammar\<close>, from which pgenc generates the parsers, and the generated code.
    The captures that the grammars call are modelled, the parsers are parameters.
  \<^item> Most functions that only read or write a field, among them \<^verbatim>\<open>law_hts_get_*\<close>.
  \<^item> The inside of pubmt, pgenc, selc, OpenSSL and the kernel, which are parameters or scripts.
  \<^item> What \<^verbatim>\<open>web_sockets.c\<close> logs, through functions that are not in the repository.
  \<^item> The branch of \<^verbatim>\<open>event.c\<close> and \<^verbatim>\<open>event.h\<close> for systems other than Linux.
  \<^item> The order of memory between processors: the pool is used under its lock, whose calls are
    atomic steps; the mode of the server is read and written in one step. Nor are the
    interleavings inside one round of a worker: \<open>System\<close> takes a round as one step.
  \<^item> The tests and the programs that use the library.
\<close>

end
